(* ===== verification/Prelude.thy ===== *)
theory Prelude
  imports Main "HOL-Library.Monad_Syntax" "HOL-Library.Sublist"
begin

text \<open>
  Shared vocabulary of the development.  A run of the C++ code that ends in a failed
  \<open>ceph_assert\<close>, in \<open>ceph_abort\<close>, in an out-of-range access or in a loop that does not
  return is the value \<^term>\<open>None\<close>; every other run is \<^term>\<open>Some\<close> of its result.  Error codes that
  the code returns to its caller (\<open>-EBUSY\<close>, \<open>-ENOENT\<close>, \<dots>) are ordinary results.

  The theory holds the checked accesses used by all components (\<open>ceph_assert\<close>, array reads
  and writes), sorted association lists as the model of \<open>std::map\<close>, and the generic list lemmas.
\<close>

named_theorems assert_simps \<open>unfolding rules for checked operations\<close>

section \<open>Assertions and checked array accesses\<close>

definition ceph_assert :: "bool \<Rightarrow> unit option" where
  "ceph_assert b = (if b then Some () else None)"

definition arr_get :: "'a list \<Rightarrow> nat \<Rightarrow> 'a option" where
  "arr_get xs i = (if i < length xs then Some (xs ! i) else None)"

definition arr_set :: "'a list \<Rightarrow> nat \<Rightarrow> 'a \<Rightarrow> 'a list option" where
  "arr_set xs i v = (if i < length xs then Some (xs[i := v]) else None)"

lemma ceph_assert_True [simp, assert_simps]: "ceph_assert True = Some ()"
  and ceph_assert_False [simp, assert_simps]: "ceph_assert False = None"
  by (simp_all add: ceph_assert_def)

lemma ceph_assert_eq_Some [simp]: "ceph_assert b = Some u \<longleftrightarrow> b"
  by (simp add: ceph_assert_def)

lemma bind_ceph_assert_Some [simp]:
  "(ceph_assert b \<bind> f = Some y) \<longleftrightarrow> b \<and> f () = Some y"
  by (simp add: ceph_assert_def)

lemma bind_ceph_assert_True [simp]: "b \<Longrightarrow> ceph_assert b \<bind> f = f ()"
  by (simp add: ceph_assert_def)

lemma bind_ceph_assert_False [simp]: "\<not> b \<Longrightarrow> ceph_assert b \<bind> f = None"
  by (simp add: ceph_assert_def)

lemma arr_get_Some [simp]: "arr_get xs i = Some v \<longleftrightarrow> i < length xs \<and> xs ! i = v"
  by (auto simp: arr_get_def)

lemma arr_get_nth [simp]: "i < length xs \<Longrightarrow> arr_get xs i = Some (xs ! i)"
  by (simp add: arr_get_def)

lemma arr_get_None [simp]: "arr_get xs i = None \<longleftrightarrow> length xs \<le> i"
  by (auto simp: arr_get_def)

lemma arr_set_Some [simp]: "arr_set xs i v = Some ys \<longleftrightarrow> i < length xs \<and> ys = xs[i := v]"
  by (auto simp: arr_set_def)

lemma arr_set_nth [simp]: "i < length xs \<Longrightarrow> arr_set xs i v = Some (xs[i := v])"
  by (simp add: arr_set_def)

lemma arr_set_length: "arr_set xs i v = Some ys \<Longrightarrow> length ys = length xs"
  by auto

section \<open>\<open>std::map\<close> as a key-sorted association list\<close>

fun map_put :: "('k::linorder \<times> 'v) list \<Rightarrow> 'k \<Rightarrow> 'v \<Rightarrow> ('k \<times> 'v) list" where
  "map_put [] k v = [(k, v)]"
| "map_put ((a, b) # m) k v =
     (if k < a then (k, v) # (a, b) # m
      else if k = a then (k, v) # m
      else (a, b) # map_put m k v)"

text \<open>\<open>map::insert\<close> and \<open>map::emplace_hint\<close>: an existing key keeps its value.\<close>

definition map_emplace :: "('k::linorder \<times> 'v) list \<Rightarrow> 'k \<Rightarrow> 'v \<Rightarrow> ('k \<times> 'v) list \<times> 'v" where
  "map_emplace m k v =
     (case map_of m k of Some v' \<Rightarrow> (m, v') | None \<Rightarrow> (map_put m k v, v))"

definition map_erase_at :: "('k \<times> 'v) list \<Rightarrow> nat \<Rightarrow> ('k \<times> 'v) list" where
  "map_erase_at m p = take p m @ drop (Suc p) m"

definition map_lower_bound :: "('k::linorder \<times> 'v) list \<Rightarrow> 'k \<Rightarrow> nat" where
  "map_lower_bound m k = length (takeWhile (\<lambda>e. fst e < k) m)"

lemma map_put_append:
  "\<forall>e \<in> set xs. fst e < k \<Longrightarrow> map_put (xs @ ys) k v = xs @ map_put ys k v"
  by (induction xs) auto

lemma map_put_snoc:
  "\<forall>e \<in> set xs. fst e < k \<Longrightarrow> map_put xs k v = xs @ [(k, v)]"
  using map_put_append [of xs k "[]" v] by simp

lemma map_put_before:
  "\<forall>e \<in> set ys. k < fst e \<Longrightarrow> map_put ys k v = (k, v) # ys"
  by (cases ys) auto

lemma map_put_mid:
  "\<forall>e \<in> set xs. fst e < k \<Longrightarrow> \<forall>e \<in> set ys. k < fst e \<Longrightarrow>
   map_put (xs @ ys) k v = xs @ (k, v) # ys"
  by (simp add: map_put_append map_put_before)

lemma map_erase_at_append [simp]: "map_erase_at (xs @ y # ys) (length xs) = xs @ ys"
  by (simp add: map_erase_at_def)

lemma map_lower_bound_append:
  "\<forall>e \<in> set xs. fst e < k \<Longrightarrow> \<forall>e \<in> set ys. k \<le> fst e \<Longrightarrow>
   map_lower_bound (xs @ ys) k = length xs"
  by (induction xs) (cases ys, auto simp: map_lower_bound_def)

lemma map_emplace_snoc:
  assumes "\<forall>e \<in> set xs. fst e < k"
  shows "map_emplace xs k v = (xs @ [(k, v)], v)"
proof -
  have "map_of xs k = None"
    using assms by (auto simp: map_of_eq_None_iff)
  with assms show ?thesis by (simp add: map_emplace_def map_put_snoc)
qed

section \<open>Lists split by a monotone predicate\<close>

text \<open>
  Searches in sorted containers end at the first element that violates a predicate; the prefix
  satisfies it and, when the predicate is antitone along the list, no element of the rest does.
\<close>

lemma takeWhile_dropWhile_split:
  "xs = takeWhile P xs @ dropWhile P xs"
  by simp

lemma sorted_wrt_dropWhile:
  assumes "sorted_wrt R xs" and "\<And>x y. R x y \<Longrightarrow> P y \<Longrightarrow> P x"
  shows "\<forall>x \<in> set (dropWhile P xs). \<not> P x"
  using assms
proof (induction xs)
  case (Cons x xs)
  then show ?case by (cases "P x") auto
qed simp

lemma set_takeWhile_all: "\<forall>x \<in> set (takeWhile P xs). P x"
  by (auto dest: set_takeWhileD)

section \<open>Unsigned 64-bit arithmetic\<close>

text \<open>
  A \<open>uint64_t\<close> is a natural number; where a sum or a difference of the code can leave the type, the
  wrap-around is written out.
\<close>

definition u64_limit :: nat where
  "u64_limit = 2 ^ 64"

definition u64_of :: "nat \<Rightarrow> nat" where "u64_of n = n mod 2 ^ 64"

definition u64_sub :: "nat \<Rightarrow> nat \<Rightarrow> nat" where
  "u64_sub a b = u64_of (a + 2 ^ 64 - b)"

lemma u64_of_small [simp]: "n < 2 ^ 64 \<Longrightarrow> u64_of n = n"
  by (simp add: u64_of_def)

lemma u64_of_less_limit [simp]: "n < u64_limit \<Longrightarrow> u64_of n = n"
  by (simp add: u64_limit_def)

lemma u64_of_wrap: "m \<le> a \<Longrightarrow> a - m + b < 2 ^ 64 \<Longrightarrow> u64_of (a + 2 ^ 64 - m + b) = a - m + b"
proof -
  assume "m \<le> a" "a - m + b < 2 ^ 64"
  then have "a + 2 ^ 64 - m + b = a - m + b + 2 ^ 64" by simp
  then show ?thesis
    unfolding u64_of_def using \<open>a - m + b < 2 ^ 64\<close> by (metis mod_add_self2 mod_less)
qed

lemma u64_of_add: "u64_of (u64_of a + b) = u64_of (a + b)"
  by (simp add: u64_of_def mod_add_left_eq)

lemma u64_sub_le [simp]: "b \<le> a \<Longrightarrow> a - b < u64_limit \<Longrightarrow> u64_sub a b = a - b"
  using u64_of_wrap [of b a 0] by (simp add: u64_sub_def u64_limit_def)

end
