(* ===== verification/Interval_Set.thy ===== *)
theory Interval_Set
  imports Prelude
begin

text \<open>
  The container \<open>interval_set<T>\<close> of \<open>src/src/include/interval_set.h\<close>: a set of offsets kept
  as a \<open>std::map\<close> from interval start to interval length together with the cached number of
  offsets \<open>_size\<close>.  The OSD uses it for snap sets and allocated extents, BlueStore for free
  space, the MDS for preallocated inode numbers.  The offset type \<open>T\<close> is \<open>uint64_t\<close> (\<open>snapid_t\<close> and
  \<open>inodeno_t\<close> wrap one), as is \<open>_size\<close>: a number below \<open>2 ^ 64\<close>, with every sum and difference that
  the code computes taken modulo \<open>2 ^ 64\<close> (\<open>u64_of\<close>, \<open>u64_sub\<close>).  In a well-formed set every interval ends
  below \<open>2 ^ 64\<close>; an interval that ends at \<open>2 ^ 64\<close> itself has the end 0 in the code, and no theorem is
  claimed for it.  An iterator into the map is the index of the entry, \<open>m.end()\<close> is the length.
\<close>

record iset =
  iset_size :: nat
  iset_m :: "(nat \<times> nat) list"

definition iset_empty :: iset where
  "iset_empty = \<lparr>iset_size = 0, iset_m = []\<rparr>"

text \<open>The end \<open>p->first + p->second\<close> of an interval as the code computes it.\<close>

definition uend :: "nat \<times> nat \<Rightarrow> nat" where
  "uend e = u64_of (fst e + snd e)"

section \<open>Searching\<close>

definition find_inc :: "(nat \<times> nat) list \<Rightarrow> nat \<Rightarrow> nat" where
  "find_inc m start =
     (let p = map_lower_bound m start in
      if p \<noteq> 0 \<and> (p = length m \<or> fst (m ! p) > start)
      then let q = p - 1 in
           if uend (m ! q) \<le> start then Suc q else q
      else p)"

definition find_adj :: "(nat \<times> nat) list \<Rightarrow> nat \<Rightarrow> nat" where
  "find_adj m start =
     (let p = map_lower_bound m start in
      if p \<noteq> 0 \<and> (p = length m \<or> fst (m ! p) > start)
      then let q = p - 1 in
           if uend (m ! q) < start then Suc q else q
      else p)"

definition contains :: "iset \<Rightarrow> nat \<Rightarrow> bool" where
  "contains s i =
     (let m = iset_m s; p = find_inc m i in
      if p = length m then False
      else if fst (m ! p) > i then False
      else if uend (m ! p) \<le> i then False
      else True)"

definition contains_range :: "iset \<Rightarrow> nat \<Rightarrow> nat \<Rightarrow> bool" where
  "contains_range s start len =
     (let m = iset_m s; p = find_inc m start in
      if p = length m then False
      else if fst (m ! p) > start then False
      else if uend (m ! p) \<le> start then False
      else if uend (m ! p) < u64_of (start + len) then False
      else True)"

definition range_start :: "iset \<Rightarrow> nat option" where
  "range_start s = do {
     ceph_assert (iset_m s \<noteq> []);
     Some (fst (hd (iset_m s))) }"

definition range_end :: "iset \<Rightarrow> nat option" where
  "range_end s = do {
     ceph_assert (iset_m s \<noteq> []);
     Some (uend (last (iset_m s))) }"

definition starts_after :: "iset \<Rightarrow> nat \<Rightarrow> bool option" where
  "starts_after s i = do {
     ceph_assert (\<not> contains s i);
     Some (find_inc (iset_m s) i \<noteq> length (iset_m s)) }"

definition start_after :: "iset \<Rightarrow> nat \<Rightarrow> nat option" where
  "start_after s i = do {
     ceph_assert (\<not> contains s i);
     p \<leftarrow> arr_get (iset_m s) (find_inc (iset_m s) i);
     Some (fst p) }"

definition end_after :: "iset \<Rightarrow> nat \<Rightarrow> nat option" where
  "end_after s start = do {
     ceph_assert (contains s start);
     p \<leftarrow> arr_get (iset_m s) (find_inc (iset_m s) start);
     Some (uend p) }"

section \<open>Insertion and erasure of one interval\<close>

text \<open>The result carries the coalesced interval reported through \<open>pstart\<close> and \<open>plen\<close>.\<close>

definition insert_range :: "iset \<Rightarrow> nat \<Rightarrow> nat \<Rightarrow> (iset \<times> nat \<times> nat) option" where
  "insert_range s start len = do {
     ceph_assert (len > 0);
     let size = u64_of (iset_size s + len);
     let m = iset_m s;
     let p = find_adj m start;
     (if p = length m
      then Some (\<lparr>iset_size = size, iset_m = map_put m start len\<rparr>, start, len)
      else
        let pf = fst (m ! p); ps = snd (m ! p) in
        if pf < start
        then do {
          ceph_assert (uend (m ! p) = start);
          let l = u64_of (ps + len);
          let n = Suc p;
          (if n \<noteq> length m \<and> u64_of (start + len) = fst (m ! n)
           then let l = u64_of (l + snd (m ! n)) in
                Some (\<lparr>iset_size = size, iset_m = map_erase_at (m[p := (pf, l)]) n\<rparr>, pf, l)
           else Some (\<lparr>iset_size = size, iset_m = m[p := (pf, l)]\<rparr>, pf, l)) }
        else if u64_of (start + len) = pf
        then let l = u64_of (len + ps) in
             Some (\<lparr>iset_size = size, iset_m = map_put (map_erase_at m p) start l\<rparr>, start, l)
        else do {
          ceph_assert (pf > u64_of (start + len));
          Some (\<lparr>iset_size = size, iset_m = map_put m start len\<rparr>, start, len) }) }"

definition insert_val :: "iset \<Rightarrow> nat \<Rightarrow> iset option" where
  "insert_val s v = map_option fst (insert_range s v 1)"

text \<open>
  \<open>claim\<close> is the optional callback of \<open>erase\<close>: it may take over the part before or after
  the erased range, which then leaves the set as well.
\<close>

definition erase_claim ::
  "(nat \<Rightarrow> nat \<Rightarrow> bool) option \<Rightarrow> iset \<Rightarrow> nat \<Rightarrow> nat \<Rightarrow> iset option" where
  "erase_claim claim s start len = do {
     let m = iset_m s;
     let p = find_inc m start;
     let claims = (\<lambda>a b. case claim of None \<Rightarrow> False | Some f \<Rightarrow> f a b);
     let size = u64_sub (iset_size s) len;
     ceph_assert (p \<noteq> length m);
     let pf = fst (m ! p);
     let ps = snd (m ! p);
     ceph_assert (pf \<le> start);
     let before = start - pf;
     ceph_assert (ps \<ge> u64_of (before + len));
     let after = u64_sub (u64_sub ps before) len;
     let (size, m) =
       (if before \<noteq> 0
        then if claims pf before then (u64_sub size before, map_erase_at m p)
             else (size, m[p := (pf, before)])
        else (size, map_erase_at m p));
     let (size, m) =
       (if after \<noteq> 0
        then if claims (u64_of (start + len)) after then (u64_sub size after, m)
             else (size, map_put m (u64_of (start + len)) after)
        else (size, m));
     Some \<lparr>iset_size = size, iset_m = m\<rparr> }"

definition erase_range :: "iset \<Rightarrow> nat \<Rightarrow> nat \<Rightarrow> iset option" where
  "erase_range s start len = erase_claim None s start len"

definition erase_val :: "iset \<Rightarrow> nat \<Rightarrow> iset option" where
  "erase_val s v = erase_range s v 1"

definition erase_at :: "iset \<Rightarrow> nat \<Rightarrow> iset option" where
  "erase_at s i = do {
     e \<leftarrow> arr_get (iset_m s) i;
     Some \<lparr>iset_size = u64_sub (iset_size s) (snd e), iset_m = map_erase_at (iset_m s) i\<rparr> }"

fun subtract_list :: "iset \<Rightarrow> (nat \<times> nat) list \<Rightarrow> iset option" where
  "subtract_list s [] = Some s"
| "subtract_list s ((start, len) # a) = erase_range s start len \<bind> (\<lambda>s. subtract_list s a)"

definition subtract :: "iset \<Rightarrow> iset \<Rightarrow> iset option" where
  "subtract s a = subtract_list s (iset_m a)"

fun insert_list :: "iset \<Rightarrow> (nat \<times> nat) list \<Rightarrow> iset option" where
  "insert_list s [] = Some s"
| "insert_list s ((start, len) # a) =
     insert_range s start len \<bind> (\<lambda>(s, _, _). insert_list s a)"

definition insert_set :: "iset \<Rightarrow> iset \<Rightarrow> iset option" where
  "insert_set s a = insert_list s (iset_m a)"

section \<open>Intersection, union, inclusion\<close>

definition emplace :: "iset \<Rightarrow> nat \<Rightarrow> nat \<Rightarrow> iset" where
  "emplace s start len =
     (let (m, v) = map_emplace (iset_m s) start len in
      \<lparr>iset_size = u64_of (iset_size s + v), iset_m = m\<rparr>)"

text \<open>
  The inner \<open>do \<dots> while\<close> copies a run of equal intervals; it is entered only when the two
  heads agree.
\<close>

fun copy_equal ::
  "iset \<Rightarrow> (nat \<times> nat) list \<Rightarrow> (nat \<times> nat) list \<Rightarrow>
   iset \<times> (nat \<times> nat) list \<times> (nat \<times> nat) list" where
  "copy_equal acc (a # as) (b # bs) =
     (if a = b
      then copy_equal
             \<lparr>iset_size = u64_of (iset_size acc + snd a),
              iset_m = fst (map_emplace (iset_m acc) (fst a) (snd a))\<rparr> as bs
      else (acc, a # as, b # bs))"
| "copy_equal acc as bs = (acc, as, bs)"

lemma copy_equal_length:
  "copy_equal acc as bs = (acc', as', bs') \<Longrightarrow>
   length as' \<le> length as \<and> length bs' \<le> length bs"
  by (induction acc as bs rule: copy_equal.induct)
     (auto split: if_splits)

lemma copy_equal_less:
  "copy_equal acc (a # as) (a # bs) = (acc', as', bs') \<Longrightarrow>
   length as' \<le> length as \<and> length bs' \<le> length bs"
  by (auto dest: copy_equal_length)

function intersection_loop ::
  "iset \<Rightarrow> (nat \<times> nat) list \<Rightarrow> (nat \<times> nat) list \<Rightarrow> iset option" where
  "intersection_loop acc [] bs = Some acc"
| "intersection_loop acc (a # as) [] = Some acc"
| "intersection_loop acc (a # as) (b # bs) =
     (if uend a \<le> fst b then intersection_loop acc as (b # bs)
      else if uend b \<le> fst a then intersection_loop acc (a # as) bs
      else if a = b then
        (case copy_equal acc (a # as) (b # bs) of
           (acc', as', bs') \<Rightarrow> intersection_loop acc' as' bs')
      else do {
        let start = max (fst a) (fst b);
        let en = min (uend a) (uend b);
        ceph_assert (en > start);
        let acc = emplace acc start (en - start);
        (if uend a > uend b
         then intersection_loop acc (a # as) bs
         else intersection_loop acc as (b # bs)) })"
  by pat_completeness auto
termination
  by (relation "measure (\<lambda>(acc, as, bs). length as + length bs)")
     (auto split: prod.splits dest!: copy_equal_length)

fun skip_before :: "(nat \<times> nat) list \<Rightarrow> nat \<Rightarrow> (nat \<times> nat) list" where
  "skip_before [] off = []"
| "skip_before (p # ps) off = (if uend p \<le> off then skip_before ps off else p # ps)"

partial_function (option) asym_loop ::
  "(nat \<times> nat) list \<Rightarrow> iset \<Rightarrow> (nat \<times> nat) list \<Rightarrow> nat \<Rightarrow> iset option" where
  "asym_loop l acc ps offset =
     (case drop (find_inc l offset) l of
        [] \<Rightarrow> Some acc
      | pl # pls \<Rightarrow>
        (case skip_before ps (fst pl) of
           [] \<Rightarrow> Some acc
         | p # ps' \<Rightarrow>
           let offset = uend pl in
           if offset \<le> fst p then asym_loop l acc (p # ps') (fst p)
           else if p = pl then
             (case copy_equal acc (p # ps') (pl # pls) of
                (acc', ps'', pls') \<Rightarrow>
                  (case ps'' of [] \<Rightarrow> Some acc'
                   | q # qs \<Rightarrow> asym_loop l acc' (q # qs) (fst q)))
           else
             let start = max (fst p) (fst pl);
                 en = min (uend p) offset in
             if \<not> en > start then None
             else
               let acc' = emplace acc start (en - start) in
               if uend p \<le> offset
               then (case ps' of [] \<Rightarrow> Some acc' | q # qs \<Rightarrow> asym_loop l acc' (q # qs) (fst q))
               else asym_loop l acc' (p # ps') offset))"

definition intersection_size_asym :: "iset \<Rightarrow> iset \<Rightarrow> iset option" where
  "intersection_size_asym s l = do {
     ceph_assert (iset_m s \<noteq> []);
     asym_loop (iset_m l) iset_empty (iset_m s) (fst (hd (iset_m s))) }"

definition intersection_of :: "iset \<Rightarrow> iset \<Rightarrow> iset option" where
  "intersection_of a b =
     (let (s, l) = (if iset_size a < iset_size b then (a, b) else (b, a)) in
      if iset_size s = 0 then Some iset_empty
      else if iset_size l div iset_size s \<ge> 10 then intersection_size_asym s l
      else intersection_loop iset_empty (iset_m a) (iset_m b))"

definition intersects :: "iset \<Rightarrow> nat \<Rightarrow> nat \<Rightarrow> bool option" where
  "intersects s start len = do {
     (a, _, _) \<leftarrow> insert_range iset_empty start len;
     i \<leftarrow> intersection_of s a;
     Some (iset_m i \<noteq> []) }"

definition union_of :: "iset \<Rightarrow> iset \<Rightarrow> iset option" where
  "union_of a b = do {
     ab \<leftarrow> intersection_of a b;
     r \<leftarrow> subtract a ab;
     insert_set r b }"

definition union_insert :: "iset \<Rightarrow> nat \<Rightarrow> nat \<Rightarrow> iset option" where
  "union_insert s off len = do {
     (a, _, _) \<leftarrow> insert_range iset_empty off len;
     union_of s a }"

fun subset_size_sym :: "(nat \<times> nat) list \<Rightarrow> (nat \<times> nat) list \<Rightarrow> bool" where
  "subset_size_sym [] bs = True"
| "subset_size_sym (a # as) [] = False"
| "subset_size_sym (a # as) (b # bs) =
     (if uend b \<le> fst a then subset_size_sym (a # as) bs
      else if a = b then subset_size_sym as bs
      else if fst a < fst b then False
      else if uend a > uend b then False
      else subset_size_sym as (b # bs))"

definition subset_of :: "iset \<Rightarrow> iset \<Rightarrow> bool option" where
  "subset_of s big =
     (if iset_size s = 0 then Some True
      else if iset_size s > iset_size big then Some False
      else do {
        e \<leftarrow> range_end s;
        be \<leftarrow> range_end big;
        (if e > be then Some False
         else if iset_size big div iset_size s < 10
         then Some (subset_size_sym (iset_m s) (iset_m big))
         else Some (list_all (\<lambda>(start, len). contains_range big start len) (iset_m s))) })"

fun span_loop :: "iset \<Rightarrow> (nat \<times> nat) list \<Rightarrow> nat \<Rightarrow> iset option" where
  "span_loop acc [] len = Some acc"
| "span_loop acc (p # ps) len =
     (if len > 0
      then if snd p < len
           then insert_range acc (fst p) (snd p) \<bind> (\<lambda>(acc, _, _). span_loop acc ps (len - snd p))
           else map_option fst (insert_range acc (fst p) len)
      else Some acc)"

definition span_of :: "iset \<Rightarrow> nat \<Rightarrow> nat \<Rightarrow> iset option" where
  "span_of other start len =
     (case drop (find_inc (iset_m other) start) (iset_m other) of
        [] \<Rightarrow> Some iset_empty
      | p # ps \<Rightarrow>
        if fst p < start
        then if uend p < start then Some iset_empty
             else if uend p < u64_of (start + len)
             then let howmuch = snd p - (start - fst p) in
                  insert_range iset_empty start howmuch \<bind>
                    (\<lambda>(acc, _, _). span_loop acc ps (len - howmuch))
             else map_option fst (insert_range iset_empty start len)
        else span_loop iset_empty (p # ps) len)"

section \<open>The represented set and the representation invariant\<close>

abbreviation iend :: "nat \<times> nat \<Rightarrow> nat" where
  "iend e \<equiv> fst e + snd e"

abbreviation irange :: "nat \<Rightarrow> nat \<Rightarrow> nat set" where
  "irange start len \<equiv> {start..<start + len}"

definition ivl_set :: "(nat \<times> nat) list \<Rightarrow> nat set" where
  "ivl_set m = (\<Union>e \<in> set m. {fst e..<iend e})"

abbreviation iset_abs :: "iset \<Rightarrow> nat set" where
  "iset_abs s \<equiv> ivl_set (iset_m s)"

definition ivl_wf :: "(nat \<times> nat) list \<Rightarrow> bool" where
  "ivl_wf m \<longleftrightarrow> sorted_wrt (\<lambda>a b. iend a < fst b) m \<and> (\<forall>e \<in> set m. 0 < snd e \<and> iend e < u64_limit)"

definition iset_wf :: "iset \<Rightarrow> bool" where
  "iset_wf s \<longleftrightarrow> ivl_wf (iset_m s) \<and> iset_size s = sum_list (map snd (iset_m s))"

lemma ivl_set_simps [simp]:
  "ivl_set [] = {}"
  "ivl_set (e # m) = {fst e..<iend e} \<union> ivl_set m"
  "ivl_set (xs @ ys) = ivl_set xs \<union> ivl_set ys"
  by (auto simp: ivl_set_def)

lemma ivl_wf_Nil [simp]: "ivl_wf []"
  by (simp add: ivl_wf_def)

lemma ivl_wf_Cons [simp]:
  "ivl_wf (e # m) \<longleftrightarrow> 0 < snd e \<and> iend e < u64_limit \<and> (\<forall>b \<in> set m. iend e < fst b) \<and> ivl_wf m"
  by (auto simp: ivl_wf_def)

lemma ivl_wf_append [simp]:
  "ivl_wf (xs @ ys) \<longleftrightarrow>
     ivl_wf xs \<and> ivl_wf ys \<and> (\<forall>a \<in> set xs. \<forall>b \<in> set ys. iend a < fst b)"
  by (auto simp: ivl_wf_def sorted_wrt_append)

lemma ivl_wf_pos: "ivl_wf m \<Longrightarrow> e \<in> set m \<Longrightarrow> 0 < snd e"
  by (simp add: ivl_wf_def)

lemma ivl_wf_limit: "ivl_wf m \<Longrightarrow> e \<in> set m \<Longrightarrow> iend e < u64_limit"
  by (simp add: ivl_wf_def)

lemma uend_eq [simp]: "iend e < u64_limit \<Longrightarrow> uend e = iend e"
  by (simp add: uend_def)

lemma uend_wf: "ivl_wf m \<Longrightarrow> e \<in> set m \<Longrightarrow> uend e = iend e"
  by (simp add: ivl_wf_limit)

lemma finite_ivl_set [simp]: "finite (ivl_set m)"
  by (simp add: ivl_set_def)

lemma ivl_set_ge: "\<forall>b \<in> set m. k < fst b \<Longrightarrow> x \<in> ivl_set m \<Longrightarrow> k < x"
  by (fastforce simp: ivl_set_def)

lemma ivl_set_less: "\<forall>b \<in> set m. iend b \<le> k \<Longrightarrow> x \<in> ivl_set m \<Longrightarrow> x < k"
  by (fastforce simp: ivl_set_def)

lemma ivl_set_empty_iff: "ivl_wf m \<Longrightarrow> ivl_set m = {} \<longleftrightarrow> m = []"
  by (cases m) auto

lemma card_ivl_set: "ivl_wf m \<Longrightarrow> card (ivl_set m) = sum_list (map snd m)"
proof (induction m)
  case (Cons e m)
  then have "{fst e..<iend e} \<inter> ivl_set m = {}"
    by (force dest: ivl_set_ge)
  with Cons show ?case by (simp add: card_Un_disjoint)
qed simp

lemma iset_wf_empty [simp]: "iset_wf iset_empty"
  and iset_abs_empty [simp]: "iset_abs iset_empty = {}"
  by (simp_all add: iset_wf_def iset_empty_def)

lemma iset_wf_ivl_wf: "iset_wf s \<Longrightarrow> ivl_wf (iset_m s)"
  by (simp add: iset_wf_def)

lemma iset_size_card: "iset_wf s \<Longrightarrow> iset_size s = card (iset_abs s)"
  by (simp add: iset_wf_def card_ivl_set)

lemma ivl_sum_limit: "ivl_wf m \<Longrightarrow> sum_list (map snd m) < u64_limit"
proof -
  assume wf: "ivl_wf m"
  have "ivl_set m \<subseteq> {..<u64_limit - 1}" using ivl_wf_limit [OF wf] by (fastforce simp: ivl_set_def)
  then have "card (ivl_set m) \<le> u64_limit - 1" using card_mono [of "{..<u64_limit - 1}"] by fastforce
  moreover have "0 < u64_limit" by (simp add: u64_limit_def)
  ultimately show ?thesis using card_ivl_set [OF wf] by linarith
qed

lemma iset_wf_limit: "iset_wf s \<Longrightarrow> x \<in> iset_abs s \<Longrightarrow> x + 1 < u64_limit"
  using ivl_wf_limit [of "iset_m s"] by (fastforce simp: iset_wf_def ivl_set_def)

text \<open>The cached size is exact although it is computed modulo \<open>2 ^ 64\<close>.\<close>

lemma iset_wfI:
  "ivl_wf m \<Longrightarrow> n = sum_list (map snd m) \<Longrightarrow> iset_wf \<lparr>iset_size = u64_of n, iset_m = m\<rparr>"
  using ivl_sum_limit [of m] by (simp add: iset_wf_def)

section \<open>The searches return the first interval that ends after the offset\<close>

lemma find_inc_append:
  assumes wf: "ivl_wf (xs @ ys)"
    and le: "\<forall>e \<in> set xs. iend e \<le> k" and gt: "\<forall>e \<in> set ys. k < iend e"
  shows "find_inc (xs @ ys) k = length xs"
proof -
  have "\<forall>e \<in> set xs. 0 < snd e"
    using wf by (simp add: ivl_wf_def)
  with le have xs: "\<forall>e \<in> set xs. fst e < k"
    by fastforce
  show ?thesis
  proof (cases ys)
    case Nil
    then have "map_lower_bound (xs @ ys) k = length xs"
      using xs by (intro map_lower_bound_append) auto
    with Nil le wf show ?thesis
      by (cases xs rule: rev_cases) (auto simp: find_inc_def nth_append)
  next
    case (Cons y ys')
    show ?thesis
    proof (cases "k \<le> fst y")
      case True
      then have "map_lower_bound (xs @ ys) k = length xs"
        using Cons wf xs by (fastforce intro: map_lower_bound_append)
      with Cons le wf show ?thesis
        by (cases xs rule: rev_cases) (auto simp: find_inc_def nth_append)
    next
      case False
      have gr: "\<forall>e \<in> set ys'. k < fst e"
        using Cons wf gt by fastforce
      then have "map_lower_bound ((xs @ [y]) @ ys') k = length (xs @ [y])"
        using xs False by (intro map_lower_bound_append) auto
      with Cons gt gr wf show ?thesis
        by (cases ys') (auto simp: find_inc_def nth_append)
    qed
  qed
qed

lemma find_adj_append:
  assumes wf: "ivl_wf (xs @ ys)"
    and le: "\<forall>e \<in> set xs. iend e < k" and gt: "\<forall>e \<in> set ys. k \<le> iend e"
  shows "find_adj (xs @ ys) k = length xs"
proof -
  have xs: "\<forall>e \<in> set xs. fst e < k"
    using le by fastforce
  show ?thesis
  proof (cases ys)
    case Nil
    then have "map_lower_bound (xs @ ys) k = length xs"
      using xs by (intro map_lower_bound_append) auto
    with Nil le wf show ?thesis
      by (cases xs rule: rev_cases) (auto simp: find_adj_def nth_append)
  next
    case (Cons y ys')
    show ?thesis
    proof (cases "k \<le> fst y")
      case True
      then have "map_lower_bound (xs @ ys) k = length xs"
        using Cons wf xs by (fastforce intro: map_lower_bound_append)
      with Cons le wf show ?thesis
        by (cases xs rule: rev_cases) (auto simp: find_adj_def nth_append)
    next
      case False
      have gr: "\<forall>e \<in> set ys'. k < fst e"
        using Cons wf gt by fastforce
      then have "map_lower_bound ((xs @ [y]) @ ys') k = length (xs @ [y])"
        using xs False by (intro map_lower_bound_append) auto
      with Cons gt gr wf show ?thesis
        by (cases ys') (auto simp: find_adj_def nth_append)
    qed
  qed
qed

lemma find_inc_split:
  assumes "ivl_wf m"
  obtains xs ys where "m = xs @ ys" and "\<forall>e \<in> set xs. iend e \<le> k"
    and "\<forall>e \<in> set ys. k < iend e" and "find_inc m k = length xs"
proof -
  let ?P = "\<lambda>e. iend e \<le> k"
  have gt: "\<forall>e \<in> set (dropWhile ?P m). k < iend e"
    using sorted_wrt_dropWhile [of "\<lambda>a b. iend a < fst b" m ?P] assms
    by (fastforce simp: ivl_wf_def)
  have le: "\<forall>e \<in> set (takeWhile ?P m). iend e \<le> k"
    by (rule set_takeWhile_all)
  have m: "m = takeWhile ?P m @ dropWhile ?P m" by simp
  have "find_inc m k = length (takeWhile ?P m)"
    by (subst m, rule find_inc_append) (use assms le gt in \<open>simp_all del: ivl_wf_append\<close>)
  with m le gt show thesis by (intro that)
qed

lemma find_adj_split:
  assumes "ivl_wf m"
  obtains xs ys where "m = xs @ ys" and "\<forall>e \<in> set xs. iend e < k"
    and "\<forall>e \<in> set ys. k \<le> iend e" and "find_adj m k = length xs"
proof -
  let ?P = "\<lambda>e. iend e < k"
  have gt: "\<forall>e \<in> set (dropWhile ?P m). k \<le> iend e"
    using sorted_wrt_dropWhile [of "\<lambda>a b. iend a < fst b" m ?P] assms
    by (fastforce simp: ivl_wf_def)
  have le: "\<forall>e \<in> set (takeWhile ?P m). iend e < k"
    by (rule set_takeWhile_all)
  have m: "m = takeWhile ?P m @ dropWhile ?P m" by simp
  have "find_adj m k = length (takeWhile ?P m)"
    by (subst m, rule find_adj_append) (use assms le gt in \<open>simp_all del: ivl_wf_append\<close>)
  with m le gt show thesis by (intro that)
qed

lemma contains_iff:
  assumes "ivl_wf (iset_m s)"
  shows "contains s i \<longleftrightarrow> i \<in> iset_abs s"
proof -
  from assms obtain xs ys where m: "iset_m s = xs @ ys" and le: "\<forall>e \<in> set xs. iend e \<le> i"
    and gt: "\<forall>e \<in> set ys. i < iend e" and p: "find_inc (iset_m s) i = length xs"
    by (rule find_inc_split)
  have xs: "i \<notin> ivl_set xs"
    using le by (auto simp: ivl_set_def)
  show ?thesis
  proof (cases ys)
    case Nil
    with m p xs show ?thesis by (simp add: contains_def)
  next
    case (Cons y ys')
    then have "i \<notin> ivl_set ys' \<or> fst y > i \<or> iend y < i"
      using assms m by (fastforce simp: ivl_set_def)
    moreover have "i \<notin> ivl_set ys' \<or> fst y \<le> i"
      using assms m Cons by (fastforce simp: ivl_set_def)
    ultimately show ?thesis
      using assms m p xs gt Cons by (auto simp: contains_def Let_def)
  qed
qed

lemma irange_limit:
  assumes "ivl_wf m" and "0 < len" and "irange start len \<subseteq> ivl_set m"
  shows "start + len < u64_limit"
proof -
  have "start + len - 1 \<in> ivl_set m" using assms(2,3) by force
  then obtain e where "e \<in> set m" "start + len - 1 < iend e" by (auto simp: ivl_set_def)
  with ivl_wf_limit [OF assms(1)] assms(2) show ?thesis by fastforce
qed

lemma contains_range_iff:
  assumes "ivl_wf (iset_m s)" and "0 < len" and lim: "start + len < u64_limit"
  shows "contains_range s start len \<longleftrightarrow> {start..<start + len} \<subseteq> iset_abs s"
proof -
  from assms(1) obtain xs ys where m: "iset_m s = xs @ ys" and le: "\<forall>e \<in> set xs. iend e \<le> start"
    and gt: "\<forall>e \<in> set ys. start < iend e" and p: "find_inc (iset_m s) start = length xs"
    by (rule find_inc_split)
  have xs: "start \<notin> ivl_set xs"
    using le by (auto simp: ivl_set_def)
  have xs': "x \<notin> ivl_set xs" if "start \<le> x" for x
    using le that by (fastforce simp: ivl_set_def)
  have st: "start \<in> {start..<start + len}"
    using assms(2) by simp
  show ?thesis
  proof (cases ys)
    case Nil
    with m p xs have "\<not> contains_range s start len" "start \<notin> iset_abs s"
      by (simp_all add: contains_range_def)
    with st show ?thesis by blast
  next
    case (Cons y ys')
    have ys': "x \<notin> ivl_set ys'" if "x \<le> iend y" for x
      using assms(1) m Cons that by (fastforce simp: ivl_set_def)
    have st': "start \<in> iset_abs s \<longleftrightarrow> fst y \<le> start"
      using m Cons xs gt ys' [of start] by auto
    show ?thesis
    proof (cases "fst y \<le> start")
      case False
      with m p Cons have "\<not> contains_range s start len"
        by (simp add: contains_range_def)
      with st st' False show ?thesis by blast
    next
      case True
      have "iend y \<in> {start..<start + len}" "iend y \<notin> iset_abs s" if "iend y < start + len"
        using that gt Cons m ys' [of "iend y"] xs' [of "iend y"] by auto
      then have "\<not> irange start len \<subseteq> iset_abs s" if "iend y < start + len"
        using that by blast
      moreover have "irange start len \<subseteq> iset_abs s" if "start + len \<le> iend y"
        using True that m Cons by (auto simp: ivl_set_def)
      ultimately show ?thesis
        using True m p Cons gt lim assms(1) by (auto simp add: contains_range_def Let_def not_less)
    qed
  qed
qed

section \<open>Insertion\<close>

lemma disjoint_entry_le:
  assumes "irange start len \<inter> ivl_set m = {}" and "e \<in> set m" and "0 < snd e" and "start \<le> fst e"
  shows "start + len \<le> fst e"
proof -
  have "fst e \<in> ivl_set m"
    using assms(2,3) by (auto simp: ivl_set_def intro: bexI [of _ e])
  with assms(1) have "fst e \<notin> irange start len" by blast
  with assms(4) show ?thesis by simp
qed

text \<open>What an insertion of a disjoint non-empty range does, all four shapes at once.\<close>

lemma insert_range_okI:
  assumes "insert_range s start len = Some (\<lparr>iset_size = u64_of (iset_size s + len), iset_m = m'\<rparr>, ps, pl)"
    and "ivl_wf m'" and "iset_size s + len = sum_list (map snd m')"
    and "ivl_set m' = iset_abs s \<union> irange start len"
    and "irange start len \<subseteq> irange ps pl" and "(ps, pl) \<in> set m'"
  shows "\<exists>s' ps pl. insert_range s start len = Some (s', ps, pl) \<and> iset_wf s' \<and>
    iset_abs s' = iset_abs s \<union> irange start len \<and>
    irange start len \<subseteq> irange ps pl \<and> irange ps pl \<subseteq> iset_abs s' \<and> (ps, pl) \<in> set (iset_m s')"
proof -
  have "irange ps pl \<subseteq> ivl_set m'" using assms(6) by (force simp: ivl_set_def)
  with assms iset_wfI [OF assms(2,3)] show ?thesis by auto
qed

lemma insert_range_ok:
  assumes wf: "iset_wf s" and len: "0 < len" and lim: "start + len < u64_limit"
    and disj: "irange start len \<inter> iset_abs s = {}"
  shows "\<exists>s' ps pl. insert_range s start len = Some (s', ps, pl) \<and> iset_wf s' \<and>
    iset_abs s' = iset_abs s \<union> irange start len \<and>
    irange start len \<subseteq> irange ps pl \<and> irange ps pl \<subseteq> iset_abs s' \<and> (ps, pl) \<in> set (iset_m s')"
proof -
  from wf have "ivl_wf (iset_m s)" by (rule iset_wf_ivl_wf)
  then obtain xs ys where m: "iset_m s = xs @ ys" and le: "\<forall>e \<in> set xs. iend e < start"
    and ge: "\<forall>e \<in> set ys. start \<le> iend e" and p: "find_adj (iset_m s) start = length xs"
    by (rule find_adj_split)
  have W: "ivl_wf (xs @ ys)" and sz: "iset_size s = sum_list (map snd (xs @ ys))"
    using wf m by (simp_all add: iset_wf_def)
  have lt: "\<forall>e \<in> set xs. fst e < start" using le by fastforce
  show ?thesis
  proof (cases ys)
    case Nil
    then show ?thesis
      using m p W sz le lt len lim
      by (intro insert_range_okI [where m' = "xs @ [(start, len)]"]) (auto simp: insert_range_def map_put_snoc)
  next
    case (Cons y ys')
    show ?thesis
    proof (cases "fst y < start")
      case True
      have "start \<in> irange start len" using len by simp
      then have e: "iend y = start"
        using disj m Cons True ge by fastforce
      show ?thesis
      proof (cases ys')
        case Nil
        then show ?thesis
          using m p W sz Cons True e len lim
          by (intro insert_range_okI [where m' = "xs @ [(fst y, snd y + len)]"]) (auto simp: insert_range_def Let_def)
      next
        case (Cons z zs)
        have "start < fst z" "0 < snd z"
          using W \<open>ys = y # ys'\<close> Cons e by auto
        then have z: "start + len \<le> fst z"
          using disj m \<open>ys = y # ys'\<close> Cons by (intro disjoint_entry_le [of _ _ "iset_m s"]) auto
        have zs: "\<forall>b \<in> set zs. start + len < fst b"
          using z W \<open>ys = y # ys'\<close> Cons by fastforce
        note facts = m p W sz \<open>ys = y # ys'\<close> Cons True e len lim z zs
        show ?thesis
        proof (cases "start + len = fst z")
          case True
          then show ?thesis
            using facts by (intro insert_range_okI [where m' = "xs @ (fst y, snd y + len + snd z) # zs"])
              (auto simp: insert_range_def nth_append list_update_append map_erase_at_def Let_def)
        next
          case False
          then show ?thesis
            using facts by (intro insert_range_okI [where m' = "xs @ (fst y, snd y + len) # z # zs"])
              (auto simp: insert_range_def nth_append list_update_append Let_def)
        qed
      qed
    next
      case False
      have pos: "0 < snd y" using W Cons by simp
      have ge': "start + len \<le> fst y"
        using disj m Cons False pos by (intro disjoint_entry_le [of _ _ "iset_m s"]) auto
      have ys': "\<forall>b \<in> set ys'. start + len < fst b"
        using ge' W Cons by fastforce
      then have ys'': "\<forall>b \<in> set ys'. start < fst b"
        by fastforce
      show ?thesis
      proof (cases "start + len = fst y")
        case True
        then show ?thesis
          using m p W sz Cons False ys' ys'' le lt len lim
          by (intro insert_range_okI [where m' = "xs @ (start, len + snd y) # ys'"])
            (auto simp: insert_range_def map_put_mid Let_def)
      next
        case False
        then show ?thesis
          using m p W sz Cons \<open>\<not> fst y < start\<close> ge' ys' ys'' le lt len lim
          by (intro insert_range_okI [where m' = "xs @ (start, len) # y # ys'"])
            (auto simp: insert_range_def map_put_mid Let_def)
      qed
    qed
  qed
qed

section \<open>Erasure\<close>

lemma contained_split:
  assumes wf: "ivl_wf m" and len: "0 < len" and sub: "irange start len \<subseteq> ivl_set m"
  obtains xs y ys where "m = xs @ y # ys" and "find_inc m start = length xs"
    and "fst y \<le> start" and "start + len \<le> iend y"
proof -
  from wf obtain xs zs where m: "m = xs @ zs" and le: "\<forall>e \<in> set xs. iend e \<le> start"
    and gt: "\<forall>e \<in> set zs. start < iend e" and p: "find_inc m start = length xs"
    by (rule find_inc_split)
  let ?s = "\<lparr>iset_size = 0, iset_m = m\<rparr>"
  have lim: "start + len < u64_limit" by (rule irange_limit [OF wf len sub])
  have "contains_range ?s start len"
    using contains_range_iff [of ?s len start] wf len sub lim by simp
  with m p lim wf show thesis
    by (cases zs) (auto simp: contains_range_def Let_def split: if_splits intro: that)
qed

lemma erase_range_ok:
  assumes wf: "iset_wf s" and len: "0 < len" and sub: "irange start len \<subseteq> iset_abs s"
  shows "\<exists>s'. erase_range s start len = Some s' \<and> iset_wf s' \<and>
    iset_abs s' = iset_abs s - irange start len"
proof -
  from wf have "ivl_wf (iset_m s)" by (rule iset_wf_ivl_wf)
  then obtain xs y ys where m: "iset_m s = xs @ y # ys" and p: "find_inc (iset_m s) start = length xs"
    and y: "fst y \<le> start" "start + len \<le> iend y"
    using len sub by (rule contained_split)
  have W: "ivl_wf (xs @ y # ys)" and sz: "iset_size s = sum_list (map snd (xs @ y # ys))"
    using wf m by (simp_all add: iset_wf_def)
  have pos: "0 < snd y" and gys: "\<forall>b \<in> set ys. iend y < fst b"
    and lxs: "\<forall>a \<in> set xs. iend a < fst y" using W by auto
  have xs: "irange start len \<inter> ivl_set xs = {}"
    using lxs y(1) by (fastforce simp: ivl_set_def)
  have ys: "irange start len \<inter> ivl_set ys = {}"
    using gys y(2) by (fastforce simp: ivl_set_def)
  have lxs': "\<forall>e \<in> set xs. fst e < start + len" "\<forall>a \<in> set xs. iend a < start + len"
    using lxs y(1) by fastforce+
  have gys': "\<forall>b \<in> set ys. start + len < fst b"
    using gys y(2) by fastforce
  have lim: "start + len < u64_limit" "iend y < u64_limit" using y(2) W by auto
  have sub: "u64_sub (iset_size s) len = iset_size s - len" "u64_of (start - fst y + len) = start - fst y + len"
    "u64_sub (snd y) (start - fst y) = snd y - (start - fst y)"
    "u64_sub (snd y - (start - fst y)) len = snd y - (start - fst y) - len"
    using ivl_sum_limit [OF W] sz y lim by auto
  have put: "map_put (xs @ (fst y, start - fst y) # ys) (start + len) k =
      xs @ (fst y, start - fst y) # (start + len, k) # ys"
    "map_put (xs @ ys) (start + len) k = xs @ (start + len, k) # ys" for k
    using map_put_mid [of "xs @ [(fst y, start - fst y)]" "start + len" ys k]
      map_put_mid [of xs "start + len" ys k] lxs' gys' y(1) len by simp_all
  let ?b = "start - fst y" and ?a = "snd y - (start - fst y) - len"
  let ?mid = "(if ?b = 0 then [] else [(fst y, ?b)]) @ (if ?a = 0 then [] else [(start + len, ?a)])"
  have "erase_range s start len = Some \<lparr>iset_size = iset_size s - len, iset_m = xs @ ?mid @ ys\<rparr>"
    using m p y lim by (auto simp: erase_range_def erase_claim_def Let_def put sub)
  moreover have "ivl_wf (xs @ ?mid @ ys)"
    using W lxs' gys' len y lim by auto
  moreover have "iset_size s - len = sum_list (map snd (xs @ ?mid @ ys))"
    using sz y by auto
  moreover have "ivl_set ?mid = irange (fst y) (snd y) - irange start len"
    using y by auto
  then have "ivl_set (xs @ ?mid @ ys) = iset_abs s - irange start len"
    using m xs ys by auto
  ultimately show ?thesis
    by (simp add: iset_wf_def)
qed

lemma erase_range_not_contained:
  assumes wf: "iset_wf s" and len: "0 < len" and lim: "start + len < u64_limit \<or> len = 1"
    and sub: "\<not> irange start len \<subseteq> iset_abs s"
  shows "erase_range s start len = None"
proof -
  from wf have W: "ivl_wf (iset_m s)" by (rule iset_wf_ivl_wf)
  then obtain xs ys where m: "iset_m s = xs @ ys" and gt: "\<forall>e \<in> set ys. start < iend e"
    and p: "find_inc (iset_m s) start = length xs"
    by (rule find_inc_split)
  show ?thesis
  proof (cases ys)
    case Nil
    with m p show ?thesis by (simp add: erase_range_def erase_claim_def Let_def)
  next
    case (Cons y ys')
    have y: "start < iend y" "iend y < u64_limit" using gt W m Cons by simp_all
    then have l: "start + len < u64_limit" using lim by auto
    have "\<not> contains_range s start len" using contains_range_iff [OF W len l] sub by simp
    with m p Cons y l show ?thesis
      by (auto simp: contains_range_def erase_range_def erase_claim_def Let_def split: if_splits)
  qed
qed

section \<open>Whole-set subtraction and insertion\<close>

lemma subtract_list_ok:
  "iset_wf s \<Longrightarrow> ivl_wf a \<Longrightarrow> ivl_set a \<subseteq> iset_abs s \<Longrightarrow>
   \<exists>s'. subtract_list s a = Some s' \<and> iset_wf s' \<and> iset_abs s' = iset_abs s - ivl_set a"
proof (induction a arbitrary: s)
  case (Cons e a)
  obtain st len where e: "e = (st, len)" by fastforce
  have "irange st len \<subseteq> iset_abs s" "0 < len"
    using Cons.prems e by simp_all
  then obtain s1 where s1: "erase_range s st len = Some s1" "iset_wf s1"
      "iset_abs s1 = iset_abs s - irange st len"
    using erase_range_ok Cons.prems(1) by blast
  have "irange st len \<inter> ivl_set a = {}"
    using Cons.prems(2) e by (force dest: ivl_set_ge)
  then have "ivl_set a \<subseteq> iset_abs s1"
    using Cons.prems(3) s1(3) e by auto
  moreover have "ivl_wf a" using Cons.prems(2) by simp
  ultimately obtain s2 where
    "subtract_list s1 a = Some s2" "iset_wf s2" "iset_abs s2 = iset_abs s1 - ivl_set a"
    using Cons.IH [OF s1(2)] by blast
  with s1 e show ?case by auto
qed simp

lemma insert_list_ok:
  "iset_wf s \<Longrightarrow> ivl_wf a \<Longrightarrow> ivl_set a \<inter> iset_abs s = {} \<Longrightarrow>
   \<exists>s'. insert_list s a = Some s' \<and> iset_wf s' \<and> iset_abs s' = iset_abs s \<union> ivl_set a"
proof (induction a arbitrary: s)
  case (Cons e a)
  obtain st len where e: "e = (st, len)" by fastforce
  have "irange st len \<inter> iset_abs s = {}" "0 < len" "st + len < u64_limit"
    using Cons.prems e by auto
  then obtain s1 ps pl where s1: "insert_range s st len = Some (s1, ps, pl)" "iset_wf s1"
      "iset_abs s1 = iset_abs s \<union> irange st len"
    using insert_range_ok Cons.prems(1) by blast
  have "irange st len \<inter> ivl_set a = {}"
    using Cons.prems(2) e by (force dest: ivl_set_ge)
  then have "ivl_set a \<inter> iset_abs s1 = {}"
    using Cons.prems(3) s1(3) e by auto
  moreover have "ivl_wf a" using Cons.prems(2) by simp
  ultimately obtain s2 where
    "insert_list s1 a = Some s2" "iset_wf s2" "iset_abs s2 = iset_abs s1 \<union> ivl_set a"
    using Cons.IH [OF s1(2)] by blast
  with s1 e show ?case by auto
qed simp

section \<open>Intersection\<close>

lemma emplace_ok:
  assumes "iset_wf acc" and "0 < len" and "\<forall>e \<in> set (iset_m acc). iend e < start"
    and "start + len < u64_limit"
  shows "iset_m (emplace acc start len) = iset_m acc @ [(start, len)]"
    and "iset_wf (emplace acc start len)"
proof -
  have "\<forall>e \<in> set (iset_m acc). fst e < start"
    using assms(3) by fastforce
  then have "map_emplace (iset_m acc) start len = (iset_m acc @ [(start, len)], len)"
    by (rule map_emplace_snoc)
  with assms iset_wfI [of "iset_m acc @ [(start, len)]" "iset_size acc + len"]
  show "iset_m (emplace acc start len) = iset_m acc @ [(start, len)]"
    and "iset_wf (emplace acc start len)"
    by (simp_all add: emplace_def iset_wf_def)
qed

text \<open>
  Every interval already in the result ends before all remaining intervals of one of the two
  operands, hence before the next common part.
\<close>

definition settled :: "iset \<Rightarrow> (nat \<times> nat) list \<Rightarrow> (nat \<times> nat) list \<Rightarrow> bool" where
  "settled acc as bs \<longleftrightarrow>
     (\<forall>e \<in> set (iset_m acc). (\<forall>a \<in> set as. iend e < fst a) \<or> (\<forall>b \<in> set bs. iend e < fst b))"

lemma settledD:
  "settled acc (a # as) (b # bs) \<Longrightarrow> e \<in> set (iset_m acc) \<Longrightarrow> iend e < max (fst a) (fst b)"
  by (auto simp: settled_def)

lemma settled_mono:
  "settled acc as bs \<Longrightarrow> set as' \<subseteq> set as \<Longrightarrow> set bs' \<subseteq> set bs \<Longrightarrow> settled acc as' bs'"
  by (fastforce simp: settled_def)

lemma copy_equal_eq_emplace:
  assumes "iset_wf acc" and "0 < snd a" and "\<forall>e \<in> set (iset_m acc). iend e < fst a"
  shows "copy_equal acc (a # as) (a # bs) = copy_equal (emplace acc (fst a) (snd a)) as bs"
proof -
  have "\<forall>e \<in> set (iset_m acc). fst e < fst a"
    using assms(3) by fastforce
  then have "map_emplace (iset_m acc) (fst a) (snd a) = (iset_m acc @ [a], snd a)"
    using map_emplace_snoc [of "iset_m acc" "fst a" "snd a"] by simp
  then show ?thesis by (simp add: emplace_def)
qed

lemma copy_equal_ok:
  "copy_equal acc as bs = (acc', as', bs') \<Longrightarrow> iset_wf acc \<Longrightarrow> ivl_wf as \<Longrightarrow> ivl_wf bs \<Longrightarrow>
   settled acc as bs \<Longrightarrow>
   iset_wf acc' \<and> settled acc' as' bs' \<and> (\<exists>c. as = c @ as' \<and> bs = c @ bs' \<and>
     iset_m acc' = iset_m acc @ c)"
proof (induction acc as bs rule: copy_equal.induct)
  case (1 acc a as b bs)
  show ?case
  proof (cases "a = b")
    case False
    with "1.prems" show ?thesis by auto
  next
    case True
    have lt: "\<forall>e \<in> set (iset_m acc). iend e < fst a"
      using settledD [OF "1.prems"(5)] True by auto
    have pos: "0 < snd a" "fst a + snd a < u64_limit" using "1.prems"(3) by simp_all
    let ?acc = "emplace acc (fst a) (snd a)"
    have acc: "iset_m ?acc = iset_m acc @ [a]" "iset_wf ?acc"
      using emplace_ok [OF "1.prems"(2) pos(1) lt pos(2)] by simp_all
    have "settled ?acc as bs"
      using "1.prems" acc by (fastforce simp: settled_def)
    moreover have eq: "copy_equal ?acc as bs = (acc', as', bs')"
      using "1.prems"(1) copy_equal_eq_emplace [OF "1.prems"(2) pos(1) lt] True by simp
    moreover have "?acc = \<lparr>iset_size = u64_of (iset_size acc + snd a),
        iset_m = fst (map_emplace (iset_m acc) (fst a) (snd a))\<rparr>"
      using map_emplace_snoc [of "iset_m acc" "fst a" "snd a"] lt
      by (fastforce simp: emplace_def)
    ultimately obtain c where "iset_wf acc'" "settled acc' as' bs'"
        "as = c @ as'" "bs = c @ bs'" "iset_m acc' = iset_m ?acc @ c"
      using "1.IH" [OF True] "1.prems"(3,4) acc(2) by auto
    with acc(1) True show ?thesis by auto
  qed
qed auto

text \<open>Set-level facts about the head intervals.\<close>

lemma ivl_before:
  assumes "ivl_wf (b # bs)" and "k \<le> fst b" and "x \<in> ivl_set (b # bs)"
  shows "k \<le> x"
  using assms ivl_set_ge [of bs "iend b" x] by fastforce

lemma Int_drop_left:
  assumes "ivl_wf (b # bs)" and "iend a \<le> fst b"
  shows "ivl_set (a # as) \<inter> ivl_set (b # bs) = ivl_set as \<inter> ivl_set (b # bs)"
  using ivl_before [OF assms] by fastforce

lemma Int_heads:
  assumes "ivl_wf (a # as)" and "ivl_wf (b # bs)"
    and "fst a < iend b" and "fst b < iend a" and "iend a \<le> iend b"
  shows "ivl_set (a # as) \<inter> ivl_set (b # bs) =
    {max (fst a) (fst b)..<iend a} \<union> (ivl_set as \<inter> ivl_set (b # bs))"
proof -
  have "x \<notin> ivl_set bs" if "x < iend a" for x
    using assms(2,5) that ivl_set_ge [of bs "iend b" x] by fastforce
  then show ?thesis using assms(5) by auto
qed

lemma intersection_loop_ok:
  "iset_wf acc \<Longrightarrow> ivl_wf as \<Longrightarrow> ivl_wf bs \<Longrightarrow> settled acc as bs \<Longrightarrow>
   \<exists>r. intersection_loop acc as bs = Some r \<and> iset_wf r \<and>
     iset_abs r = iset_abs acc \<union> (ivl_set as \<inter> ivl_set bs)"
proof (induction acc as bs rule: intersection_loop.induct)
  case (3 acc a as b bs)
  note wfa = "3.prems"(2) and wfb = "3.prems"(3) and st = "3.prems"(4)
  have lim: "iend a < u64_limit" "iend b < u64_limit" using wfa wfb by simp_all
  note ue = uend_eq [OF lim(1)] uend_eq [OF lim(2)]
  note IH = "3.IH" [unfolded ue] and loop = intersection_loop.simps(3) [of acc a as b bs, unfolded ue]
  consider (passa) "iend a \<le> fst b" | (passb) "fst b < iend a" "iend b \<le> fst a"
    | (eq) "fst b < iend a" "fst a < iend b" "a = b"
    | (longa) "fst b < iend a" "fst a < iend b" "a \<noteq> b" "iend b < iend a"
    | (longb) "fst b < iend a" "fst a < iend b" "a \<noteq> b" "iend a \<le> iend b"
    by linarith
  then show ?case
  proof cases
    case passa
    moreover have "settled acc as (b # bs)" by (rule settled_mono [OF st]) auto
    ultimately show ?thesis
      using IH(1) "3.prems" Int_drop_left [OF wfb passa] unfolding loop by simp
  next
    case passb
    moreover have "settled acc (a # as) bs" by (rule settled_mono [OF st]) auto
    moreover have "ivl_set (a # as) \<inter> ivl_set (b # bs) = ivl_set (a # as) \<inter> ivl_set bs"
      using Int_drop_left [OF wfa passb(2), of bs] by (simp only: Int_commute)
    ultimately show ?thesis
      using IH(2) "3.prems" unfolding loop by simp
  next
    case eq
    obtain acc' as' bs' where c: "copy_equal acc (a # as) (b # bs) = (acc', as', bs')"
      by (metis prod_cases3)
    from copy_equal_ok [OF c "3.prems"] obtain c where
      ok: "iset_wf acc'" "settled acc' as' bs'" "a # as = c @ as'" "b # bs = c @ bs'"
        "iset_m acc' = iset_m acc @ c" by blast
    have wf': "ivl_wf as'" "ivl_wf bs'"
      using wfa wfb ok(3,4) by (metis ivl_wf_append)+
    have "ivl_set (c @ as') \<inter> ivl_set (c @ bs') = ivl_set c \<union> (ivl_set as' \<inter> ivl_set bs')"
      by auto
    then have "iset_abs acc \<union> (ivl_set (a # as) \<inter> ivl_set (b # bs)) =
        iset_abs acc' \<union> (ivl_set as' \<inter> ivl_set bs')"
      using ok(3-5) by (auto simp del: ivl_set_simps(2))
    then show ?thesis
      using IH(3) [OF _ _ _ c [symmetric] refl] eq c ok(1,2) wf' unfolding loop by simp
  next
    case longa
    let ?st = "max (fst a) (fst b)" and ?acc = "emplace acc (max (fst a) (fst b))
      (iend b - max (fst a) (fst b))"
    have lt: "\<forall>e \<in> set (iset_m acc). iend e < ?st"
      using settledD [OF st] by blast
    have pos: "0 < iend b - ?st" using longa wfb by simp
    have "?st + (iend b - ?st) < u64_limit" using pos lim by simp
    note acc = emplace_ok [OF "3.prems"(1) pos lt this]
    have mn: "min (iend a) (iend b) = iend b" using longa by simp
    have "settled ?acc (a # as) bs"
      using st acc(1) longa wfb by (fastforce simp: settled_def)
    moreover have "ivl_set (a # as) \<inter> ivl_set (b # bs) =
        {?st..<iend b} \<union> (ivl_set (a # as) \<inter> ivl_set bs)"
      using Int_heads [OF wfb wfa, of ] longa by (simp add: Int_commute max.commute)
    ultimately show ?thesis
      using IH(4) [OF _ _ _ refl refl, of "()"] longa mn pos acc wfa wfb
      unfolding loop by (simp add: Un_assoc Let_def)
  next
    case longb
    let ?st = "max (fst a) (fst b)" and ?acc = "emplace acc (max (fst a) (fst b))
      (iend a - max (fst a) (fst b))"
    have lt: "\<forall>e \<in> set (iset_m acc). iend e < ?st"
      using settledD [OF st] by blast
    have pos: "0 < iend a - ?st" using longb wfa by simp
    have "?st + (iend a - ?st) < u64_limit" using pos lim by simp
    note acc = emplace_ok [OF "3.prems"(1) pos lt this]
    have mn: "min (iend a) (iend b) = iend a" using longb by simp
    have "settled ?acc as (b # bs)"
      using st acc(1) longb wfa by (fastforce simp: settled_def)
    then show ?thesis
      using IH(5) [OF _ _ _ refl refl, of "()"] longb mn pos acc wfa wfb
        Int_heads [OF wfa wfb longb(2,1,4)]
      unfolding loop by (simp add: Un_assoc Let_def)
  qed
qed auto

subsection \<open>The search-based intersection\<close>

lemma skip_before_split:
  assumes "ivl_wf ps"
  obtains c where "ps = c @ skip_before ps off" and "\<forall>e \<in> set c. iend e \<le> off"
    and "\<forall>p qs. skip_before ps off = p # qs \<longrightarrow> off < iend p"
  using assms
proof (induction ps arbitrary: thesis)
  case (Cons p ps)
  have ue: "uend p = iend p" using Cons.prems(2) by simp
  show ?case
  proof (cases "iend p \<le> off")
    case True
    obtain c where "ps = c @ skip_before ps off" "\<forall>e \<in> set c. iend e \<le> off"
      "\<forall>p qs. skip_before ps off = p # qs \<longrightarrow> off < iend p"
      using Cons.IH Cons.prems(2) by auto
    with True show ?thesis by (intro Cons.prems(1) [of "p # c"]) (auto simp: ue)
  next
    case False
    then show ?thesis by (intro Cons.prems(1) [of "[]"]) (auto simp: ue)
  qed
qed simp

text \<open>
  The offset is either at or before all remaining intervals of the small set and after everything
  emitted, or it is the end of an interval of the large set.
\<close>

definition asym_inv :: "(nat \<times> nat) list \<Rightarrow> iset \<Rightarrow> (nat \<times> nat) list \<Rightarrow> nat \<Rightarrow> bool" where
  "asym_inv l acc ps offset \<longleftrightarrow>
     (\<forall>p \<in> set ps. offset \<le> fst p) \<and> (\<forall>e \<in> set (iset_m acc). iend e < offset) \<or>
     (\<forall>e \<in> set (iset_m acc). iend e \<le> offset) \<and> (\<forall>b \<in> set l. offset < iend b \<longrightarrow> offset < fst b)"

lemma asym_inv_settled:
  assumes "asym_inv l acc ps offset" and "set ps' \<subseteq> set ps" and "set pls \<subseteq> set l"
    and "\<forall>b \<in> set pls. offset < iend b"
  shows "settled acc ps' pls"
  using assms unfolding asym_inv_def settled_def by (meson le_less_trans less_le_trans subset_iff)

lemma asym_inv_max:
  assumes "asym_inv l acc ps offset" and "p \<in> set ps" and "pl \<in> set l" and "offset < iend pl"
  shows "offset \<le> max (fst p) (fst pl)"
  using assms unfolding asym_inv_def by (meson le_max_iff_disj less_imp_le)

lemma asym_inv_at_start:
  assumes "ivl_wf (q # qs)" and "\<forall>e \<in> set (iset_m acc). iend e < fst q"
  shows "asym_inv l acc (q # qs) (fst q)"
  using assms by (fastforce simp: asym_inv_def)

lemma ivl_tail:
  assumes "\<forall>e \<in> set xs. iend e \<le> k"
  shows "ivl_set (xs @ zs) \<inter> {k..} = ivl_set zs \<inter> {k..}"
  using assms ivl_set_less [of xs k] by fastforce

definition asym_measure :: "(nat \<times> nat) list \<Rightarrow> (nat \<times> nat) list \<Rightarrow> nat \<Rightarrow> nat" where
  "asym_measure l ps offset =
     length ps * Suc (length l) + length (filter (\<lambda>b. offset < iend b) l)"

lemma asym_measure_less_ps:
  assumes "length ps' < length ps"
  shows "asym_measure l ps' off' < asym_measure l ps off"
proof -
  have "length ps' * Suc (length l) + Suc (length l) \<le> length ps * Suc (length l)"
    using assms by (metis Suc_leI add.commute mult_Suc mult_le_mono1)
  moreover have "length (filter (\<lambda>b. off' < iend b) l) \<le> length l" by simp
  ultimately show ?thesis unfolding asym_measure_def by linarith
qed

lemma asym_measure_less_off:
  assumes "length ps' \<le> length ps" and "pl \<in> set l" and "off < iend pl" and "iend pl \<le> off'"
  shows "asym_measure l ps' off' < asym_measure l ps off"
proof -
  have "length (filter (\<lambda>b. off' < iend b) l) =
      length (filter (\<lambda>b. off' < iend b) (filter (\<lambda>b. off < iend b) l))"
    unfolding filter_filter using assms(3,4)
    by (intro arg_cong [where f = length] filter_cong) auto
  moreover have "length (filter (\<lambda>b. off' < iend b) (filter (\<lambda>b. off < iend b) l)) <
      length (filter (\<lambda>b. off < iend b) l)"
    using assms(2-4) by (intro length_filter_less [of pl]) auto
  moreover have "length ps' * Suc (length l) \<le> length ps * Suc (length l)"
    using assms(1) by (rule mult_le_mono1)
  ultimately show ?thesis unfolding asym_measure_def by linarith
qed

definition asym_post :: "(nat \<times> nat) list \<Rightarrow> iset \<Rightarrow> (nat \<times> nat) list \<Rightarrow> nat \<Rightarrow> nat set \<Rightarrow> bool" where
  "asym_post l acc ps off A \<longleftrightarrow>
     (\<exists>r. asym_loop l acc ps off = Some r \<and> iset_wf r \<and> iset_abs r = A)"

lemma asym_step_copy:
  assumes l: "ivl_wf l" "l = xs @ pl # pls" "\<forall>e \<in> set xs. iend e \<le> off" "off < iend pl"
    and sk: "drop (find_inc l off) l = pl # pls" "skip_before ps (fst pl) = pl # ps'"
    and acc: "iset_wf acc" and wfp: "ivl_wf (pl # ps')" and inv: "asym_inv l acc (pl # ps') off"
    and IH: "\<And>acc' q qs. length (q # qs) < length (pl # ps') \<Longrightarrow> iset_wf acc' \<Longrightarrow> ivl_wf (q # qs) \<Longrightarrow>
      asym_inv l acc' (q # qs) (fst q) \<Longrightarrow>
      asym_post l acc' (q # qs) (fst q) (iset_abs acc' \<union> (ivl_set (q # qs) \<inter> ivl_set l \<inter> {fst q..}))"
  shows "asym_post l acc ps off
    (iset_abs acc \<union> (ivl_set (pl # ps') \<inter> ivl_set (pl # pls) \<inter> {off..}))"
proof -
  have wfz: "ivl_wf (pl # pls)" and pos: "0 < snd pl" using l by simp_all
  have zs: "\<forall>b \<in> set (pl # pls). off < iend b" using wfz l(4) by fastforce
  have set: "settled acc (pl # ps') (pl # pls)"
    by (rule asym_inv_settled [OF inv _ _ zs]) (auto simp: l(2))
  have off: "off \<le> fst pl"
    using asym_inv_max [OF inv, of pl pl] l(2,4) by simp
  obtain acc' as' bs' where ce: "copy_equal acc (pl # ps') (pl # pls) = (acc', as', bs')"
    by (metis prod_cases3)
  obtain c where ok: "iset_wf acc'" "settled acc' as' bs'" "pl # ps' = c @ as'"
      "pl # pls = c @ bs'" "iset_m acc' = iset_m acc @ c"
    using copy_equal_ok [OF ce acc wfp wfz set] by blast
  have len: "length as' < length (pl # ps')"
    using copy_equal_less [OF ce] by simp
  have T: "ivl_set (pl # ps') \<inter> ivl_set (pl # pls) \<inter> {off..} =
      ivl_set c \<union> (ivl_set as' \<inter> ivl_set bs')"
    using ivl_before [OF wfz off] unfolding ok(3,4) by auto
  have U: "asym_loop l acc ps off = (case as' of [] \<Rightarrow> Some acc'
      | q # qs \<Rightarrow> asym_loop l acc' (q # qs) (fst q))"
    using asym_loop.simps [of l acc ps off] sk ce pos wfz by (simp split del: if_split)
  show ?thesis
  proof (cases as')
    case Nil
    with U T ok(1,5) show ?thesis by (simp add: asym_post_def)
  next
    case (Cons q qs)
    have wfq: "ivl_wf (c @ q # qs)" "ivl_wf (q # qs)" using wfp ok(3) Cons by simp_all
    have c: "\<forall>e \<in> set c. iend e < fst q" using wfq(1) by simp
    have cpl: "pl \<in> set c" using ok(3) len Cons by (cases c) auto
    have a: "\<forall>e \<in> set (iset_m acc). iend e < fst q"
      using settledD [OF set] c cpl by fastforce
    have x: "\<forall>e \<in> set (xs @ c). iend e \<le> fst q"
      using l(3) off c cpl by fastforce
    have "ivl_set l \<inter> {fst q..} = ivl_set bs' \<inter> {fst q..}"
      using ivl_tail [OF x, of bs'] l(2) ok(4) by simp
    then have "ivl_set (q # qs) \<inter> ivl_set l \<inter> {fst q..} = ivl_set (q # qs) \<inter> ivl_set bs'"
      using ivl_before [OF wfq(2) order_refl] by blast
    moreover have "asym_inv l acc' (q # qs) (fst q)"
      by (rule asym_inv_at_start [OF wfq(2)]) (use ok(5) a c in auto)
    ultimately have "asym_post l acc' (q # qs) (fst q)
        (iset_abs acc' \<union> (ivl_set (q # qs) \<inter> ivl_set bs'))"
      using IH [of q qs acc'] len Cons ok(1) wfq(2) by simp
    with U T Cons ok(5) show ?thesis
      by (simp add: asym_post_def Un_assoc)
  qed
qed

lemma asym_step_cut:
  assumes l: "ivl_wf l" "l = xs @ pl # pls" "\<forall>e \<in> set xs. iend e \<le> off" "off < iend pl"
    and sk: "drop (find_inc l off) l = pl # pls" "skip_before ps (fst pl) = p # ps'"
    and acc: "iset_wf acc" and wfp: "ivl_wf (p # ps')" and inv: "asym_inv l acc (p # ps') off"
    and ne: "p \<noteq> pl" "fst p < iend pl" "fst pl < iend p"
    and IH: "\<And>acc' qs off'. asym_measure l qs off' < asym_measure l (p # ps') off \<Longrightarrow>
      iset_wf acc' \<Longrightarrow> ivl_wf qs \<Longrightarrow> asym_inv l acc' qs off' \<Longrightarrow>
      asym_post l acc' qs off' (iset_abs acc' \<union> (ivl_set qs \<inter> ivl_set l \<inter> {off'..}))"
  shows "asym_post l acc ps off
    (iset_abs acc \<union> (ivl_set (p # ps') \<inter> ivl_set (pl # pls) \<inter> {off..}))"
proof -
  let ?st = "max (fst p) (fst pl)" and ?en = "min (iend p) (iend pl)"
  let ?acc = "emplace acc ?st (?en - ?st)"
  have wfz: "ivl_wf (pl # pls)" using l by simp
  have zs: "\<forall>b \<in> set (pl # pls). off < iend b" using wfz l(4) by fastforce
  have set: "settled acc (p # ps') (pl # pls)"
    by (rule asym_inv_settled [OF inv _ _ zs]) (auto simp: l(2))
  have off: "off \<le> ?st" using asym_inv_max [OF inv, of p pl] l(2,4) by simp
  have pos: "?st < ?en" using ne wfp wfz by simp
  have lt: "\<forall>e \<in> set (iset_m acc). iend e < ?st" using settledD [OF set] by blast
  have ends: "iend p < u64_limit" "iend pl < u64_limit" using wfp wfz by simp_all
  have ac: "iset_m ?acc = iset_m acc @ [(?st, ?en - ?st)]" "iset_wf ?acc"
    using emplace_ok [OF acc _ lt, of "?en - ?st"] pos ends by simp_all
  have acabs: "iset_abs ?acc = iset_abs acc \<union> {?st..<?en}" using ac(1) pos by simp
  have acend: "\<forall>e \<in> set (iset_m ?acc). iend e \<le> ?en" using ac(1) lt pos by fastforce
  have U: "asym_loop l acc ps off =
      (if iend p \<le> iend pl
       then (case ps' of [] \<Rightarrow> Some ?acc | q # qs \<Rightarrow> asym_loop l ?acc (q # qs) (fst q))
       else asym_loop l ?acc (p # ps') (iend pl))"
    using asym_loop.simps [of l acc ps off] sk ne pos ends by (simp add: Let_def)
  show ?thesis
  proof (cases "iend p \<le> iend pl")
    case True
    have T: "ivl_set (p # ps') \<inter> ivl_set (pl # pls) \<inter> {off..} =
        {?st..<?en} \<union> (ivl_set ps' \<inter> ivl_set (pl # pls) \<inter> {off..})"
      using Int_heads [OF wfp wfz ne(2,3) True] off True by auto
    show ?thesis
    proof (cases ps')
      case Nil
      with U T True ac(2) acabs show ?thesis by (simp add: asym_post_def)
    next
      case (Cons q qs)
      have q: "iend p < fst q" "ivl_wf (q # qs)" using wfp Cons by simp_all
      have offq: "off \<le> fst q" using off pos q(1) by linarith
      have "asym_inv l ?acc (q # qs) (fst q)"
        by (rule asym_inv_at_start [OF q(2)]) (use acend q(1) in fastforce)
      moreover have "ivl_set (q # qs) \<inter> ivl_set l \<inter> {fst q..} =
          ivl_set (q # qs) \<inter> ivl_set (pl # pls) \<inter> {off..}"
        using ivl_before [OF q(2) order_refl] ivl_before [OF q(2) offq]
          ivl_tail [OF l(3), of "pl # pls"] l(2) offq by fastforce
      ultimately have "asym_post l ?acc (q # qs) (fst q)
          (iset_abs ?acc \<union> (ivl_set (q # qs) \<inter> ivl_set (pl # pls) \<inter> {off..}))"
        using IH [of "q # qs" "fst q" ?acc] asym_measure_less_ps [of "q # qs" "p # ps'"]
          Cons ac(2) q(2) by simp
      with U T True Cons acabs show ?thesis by (simp add: asym_post_def Un_assoc)
    qed
  next
    case False
    have pls: "iend pl < x" if "x \<in> ivl_set pls" for x
      using wfz that ivl_set_ge [of pls "iend pl" x] by simp
    have T: "ivl_set (p # ps') \<inter> ivl_set (pl # pls) \<inter> {off..} =
        {?st..<?en} \<union> (ivl_set (p # ps') \<inter> ivl_set pls)"
      using Int_heads [OF wfz wfp ne(3,2)] False off l(4) pls by (fastforce simp: max.commute)
    have "\<forall>e \<in> set (xs @ [pl]). iend e \<le> iend pl" using l(3,4) by fastforce
    then have "ivl_set (p # ps') \<inter> ivl_set l \<inter> {iend pl..} = ivl_set (p # ps') \<inter> ivl_set pls"
      using ivl_tail [of "xs @ [pl]" "iend pl" pls] l(2) pls by fastforce
    moreover have "asym_inv l ?acc (p # ps') (iend pl)"
      using acend False l wfz by (fastforce simp: asym_inv_def)
    ultimately have "asym_post l ?acc (p # ps') (iend pl)
        (iset_abs ?acc \<union> (ivl_set (p # ps') \<inter> ivl_set pls))"
      using IH [of "p # ps'" "iend pl" ?acc] asym_measure_less_off [of "p # ps'" "p # ps'" pl l off]
        l(2,4) ac(2) wfp by simp
    with U T False acabs show ?thesis by (simp add: asym_post_def Un_assoc)
  qed
qed

lemma asym_loop_ok:
  assumes l: "ivl_wf l"
  shows "iset_wf acc \<Longrightarrow> ivl_wf ps \<Longrightarrow> asym_inv l acc ps off \<Longrightarrow>
   asym_post l acc ps off (iset_abs acc \<union> (ivl_set ps \<inter> ivl_set l \<inter> {off..}))"
proof (induction "asym_measure l ps off" arbitrary: acc ps off rule: less_induct)
  case less
  obtain xs zs where lz: "l = xs @ zs" and xs: "\<forall>e \<in> set xs. iend e \<le> off"
    and zs: "\<forall>e \<in> set zs. off < iend e" and fi: "find_inc l off = length xs"
    using find_inc_split [OF l] by metis
  have lT: "ivl_set l \<inter> {off..} = ivl_set zs \<inter> {off..}"
    unfolding lz by (rule ivl_tail [OF xs])
  have dr: "drop (find_inc l off) l = zs" using fi lz by simp
  note step = asym_loop.simps [of l acc ps off]
  show ?case
  proof (cases zs)
    case Nil
    then have "ivl_set ps \<inter> ivl_set l \<inter> {off..} = {}" using lT by auto
    then show ?thesis using less.prems(1) by (simp add: asym_post_def step dr Nil)
  next
    case (Cons pl pls)
    obtain c where c: "ps = c @ skip_before ps (fst pl)" "\<forall>e \<in> set c. iend e \<le> fst pl"
      "\<forall>p qs. skip_before ps (fst pl) = p # qs \<longrightarrow> fst pl < iend p"
      by (rule skip_before_split [OF less.prems(2)])
    have wfz: "ivl_wf (pl # pls)" using l lz Cons by simp
    have "ivl_set c \<inter> ivl_set (pl # pls) = {}"
      using ivl_before [OF wfz order_refl] ivl_set_less [OF c(2)] by fastforce
    then have T: "ivl_set ps \<inter> ivl_set l \<inter> {off..} =
        ivl_set (skip_before ps (fst pl)) \<inter> ivl_set (pl # pls) \<inter> {off..}"
      using lT Cons by (subst c(1)) auto
    show ?thesis
    proof (cases "skip_before ps (fst pl)")
      case Nil
      then show ?thesis using less.prems(1) T by (simp add: asym_post_def step dr Cons)
    next
      case sk: (Cons p ps')
      have psc: "ps = c @ p # ps'" using c(1) sk by simp
      have wfp: "ivl_wf (p # ps')" and len: "length (p # ps') \<le> length ps"
        and inv: "asym_inv l acc (p # ps') off"
        using less.prems(2,3) psc by (auto simp: asym_inv_def)
      have pl: "l = xs @ pl # pls" "off < iend pl" "drop (find_inc l off) l = pl # pls"
        and touch: "fst pl < iend p"
        using lz Cons zs dr c(3) sk by auto
      have mle: "asym_measure l (p # ps') off \<le> asym_measure l ps off"
        using len mult_le_mono1 [OF len] unfolding asym_measure_def by (meson add_le_mono1)
      have IH: "asym_post l acc' qs off' (iset_abs acc' \<union> (ivl_set qs \<inter> ivl_set l \<inter> {off'..}))"
        if "asym_measure l qs off' < asym_measure l (p # ps') off" "iset_wf acc'" "ivl_wf qs"
          "asym_inv l acc' qs off'" for acc' qs off'
        using less.hyps that mle by fastforce
      consider (past) "iend pl \<le> fst p" | (copy) "p = pl" | (cut) "p \<noteq> pl" "fst p < iend pl"
        by linarith
      then show ?thesis
      proof cases
        case past
        have "asym_inv l acc (p # ps') (fst p)"
          using inv past pl(1,2) by (intro asym_inv_at_start [OF wfp]) (fastforce simp: asym_inv_def)
        moreover have "ivl_set (p # ps') \<inter> ivl_set l \<inter> {fst p..} =
            ivl_set (p # ps') \<inter> ivl_set (pl # pls) \<inter> {off..}"
        proof -
          have P: "ivl_set (p # ps') \<subseteq> {fst p..}" "ivl_set (p # ps') \<subseteq> {off..}"
            using ivl_before [OF wfp order_refl] past pl(2) by fastforce+
          have "ivl_set (p # ps') \<inter> ivl_set l \<inter> {fst p..} = ivl_set (p # ps') \<inter> (ivl_set l \<inter> {off..})"
            using P by blast
          then show ?thesis unfolding lT Cons by (simp only: Int_assoc)
        qed
        ultimately have "asym_post l acc (p # ps') (fst p)
            (iset_abs acc \<union> (ivl_set (p # ps') \<inter> ivl_set (pl # pls) \<inter> {off..}))"
          using IH [of "p # ps'" "fst p" acc] past pl(1,2) less.prems(1) wfp
            asym_measure_less_off [of "p # ps'" "p # ps'" pl l off "fst p"] by simp
        then show ?thesis
          using past T sk wfz by (simp add: asym_post_def step pl(3))
      next
        case copy
        have "asym_post l acc ps off
            (iset_abs acc \<union> (ivl_set (pl # ps') \<inter> ivl_set (pl # pls) \<inter> {off..}))"
          using sk wfp inv IH [OF asym_measure_less_ps] unfolding copy
          by (intro asym_step_copy [OF l pl(1) xs pl(2,3) _ less.prems(1)]) assumption+
        with T sk copy show ?thesis by simp
      next
        case cut
        show ?thesis
          using asym_step_cut [OF l pl(1) xs pl(2,3) sk less.prems(1) wfp inv cut touch IH] T sk
          by simp
      qed
    qed
  qed
qed

lemma intersection_of_ok:
  assumes a: "iset_wf a" and b: "iset_wf b"
  shows "\<exists>r. intersection_of a b = Some r \<and> iset_wf r \<and> iset_abs r = iset_abs a \<inter> iset_abs b"
proof -
  have asym: "\<exists>r. intersection_size_asym s l = Some r \<and> iset_wf r \<and>
      iset_abs r = iset_abs s \<inter> iset_abs l"
    if s: "iset_wf s" "iset_size s \<noteq> 0" and l: "iset_wf l" for s l
  proof (cases "iset_m s")
    case Nil
    then show ?thesis using s by (simp add: iset_wf_def)
  next
    case (Cons p ps)
    have wf: "ivl_wf (p # ps)" using s Cons by (simp add: iset_wf_def)
    have "asym_inv (iset_m l) iset_empty (p # ps) (fst p)"
      by (rule asym_inv_at_start [OF wf]) (simp add: iset_empty_def)
    then have "asym_post (iset_m l) iset_empty (p # ps) (fst p)
        (iset_abs iset_empty \<union> (ivl_set (p # ps) \<inter> iset_abs l \<inter> {fst p..}))"
      using l wf by (intro asym_loop_ok) (auto simp: iset_wf_ivl_wf)
    moreover have "ivl_set (p # ps) \<inter> iset_abs l \<inter> {fst p..} = iset_abs s \<inter> iset_abs l"
      using ivl_before [OF wf order_refl] Cons by fastforce
    ultimately show ?thesis
      using Cons by (simp add: asym_post_def intersection_size_asym_def)
  qed
  have zero: "iset_abs s = {}" if "iset_wf s" "iset_size s = 0" for s
    using that by (simp add: iset_size_card)
  have "settled iset_empty (iset_m a) (iset_m b)"
    by (simp add: settled_def iset_empty_def)
  then have "\<exists>r. intersection_loop iset_empty (iset_m a) (iset_m b) = Some r \<and> iset_wf r \<and>
      iset_abs r = iset_abs a \<inter> iset_abs b"
    using intersection_loop_ok [of iset_empty "iset_m a" "iset_m b"] a b
    by (simp add: iset_wf_ivl_wf)
  then show ?thesis
    using asym [of a b] asym [of b a] zero [of a] zero [of b] a b
    by (auto simp: intersection_of_def Int_commute Let_def)
qed

section \<open>Union, inclusion, canonicity\<close>

lemma union_of_ok:
  assumes a: "iset_wf a" and b: "iset_wf b"
  shows "\<exists>r. union_of a b = Some r \<and> iset_wf r \<and> iset_abs r = iset_abs a \<union> iset_abs b"
proof -
  obtain ab where ab: "intersection_of a b = Some ab" "iset_wf ab"
      "iset_abs ab = iset_abs a \<inter> iset_abs b"
    using intersection_of_ok [OF a b] by blast
  obtain r where r: "subtract a ab = Some r" "iset_wf r" "iset_abs r = iset_abs a - iset_abs ab"
    using subtract_list_ok [OF a, of "iset_m ab"] ab by (auto simp: subtract_def iset_wf_def)
  obtain q where q: "insert_set r b = Some q" "iset_wf q" "iset_abs q = iset_abs r \<union> iset_abs b"
    using insert_list_ok [OF r(2), of "iset_m b"] ab(3) r(3) b
    by (auto simp: insert_set_def iset_wf_def)
  have "iset_abs q = iset_abs a \<union> iset_abs b" using q(3) r(3) ab(3) by blast
  with ab(1) r(1) q(1,2) show ?thesis by (simp add: union_of_def)
qed

lemma subset_size_sym_iff:
  "ivl_wf as \<Longrightarrow> ivl_wf bs \<Longrightarrow> subset_size_sym as bs \<longleftrightarrow> ivl_set as \<subseteq> ivl_set bs"
proof (induction as bs rule: subset_size_sym.induct)
  case (3 a as b bs)
  note wfa = "3.prems"(1) and wfb = "3.prems"(2)
  have lim: "iend a < u64_limit" "iend b < u64_limit" using wfa wfb by simp_all
  note ue = uend_eq [OF lim(1)] uend_eq [OF lim(2)]
  note IH = "3.IH" [unfolded ue] and loop = subset_size_sym.simps(3) [of a as b bs, unfolded ue]
  have as: "iend a < x" if "x \<in> ivl_set as" for x
    using wfa that ivl_set_ge [of as "iend a" x] by simp
  have bs: "iend b < x" if "x \<in> ivl_set bs" for x
    using wfb that ivl_set_ge [of bs "iend b" x] by simp
  have fa: "fst a \<in> ivl_set (a # as)" using wfa by simp
  consider (pass) "iend b \<le> fst a" | (eq) "fst a < iend b" "a = b"
    | (left) "fst a < iend b" "a \<noteq> b" "fst a < fst b"
    | (long) "fst a < iend b" "a \<noteq> b" "fst b \<le> fst a" "iend b < iend a"
    | (inside) "fst a < iend b" "a \<noteq> b" "fst b \<le> fst a" "iend a \<le> iend b"
    by linarith
  then show ?case
  proof cases
    case pass
    have "ivl_set (a # as) \<inter> irange (fst b) (snd b) = {}"
      using ivl_before [OF wfa pass] by fastforce
    then have "ivl_set (a # as) \<subseteq> ivl_set (b # bs) \<longleftrightarrow> ivl_set (a # as) \<subseteq> ivl_set bs"
      unfolding ivl_set_simps(2) [of b] by blast
    with pass IH(1) wfa wfb show ?thesis unfolding loop by simp
  next
    case eq
    have "ivl_set as \<inter> irange (fst b) (snd b) = {}"
      using as eq(2) by fastforce
    then have "ivl_set (a # as) \<subseteq> ivl_set (b # bs) \<longleftrightarrow> ivl_set as \<subseteq> ivl_set bs"
      using eq(2) unfolding ivl_set_simps(2) by blast
    with eq IH(2) wfa wfb show ?thesis unfolding loop by simp
  next
    case left
    then have "fst a \<notin> ivl_set (b # bs)" using bs [of "fst a"] by auto
    then have "\<not> ivl_set (a # as) \<subseteq> ivl_set (b # bs)" using fa by blast
    with left show ?thesis unfolding loop by simp
  next
    case long
    then have "iend b \<notin> ivl_set (b # bs)" "iend b \<in> ivl_set (a # as)"
      using bs [of "iend b"] by auto
    then have "\<not> ivl_set (a # as) \<subseteq> ivl_set (b # bs)" by blast
    with long show ?thesis unfolding loop by simp
  next
    case inside
    then have "irange (fst a) (snd a) \<subseteq> ivl_set (b # bs)" by auto
    then have "ivl_set (a # as) \<subseteq> ivl_set (b # bs) \<longleftrightarrow> ivl_set as \<subseteq> ivl_set (b # bs)"
      unfolding ivl_set_simps(2) [of a] by blast
    with inside IH(3) wfa wfb show ?thesis unfolding loop by simp
  qed
qed auto

lemma range_end_ok:
  assumes "ivl_wf (iset_m s)" and "iset_m s \<noteq> []"
  shows "range_end s = Some (Suc (Max (iset_abs s)))"
proof -
  obtain xs e where m: "iset_m s = xs @ [e]" using assms(2) rev_exhaust by blast
  have pos: "0 < snd e" using assms(1) m by simp
  have "Max (iset_abs s) = iend e - 1"
  proof (rule Max_eqI)
    show "iend e - 1 \<in> iset_abs s" using m pos by (auto simp: ivl_set_def)
    have "\<forall>b \<in> set xs. iend b \<le> fst e" using assms(1) m by fastforce
    from ivl_set_less [OF this] show "y \<le> iend e - 1" if "y \<in> iset_abs s" for y
      using that m pos by fastforce
  qed simp
  with m pos assms(1) show ?thesis by (simp add: range_end_def)
qed

lemma subset_of_ok:
  assumes s: "iset_wf s" and big: "iset_wf big"
  shows "subset_of s big = Some (iset_abs s \<subseteq> iset_abs big)"
proof -
  have cs: "iset_size s = card (iset_abs s)" and cb: "iset_size big = card (iset_abs big)"
    using s big by (simp_all add: iset_size_card)
  show ?thesis
  proof (cases "iset_size s = 0 \<or> iset_size s > iset_size big")
    case True
    moreover have "iset_abs s \<subseteq> iset_abs big \<Longrightarrow> iset_size s \<le> iset_size big"
      using card_mono [of "iset_abs big" "iset_abs s"] cs cb by simp
    ultimately show ?thesis using cs by (auto simp: subset_of_def)
  next
    case False
    then have ne: "iset_abs s \<noteq> {}" "iset_abs big \<noteq> {}" using cs cb by auto
    then have re: "range_end s = Some (Suc (Max (iset_abs s)))"
        "range_end big = Some (Suc (Max (iset_abs big)))"
      using s big by (auto intro!: range_end_ok simp: iset_wf_def)
    have mx: "iset_abs s \<subseteq> iset_abs big \<Longrightarrow> Max (iset_abs s) \<le> Max (iset_abs big)"
      using ne by (intro Max_mono) simp_all
    have lst: "list_all (\<lambda>(start, len). contains_range big start len) (iset_m s) \<longleftrightarrow>
        iset_abs s \<subseteq> iset_abs big"
    proof -
      have "contains_range big (fst e) (snd e) \<longleftrightarrow> irange (fst e) (snd e) \<subseteq> iset_abs big"
        if "e \<in> set (iset_m s)" for e
        using that s big ivl_wf_pos [of "iset_m s" e] ivl_wf_limit [of "iset_m s" e]
        by (intro contains_range_iff) (simp_all add: iset_wf_ivl_wf)
      then show ?thesis
        by (simp add: list_all_iff split_beta ivl_set_def [of "iset_m s"] UN_subset_iff)
    qed
    have sym: "subset_size_sym (iset_m s) (iset_m big) \<longleftrightarrow> iset_abs s \<subseteq> iset_abs big"
      using s big by (intro subset_size_sym_iff) (simp_all add: iset_wf_ivl_wf)
    show ?thesis
      using False mx by (simp add: subset_of_def re lst sym not_less) (meson leD)
  qed
qed

lemma ivl_wf_canonical:
  "ivl_wf a \<Longrightarrow> ivl_wf b \<Longrightarrow> ivl_set a = ivl_set b \<Longrightarrow> a = b"
proof (induction a arbitrary: b)
  case Nil
  then show ?case using ivl_set_empty_iff [of b] by simp
next
  case (Cons e a)
  then obtain f b' where b: "b = f # b'"
    using ivl_set_empty_iff [of "e # a"] by (cases b) auto
  note wf = Cons.prems(1,2) [unfolded b] and eq = Cons.prems(3) [unfolded b]
  have a: "iend e < x" if "x \<in> ivl_set a" for x
    using wf(1) that ivl_set_ge [of a "iend e" x] by simp
  have b': "iend f < x" if "x \<in> ivl_set b'" for x
    using wf(2) that ivl_set_ge [of b' "iend f" x] by simp
  have in1: "fst e \<in> ivl_set (e # a)" and in2: "fst f \<in> ivl_set (f # b')"
    using wf by simp_all
  have fs: "fst e = fst f"
    using ivl_before [OF wf(1) order_refl, of "fst f"] ivl_before [OF wf(2) order_refl, of "fst e"]
      in1 [unfolded eq] in2 [folded eq] by (meson order_antisym)
  have n1: "iend e \<notin> ivl_set (e # a)" and n2: "iend f \<notin> ivl_set (f # b')"
    using a [of "iend e"] b' [of "iend f"] by auto
  have "\<not> iend e < iend f" using n1 fs unfolding eq by auto
  moreover have "\<not> iend f < iend e" using n2 fs unfolding eq [symmetric] by auto
  ultimately have ef: "e = f" using fs by (simp add: prod_eq_iff)
  have "ivl_set a = ivl_set (e # a) - irange (fst e) (snd e)" using a by fastforce
  also have "\<dots> = ivl_set b'" unfolding eq using b' ef by fastforce
  finally have "ivl_set a = ivl_set b'" .
  with Cons.IH [of b'] wf ef b show ?case by simp
qed

lemma iset_eqI: "iset_wf a \<Longrightarrow> iset_wf b \<Longrightarrow> iset_abs a = iset_abs b \<Longrightarrow> a = b"
  using ivl_wf_canonical [of "iset_m a" "iset_m b"] by (simp add: iset_wf_def)

lemma ivl_ends_bounded:
  assumes "ivl_wf m" and "ivl_set m \<subseteq> {..<B}" and "e \<in> set m"
  shows "iend e \<le> B"
proof -
  have "iend e - 1 \<in> ivl_set m"
    using assms(1,3) ivl_wf_pos [of m e] by (auto simp: ivl_set_def intro!: bexI [of _ e])
  with assms(2) show ?thesis by auto
qed

section \<open>Span\<close>

definition least_n :: "nat \<Rightarrow> nat set \<Rightarrow> nat set \<Rightarrow> bool" where
  "least_n n A B \<longleftrightarrow> B \<subseteq> A \<and> card B = min n (card A) \<and> (\<forall>x \<in> B. \<forall>y \<in> A. y < x \<longrightarrow> y \<in> B)"

lemma least_n_inside:
  assumes "n \<le> len" and "\<forall>x \<in> A. st + len \<le> x" and "finite A"
  shows "least_n n (irange st len \<union> A) (irange st n)"
proof -
  have "irange st len \<inter> A = {}" using assms(2) by fastforce
  then have "card (irange st len \<union> A) = len + card A"
    using assms(3) by (simp add: card_Un_disjoint)
  with assms show ?thesis by (fastforce simp: least_n_def)
qed

lemma least_n_after:
  assumes L: "least_n (n - len) A B" and "len \<le> n" and A: "\<forall>x \<in> A. st + len \<le> x" and "finite A"
  shows "least_n n (irange st len \<union> A) (irange st len \<union> B)"
  unfolding least_n_def
proof (intro conjI ballI impI)
  have B: "B \<subseteq> A" and cB: "card B = min (n - len) (card A)"
    using L by (simp_all add: least_n_def)
  then show "irange st len \<union> B \<subseteq> irange st len \<union> A" by blast
  have "irange st len \<inter> A = {}" using A by fastforce
  then have "card (irange st len \<union> A) = len + card A" "card (irange st len \<union> B) = len + card B"
    using assms(4) B by (subst card_Un_disjoint; auto intro: finite_subset)+
  then show "card (irange st len \<union> B) = min n (card (irange st len \<union> A))"
    using cB assms(2) by simp
  fix x y
  assume x: "x \<in> irange st len \<union> B" and y: "y \<in> irange st len \<union> A" and "y < x"
  show "y \<in> irange st len \<union> B"
  proof (cases "y \<in> irange st len")
    case False
    then have "x \<in> B" "y \<in> A" using x y \<open>y < x\<close> A by auto
    then show ?thesis using L \<open>y < x\<close> unfolding least_n_def by blast
  qed simp
qed

lemma span_loop_ok:
  "iset_wf acc \<Longrightarrow> ivl_wf ps \<Longrightarrow> iset_abs acc \<inter> ivl_set ps = {} \<Longrightarrow>
   \<exists>r B. span_loop acc ps len = Some r \<and> iset_wf r \<and> iset_abs r = iset_abs acc \<union> B \<and>
     least_n len (ivl_set ps) B"
proof (induction ps arbitrary: acc len)
  case Nil
  then show ?case by (simp add: least_n_def)
next
  case (Cons p ps)
  have pos: "0 < snd p" and lim: "iend p < u64_limit" and wf: "ivl_wf ps" using Cons.prems(2) by simp_all
  have ps: "\<forall>x \<in> ivl_set ps. iend p \<le> x"
    using Cons.prems(2) ivl_set_ge [of ps "iend p"] by fastforce
  have d: "irange (fst p) (snd p) \<inter> iset_abs acc = {}" "iset_abs acc \<inter> ivl_set ps = {}"
    using Cons.prems(3) by auto
  consider (zero) "len = 0" | (all) "0 < len" "snd p < len" | (part) "0 < len" "len \<le> snd p"
    by linarith
  then show ?case
  proof cases
    case zero
    then show ?thesis
      using Cons.prems(1) by (auto simp: least_n_def intro!: exI [of _ "{}"])
  next
    case all
    obtain acc' a b where acc': "insert_range acc (fst p) (snd p) = Some (acc', a, b)" "iset_wf acc'"
        "iset_abs acc' = iset_abs acc \<union> irange (fst p) (snd p)"
      using insert_range_ok [OF Cons.prems(1) pos lim d(1)] by blast
    have "iset_abs acc' \<inter> ivl_set ps = {}"
      using acc'(3) d(2) ps by fastforce
    then obtain r B where r: "span_loop acc' ps (len - snd p) = Some r" "iset_wf r"
        "iset_abs r = iset_abs acc' \<union> B" "least_n (len - snd p) (ivl_set ps) B"
      using Cons.IH [OF acc'(2) wf] by blast
    then have "least_n len (ivl_set (p # ps)) (irange (fst p) (snd p) \<union> B)"
      using least_n_after [OF r(4) _ ps] all by simp
    with r acc'(1,3) all show ?thesis by (auto simp: Un_assoc)
  next
    case part
    have "fst p + len < u64_limit" "irange (fst p) len \<inter> iset_abs acc = {}" using lim d(1) part(2) by fastforce+
    then obtain acc' a b where "insert_range acc (fst p) len = Some (acc', a, b)" "iset_wf acc'"
        "iset_abs acc' = iset_abs acc \<union> irange (fst p) len"
      using insert_range_ok [OF Cons.prems(1) part(1)] by blast
    moreover have "least_n len (ivl_set (p # ps)) (irange (fst p) len)"
      using least_n_inside [OF part(2) ps] by simp
    ultimately show ?thesis using part by auto
  qed
qed

lemma span_of_ok:
  assumes wf: "iset_wf other" and len: "0 < len" and lim: "start + len < u64_limit"
  shows "\<exists>r. span_of other start len = Some r \<and> iset_wf r \<and>
    least_n len (iset_abs other \<inter> {start..}) (iset_abs r)"
proof -
  let ?m = "iset_m other"
  have W: "ivl_wf ?m" using wf by (rule iset_wf_ivl_wf)
  then obtain xs zs where m: "?m = xs @ zs" and xs: "\<forall>e \<in> set xs. iend e \<le> start"
    and zs: "\<forall>e \<in> set zs. start < iend e" and fi: "find_inc ?m start = length xs"
    by (rule find_inc_split)
  have dr: "drop (find_inc ?m start) ?m = zs" using fi m by simp
  have A: "iset_abs other \<inter> {start..} = ivl_set zs \<inter> {start..}"
    unfolding m by (rule ivl_tail [OF xs])
  have wfz: "ivl_wf zs" using W m by simp
  show ?thesis
  proof (cases zs)
    case Nil
    then show ?thesis using A by (simp add: span_of_def dr least_n_def)
  next
    case (Cons p ps)
    have ps: "\<forall>x \<in> ivl_set ps. iend p \<le> x" and wfp: "ivl_wf ps"
      using wfz Cons ivl_set_ge [of ps "iend p"] by fastforce+
    have st: "start < iend p" "iend p < u64_limit" using zs wfz Cons by simp_all
    let ?h = "iend p - start"
    consider (at) "start \<le> fst p" | (cut) "fst p < start" "iend p < start + len"
      | (inner) "fst p < start" "start + len \<le> iend p" by linarith
    then show ?thesis
    proof cases
      case at
      then have "iset_abs other \<inter> {start..} = ivl_set zs"
        using A ivl_before [of p ps start] wfz Cons by auto
      then show ?thesis
        using span_loop_ok [OF iset_wf_empty wfz, of len] Cons at dr by (auto simp: span_of_def)
    next
      case cut
      have A': "iset_abs other \<inter> {start..} = irange start ?h \<union> ivl_set ps"
        using A Cons cut(1) st ps by fastforce
      have h: "0 < ?h" "snd p - (start - fst p) = ?h" using st cut(1) by simp_all
      obtain acc a b where acc: "insert_range iset_empty start ?h = Some (acc, a, b)" "iset_wf acc"
          "iset_abs acc = irange start ?h"
        using insert_range_ok [OF iset_wf_empty h(1), of start] st by auto
      have ps': "\<forall>x \<in> ivl_set ps. start + ?h \<le> x" using ps st by simp
      have "iset_abs acc \<inter> ivl_set ps = {}" using acc(3) ps' by fastforce
      then obtain r B where r: "span_loop acc ps (len - ?h) = Some r" "iset_wf r"
          "iset_abs r = iset_abs acc \<union> B" "least_n (len - ?h) (ivl_set ps) B"
        using span_loop_ok [OF acc(2) wfp] by blast
      have "least_n len (iset_abs other \<inter> {start..}) (iset_abs r)"
        using least_n_after [OF r(4) _ ps'] cut(2) A' r(3) acc(3) by simp
      then show ?thesis
        using r(1,2) acc(1) Cons cut st dr h(2) lim by (simp add: span_of_def Let_def)
    next
      case inner
      have A': "iset_abs other \<inter> {start..} = irange start ?h \<union> ivl_set ps"
        using A Cons inner(1) st ps by fastforce
      obtain acc a b where acc: "insert_range iset_empty start len = Some (acc, a, b)" "iset_wf acc"
          "iset_abs acc = irange start len"
        using insert_range_ok [OF iset_wf_empty len lim] by auto
      have "least_n len (irange start ?h \<union> ivl_set ps) (irange start len)"
        using inner st ps by (intro least_n_inside) auto
      then show ?thesis
        using acc A' Cons inner st dr lim by (simp add: span_of_def)
    qed
  qed
qed

section \<open>The interface offered to clients\<close>

text \<open>
  A store of extents promises the plain-set behaviour of single-range insertion and erasure under
  an invariant; \<open>extent_run\<close> is a client's sequence of such calls and \<open>extent_spec\<close> the same
  sequence on a set of offsets, undefined where the caller breaks the precondition.
\<close>

datatype extent_op = Ext_insert nat nat | Ext_erase nat nat

fun extent_run ::
  "('s \<Rightarrow> nat \<Rightarrow> nat \<Rightarrow> 's option) \<Rightarrow> ('s \<Rightarrow> nat \<Rightarrow> nat \<Rightarrow> 's option) \<Rightarrow>
   's \<Rightarrow> extent_op list \<Rightarrow> 's option" where
  "extent_run ins del s [] = Some s"
| "extent_run ins del s (Ext_insert a l # ops) = ins s a l \<bind> (\<lambda>s. extent_run ins del s ops)"
| "extent_run ins del s (Ext_erase a l # ops) = del s a l \<bind> (\<lambda>s. extent_run ins del s ops)"

fun extent_spec :: "nat set \<Rightarrow> extent_op list \<Rightarrow> nat set option" where
  "extent_spec A [] = Some A"
| "extent_spec A (Ext_insert a l # ops) =
     (if 0 < l \<and> a + l < u64_limit \<and> irange a l \<inter> A = {} then extent_spec (A \<union> irange a l) ops else None)"
| "extent_spec A (Ext_erase a l # ops) =
     (if 0 < l \<and> irange a l \<subseteq> A then extent_spec (A - irange a l) ops else None)"

locale extent_store =
  fixes invar :: "'s \<Rightarrow> bool"
    and abs :: "'s \<Rightarrow> nat set"
    and ins :: "'s \<Rightarrow> nat \<Rightarrow> nat \<Rightarrow> 's option"
    and del :: "'s \<Rightarrow> nat \<Rightarrow> nat \<Rightarrow> 's option"
    and mem :: "'s \<Rightarrow> nat \<Rightarrow> bool"
  assumes ins_law: "invar s \<Longrightarrow> 0 < l \<Longrightarrow> a + l < u64_limit \<Longrightarrow> irange a l \<inter> abs s = {} \<Longrightarrow>
      \<exists>s'. ins s a l = Some s' \<and> invar s' \<and> abs s' = abs s \<union> irange a l"
    and del_law: "invar s \<Longrightarrow> 0 < l \<Longrightarrow> irange a l \<subseteq> abs s \<Longrightarrow>
      \<exists>s'. del s a l = Some s' \<and> invar s' \<and> abs s' = abs s - irange a l"
    and mem_law: "invar s \<Longrightarrow> mem s x \<longleftrightarrow> x \<in> abs s"
    and limit_law: "invar s \<Longrightarrow> x \<in> abs s \<Longrightarrow> x + 1 < u64_limit"
    and canonical: "invar s \<Longrightarrow> invar t \<Longrightarrow> abs s = abs t \<Longrightarrow> s = t"
begin

lemma run_refines:
  "invar s \<Longrightarrow> extent_spec (abs s) ops = Some A \<Longrightarrow>
   \<exists>s'. extent_run ins del s ops = Some s' \<and> invar s' \<and> abs s' = A"
proof (induction ops arbitrary: s)
  case (Cons x ops)
  show ?case
  proof (cases x)
    case (Ext_insert a l)
    then obtain s1 where "ins s a l = Some s1" "invar s1" "abs s1 = abs s \<union> irange a l"
      using ins_law [of s l a] Cons.prems by (auto split: if_splits)
    with Cons.IH [of s1] Cons.prems(2) Ext_insert show ?thesis by (simp split: if_splits)
  next
    case (Ext_erase a l)
    then obtain s1 where "del s a l = Some s1" "invar s1" "abs s1 = abs s - irange a l"
      using del_law [of s l a] Cons.prems by (auto split: if_splits)
    with Cons.IH [of s1] Cons.prems(2) Ext_erase show ?thesis by (simp split: if_splits)
  qed
qed simp

lemma del_ins_roundtrip:
  assumes "invar s" and "0 < l" and "irange a l \<subseteq> abs s"
  shows "del s a l \<bind> (\<lambda>t. ins t a l) = Some s"
proof -
  obtain t where t: "del s a l = Some t" "invar t" "abs t = abs s - irange a l"
    using del_law [OF assms] by blast
  have "a + l - 1 \<in> abs s" using assms(2,3) by force
  then have "a + l < u64_limit" using limit_law [OF assms(1)] assms(2) by fastforce
  then obtain u where u: "ins t a l = Some u" "invar u" "abs u = abs t \<union> irange a l"
    using ins_law [OF t(2) assms(2)] t(3) by blast
  have "abs u = abs s" using u(3) t(3) assms(3) by blast
  then have "u = s" by (rule canonical [OF u(2) assms(1)])
  with t u show ?thesis by simp
qed

lemma ins_del_roundtrip:
  assumes "invar s" and "0 < l" and "a + l < u64_limit" and "irange a l \<inter> abs s = {}"
  shows "ins s a l \<bind> (\<lambda>t. del t a l) = Some s"
proof -
  obtain t where t: "ins s a l = Some t" "invar t" "abs t = abs s \<union> irange a l"
    using ins_law [OF assms] by blast
  then obtain u where u: "del t a l = Some u" "invar u" "abs u = abs t - irange a l"
    using del_law [OF t(2) assms(2)] by blast
  have "abs u = abs s" using u(3) t(3) assms(4) by blast
  then have "u = s" by (rule canonical [OF u(2) assms(1)])
  with t u show ?thesis by simp
qed

end

definition iset_ins :: "iset \<Rightarrow> nat \<Rightarrow> nat \<Rightarrow> iset option" where
  "iset_ins s start len = map_option fst (insert_range s start len)"

interpretation iv: extent_store iset_wf iset_abs iset_ins erase_range contains
proof
  fix s t :: iset and a l x :: nat
  show "\<exists>s'. iset_ins s a l = Some s' \<and> iset_wf s' \<and> iset_abs s' = iset_abs s \<union> irange a l"
    if "iset_wf s" "0 < l" "a + l < u64_limit" "irange a l \<inter> iset_abs s = {}"
    using insert_range_ok [OF that] by (auto simp: iset_ins_def)
  show "\<exists>s'. erase_range s a l = Some s' \<and> iset_wf s' \<and> iset_abs s' = iset_abs s - irange a l"
    if "iset_wf s" "0 < l" "irange a l \<subseteq> iset_abs s"
    using that by (rule erase_range_ok)
  show "contains s x \<longleftrightarrow> x \<in> iset_abs s" if "iset_wf s"
    using that by (intro contains_iff iset_wf_ivl_wf)
  show "x + 1 < u64_limit" if "iset_wf s" "x \<in> iset_abs s"
    using that by (rule iset_wf_limit)
  show "s = t" if "iset_wf s" "iset_wf t" "iset_abs s = iset_abs t"
    using that by (rule iset_eqI)
qed

section \<open>Properties\<close>

text \<open>
  Inserting a non-empty range that is disjoint from the set never aborts: the result is
  well formed (intervals sorted, non-empty, non-adjacent, \<open>_size\<close> exact), represents the union,
  and the reported \<open>pstart\<close>/\<open>plen\<close> is the coalesced interval that now holds the range.
\<close>

lemma insert_range_correct:
  assumes "iset_wf s" and "0 < len" and "start + len < u64_limit" and "irange start len \<inter> iset_abs s = {}"
  shows "\<exists>s' ps pl. insert_range s start len = Some (s', ps, pl) \<and> iset_wf s' \<and>
    iset_abs s' = iset_abs s \<union> irange start len \<and>
    irange start len \<subseteq> irange ps pl \<and> (ps, pl) \<in> set (iset_m s') \<and>
    iset_size s' = iset_size s + len"
proof -
  obtain s' ps pl where s': "insert_range s start len = Some (s', ps, pl)" "iset_wf s'"
      "iset_abs s' = iset_abs s \<union> irange start len" "irange start len \<subseteq> irange ps pl"
      "(ps, pl) \<in> set (iset_m s')"
    using insert_range_ok [OF assms] by blast
  have "iset_size s' = iset_size s + len"
    using s'(2,3) assms by (simp add: iset_size_card card_Un_disjoint Int_commute)
  with s' show ?thesis by blast
qed

text \<open>
  Erasing a non-empty range succeeds exactly when the set holds the whole range; then the
  result is well formed and represents the difference, otherwise the assertions abort the process.
\<close>

lemma erase_range_correct:
  assumes "iset_wf s" and "0 < len" and "start + len < u64_limit"
  shows "(if irange start len \<subseteq> iset_abs s
    then \<exists>s'. erase_range s start len = Some s' \<and> iset_wf s' \<and>
           iset_abs s' = iset_abs s - irange start len
    else erase_range s start len = None)"
  using erase_range_ok [OF assms(1,2)] erase_range_not_contained [OF assms(1,2)] assms(3) by simp

text \<open>
  Both intersection algorithms, the merge and the search-based one used for very
  different sizes, return for any well-formed operands: the result is well formed and represents
  the intersection.
\<close>

lemma intersection_of_correct:
  assumes "iset_wf a" and "iset_wf b"
  shows "\<exists>r. intersection_of a b = Some r \<and> iset_wf r \<and> iset_abs r = iset_abs a \<inter> iset_abs b"
  using assms by (rule intersection_of_ok)

text \<open>
  \<open>union_of\<close>, built from intersection, subtraction and insertion, never aborts on
  well-formed operands and represents the union, and no interval end exceeds a bound that holds for
  both operands, so offsets that fit the machine type stay within it.
\<close>

lemma union_of_correct:
  assumes "iset_wf a" and "iset_wf b"
    and "iset_abs a \<subseteq> {..<B}" and "iset_abs b \<subseteq> {..<B}"
  shows "\<exists>r. union_of a b = Some r \<and> iset_wf r \<and> iset_abs r = iset_abs a \<union> iset_abs b \<and>
    list_all (\<lambda>e. fst e + snd e \<le> B) (iset_m r)"
proof -
  obtain r where r: "union_of a b = Some r" "iset_wf r" "iset_abs r = iset_abs a \<union> iset_abs b"
    using union_of_ok [OF assms(1,2)] by blast
  then have "list_all (\<lambda>e. iend e \<le> B) (iset_m r)"
    using ivl_ends_bounded [of "iset_m r" B] assms(3,4) by (simp add: list_all_iff iset_wf_ivl_wf)
  with r show ?thesis by blast
qed

text \<open>
  \<open>subset_of\<close>, with its early exits on sizes and range ends and its two search
  strategies, decides set inclusion and never trips the non-emptiness assertion of
  \<open>range_end\<close>.
\<close>

lemma subset_of_correct:
  assumes "iset_wf s" and "iset_wf big"
  shows "subset_of s big = Some (iset_abs s \<subseteq> iset_abs big)"
  using assms by (rule subset_of_ok)

text \<open>
  \<open>span_of\<close> selects the \<open>len\<close> least members of the other set at or after
  \<open>start\<close> (all of them if there are fewer), skipping holes.
\<close>

lemma span_of_correct:
  assumes "iset_wf other" and "0 < len" and "start + len < u64_limit"
  shows "\<exists>r. span_of other start len = Some r \<and> iset_wf r \<and>
    least_n len (iset_abs other \<inter> {start..}) (iset_abs r)"
  using assms by (rule span_of_ok)

text \<open>
  Property C28. Any sequence of insertions and erasures whose preconditions hold on plain sets (a range
  to insert is not empty, disjoint from the set and ends below \<open>2 ^ 64\<close>; a range to erase is not empty and
  held by the set) runs on the container without abort and ends in the same set: \<open>interval_set\<close> over
  \<open>uint64_t\<close>, which computes ends and \<open>_size\<close> modulo \<open>2 ^ 64\<close>, refines its set model.
\<close>

theorem interval_set_refines:
  assumes "iset_wf s" and "extent_spec (iset_abs s) ops = Some A"
  shows "\<exists>s'. extent_run iset_ins erase_range s ops = Some s' \<and> iset_wf s' \<and> iset_abs s' = A"
  using assms by (rule iv.run_refines)

theorem interval_set_refines_witness:
  "\<exists>s'. extent_run iset_ins erase_range iset_empty
       [Ext_insert 0 10, Ext_erase 2 3, Ext_insert 20 1] = Some s' \<and>
     iset_abs s' = {0..<2} \<union> {5..<10} \<union> {20}"
proof -
  have "extent_spec (iset_abs iset_empty) [Ext_insert 0 10, Ext_erase 2 3, Ext_insert 20 1] =
      Some (({0..<10} - {2..<5}) \<union> {20..<21})" by (auto simp: u64_limit_def)
  from interval_set_refines [OF iset_wf_empty this] obtain s' where
    s': "extent_run iset_ins erase_range iset_empty
       [Ext_insert 0 10, Ext_erase 2 3, Ext_insert 20 1] = Some s'"
      "iset_abs s' = ({0..<10} - {2..<5}) \<union> {20..<21}" by blast
  moreover have "({0..<10} - {2..<5}) \<union> {20..<21} = {0..<2} \<union> {5..<10} \<union> {20::nat}" by auto
  ultimately show ?thesis by auto
qed

text \<open>
  Property C40. When the inserted range touches the end of an interval but runs past the start of the
  next one (and ends below \<open>2 ^ 64\<close>), \<open>insert\<close> does not abort as its other overlapping cases do: it returns a map with
  overlapping intervals that is no longer well formed.
\<close>

theorem insert_touching_overlap_corrupts:
  assumes "iset_wf s" and "find_adj (iset_m s) start = p" and "Suc p < length (iset_m s)"
    and "fst (iset_m s ! p) < start" and "fst (iset_m s ! p) + snd (iset_m s ! p) = start"
    and "fst (iset_m s ! Suc p) < start + len" and "start + len < u64_limit"
  shows "\<exists>s' ps pl. insert_range s start len = Some (s', ps, pl) \<and> \<not> iset_wf s'"
proof -
  let ?m = "iset_m s"
  let ?m' = "?m[p := (fst (?m ! p), snd (?m ! p) + len)]"
  have "start < fst (?m ! Suc p)"
    using assms(1,3,5) sorted_wrt_nth_less [of "\<lambda>a b. iend a < fst b" ?m p "Suc p"]
    by (simp add: iset_wf_def ivl_wf_def)
  then have pos: "0 < len" using assms(6) by simp
  have "\<not> iend (?m' ! p) < fst (?m' ! Suc p)"
    using assms(3,5,6) by simp
  then have "\<not> ivl_wf ?m'"
    using sorted_wrt_nth_less [of "\<lambda>a b. iend a < fst b" ?m' p "Suc p"] assms(3)
    unfolding ivl_wf_def by (metis length_list_update lessI)
  moreover have "insert_range s start len =
      Some (\<lparr>iset_size = u64_of (iset_size s + len), iset_m = ?m'\<rparr>, fst (?m ! p), snd (?m ! p) + len)"
    using assms(2-7) pos by (simp add: insert_range_def Let_def uend_def)
  ultimately show ?thesis by (simp add: iset_wf_def)
qed

theorem insert_touching_overlap_corrupts_witness:
  "\<exists>s' ps pl. insert_range \<lparr>iset_size = 8, iset_m = [(0, 5), (7, 3)]\<rparr> 5 4 = Some (s', ps, pl) \<and>
     \<not> iset_wf s'"
  by (rule insert_touching_overlap_corrupts [where p = 0])
     (simp_all add: iset_wf_def find_adj_def map_lower_bound_def uend_def u64_limit_def)

end
