(* ===== verification/Ino_Table.thy ===== *)
theory Ino_Table
  imports Interval_Set
begin

text \<open>
  The inode-number allocator \<open>InoTable\<close> of \<open>src/src/mds/InoTable.cc\<close>.  An update is first
  projected (on \<open>projected_free\<close>) when its journal entry is written and applied (on \<open>free\<close>)
  when the entry is committed; replay and the repair tools change both at once.  The table is a
  client of \<open>interval_set\<close> and of nothing else, so its proofs use the interface of theory
  Interval_Set only.  Inode numbers are \<open>uint64_t\<close>, with sums and differences modulo \<open>2 ^ 64\<close>; the sets of
  a well-formed table end below \<open>2 ^ 64\<close>.
\<close>

record ino_table =
  it_rank :: nat
  it_active :: bool
  it_online :: bool
  it_free :: iset
  it_projected_free :: iset
  it_version :: nat
  it_projected_version :: nat

section \<open>Operations\<close>

definition it_reset_state :: "ino_table \<Rightarrow> ino_table option" where
  "it_reset_state t = do {
     let start = u64_of ((it_rank t + 1) * 2 ^ 40);
     let len = 2 ^ 40;
     (f, _, _) \<leftarrow> insert_range iset_empty start len;
     Some (t\<lparr>it_free := f, it_projected_free := f\<rparr>) }"

definition project_alloc_id :: "ino_table \<Rightarrow> nat \<Rightarrow> (ino_table \<times> nat) option" where
  "project_alloc_id t ino = do {
     ceph_assert (it_active t);
     ino \<leftarrow> (if ino = 0 then range_start (it_projected_free t) else Some ino);
     pf \<leftarrow> erase_val (it_projected_free t) ino;
     Some (t\<lparr>it_projected_free := pf, it_projected_version := it_projected_version t + 1\<rparr>, ino) }"

definition apply_alloc_id :: "ino_table \<Rightarrow> nat \<Rightarrow> ino_table option" where
  "apply_alloc_id t ino = do {
     f \<leftarrow> erase_val (it_free t) ino;
     Some (t\<lparr>it_free := f, it_version := it_version t + 1\<rparr>) }"

lemma insert_range_pos: "insert_range s start len = Some r \<Longrightarrow> 0 < len"
  by (simp add: insert_range_def)

function alloc_loop :: "iset \<Rightarrow> iset \<Rightarrow> nat \<Rightarrow> (iset \<times> iset) option" where
  "alloc_loop pf ids want =
     (if want > 0
      then do {
        start \<leftarrow> range_start pf;
        en \<leftarrow> end_after pf start;
        let num = (if u64_sub en start > want then want else u64_sub en start);
        pf \<leftarrow> erase_range pf start num;
        ids' \<leftarrow> insert_range ids start num;
        alloc_loop pf (fst ids') (want - num) }
      else Some (pf, ids))"
  by pat_completeness auto
termination
  by (relation "measure (\<lambda>(pf, ids, want). want)") (auto dest: insert_range_pos)

definition project_alloc_ids :: "ino_table \<Rightarrow> iset \<Rightarrow> nat \<Rightarrow> (ino_table \<times> iset) option" where
  "project_alloc_ids t ids want = do {
     ceph_assert (it_active t);
     (pf, ids) \<leftarrow> alloc_loop (it_projected_free t) ids want;
     Some (t\<lparr>it_projected_free := pf, it_projected_version := it_projected_version t + 1\<rparr>, ids) }"

definition apply_alloc_ids :: "ino_table \<Rightarrow> iset \<Rightarrow> ino_table option" where
  "apply_alloc_ids t ids = do {
     f \<leftarrow> subtract (it_free t) ids;
     Some (t\<lparr>it_free := f, it_version := it_version t + 1\<rparr>) }"

definition project_release_ids :: "ino_table \<Rightarrow> iset \<Rightarrow> ino_table option" where
  "project_release_ids t ids = do {
     pf \<leftarrow> insert_set (it_projected_free t) ids;
     Some (t\<lparr>it_projected_free := pf, it_projected_version := it_projected_version t + 1\<rparr>) }"

definition apply_release_ids :: "ino_table \<Rightarrow> iset \<Rightarrow> ino_table option" where
  "apply_release_ids t ids = do {
     f \<leftarrow> insert_set (it_free t) ids;
     Some (t\<lparr>it_free := f, it_version := it_version t + 1\<rparr>) }"

text \<open>The second component of a replay result says whether the cluster log got an error.\<close>

definition replay_alloc_id :: "ino_table \<Rightarrow> nat \<Rightarrow> (ino_table \<times> bool) option" where
  "replay_alloc_id t ino = do {
     ceph_assert (it_online t);
     (t, err) \<leftarrow>
       (if contains (it_free t) ino
        then do {
          f \<leftarrow> erase_val (it_free t) ino;
          pf \<leftarrow> erase_val (it_projected_free t) ino;
          Some (t\<lparr>it_free := f, it_projected_free := pf\<rparr>, False) }
        else Some (t, True));
     Some (t\<lparr>it_version := it_version t + 1, it_projected_version := it_version t + 1\<rparr>, err) }"

definition replay_alloc_ids :: "ino_table \<Rightarrow> iset \<Rightarrow> (ino_table \<times> bool) option" where
  "replay_alloc_ids t ids = do {
     ceph_assert (it_online t);
     is \<leftarrow> intersection_of (it_free t) ids;
     f \<leftarrow> subtract (it_free t) is;
     pf \<leftarrow> subtract (it_projected_free t) is;
     Some (t\<lparr>it_free := f, it_projected_free := pf,
             it_version := it_version t + 1, it_projected_version := it_version t + 1\<rparr>,
           is \<noteq> ids) }"

definition replay_release_ids :: "ino_table \<Rightarrow> iset \<Rightarrow> ino_table option" where
  "replay_release_ids t ids = do {
     f \<leftarrow> insert_set (it_free t) ids;
     pf \<leftarrow> insert_set (it_projected_free t) ids;
     Some (t\<lparr>it_free := f, it_projected_free := pf,
             it_version := it_version t + 1, it_projected_version := it_version t + 1\<rparr>) }"

definition skip_inos :: "ino_table \<Rightarrow> nat \<Rightarrow> ino_table option" where
  "skip_inos t i = do {
     first \<leftarrow> range_start (it_free t);
     (s, _, _) \<leftarrow> insert_range iset_empty first i;
     s \<leftarrow> intersection_of s (it_free t);
     f \<leftarrow> subtract (it_free t) s;
     Some (t\<lparr>it_free := f, it_projected_free := f,
             it_version := it_version t + 1, it_projected_version := it_version t + 1\<rparr>) }"

definition replay_reset :: "ino_table \<Rightarrow> ino_table option" where
  "replay_reset t = do {
     t \<leftarrow> skip_inos t 10000000;
     Some (t\<lparr>it_projected_free := it_free t,
             it_version := it_version t + 1, it_projected_version := it_version t + 1\<rparr>) }"

definition is_marked_free :: "ino_table \<Rightarrow> nat \<Rightarrow> bool" where
  "is_marked_free t ino \<longleftrightarrow> contains (it_free t) ino \<or> contains (it_projected_free t) ino"

definition intersects_free :: "ino_table \<Rightarrow> iset \<Rightarrow> (bool \<times> iset) option" where
  "intersects_free t other = do {
     i \<leftarrow> intersection_of (it_free t) other;
     Some (iset_m i \<noteq> [], i) }"

definition repair :: "ino_table \<Rightarrow> nat \<Rightarrow> (ino_table \<times> bool) option" where
  "repair t ino =
     (if it_projected_version t \<noteq> it_version t then Some (t, False)
      else do {
        ceph_assert (is_marked_free t ino);
        f \<leftarrow> erase_val (it_free t) ino;
        pf \<leftarrow> erase_val (it_projected_free t) ino;
        Some (t\<lparr>it_free := f, it_projected_free := pf,
                it_version := it_version t + 1, it_projected_version := it_version t + 1\<rparr>, True) })"

definition force_consume :: "ino_table \<Rightarrow> nat \<Rightarrow> (ino_table \<times> bool) option" where
  "force_consume t ino =
     (if contains (it_free t) ino
      then do {
        f \<leftarrow> erase_val (it_free t) ino;
        Some (t\<lparr>it_free := f\<rparr>, True) }
      else Some (t, False))"

definition force_consume_to :: "ino_table \<Rightarrow> nat \<Rightarrow> (ino_table \<times> bool) option" where
  "force_consume_to t ino = do {
     first \<leftarrow> range_start (it_free t);
     (if first > ino then Some (t, False)
      else do { t \<leftarrow> skip_inos t (u64_sub (u64_of (ino + 1)) first); Some (t, True) }) }"

section \<open>Operations as set operations\<close>

definition it_wf :: "ino_table \<Rightarrow> bool" where
  "it_wf t \<longleftrightarrow> iset_wf (it_free t) \<and> iset_wf (it_projected_free t)"

lemma it_wf_simps:
  "it_wf t \<Longrightarrow> iset_wf (it_free t)"
  "it_wf t \<Longrightarrow> iset_wf (it_projected_free t)"
  by (simp_all add: it_wf_def)

lemma erase_val_ok:
  assumes "iset_wf s" and "i \<in> iset_abs s"
  shows "\<exists>s'. erase_val s i = Some s' \<and> iset_wf s' \<and> iset_abs s' = iset_abs s - {i}"
proof -
  have "irange i 1 = {i}" by auto
  then show ?thesis
    using iv.del_law [OF assms(1), of 1 i] assms(2) by (simp add: erase_val_def)
qed

lemma erase_val_Some:
  assumes "iset_wf s" and "erase_val s i = Some s'"
  shows "i \<in> iset_abs s" and "iset_wf s'" and "iset_abs s' = iset_abs s - {i}"
proof -
  have "irange i 1 = {i}" by auto
  with erase_range_not_contained [OF assms(1), of 1 i] assms(2) show "i \<in> iset_abs s"
    by (auto simp: erase_val_def)
  from erase_val_ok [OF assms(1) this] assms(2)
  show "iset_wf s'" and "iset_abs s' = iset_abs s - {i}" by simp_all
qed

lemma subtract_ok:
  assumes "iset_wf s" and "iset_wf a" and "iset_abs a \<subseteq> iset_abs s"
  shows "\<exists>s'. subtract s a = Some s' \<and> iset_wf s' \<and> iset_abs s' = iset_abs s - iset_abs a"
  using subtract_list_ok [OF assms(1) iset_wf_ivl_wf [OF assms(2)] assms(3)]
  by (simp add: subtract_def)

lemma insert_set_ok:
  assumes "iset_wf s" and "iset_wf a" and "iset_abs a \<inter> iset_abs s = {}"
  shows "\<exists>s'. insert_set s a = Some s' \<and> iset_wf s' \<and> iset_abs s' = iset_abs s \<union> iset_abs a"
  using insert_list_ok [OF assms(1) iset_wf_ivl_wf [OF assms(2)] assms(3)]
  by (simp add: insert_set_def)

lemma first_interval:
  assumes "iset_wf s" and "iset_abs s \<noteq> {}"
  obtains a l A where "range_start s = Some a" and "end_after s a = Some (a + l)" and "0 < l"
    and "iset_abs s = irange a l \<union> A" and "\<forall>x \<in> A. a + l \<le> x" and "finite A"
proof -
  have W: "ivl_wf (iset_m s)" using assms(1) by (rule iset_wf_ivl_wf)
  with assms(2) obtain e m where m: "iset_m s = e # m" by (cases "iset_m s") auto
  have pos: "0 < snd e" using W m by simp
  have "\<forall>b \<in> set (iset_m s). fst e < iend b" using W m by fastforce
  then have "find_inc (iset_m s) (fst e) = 0"
    using find_inc_append [of "[]" "iset_m s" "fst e"] W by simp
  moreover have "contains s (fst e)" using iv.mem_law [OF assms(1)] m pos by simp
  ultimately have "end_after s (fst e) = Some (iend e)" using m W by (simp add: end_after_def)
  moreover have "range_start s = Some (fst e)" using m by (simp add: range_start_def)
  moreover have "\<forall>x \<in> ivl_set m. iend e \<le> x"
    using W m ivl_set_ge [of m "iend e"] by fastforce
  ultimately show thesis using pos m by (intro that [of "fst e" "snd e" "ivl_set m"]) simp_all
qed

lemma range_start_Min:
  assumes "iset_wf s" and "iset_abs s \<noteq> {}"
  shows "range_start s = Some (Min (iset_abs s))"
proof -
  obtain a l A where *: "range_start s = Some a" "0 < l" "iset_abs s = irange a l \<union> A"
      "\<forall>x \<in> A. a + l \<le> x" "finite A"
    using first_interval [OF assms] by metis
  have "Min (iset_abs s) = a"
    unfolding *(3) by (rule Min_eqI) (use *(2,4,5) in fastforce)+
  with *(1) show ?thesis by simp
qed

declare alloc_loop.simps [simp del]

lemma alloc_loop_ok:
  "iset_wf pf \<Longrightarrow> iset_wf ids \<Longrightarrow> iset_abs pf \<inter> iset_abs ids = {} \<Longrightarrow> want \<le> card (iset_abs pf) \<Longrightarrow>
   \<exists>pf' ids' N. alloc_loop pf ids want = Some (pf', ids') \<and> iset_wf pf' \<and> iset_wf ids' \<and>
     least_n want (iset_abs pf) N \<and> iset_abs pf' = iset_abs pf - N \<and> iset_abs ids' = iset_abs ids \<union> N"
proof (induction pf ids want rule: alloc_loop.induct)
  case (1 pf ids want)
  show ?case
  proof (cases "want = 0")
    case True
    have "alloc_loop pf ids want = Some (pf, ids)"
      by (subst alloc_loop.simps) (simp add: True)
    moreover have "least_n want (iset_abs pf) {}" by (simp add: True least_n_def)
    ultimately show ?thesis
      using "1.prems"(1,2) by (intro exI [of _ pf] exI [of _ ids] exI [of _ "{}"]) simp
  next
    case False
    then have "iset_abs pf \<noteq> {}" using "1.prems"(4) by auto
    then obtain a l A where f: "range_start pf = Some a" "end_after pf a = Some (a + l)" "0 < l"
        "iset_abs pf = irange a l \<union> A" "\<forall>x \<in> A. a + l \<le> x" "finite A"
      using first_interval [OF "1.prems"(1)] by metis
    define num where "num = (if l > want then want else l)"
    have num: "0 < num" "num \<le> l" "num \<le> want" using False f(3) by (auto simp: num_def)
    have "irange a num \<subseteq> irange a l" using num(2) by auto
    then have sub: "irange a num \<subseteq> iset_abs pf" unfolding f(4) by (rule le_supI1)
    obtain pf1 where pf1: "erase_range pf a num = Some pf1" "iset_wf pf1"
        "iset_abs pf1 = iset_abs pf - irange a num"
      using iv.del_law [OF "1.prems"(1) num(1) sub] by blast
    have lim: "a + l < u64_limit"
      by (rule irange_limit [OF iset_wf_ivl_wf [OF "1.prems"(1)] f(3)]) (simp add: f(4))
    then have "a + num < u64_limit" "irange a num \<inter> iset_abs ids = {}" using num(2) sub "1.prems"(3) by (simp, blast)
    then obtain ids1 ps pl where ids1: "insert_range ids a num = Some (ids1, ps, pl)" "iset_wf ids1"
        "iset_abs ids1 = iset_abs ids \<union> irange a num"
      using insert_range_ok [OF "1.prems"(2) num(1)] by blast
    have disj: "iset_abs pf1 \<inter> iset_abs ids1 = {}" using pf1(3) ids1(3) "1.prems"(3) by blast
    have "card (iset_abs pf1) = card (iset_abs pf) - num"
      using pf1(3) sub by (simp add: card_Diff_subset)
    then have want: "want - num \<le> card (iset_abs pf1)" using "1.prems"(4) by simp
    have nums: "(if u64_sub (a + l) a > want then want else u64_sub (a + l) a) = num" using lim by (simp add: num_def)
    have unf: "alloc_loop pf ids want = alloc_loop pf1 ids1 (want - num)"
      using False f(1,2) pf1(1) ids1(1) nums
      by (simp add: alloc_loop.simps [of pf ids want] Let_def)
    have wpos: "want > 0" using False by simp
    note IH = "1.IH" [OF wpos f(1,2) nums [symmetric] pf1(1) ids1(1), unfolded fst_conv,
        OF pf1(2) ids1(2) disj want]
    obtain pf' ids' N where r: "alloc_loop pf1 ids1 (want - num) = Some (pf', ids')" "iset_wf pf'"
        "iset_wf ids'" "least_n (want - num) (iset_abs pf1) N" "iset_abs pf' = iset_abs pf1 - N"
        "iset_abs ids' = iset_abs ids1 \<union> N"
      using IH by (elim exE conjE) (rule that)
    have A1: "\<forall>x \<in> iset_abs pf1. a + num \<le> x"
    proof
      fix x assume "x \<in> iset_abs pf1"
      then have "x \<in> irange a l \<or> x \<in> A" "x \<notin> irange a num" using pf1(3) f(4) by auto
      then show "a + num \<le> x" using f(5) num(2) by auto
    qed
    have "irange a num \<union> iset_abs pf1 = iset_abs pf" using pf1(3) sub by blast
    then have "least_n want (iset_abs pf) (irange a num \<union> N)"
      using least_n_after [OF r(4) num(3) A1] by simp
    moreover have "iset_abs pf' = iset_abs pf - (irange a num \<union> N)" using r(5) pf1(3) by blast
    moreover have "iset_abs ids' = iset_abs ids \<union> (irange a num \<union> N)" using r(6) ids1(3) by blast
    moreover have "alloc_loop pf ids want = Some (pf', ids')" using unf r(1) by simp
    ultimately show ?thesis using r(2,3) by blast
  qed
qed

section \<open>Projection and application through the journal\<close>

text \<open>
  The metadata server writes one journal entry per projected update and applies the entries in the
  order of the journal.  A state is the table with the updates projected but not yet applied.
\<close>

datatype ino_update = Alloc_id nat | Alloc_ids iset | Release_ids iset

fun upd_ok :: "nat set \<Rightarrow> ino_update \<Rightarrow> bool" where
  "upd_ok A (Alloc_id i) \<longleftrightarrow> i \<in> A"
| "upd_ok A (Alloc_ids s) \<longleftrightarrow> iset_wf s \<and> iset_abs s \<subseteq> A"
| "upd_ok A (Release_ids s) \<longleftrightarrow> iset_wf s \<and> iset_abs s \<inter> A = {}"

fun upd_set :: "nat set \<Rightarrow> ino_update \<Rightarrow> nat set" where
  "upd_set A (Alloc_id i) = A - {i}"
| "upd_set A (Alloc_ids s) = A - iset_abs s"
| "upd_set A (Release_ids s) = A \<union> iset_abs s"

fun upds_ok :: "nat set \<Rightarrow> ino_update list \<Rightarrow> bool" where
  "upds_ok A [] \<longleftrightarrow> True"
| "upds_ok A (u # us) \<longleftrightarrow> upd_ok A u \<and> upds_ok (upd_set A u) us"

lemma upds_ok_snoc [simp]:
  "upds_ok A (us @ [u]) \<longleftrightarrow> upds_ok A us \<and> upd_ok (foldl upd_set A us) u"
  by (induction us arbitrary: A) auto

fun apply_update :: "ino_table \<Rightarrow> ino_update \<Rightarrow> ino_table option" where
  "apply_update t (Alloc_id i) = apply_alloc_id t i"
| "apply_update t (Alloc_ids s) = apply_alloc_ids t s"
| "apply_update t (Release_ids s) = apply_release_ids t s"

inductive ino_step :: "ino_table \<times> ino_update list \<Rightarrow> ino_table \<times> ino_update list \<Rightarrow> bool" where
  step_alloc_id: "project_alloc_id t ino = Some (t', i) \<Longrightarrow>
     ino_step (t, us) (t', us @ [Alloc_id i])"
| step_alloc_ids: "project_alloc_ids t iset_empty want = Some (t', s) \<Longrightarrow>
     want \<le> card (iset_abs (it_projected_free t)) \<Longrightarrow>
     ino_step (t, us) (t', us @ [Alloc_ids s])"
| step_release: "project_release_ids t s = Some t' \<Longrightarrow> iset_wf s \<Longrightarrow>
     iset_abs s \<inter> iset_abs (it_projected_free t) = {} \<Longrightarrow>
     ino_step (t, us) (t', us @ [Release_ids s])"
| step_apply: "apply_update t u = Some t' \<Longrightarrow> ino_step (t, u # us) (t', us)"

inductive ino_reach :: "ino_table \<Rightarrow> ino_table \<times> ino_update list \<Rightarrow> bool" for t0 where
  reach_start: "ino_reach t0 (t0, [])"
| reach_step: "ino_reach t0 s \<Longrightarrow> ino_step s s' \<Longrightarrow> ino_reach t0 s'"

definition journal_inv :: "ino_table \<times> ino_update list \<Rightarrow> bool" where
  "journal_inv s = (case s of (t, us) \<Rightarrow> it_wf t \<and> upds_ok (iset_abs (it_free t)) us \<and>
     iset_abs (it_projected_free t) = foldl upd_set (iset_abs (it_free t)) us \<and>
     it_projected_version t = it_version t + length us)"

lemma apply_update_ok:
  assumes "it_wf t" and "upd_ok (iset_abs (it_free t)) u"
  shows "\<exists>f. apply_update t u = Some (t\<lparr>it_free := f, it_version := it_version t + 1\<rparr>) \<and> iset_wf f \<and>
    iset_abs f = upd_set (iset_abs (it_free t)) u"
proof (cases u)
  case (Alloc_id i)
  then show ?thesis
    using erase_val_ok [of "it_free t" i] assms it_wf_simps(1) by (auto simp: apply_alloc_id_def)
next
  case (Alloc_ids s)
  then show ?thesis
    using subtract_ok [of "it_free t" s] assms it_wf_simps(1) by (auto simp: apply_alloc_ids_def)
next
  case (Release_ids s)
  then show ?thesis
    using insert_set_ok [of "it_free t" s] assms it_wf_simps(1) by (auto simp: apply_release_ids_def)
qed

lemma project_alloc_id_Some:
  assumes "it_wf t" and "project_alloc_id t ino = Some (t', i)"
  shows "i \<in> iset_abs (it_projected_free t)"
    and "\<exists>pf. t' = t\<lparr>it_projected_free := pf, it_projected_version := it_projected_version t + 1\<rparr> \<and>
      iset_wf pf \<and> iset_abs pf = iset_abs (it_projected_free t) - {i}"
  using assms erase_val_Some [OF it_wf_simps(2) [OF assms(1)], of i]
  by (auto simp: project_alloc_id_def bind_eq_Some_conv split: if_splits)

lemma project_alloc_ids_ok:
  assumes "it_wf t" and "it_active t" and "iset_wf ids"
    and "iset_abs (it_projected_free t) \<inter> iset_abs ids = {}"
    and "want \<le> card (iset_abs (it_projected_free t))"
  shows "\<exists>pf ids' N. project_alloc_ids t ids want =
      Some (t\<lparr>it_projected_free := pf, it_projected_version := it_projected_version t + 1\<rparr>, ids') \<and>
    iset_wf pf \<and> iset_wf ids' \<and> least_n want (iset_abs (it_projected_free t)) N \<and>
    iset_abs pf = iset_abs (it_projected_free t) - N \<and> iset_abs ids' = iset_abs ids \<union> N"
proof -
  obtain pf ids' N where "alloc_loop (it_projected_free t) ids want = Some (pf, ids')"
      "iset_wf pf" "iset_wf ids'" "least_n want (iset_abs (it_projected_free t)) N"
      "iset_abs pf = iset_abs (it_projected_free t) - N" "iset_abs ids' = iset_abs ids \<union> N"
    using alloc_loop_ok [OF it_wf_simps(2) [OF assms(1)] assms(3-5)] by blast
  with assms(2) show ?thesis
    by (intro exI [of _ pf] exI [of _ ids'] exI [of _ N]) (simp add: project_alloc_ids_def)
qed

lemma journal_inv_step:
  assumes "ino_step s s'" and "journal_inv s"
  shows "journal_inv s'"
  using assms
proof (induction rule: ino_step.induct)
  case (step_alloc_id t ino t' i us)
  then have wf: "it_wf t" by (simp add: journal_inv_def)
  obtain pf where "t' = t\<lparr>it_projected_free := pf,
        it_projected_version := it_projected_version t + 1\<rparr>" "iset_wf pf"
      "iset_abs pf = iset_abs (it_projected_free t) - {i}"
    using project_alloc_id_Some(2) [OF wf step_alloc_id(1)] by blast
  then show ?case
    using project_alloc_id_Some(1) [OF wf step_alloc_id(1)] step_alloc_id(2)
    by (simp add: journal_inv_def it_wf_def)
next
  case (step_alloc_ids t want t' s us)
  then have wf: "it_wf t" and act: "it_active t"
    by (auto simp: journal_inv_def project_alloc_ids_def)
  obtain pf ids N where r: "project_alloc_ids t iset_empty want =
        Some (t\<lparr>it_projected_free := pf, it_projected_version := it_projected_version t + 1\<rparr>, ids)"
      "iset_wf pf" "iset_wf ids" "least_n want (iset_abs (it_projected_free t)) N"
      "iset_abs pf = iset_abs (it_projected_free t) - N" "iset_abs ids = iset_abs iset_empty \<union> N"
    using project_alloc_ids_ok [OF wf act iset_wf_empty _ step_alloc_ids(2)] by auto
  have "N \<subseteq> iset_abs (it_projected_free t)" using r(4) by (simp add: least_n_def)
  then show ?case
    using r step_alloc_ids(1,3) by (simp add: journal_inv_def it_wf_def)
next
  case (step_release t s t' us)
  then have wf: "it_wf t" by (simp add: journal_inv_def)
  obtain pf where "insert_set (it_projected_free t) s = Some pf" "iset_wf pf"
      "iset_abs pf = iset_abs (it_projected_free t) \<union> iset_abs s"
    using insert_set_ok [OF it_wf_simps(2) [OF wf] step_release(2,3)] by blast
  then show ?case
    using step_release by (clarsimp simp: journal_inv_def it_wf_def project_release_ids_def)
next
  case (step_apply t u t' us)
  then have wf: "it_wf t" and ok: "upd_ok (iset_abs (it_free t)) u" by (auto simp: journal_inv_def)
  obtain f where "apply_update t u = Some (t\<lparr>it_free := f, it_version := it_version t + 1\<rparr>)"
      "iset_wf f" "iset_abs f = upd_set (iset_abs (it_free t)) u"
    using apply_update_ok [OF wf ok] by blast
  then show ?case
    using step_apply by (clarsimp simp: journal_inv_def it_wf_def)
qed

lemma ino_reach_inv:
  assumes "ino_reach t0 s" and "it_wf t0" and "it_projected_free t0 = it_free t0"
    and "it_projected_version t0 = it_version t0"
  shows "journal_inv s"
  using assms(1)
proof (induction rule: ino_reach.induct)
  case reach_start
  then show ?case using assms(2-4) by (simp add: journal_inv_def)
next
  case (reach_step s s')
  then show ?case by (blast intro: journal_inv_step)
qed

fun apply_updates :: "ino_table \<Rightarrow> ino_update list \<Rightarrow> ino_table option" where
  "apply_updates t [] = Some t"
| "apply_updates t (u # us) = apply_update t u \<bind> (\<lambda>t. apply_updates t us)"

lemma apply_updates_ok:
  "it_wf t \<Longrightarrow> upds_ok (iset_abs (it_free t)) us \<Longrightarrow>
   \<exists>f. apply_updates t us = Some (t\<lparr>it_free := f, it_version := it_version t + length us\<rparr>) \<and>
     iset_wf f \<and> iset_abs f = foldl upd_set (iset_abs (it_free t)) us"
proof (induction us arbitrary: t)
  case Nil
  then show ?case using it_wf_simps(1) [of t] by (intro exI [of _ "it_free t"]) simp
next
  case (Cons u us)
  then obtain f where f: "apply_update t u = Some (t\<lparr>it_free := f, it_version := it_version t + 1\<rparr>)"
      "iset_wf f" "iset_abs f = upd_set (iset_abs (it_free t)) u"
    using apply_update_ok [of t u] by auto
  let ?t = "t\<lparr>it_free := f, it_version := it_version t + 1\<rparr>"
  have "it_wf ?t" using f(2) Cons.prems(1) by (simp add: it_wf_def)
  moreover have "upds_ok (iset_abs (it_free ?t)) us" using Cons.prems(2) f(3) by simp
  ultimately obtain g where
    "apply_updates ?t us = Some (?t\<lparr>it_free := g, it_version := it_version ?t + length us\<rparr>)"
    "iset_wf g" "iset_abs g = foldl upd_set (iset_abs (it_free ?t)) us"
    using Cons.IH by blast
  with f show ?case by (intro exI [of _ g]) simp
qed

section \<open>Properties\<close>

text \<open>
  Property C29. From a table whose two views agree, after any interleaving of projected updates and
  in-order applications, applying the outstanding journal entries never trips an assertion and ends
  with \<open>free\<close> equal to \<open>projected_free\<close> and the two versions equal.
\<close>

theorem ino_journal_catches_up:
  assumes "it_wf t0" and "it_projected_free t0 = it_free t0"
    and "it_projected_version t0 = it_version t0" and "ino_reach t0 (t, us)"
  shows "\<exists>t'. apply_updates t us = Some t' \<and> it_free t' = it_projected_free t \<and>
    it_projected_free t' = it_projected_free t \<and> it_version t' = it_projected_version t'"
proof -
  have inv: "it_wf t" "upds_ok (iset_abs (it_free t)) us"
      "iset_abs (it_projected_free t) = foldl upd_set (iset_abs (it_free t)) us"
      "it_projected_version t = it_version t + length us"
    using ino_reach_inv [OF assms(4,1-3)] by (simp_all add: journal_inv_def)
  obtain f where f: "apply_updates t us = Some (t\<lparr>it_free := f, it_version := it_version t + length us\<rparr>)"
      "iset_wf f" "iset_abs f = foldl upd_set (iset_abs (it_free t)) us"
    using apply_updates_ok [OF inv(1,2)] by blast
  have "f = it_projected_free t"
    using f(3) inv(3) by (intro iset_eqI [OF f(2) it_wf_simps(2) [OF inv(1)]]) simp
  with f(1) inv(4) show ?thesis by simp
qed

definition ino_example :: ino_table where
  "ino_example = \<lparr>it_rank = 0, it_active = True, it_online = True,
     it_free = \<lparr>iset_size = 8, iset_m = [(100, 8)]\<rparr>,
     it_projected_free = \<lparr>iset_size = 8, iset_m = [(100, 8)]\<rparr>,
     it_version = 4, it_projected_version = 4\<rparr>"

lemma it_wf_example: "it_wf ino_example"
  by (simp add: it_wf_def ino_example_def iset_wf_def u64_limit_def)

theorem ino_journal_catches_up_witness:
  "\<exists>t t'. ino_reach ino_example (t, [Alloc_id 100]) \<and> apply_updates t [Alloc_id 100] = Some t' \<and>
     it_free t' = it_projected_free t \<and> it_version t' = 5"
proof -
  let ?t = "ino_example\<lparr>it_projected_free := \<lparr>iset_size = 7, iset_m = [(101, 7)]\<rparr>,
     it_projected_version := 5\<rparr>"
  have "project_alloc_id ino_example 0 = Some (?t, 100)"
    by (simp add: project_alloc_id_def ino_example_def range_start_def erase_val_def
        erase_range_def erase_claim_def find_inc_def map_lower_bound_def map_erase_at_def u64_limit_def)
  then have "ino_step (ino_example, []) (?t, [] @ [Alloc_id 100])" by (rule step_alloc_id)
  then have r: "ino_reach ino_example (?t, [Alloc_id 100])"
    using reach_start reach_step by fastforce
  have "it_projected_free ino_example = it_free ino_example"
    and "it_projected_version ino_example = it_version ino_example" by (simp_all add: ino_example_def)
  from ino_journal_catches_up [OF it_wf_example this r] obtain t' where
    "apply_updates ?t [Alloc_id 100] = Some t'" "it_free t' = it_projected_free ?t"
    "it_projected_free t' = it_projected_free ?t" "it_version t' = it_projected_version t'" by blast
  moreover from this(1) have "it_version t' = 5"
    by (auto simp: apply_alloc_id_def bind_eq_Some_conv ino_example_def)
  ultimately show ?thesis using r by blast
qed

text \<open>
  Property C30. \<open>project_alloc_ids\<close> hands out exactly the \<open>want\<close> lowest projected-free inode
  numbers: none of them stays projected free, none was in the caller's set before, and the loop ends
  whenever enough numbers are free.  Both sets are well formed, that is, their intervals end below \<open>2 ^ 64\<close>,
  so the 64-bit ends and lengths that the loop computes do not wrap.
\<close>

theorem project_alloc_ids_fresh:
  assumes "it_wf t" and "it_active t" and "iset_wf ids"
    and "iset_abs (it_projected_free t) \<inter> iset_abs ids = {}"
    and "want \<le> card (iset_abs (it_projected_free t))"
  shows "\<exists>t' ids' N. project_alloc_ids t ids want = Some (t', ids') \<and> it_wf t' \<and> iset_wf ids' \<and>
    card N = want \<and> least_n want (iset_abs (it_projected_free t)) N \<and>
    iset_abs ids' = iset_abs ids \<union> N \<and> iset_abs (it_projected_free t') = iset_abs (it_projected_free t) - N \<and>
    it_free t' = it_free t"
proof -
  obtain pf ids' N where r: "project_alloc_ids t ids want =
        Some (t\<lparr>it_projected_free := pf, it_projected_version := it_projected_version t + 1\<rparr>, ids')"
      "iset_wf pf" "iset_wf ids'" "least_n want (iset_abs (it_projected_free t)) N"
      "iset_abs pf = iset_abs (it_projected_free t) - N" "iset_abs ids' = iset_abs ids \<union> N"
    using project_alloc_ids_ok [OF assms] by blast
  have "card N = want" using r(4) assms(5) by (simp add: least_n_def)
  with r assms(1) show ?thesis
    by (intro exI [of _ "t\<lparr>it_projected_free := pf,
        it_projected_version := it_projected_version t + 1\<rparr>"] exI [of _ ids'] exI [of _ N])
      (simp add: it_wf_def)
qed

theorem project_alloc_ids_fresh_witness:
  "\<exists>t' ids' N. project_alloc_ids ino_example iset_empty 3 = Some (t', ids') \<and> card N = 3 \<and>
     iset_abs ids' = N \<and> N \<subseteq> {100..<108}"
proof -
  have "3 \<le> card (iset_abs (it_projected_free ino_example))" by (simp add: ino_example_def)
  moreover have "it_active ino_example" by (simp add: ino_example_def)
  ultimately obtain t' ids' N where
    "project_alloc_ids ino_example iset_empty 3 = Some (t', ids')" "card N = 3"
    "least_n 3 (iset_abs (it_projected_free ino_example)) N" "iset_abs ids' = iset_abs iset_empty \<union> N"
    using project_alloc_ids_fresh [OF it_wf_example _ iset_wf_empty, of 3] by auto
  moreover have "iset_abs (it_projected_free ino_example) = {100..<108}" by (simp add: ino_example_def)
  ultimately show ?thesis by (simp add: least_n_def)
qed

text \<open>
  The initial ranges of two different metadata-server ranks are disjoint, so no two ranks
  ever hand out the same inode number from a freshly reset table (for ranks whose range ends below
  \<open>2 ^ 64\<close>).
\<close>

lemma reset_state_ranks_disjoint:
  assumes "it_rank t1 < 2 ^ 24 - 2" and "it_rank t2 < 2 ^ 24 - 2" and "it_rank t1 \<noteq> it_rank t2"
  shows "\<exists>t1' t2'. it_reset_state t1 = Some t1' \<and> it_reset_state t2 = Some t2' \<and>
    it_wf t1' \<and> it_wf t2' \<and> iset_abs (it_free t1') \<inter> iset_abs (it_free t2') = {}"
proof -
  have reset: "\<exists>t'. it_reset_state t = Some t' \<and> it_wf t' \<and>
      iset_abs (it_free t') = irange ((it_rank t + 1) * 2 ^ 40) (2 ^ 40)"
    if "it_rank t < 2 ^ 24 - 2" for t
  proof -
    have m: "u64_of ((it_rank t + 1) * 2 ^ 40) = (it_rank t + 1) * 2 ^ 40"
      and lim: "(it_rank t + 1) * 2 ^ 40 + 2 ^ 40 < u64_limit"
      using that by (simp_all add: u64_limit_def)
    obtain f ps pl where "insert_range iset_empty ((it_rank t + 1) * 2 ^ 40) (2 ^ 40) = Some (f, ps, pl)"
        "iset_wf f" "iset_abs f = iset_abs iset_empty \<union> irange ((it_rank t + 1) * 2 ^ 40) (2 ^ 40)"
      using insert_range_ok [OF iset_wf_empty _ lim] by auto
    then show ?thesis
      unfolding it_reset_state_def m by (simp add: it_wf_def)
  qed
  have lt: "irange ((a + 1) * 2 ^ 40) (2 ^ 40) \<inter> irange ((b + 1) * 2 ^ 40) (2 ^ 40) = {}"
    if "a < b" for a b :: nat
  proof -
    have "(a + 1) * 2 ^ 40 + 2 ^ 40 \<le> (b + 1) * (2 ^ 40 :: nat)" using that by simp
    then show ?thesis by (simp add: Int_atLeastLessThan)
  qed
  show ?thesis
    using reset [OF assms(1)] reset [OF assms(2)] lt [of "it_rank t1" "it_rank t2"]
      lt [of "it_rank t2" "it_rank t1"] assms(3)
    by (metis Int_commute linorder_neqE_nat)
qed

end
