(* ===== verification/Crush_Hash.thy ===== *)
theory Crush_Hash
  imports Prelude "HOL-Library.Word"
begin

text \<open>
  The hash functions that placement is built on: Robert Jenkins' mix on 32-bit words
  (\<open>crush/hash.c\<close>) with its one- to five-argument forms, and the string hashes of object names
  (\<open>common/ceph_hash.cc\<close>).  Unsigned C arithmetic is arithmetic on \<open>32 word\<close>, which wraps as C
  does; a C \<open>int\<close> handed to an unsigned parameter is converted with \<^term>\<open>word_of_int\<close>.  The
  string hash reads its key through checked accesses, so a read past the key is \<^term>\<open>None\<close>.
\<close>

unbundle bit_operations_syntax

type_synonym u8 = "8 word"
type_synonym u32 = "32 word"
type_synonym u64 = "64 word"

section \<open>crush/hash.c\<close>

text \<open>
  The lines of the macro, each an assignment to one of the three variables:
  \<open>a = a-b; a = a-c; a = a^(sh c)\<close> and its two rotations.
\<close>

definition mix_a :: "(u32 \<Rightarrow> u32) \<Rightarrow> u32 \<times> u32 \<times> u32 \<Rightarrow> u32 \<times> u32 \<times> u32" where
  "mix_a sh = (\<lambda>(a, b, c). ((a - b - c) XOR sh c, b, c))"

definition mix_b :: "(u32 \<Rightarrow> u32) \<Rightarrow> u32 \<times> u32 \<times> u32 \<Rightarrow> u32 \<times> u32 \<times> u32" where
  "mix_b sh = (\<lambda>(a, b, c). (a, (b - c - a) XOR sh a, c))"

definition mix_c :: "(u32 \<Rightarrow> u32) \<Rightarrow> u32 \<times> u32 \<times> u32 \<Rightarrow> u32 \<times> u32 \<times> u32" where
  "mix_c sh = (\<lambda>(a, b, c). (a, b, (c - a - b) XOR sh b))"

definition crush_hashmix :: "u32 \<Rightarrow> u32 \<Rightarrow> u32 \<Rightarrow> u32 \<times> u32 \<times> u32" where
  "crush_hashmix a b c =
    (let s = (a, b, c);
         s = mix_a (drop_bit 13) s; s = mix_b (push_bit 8) s; s = mix_c (drop_bit 13) s;
         s = mix_a (drop_bit 12) s; s = mix_b (push_bit 16) s; s = mix_c (drop_bit 5) s;
         s = mix_a (drop_bit 3) s; s = mix_b (push_bit 10) s; s = mix_c (drop_bit 15) s
     in s)"

definition crush_hash_seed :: u32 where
  "crush_hash_seed = 1315423911"

definition crush_hash32_rjenkins1 :: "u32 \<Rightarrow> u32" where
  "crush_hash32_rjenkins1 a =
    (let hash = crush_hash_seed XOR a; b = a; x = 231232; y = 1232;
         (b, x, hash) = crush_hashmix b x hash;
         (y, a, hash) = crush_hashmix y a hash
     in hash)"

definition crush_hash32_rjenkins1_2 :: "u32 \<Rightarrow> u32 \<Rightarrow> u32" where
  "crush_hash32_rjenkins1_2 a b =
    (let hash = crush_hash_seed XOR a XOR b; x = 231232; y = 1232;
         (a, b, hash) = crush_hashmix a b hash;
         (x, a, hash) = crush_hashmix x a hash;
         (b, y, hash) = crush_hashmix b y hash
     in hash)"

definition crush_hash32_rjenkins1_3 :: "u32 \<Rightarrow> u32 \<Rightarrow> u32 \<Rightarrow> u32" where
  "crush_hash32_rjenkins1_3 a b c =
    (let hash = crush_hash_seed XOR a XOR b XOR c; x = 231232; y = 1232;
         (a, b, hash) = crush_hashmix a b hash;
         (c, x, hash) = crush_hashmix c x hash;
         (y, a, hash) = crush_hashmix y a hash;
         (b, x, hash) = crush_hashmix b x hash;
         (y, c, hash) = crush_hashmix y c hash
     in hash)"

definition crush_hash32_rjenkins1_4 :: "u32 \<Rightarrow> u32 \<Rightarrow> u32 \<Rightarrow> u32 \<Rightarrow> u32" where
  "crush_hash32_rjenkins1_4 a b c d =
    (let hash = crush_hash_seed XOR a XOR b XOR c XOR d; x = 231232; y = 1232;
         (a, b, hash) = crush_hashmix a b hash;
         (c, d, hash) = crush_hashmix c d hash;
         (a, x, hash) = crush_hashmix a x hash;
         (y, b, hash) = crush_hashmix y b hash;
         (c, x, hash) = crush_hashmix c x hash;
         (y, d, hash) = crush_hashmix y d hash
     in hash)"

definition crush_hash32_rjenkins1_5 :: "u32 \<Rightarrow> u32 \<Rightarrow> u32 \<Rightarrow> u32 \<Rightarrow> u32 \<Rightarrow> u32" where
  "crush_hash32_rjenkins1_5 a b c d e =
    (let hash = crush_hash_seed XOR a XOR b XOR c XOR d XOR e; x = 231232; y = 1232;
         (a, b, hash) = crush_hashmix a b hash;
         (c, d, hash) = crush_hashmix c d hash;
         (e, x, hash) = crush_hashmix e x hash;
         (y, a, hash) = crush_hashmix y a hash;
         (b, x, hash) = crush_hashmix b x hash;
         (y, c, hash) = crush_hashmix y c hash;
         (d, x, hash) = crush_hashmix d x hash;
         (y, e, hash) = crush_hashmix y e hash
     in hash)"

definition CRUSH_HASH_RJENKINS1 :: nat where
  "CRUSH_HASH_RJENKINS1 = 0"

definition crush_hash32 :: "nat \<Rightarrow> u32 \<Rightarrow> u32" where
  "crush_hash32 ty a = (if ty = CRUSH_HASH_RJENKINS1 then crush_hash32_rjenkins1 a else 0)"

definition crush_hash32_2 :: "nat \<Rightarrow> u32 \<Rightarrow> u32 \<Rightarrow> u32" where
  "crush_hash32_2 ty a b = (if ty = CRUSH_HASH_RJENKINS1 then crush_hash32_rjenkins1_2 a b else 0)"

definition crush_hash32_3 :: "nat \<Rightarrow> u32 \<Rightarrow> u32 \<Rightarrow> u32 \<Rightarrow> u32" where
  "crush_hash32_3 ty a b c =
    (if ty = CRUSH_HASH_RJENKINS1 then crush_hash32_rjenkins1_3 a b c else 0)"

definition crush_hash32_4 :: "nat \<Rightarrow> u32 \<Rightarrow> u32 \<Rightarrow> u32 \<Rightarrow> u32 \<Rightarrow> u32" where
  "crush_hash32_4 ty a b c d =
    (if ty = CRUSH_HASH_RJENKINS1 then crush_hash32_rjenkins1_4 a b c d else 0)"

definition crush_hash32_5 :: "nat \<Rightarrow> u32 \<Rightarrow> u32 \<Rightarrow> u32 \<Rightarrow> u32 \<Rightarrow> u32 \<Rightarrow> u32" where
  "crush_hash32_5 ty a b c d e =
    (if ty = CRUSH_HASH_RJENKINS1 then crush_hash32_rjenkins1_5 a b c d e else 0)"

definition crush_hash_name :: "nat \<Rightarrow> string" where
  "crush_hash_name ty = (if ty = CRUSH_HASH_RJENKINS1 then ''rjenkins1'' else ''unknown'')"

section \<open>common/ceph\_hash.cc\<close>

definition rjenkins_mix :: "u32 \<Rightarrow> u32 \<Rightarrow> u32 \<Rightarrow> u32 \<times> u32 \<times> u32" where
  "rjenkins_mix a b c =
    (let s = (a, b, c);
         s = mix_a (drop_bit 13) s; s = mix_b (push_bit 8) s; s = mix_c (drop_bit 13) s;
         s = mix_a (drop_bit 12) s; s = mix_b (push_bit 16) s; s = mix_c (drop_bit 5) s;
         s = mix_a (drop_bit 3) s; s = mix_b (push_bit 10) s; s = mix_c (drop_bit 15) s
     in s)"

text \<open>Four key bytes read as a little-endian word.\<close>

definition rjenkins_word :: "u8 list \<Rightarrow> nat \<Rightarrow> u32 option" where
  "rjenkins_word k i =
    do { k0 \<leftarrow> arr_get k i; k1 \<leftarrow> arr_get k (i + 1);
         k2 \<leftarrow> arr_get k (i + 2); k3 \<leftarrow> arr_get k (i + 3);
         Some (ucast k0 + push_bit 8 (ucast k1) + push_bit 16 (ucast k2) + push_bit 24 (ucast k3)) }"

text \<open>The main loop; the key pointer \<open>k\<close> is the rest of the key.\<close>

function (sequential) rjenkins_loop ::
  "u8 list \<Rightarrow> nat \<Rightarrow> u32 \<Rightarrow> u32 \<Rightarrow> u32 \<Rightarrow> (u8 list \<times> nat \<times> u32 \<times> u32 \<times> u32) option"
where
  "rjenkins_loop k len a b c =
    (if 12 \<le> len then
       do { wa \<leftarrow> rjenkins_word k 0; wb \<leftarrow> rjenkins_word k 4; wc \<leftarrow> rjenkins_word k 8;
            let (a, b, c) = rjenkins_mix (a + wa) (b + wb) (c + wc);
            rjenkins_loop (drop 12 k) (len - 12) a b c }
     else Some (k, len, a, b, c))"
  by pat_completeness auto
termination
  by (relation "measure (\<lambda>(k, len, a, b, c). len)") auto

declare rjenkins_loop.simps [simp del]

text \<open>One label of the fall-through switch: byte \<open>i\<close> is added when \<open>i < len\<close>.\<close>

definition rjenkins_tail :: "u8 list \<Rightarrow> nat \<Rightarrow> nat \<Rightarrow> nat \<Rightarrow> u32 option" where
  "rjenkins_tail k len i sh =
    (if i < len then map_option (\<lambda>b. push_bit sh (ucast b)) (arr_get k i) else Some 0)"

definition ceph_str_hash_rjenkins :: "u8 list \<Rightarrow> nat \<Rightarrow> u32 option" where
  "ceph_str_hash_rjenkins str n =
    do { let a = 0x9e3779b9;
         (k, len, a, b, c) \<leftarrow> rjenkins_loop str n a a 0;
         let c = c + word_of_nat n;
         t10 \<leftarrow> rjenkins_tail k len 10 24; t9 \<leftarrow> rjenkins_tail k len 9 16;
         t8 \<leftarrow> rjenkins_tail k len 8 8;
         t7 \<leftarrow> rjenkins_tail k len 7 24; t6 \<leftarrow> rjenkins_tail k len 6 16;
         t5 \<leftarrow> rjenkins_tail k len 5 8; t4 \<leftarrow> rjenkins_tail k len 4 0;
         t3 \<leftarrow> rjenkins_tail k len 3 24; t2 \<leftarrow> rjenkins_tail k len 2 16;
         t1 \<leftarrow> rjenkins_tail k len 1 8; t0 \<leftarrow> rjenkins_tail k len 0 0;
         let (a, b, c) = rjenkins_mix (a + t3 + t2 + t1 + t0) (b + t7 + t6 + t5 + t4)
                                      (c + t10 + t9 + t8);
         Some c }"

fun linux_hash_loop :: "u8 list \<Rightarrow> nat \<Rightarrow> u32 \<Rightarrow> u32 option" where
  "linux_hash_loop str 0 hash = Some hash"
| "linux_hash_loop [] (Suc n) hash = None"
| "linux_hash_loop (c # str) (Suc n) hash =
    linux_hash_loop str n ((hash + push_bit 4 (ucast c) + ucast (drop_bit 4 c)) * 11)"

definition ceph_str_hash_linux :: "u8 list \<Rightarrow> nat \<Rightarrow> u32 option" where
  "ceph_str_hash_linux str n = linux_hash_loop str n 0"

definition CEPH_STR_HASH_LINUX :: nat where
  "CEPH_STR_HASH_LINUX = 1"

definition CEPH_STR_HASH_RJENKINS :: nat where
  "CEPH_STR_HASH_RJENKINS = 2"

definition ceph_str_hash :: "nat \<Rightarrow> u8 list \<Rightarrow> nat \<Rightarrow> u32 option" where
  "ceph_str_hash ty s len =
    (if ty = CEPH_STR_HASH_LINUX then ceph_str_hash_linux s len
     else if ty = CEPH_STR_HASH_RJENKINS then ceph_str_hash_rjenkins s len
     else Some (- 1))"

definition ceph_str_hash_name :: "nat \<Rightarrow> string" where
  "ceph_str_hash_name ty =
    (if ty = CEPH_STR_HASH_LINUX then ''linux''
     else if ty = CEPH_STR_HASH_RJENKINS then ''rjenkins'' else ''unknown'')"

definition ceph_str_hash_valid :: "nat \<Rightarrow> bool" where
  "ceph_str_hash_valid ty \<longleftrightarrow> ty = CEPH_STR_HASH_LINUX \<or> ty = CEPH_STR_HASH_RJENKINS"

section \<open>The mix loses no information\<close>

text \<open>The assignments that undo the lines of the mix.\<close>

definition unmix_a :: "(u32 \<Rightarrow> u32) \<Rightarrow> u32 \<times> u32 \<times> u32 \<Rightarrow> u32 \<times> u32 \<times> u32" where
  "unmix_a sh = (\<lambda>(a, b, c). ((a XOR sh c) + c + b, b, c))"

definition unmix_b :: "(u32 \<Rightarrow> u32) \<Rightarrow> u32 \<times> u32 \<times> u32 \<Rightarrow> u32 \<times> u32 \<times> u32" where
  "unmix_b sh = (\<lambda>(a, b, c). (a, (b XOR sh a) + a + c, c))"

definition unmix_c :: "(u32 \<Rightarrow> u32) \<Rightarrow> u32 \<times> u32 \<times> u32 \<Rightarrow> u32 \<times> u32 \<times> u32" where
  "unmix_c sh = (\<lambda>(a, b, c). (a, b, (c XOR sh b) + b + a))"

lemma unmix_mix [simp]:
  "unmix_a sh (mix_a sh s) = s" "unmix_b sh (mix_b sh s) = s" "unmix_c sh (mix_c sh s) = s"
  by (simp_all add: mix_a_def mix_b_def mix_c_def unmix_a_def unmix_b_def unmix_c_def
      split_beta xor.assoc)

lemma mix_unmix [simp]:
  "mix_a sh (unmix_a sh s) = s" "mix_b sh (unmix_b sh s) = s" "mix_c sh (unmix_c sh s) = s"
  by (simp_all add: mix_a_def mix_b_def mix_c_def unmix_a_def unmix_b_def unmix_c_def
      split_beta xor.assoc)

text \<open>The inverse of the mix: the nine lines undone from the last to the first.\<close>

definition crush_hashunmix :: "u32 \<Rightarrow> u32 \<Rightarrow> u32 \<Rightarrow> u32 \<times> u32 \<times> u32" where
  "crush_hashunmix a b c =
    (let s = (a, b, c);
         s = unmix_c (drop_bit 15) s; s = unmix_b (push_bit 10) s; s = unmix_a (drop_bit 3) s;
         s = unmix_c (drop_bit 5) s; s = unmix_b (push_bit 16) s; s = unmix_a (drop_bit 12) s;
         s = unmix_c (drop_bit 13) s; s = unmix_b (push_bit 8) s; s = unmix_a (drop_bit 13) s
     in s)"

lemma rjenkins_mix_eq: "rjenkins_mix = crush_hashmix"
  by (intro ext) (simp only: rjenkins_mix_def crush_hashmix_def)

text \<open>
  Property C35.  The mix of \<open>crush/hash.c\<close> is a bijection on triples of 32-bit words:
  \<open>crush_hashunmix\<close> recovers the three inputs from the three outputs, and the mix recovers
  them the other way, so no entropy of the inputs is lost by a round.
\<close>

theorem crush_hashmix_roundtrip:
  "(case crush_hashmix a b c of (a', b', c') \<Rightarrow> crush_hashunmix a' b' c') = (a, b, c) \<and>
   (case crush_hashunmix a b c of (a', b', c') \<Rightarrow> crush_hashmix a' b' c') = (a, b, c)"
  by (simp add: crush_hashmix_def crush_hashunmix_def Let_def split_beta)

section \<open>The string hash stays inside its key\<close>

lemma rjenkins_word_Some: "i + 4 \<le> length k \<Longrightarrow> \<exists>w. rjenkins_word k i = Some w"
  by (simp add: rjenkins_word_def)

lemma rjenkins_tail_Some: "length k = len \<Longrightarrow> \<exists>w. rjenkins_tail k len i sh = Some w"
  by (simp add: rjenkins_tail_def)

lemma rjenkins_loop_Some:
  "length k = len \<Longrightarrow>
    \<exists>k' a' b' c'. rjenkins_loop k len a b c = Some (k', len mod 12, a', b', c')
      \<and> length k' = len mod 12"
proof (induction k len a b c rule: rjenkins_loop.induct)
  case (1 k len a b c)
  show ?case
  proof (cases "12 \<le> len")
    case True
    obtain wa wb wc where w: "rjenkins_word k 0 = Some wa" "rjenkins_word k 4 = Some wb"
        "rjenkins_word k 8 = Some wc"
      using rjenkins_word_Some[of 0 k] rjenkins_word_Some[of 4 k] rjenkins_word_Some[of 8 k]
        1(2) True by auto
    obtain a' b' c' where m: "rjenkins_mix (a + wa) (b + wb) (c + wc) = (a', b', c')"
      by (metis prod_cases3)
    have "\<exists>k' a'' b'' c''. rjenkins_loop (drop 12 k) (len - 12) a' b' c' =
        Some (k', (len - 12) mod 12, a'', b'', c'') \<and> length k' = (len - 12) mod 12"
      using 1(1)[OF True, of wa wb wc "(a', b', c')" a' "(b', c')" b' c'] m w 1(2) by simp
    then show ?thesis
      using True w m by (subst rjenkins_loop.simps) (simp add: mod_if[of len])
  next
    case False
    then show ?thesis
      using 1(2) by (subst rjenkins_loop.simps) simp
  qed
qed

lemma linux_hash_loop_Some: "length str = n \<Longrightarrow> \<exists>h. linux_hash_loop str n hash = Some h"
  by (induction str n hash rule: linux_hash_loop.induct) auto

text \<open>
  Hashing an object name with its own length reads only the bytes of the name,
  for every hash type, whatever the length of the name (twelve-byte blocks and the tail of the
  fall-through switch alike): the hash always returns.
\<close>

lemma ceph_str_hash_reads_only_key:
  "\<exists>h. ceph_str_hash ty s (length s) = Some h"
proof -
  obtain k a b c where l: "rjenkins_loop s (length s) 0x9e3779b9 0x9e3779b9 0 =
      Some (k, length s mod 12, a, b, c)" and k: "length k = length s mod 12"
    using rjenkins_loop_Some[of s "length s" "0x9e3779b9" "0x9e3779b9" 0] by auto
  obtain f where f: "\<And>i sh. rjenkins_tail k (length s mod 12) i sh = Some (f i sh)"
    using rjenkins_tail_Some[OF k] by metis
  have "\<exists>h. ceph_str_hash_rjenkins s (length s) = Some h"
    unfolding ceph_str_hash_rjenkins_def Let_def l by (simp add: f split_beta)
  then show ?thesis
    using linux_hash_loop_Some[of s "length s" 0]
    by (auto simp: ceph_str_hash_def ceph_str_hash_linux_def)
qed

end
