(* ===== verification/Crush_Map.thy ===== *)
theory Crush_Map
  imports Crush_Hash
begin

text \<open>
  The CRUSH map as \<open>crush/crush.h\<close> declares it, and the accessors of \<open>crush/crush.c\<close>.  A
  \<open>crush_bucket\<close> and the algorithm-specific structure that embeds it are one record whose
  \<open>bucket_alg\<close> carries the extra fields; \<open>size\<close> is the length of the item array.  A C \<open>int\<close> is
  an \<^typ>\<open>int\<close>, wrapped to 32 bits by \<open>s32\<close> where the code adds to it; an item that is
  hashed is converted to an unsigned word.  The tunables are unbounded counters.
\<close>

section \<open>crush/crush.h\<close>

definition CRUSH_ITEM_UNDEF :: int where
  "CRUSH_ITEM_UNDEF = 0x7ffffffe"

definition CRUSH_ITEM_NONE :: int where
  "CRUSH_ITEM_NONE = 0x7fffffff"

definition CRUSH_MAX_RULES :: nat where
  "CRUSH_MAX_RULES = 256"

datatype crush_opcodes =
    CRUSH_RULE_NOOP
  | CRUSH_RULE_TAKE
  | CRUSH_RULE_CHOOSE_FIRSTN
  | CRUSH_RULE_CHOOSE_INDEP
  | CRUSH_RULE_EMIT
  | CRUSH_RULE_CHOOSELEAF_FIRSTN
  | CRUSH_RULE_CHOOSELEAF_INDEP
  | CRUSH_RULE_SET_CHOOSE_TRIES
  | CRUSH_RULE_SET_CHOOSELEAF_TRIES
  | CRUSH_RULE_SET_CHOOSE_LOCAL_TRIES
  | CRUSH_RULE_SET_CHOOSE_LOCAL_FALLBACK_TRIES
  | CRUSH_RULE_SET_CHOOSELEAF_VARY_R
  | CRUSH_RULE_SET_CHOOSELEAF_STABLE
  | CRUSH_RULE_UNKNOWN nat

record crush_rule_step =
  step_op :: crush_opcodes
  step_arg1 :: int
  step_arg2 :: int

record crush_rule =
  rule_type :: nat
  rule_steps :: "crush_rule_step list"

datatype crush_algorithm =
    CRUSH_BUCKET_UNIFORM (uniform_item_weight: u32)
  | CRUSH_BUCKET_LIST (list_item_weights: "u32 list") (list_sum_weights: "u32 list")
  | CRUSH_BUCKET_TREE (tree_num_nodes: u8) (tree_node_weights: "u32 list")
  | CRUSH_BUCKET_STRAW (straw_item_weights: "u32 list") (straw_straws: "u32 list")
  | CRUSH_BUCKET_STRAW2 (straw2_item_weights: "u32 list")
  | CRUSH_BUCKET_UNKNOWN nat

record crush_bucket =
  bucket_id :: int
  bucket_type :: int
  bucket_alg :: crush_algorithm
  bucket_hash :: nat
  bucket_weight :: u32
  bucket_items :: "int list"

abbreviation bucket_size :: "crush_bucket \<Rightarrow> nat" where
  "bucket_size b \<equiv> length (bucket_items b)"

record crush_choose_arg =
  arg_ids :: "int list option"
  arg_weight_set :: "u32 list list option"

record crush_map =
  map_buckets :: "crush_bucket option list"
  map_rules :: "crush_rule option list"
  max_devices :: int
  choose_local_tries :: nat
  choose_local_fallback_tries :: nat
  choose_total_tries :: nat
  chooseleaf_descend_once :: bool
  chooseleaf_vary_r :: nat
  chooseleaf_stable :: nat
  working_size :: nat
  straw_calc_version :: nat
  allowed_bucket_algs :: u32

abbreviation max_buckets :: "crush_map \<Rightarrow> nat" where
  "max_buckets m \<equiv> length (map_buckets m)"

abbreviation max_rules :: "crush_map \<Rightarrow> nat" where
  "max_rules m \<equiv> length (map_rules m)"

record crush_work_bucket =
  perm_x :: u32
  perm_n :: nat
  perm :: "nat list"

definition crush_calc_tree_node :: "nat \<Rightarrow> nat" where
  "crush_calc_tree_node i = (i + 1) * 2 - 1"

definition crush_bucket_alg_name :: "crush_algorithm \<Rightarrow> string" where
  "crush_bucket_alg_name alg =
    (case alg of
       CRUSH_BUCKET_UNIFORM _ \<Rightarrow> ''uniform''
     | CRUSH_BUCKET_LIST _ _ \<Rightarrow> ''list''
     | CRUSH_BUCKET_TREE _ _ \<Rightarrow> ''tree''
     | CRUSH_BUCKET_STRAW _ _ \<Rightarrow> ''straw''
     | CRUSH_BUCKET_STRAW2 _ \<Rightarrow> ''straw2''
     | CRUSH_BUCKET_UNKNOWN _ \<Rightarrow> ''unknown'')"

definition crush_get_bucket_item_weight :: "crush_bucket \<Rightarrow> nat \<Rightarrow> u32 option" where
  "crush_get_bucket_item_weight b p =
    (if bucket_size b \<le> p then Some 0
     else case bucket_alg b of
       CRUSH_BUCKET_UNIFORM w \<Rightarrow> Some w
     | CRUSH_BUCKET_LIST ws _ \<Rightarrow> arr_get ws p
     | CRUSH_BUCKET_TREE _ ws \<Rightarrow> arr_get ws (crush_calc_tree_node p)
     | CRUSH_BUCKET_STRAW ws _ \<Rightarrow> arr_get ws p
     | CRUSH_BUCKET_STRAW2 ws \<Rightarrow> arr_get ws p
     | CRUSH_BUCKET_UNKNOWN _ \<Rightarrow> Some 0)"

text \<open>The bucket at id \<open>i\<close>, i.e. \<open>map->buckets[-1-i]\<close> and its dereference.\<close>

definition crush_bucket_at :: "crush_map \<Rightarrow> int \<Rightarrow> crush_bucket option" where
  "crush_bucket_at m i = (if i < 0 then arr_get (map_buckets m) (nat (- 1 - i)) \<bind> id else None)"

text \<open>The value of a C \<open>int\<close> after an addition that may have wrapped.\<close>

definition s32 :: "int \<Rightarrow> int" where
  "s32 i = signed_take_bit 31 i"

text \<open>The remainder of an unsigned value by a size, both below \<open>2 ^ 32\<close>.\<close>

definition umod :: "u32 \<Rightarrow> nat \<Rightarrow> nat" where
  "umod h n = nat (uint h mod int n)"

lemma umod_less: "0 < n \<Longrightarrow> umod h n < n"
  by (simp add: umod_def nat_less_iff)

end
