(* ===== verification/Crush_Ln.thy ===== *)
theory Crush_Ln
  imports Crush_Map
begin

text \<open>
  The fixed-point logarithm of \<open>crush/mapper.c\<close> with the two tables of
  \<open>crush/crush_ln_table.h\<close>.  The lemmas check the tables row by row and bound the result on
  16-bit inputs, which is what the draws of a straw2 bucket rely on.
\<close>

section \<open>The fixed-point logarithm\<close>

definition RH_LH_tbl :: "int list" where
  "RH_LH_tbl =
    [0x1000000000000, 0, 0xfe03f80fe040, 0x2dfca16dde1, 0xfc0fc0fc0fc1,
     0x5b9e5a170b4, 0xfa232cf25214, 0x88e68ea899a, 0xf83e0f83e0f9, 0xb5d69bac77e,
     0xf6603d980f67, 0xe26fd5c8555, 0xf4898d5f85bc, 0x10eb389fa29f, 0xf2b9d6480f2c,
     0x13aa2fdd27f1, 0xf0f0f0f0f0f1, 0x1663f6fac913, 0xef2eb71fc435, 0x1918a16e4633,
     0xed7303b5cc0f, 0x1bc84240adab, 0xebbdb2a5c162, 0x1e72ec117fa5, 0xea0ea0ea0ea1,
     0x2118b119b4f3, 0xe865ac7b7604, 0x23b9a32eaa56, 0xe6c2b4481cd9, 0x2655d3c4f15c,
     0xe525982af70d, 0x28ed53f307ee, 0xe38e38e38e39, 0x2b803473f7ad, 0xe1fc780e1fc8,
     0x2e0e85a9de04, 0xe070381c0e08, 0x309857a05e07, 0xdee95c4ca038, 0x331dba0efce1,
     0xdd67c8a60dd7, 0x359ebc5b69d9, 0xdbeb61eed19d, 0x381b6d9bb29b, 0xda740da740db,
     0x3a93dc9864b2, 0xd901b2036407, 0x3d0817ce9cd4, 0xd79435e50d7a, 0x3f782d7204d0,
     0xd62b80d62b81, 0x41e42b6ec0c0, 0xd4c77b03531e, 0x444c1f6b4c2d, 0xd3680d3680d4,
     0x46b016ca47c1, 0xd20d20d20d21, 0x49101eac381c, 0xd0b69fcbd259, 0x4b6c43f1366a,
     0xcf6474a8819f, 0x4dc4933a9337, 0xce168a772509, 0x501918ec6c11, 0xcccccccccccd,
     0x5269e12f346e, 0xcb8727c065c4, 0x54b6f7f1325a, 0xca4587e6b750, 0x570068e7ef5a,
     0xc907da4e8712, 0x59463f919dee, 0xc7ce0c7ce0c8, 0x5b8887367433, 0xc6980c6980c7,
     0x5dc74ae9fbec, 0xc565c87b5f9e, 0x6002958c5871, 0xc4372f855d83, 0x623a71cb82c8,
     0xc30c30c30c31, 0x646eea247c5c, 0xc1e4bbd595f7, 0x66a008e4788c, 0xc0c0c0c0c0c1,
     0x68cdd829fd81, 0xbfa02fe80bfb, 0x6af861e5fc7d, 0xbe82fa0be830, 0x6d1fafdce20a,
     0xbd6910470767, 0x6f43cba79e40, 0xbc52640bc527, 0x7164beb4a56d, 0xbb3ee721a54e,
     0x73829248e961, 0xba2e8ba2e8bb, 0x759d4f80cba8, 0xb92143fa36f6, 0x77b4ff5108d9,
     0xb81702e05c0c, 0x79c9aa879d53, 0xb70fbb5a19bf, 0x7bdb59cca388, 0xb60b60b60b61,
     0x7dea15a32c1b, 0xb509e68a9b95, 0x7ff5e66a0ffe, 0xb40b40b40b41, 0x81fed45cbccb,
     0xb30f63528918, 0x8404e793fb81, 0xb21642c8590c, 0x86082806b1d5, 0xb11fd3b80b12,
     0x88089d8a9e47, 0xb02c0b02c0b1, 0x8a064fd50f2a, 0xaf3addc680b0, 0x8c01467b94bb,
     0xae4c415c9883, 0x8df988f4ae80, 0xad602b580ad7, 0x8fef1e987409, 0xac7691840ac8,
     0x91e20ea1393e, 0xab8f69e2835a, 0x93d2602c2e5f, 0xaaaaaaaaaaab, 0x95c01a39fbd6,
     0xa9c84a47a080, 0x97ab43af59f9, 0xa8e83f5717c1, 0x9993e355a4e5, 0xa80a80a80a81,
     0x9b79ffdb6c8b, 0xa72f0539782a, 0x9d5d9fd5010b, 0xa655c4392d7c, 0x9f3ec9bcfb80,
     0xa57eb50295fb, 0xa11d83f4c355, 0xa4a9cf1d9684, 0xa2f9d4c51039, 0xa3d70a3d70a4,
     0xa4d3c25e68dc, 0xa3065e3fae7d, 0xa6ab52d99e76, 0xa237c32b16d0, 0xa8808c384547,
     0xa16b312ea8fd, 0xaa5374652a1c, 0xa0a0a0a0a0a1, 0xac241134c4e9, 0x9fd809fd80a0,
     0xadf26865a8a1, 0x9f1165e72549, 0xafbe7fa0f04d, 0x9e4cad23dd60, 0xb1885c7aa982,
     0x9d89d89d89d9, 0xb35004723c46, 0x9cc8e160c3fc, 0xb5157cf2d078, 0x9c09c09c09c1,
     0xb6d8cb53b0ca, 0x9b4c6f9ef03b, 0xb899f4d8ab63, 0x9a90e7d95bc7, 0xba58feb2703a,
     0x99d722dabde6, 0xbc15edfeed32, 0x991f1a515886, 0xbdd0c7c9a817, 0x9868c809868d,
     0xbf89910c1678, 0x97b425ed097c, 0xc1404eadf383, 0x97012e025c05, 0xc2f5058593d9,
     0x964fda6c0965, 0xc4a7ba58377c, 0x95a02568095b, 0xc65871da59dd, 0x94f2094f2095,
     0xc80730b00016, 0x944580944581, 0xc9b3fb6d0559, 0x939a85c4093a, 0xcb5ed69565af,
     0x92f113840498, 0xcd07c69d8702, 0x924924924925, 0xceaecfea8085, 0x91a2b3c4d5e7,
     0xd053f6d26089, 0x90fdbc090fdc, 0xd1f73f9c70c0, 0x905a38633e07, 0xd398ae817906,
     0x8fb823ee08fc, 0xd53847ac00a6, 0x8f1779d9fdc4, 0xd6d60f388e41, 0x8e78356d1409,
     0xd8720935e643, 0x8dda5202376a, 0xda0c39a54804, 0x8d3dcb08d3dd, 0xdba4a47aa996,
     0x8ca29c046515, 0xdd3b4d9cf24b, 0x8c08c08c08c1, 0xded038e633f3, 0x8b70344a139c,
     0xe0636a23e2ee, 0x8ad8f2fba939, 0xe1f4e5170d02, 0x8a42f870566a, 0xe384ad748f0e,
     0x89ae4089ae41, 0xe512c6e54998, 0x891ac73ae982, 0xe69f35065448, 0x888888888889,
     0xe829fb693044, 0x87f78087f781, 0xe9b31d93f98e, 0x8767ab5f34e5, 0xeb3a9f019750,
     0x86d905447a35, 0xecc08321eb30, 0x864b8a7de6d2, 0xee44cd59ffab, 0x85bf37612cef,
     0xefc781043579, 0x853408534086, 0xf148a170700a, 0x84a9f9c8084b, 0xf2c831e44116,
     0x842108421085, 0xf446359b1353, 0x839930523fbf, 0xf5c2afc65447, 0x83126e978d50,
     0xf73da38d9d4a, 0x828cbfbeb9a1, 0xf8b7140edbb1, 0x820820820821, 0xfa2f045e7832,
     0x81848da8faf1, 0xfba577877d7d, 0x810204081021, 0xfd1a708bbe11, 0x808080808081,
     0xfe8df263f957, 0x800000000000, 0xffff00000000]"

definition LL_tbl :: "int list" where
  "LL_tbl =
    [0, 0x2e2a60a00, 0x70cb64ec5, 0x9ef50ce67, 0xcd1e588fd,
     0xfb4747e9c, 0x1296fdaf5e, 0x1579811b58, 0x185bfec2a1, 0x1b3e76a552,
     0x1e20e8c380, 0x2103551d43, 0x23e5bbb2b2, 0x26c81c83e4, 0x29aa7790f0,
     0x2c8cccd9ed, 0x2f6f1c5ef2, 0x3251662017, 0x3533aa1d71, 0x3815e8571a,
     0x3af820cd26, 0x3dda537fae, 0x40bc806ec8, 0x439ea79a8c, 0x4680c90310,
     0x4962e4a86c, 0x4c44fa8ab6, 0x4f270aaa06, 0x5209150672, 0x54eb19a013,
     0x57cd1876fd, 0x5aaf118b4a, 0x5d9104dd0f, 0x6072f26c64, 0x6354da3960,
     0x6636bc441a, 0x6918988ca8, 0x6bfa6f1322, 0x6edc3fd79f, 0x71be0ada35,
     0x749fd01afd, 0x77818f9a0c, 0x7a6349577a, 0x7d44fd535e, 0x8026ab8dce,
     0x83085406e3, 0x85e9f6beb2, 0x88cb93b552, 0x8bad2aeadc, 0x8e8ebc5f65,
     0x9170481305, 0x9451ce05d3, 0x97334e37e5, 0x9a14c8a953, 0x9cf63d5a33,
     0x9fd7ac4a9d, 0xa2b07f3458, 0xa59a78ea6a, 0xa87bd699fb, 0xab5d2e8970,
     0xae3e80b8e3, 0xb11fcd2869, 0xb40113d818, 0xb6e254c80a, 0xb9c38ff853,
     0xbca4c5690c, 0xbf85f51a4a, 0xc2671f0c26, 0xc548433eb6, 0xc82961b211,
     0xcb0a7a664d, 0xcdeb8d5b82, 0xd0cc9a91c8, 0xd3ada20933, 0xd68ea3c1dd,
     0xd96f9fbbdb, 0xdc5095f744, 0xdf31867430, 0xe2127132b5, 0xe4f35632ea,
     0xe7d43574e6, 0xeab50ef8c1, 0xed95e2be90, 0xf076b0c66c, 0xf35779106a,
     0xf6383b9ca2, 0xf918f86b2a, 0xfbf9af7c1a, 0xfeda60cf88, 0x101bb0c658c,
     0x1049bb23e3c, 0x1077c5259af, 0x10a5cecb7fc, 0x10d3d81593a, 0x1101e103d7f,
     0x112fe9964e4, 0x115df1ccf7e, 0x118bf9a7d64, 0x11ba0126ead, 0x11e8084a371,
     0x12160f11bc6, 0x1244157d7c3, 0x12721b8d77f, 0x12a02141b10, 0x12ce269a28e,
     0x12fc2b96e0f, 0x132a3037daa, 0x1358347d177, 0x1386386698c, 0x13b43bf45ff,
     0x13e23f266e9, 0x141041fcc5e, 0x143e4477678, 0x146c469654b, 0x149a48598f0,
     0x14c849c117c, 0x14f64accf08, 0x15244b7d1a9, 0x15524bd1976, 0x15804bca687,
     0x15ae4b678f2, 0x15dc4aa90ce, 0x160a498ee31, 0x16384819134, 0x166646479ec,
     0x1694441a870, 0x16c24191cd7, 0x16df6ca19bd, 0x171e3b6d7aa, 0x174c37d1e44,
     0x177a33dab1c, 0x17a82f87e49, 0x17d62ad97e2, 0x180425cf7fe, 0x182b07f3458,
     0x18601aa8c19, 0x188e148c046, 0x18bc0e13b52, 0x18ea073fd52, 0x1918001065d,
     0x1945f88568b, 0x1973f09edf2, 0x19a1e85ccaa, 0x19cfdfbf2c8, 0x19fdd6c6063,
     0x1a2bcd71593, 0x1a59c3c126e, 0x1a87b9b570b, 0x1ab5af4e380, 0x1ae3a48b7e5,
     0x1b11996d450, 0x1b3f8df38d9, 0x1b6d821e595, 0x1b9b75eda9b, 0x1bc96961803,
     0x1bf75c79de3, 0x1c254f36c51, 0x1c534198365, 0x1c81339e336, 0x1caf2548bd9,
     0x1cdd1697d67, 0x1d0b078b7f5, 0x1d38f823b9a, 0x1d66e86086d, 0x1d94d841e86,
     0x1dc2c7c7df9, 0x1df0b6f26df, 0x1e1ea5c194e, 0x1e4c943555d, 0x1e7a824db23,
     0x1ea8700aab5, 0x1ed65d6c42b, 0x1f044a7279d, 0x1f32371d51f, 0x1f60236ccca,
     0x1f8e0f60eb3, 0x1fbbfaf9af3, 0x1fe9e63719e, 0x2017d1192cc, 0x2045bb9fe94,
     0x2073a5cb50d, 0x209c06e6212, 0x20cf791026a, 0x20fd622997c, 0x212b07f3458,
     0x2159334a8d8, 0x21871b52150, 0x21b502fe517, 0x21d6a73a78f, 0x2210d144eee,
     0x223eb7df52c, 0x226c9e1e713, 0x229a84024bb, 0x22c23679b4e, 0x22f64eb83a8,
     0x2324338a51b, 0x235218012a9, 0x237ffc1cc69, 0x23a2c3b0ea4, 0x23d13ee805b,
     0x24035e9221f, 0x243788faf25, 0x24656b4e735, 0x247ed646bfe, 0x24c12ee3d98,
     0x24ef1025c1a, 0x251cf10c799, 0x25492644d65, 0x2578b1c85ee, 0x25a6919d8f0,
     0x25d13ee805b, 0x26025036716, 0x26296453882, 0x265e0d62b53, 0x268beb701f3,
     0x26b9c92265e, 0x26d32f798a9, 0x271583758eb, 0x2743601673b, 0x27713c5c3b0,
     0x279f1846e5f, 0x27ccf3d6761, 0x27e6580aecb, 0x2828a9e44b3, 0x28568462932,
     0x287bdbf5255, 0x28b2384de4a, 0x28d13ee805b, 0x29035e9221f, 0x29296453882,
     0x29699bdfb61, 0x29902a37aab, 0x29c54b864c9, 0x29deabd1083, 0x2a20f9c0bb5,
     0x2a4c7605d61, 0x2a7bdbf5255, 0x2a96056dafc, 0x2ac3daf14ef, 0x2af1b019eca,
     0x2b296453882, 0x2b5d022d80f, 0x2b8fa471cb3, 0x2ba9012e713, 0x2bd6d4901cc,
     0x2c04a796cf6, 0x2c327a428a6, 0x2c61a5e8f4c, 0x2c8e1e891f6, 0x2cbbf023fc2,
     0x2ce9c163e6e, 0x2d179248e13, 0x2d4562d2ec6, 0x2d73330209d, 0x2da102d63b0,
     0x2dced24f814]"

function bit_length :: "int \<Rightarrow> nat" where
  "bit_length n = (if n \<le> 0 then 0 else Suc (bit_length (n div 2)))"
  by pat_completeness auto
termination
  by (relation "measure nat") auto

declare bit_length.simps [simp del]

text \<open>\<open>__builtin_clz\<close> on 32 bits; undefined at 0.\<close>

definition builtin_clz :: "int \<Rightarrow> nat option" where
  "builtin_clz n = (if n = 0 then None else Some (32 - bit_length n))"

text \<open>
  The unsigned variables of \<open>crush_ln\<close> are integers, reduced where the code may wrap.  The
  table lookup on the normalised argument is a definition of its own.
\<close>

definition crush_ln_lookup :: "int \<Rightarrow> int \<Rightarrow> int option" where
  "crush_ln_lookup x iexpon =
    do { let index1 = (x div 2 ^ 8) * 2;
         ceph_assert (256 \<le> index1);
         RH \<leftarrow> arr_get RH_LH_tbl (nat (index1 - 256));
         LH \<leftarrow> arr_get RH_LH_tbl (nat (index1 + 1 - 256));
         let xl64 = x * RH mod 2 ^ 64 div 2 ^ 48;
         let result = iexpon * 2 ^ 44;
         let index2 = xl64 mod 2 ^ 8;
         LL \<leftarrow> arr_get LL_tbl (nat index2);
         Some (result + (LH + LL) div 2 ^ 4) }"

definition crush_ln :: "int \<Rightarrow> int option" where
  "crush_ln xin =
    do { let x = (xin + 1) mod 2 ^ 32;
         if x AND 0x18000 = 0 then
           do { z \<leftarrow> builtin_clz (x AND 0x1FFFF);
                let bits = z - 16;
                crush_ln_lookup (x * 2 ^ bits mod 2 ^ 32) (15 - int bits) }
         else crush_ln_lookup x 15 }"

section \<open>The range of the logarithm\<close>

lemma bit_length_bounds:
  "0 < n \<Longrightarrow> 2 ^ (bit_length n - 1) \<le> n \<and> n < 2 ^ bit_length n \<and> 0 < bit_length n"
proof (induction n rule: bit_length.induct)
  case (1 n)
  show ?case
  proof (cases "n = 1")
    case True
    then show ?thesis by (simp add: bit_length.simps)
  next
    case False
    then have "0 < n div 2" using 1(2) by auto
    then obtain k where k: "bit_length (n div 2) = Suc k" "2 ^ k \<le> n div 2" "n div 2 < 2 * 2 ^ k"
      using 1 by (cases "bit_length (n div 2)") auto
    have "bit_length n = Suc (Suc k)" using 1(2) k(1) by (subst bit_length.simps) simp
    moreover have "2 * 2 ^ k \<le> n" "n < 2 * (2 * 2 ^ k)"
      using k(2,3) by linarith+
    ultimately show ?thesis by simp
  qed
qed

lemma and_0x18000: "0 \<le> x \<Longrightarrow> x < 2 ^ 17 \<Longrightarrow> x AND 0x18000 = (0::int) \<longleftrightarrow> x < 2 ^ 15"
proof -
  assume x: "0 \<le> x" "x < 2 ^ 17"
  have m: "(0x18000::int) = push_bit 15 (mask 2)" by (simp add: mask_numeral push_bit_eq_mult)
  have "x AND push_bit 15 (mask 2) = push_bit 15 (take_bit 2 (drop_bit 15 x))"
    by (rule bit_eqI) (auto simp: bit_simps)
  moreover have "take_bit 2 (drop_bit 15 x) = x div 2 ^ 15"
    using x by (simp add: take_bit_eq_mod drop_bit_eq_div)
  ultimately have "x AND 0x18000 = x div 2 ^ 15 * 2 ^ 15"
    by (simp only: m push_bit_eq_mult)
  moreover have "x div 2 ^ 15 = 0 \<longleftrightarrow> x < 2 ^ 15"
    using x by (auto simp: zdiv_eq_0_iff)
  ultimately show ?thesis by simp
qed

lemma and_0x1FFFF: "0 \<le> x \<Longrightarrow> x < 2 ^ 17 \<Longrightarrow> x AND 0x1FFFF = (x::int)"
proof -
  assume x: "0 \<le> x" "x < 2 ^ 17"
  have "(0x1FFFF::int) = mask 17" by (simp add: mask_numeral)
  then show ?thesis using x by (simp only: flip: take_bit_eq_mask) (simp add: take_bit_eq_mod)
qed

text \<open>
  The rows of \<open>RH_LH_tbl\<close> and \<open>LL_tbl\<close> are checked one by one, in one walk over both tables:
  row \<open>k\<close> is used for the normalised arguments \<open>256 * k + d\<close> with \<open>d < 256\<close>, and the largest
  index into \<open>LL_tbl\<close> that it leads to decreases with \<open>k\<close>.
\<close>

fun ln_rows_ok :: "int \<Rightarrow> int list \<Rightarrow> int list \<Rightarrow> int \<Rightarrow> bool" where
  "ln_rows_ok k (RH # LH # tbl) (LL # lls) i \<longleftrightarrow>
    (if 256 \<le> k then True
     else let lo = 256 * k * RH; m = (256 * k + 255) * RH div 2 ^ 48 - 2 ^ 15
       in 2 ^ 63 \<le> lo \<and> 0 \<le> m \<and> m \<le> i \<and> 0 \<le> RH \<and> 0 \<le> LH
        \<and> (case drop (nat (i - m)) (LL # lls) of
             [] \<Rightarrow> False
           | LL # lls \<Rightarrow> LH + LL < 2 ^ 48 \<and> ln_rows_ok (k + 1) tbl (LL # lls) m))"
| "ln_rows_ok k tbl lls i = False"

fun chain_le :: "int list \<Rightarrow> bool" where
  "chain_le (x # y # zs) \<longleftrightarrow> x \<le> y \<and> chain_le (y # zs)"
| "chain_le xs \<longleftrightarrow> True"

lemma chain_le_sorted: "chain_le xs = sorted xs"
  by (induction xs rule: chain_le.induct) fastforce+

lemma ln_rows: "ln_rows_ok 128 RH_LH_tbl (rev LL_tbl) 255"
  by code_simp

lemma LL_tbl_chain: "chain_le LL_tbl"
  by code_simp

lemma length_tbls [simp]: "length RH_LH_tbl = 258" "length LL_tbl = 256"
  by (simp only: RH_LH_tbl_def, simp) (simp only: LL_tbl_def, simp)

lemma drop_rev_take:
  "m \<le> i \<Longrightarrow> i < length xs \<Longrightarrow> drop (i - m) (rev (take (Suc i) xs)) = rev (take (Suc m) xs)"
  by (simp add: drop_rev Suc_diff_le min_absorb1 min_absorb2)

lemma ln_rows_step:
  assumes rows: "ln_rows_ok k tbl (rev (take (Suc (nat i)) LL)) i"
    and i: "0 \<le> i" "nat i < length LL" and k: "k < 256"
  shows "\<exists>RH LH t m. tbl = RH # LH # t \<and> m = (256 * k + 255) * RH div 2 ^ 48 - 2 ^ 15
    \<and> 2 ^ 63 \<le> 256 * k * RH \<and> 0 \<le> m \<and> m \<le> i \<and> 0 \<le> RH \<and> 0 \<le> LH \<and> LH + LL ! nat m < 2 ^ 48
    \<and> ln_rows_ok (k + 1) t (rev (take (Suc (nat m)) LL)) m"
proof -
  obtain l ls where l: "rev (take (Suc (nat i)) LL) = l # ls"
    using i(2) by (metis neq_Nil_conv rev_is_Nil_conv take_eq_Nil list.size(3) less_nat_zero_code
        nat.distinct(1))
  obtain RH LH t where t: "tbl = RH # LH # t"
    using rows l by (cases "(k, tbl, l # ls, i)" rule: ln_rows_ok.cases) auto
  define m where "m = (256 * k + 255) * RH div 2 ^ 48 - 2 ^ 15"
  have step: "2 ^ 63 \<le> 256 * k * RH" "0 \<le> m" "m \<le> i" "0 \<le> RH \<and> 0 \<le> LH"
    "case drop (nat (i - m)) (rev (take (Suc (nat i)) LL)) of [] \<Rightarrow> False
     | LL # lls \<Rightarrow> LH + LL < 2 ^ 48 \<and> ln_rows_ok (k + 1) t (LL # lls) m"
    using rows k unfolding t l ln_rows_ok.simps Let_def m_def[symmetric] by simp_all
  have "drop (nat (i - m)) (rev (take (Suc (nat i)) LL)) = LL ! nat m # rev (take (nat m) LL)"
    using drop_rev_take[of "nat m" "nat i" LL] step(2,3) i
    by (simp add: nat_diff_distrib take_Suc_conv_app_nth)
  then have "LH + LL ! nat m < 2 ^ 48 \<and> ln_rows_ok (k + 1) t (rev (take (Suc (nat m)) LL)) m"
    using step(2,3,5) i by (simp add: take_Suc_conv_app_nth)
  then show ?thesis using t step(1-4) m_def by blast
qed

lemma ln_rows_nth:
  assumes "ln_rows_ok k tbl (rev (take (Suc (nat i)) LL)) i"
    and "0 \<le> i" "nat i < length LL" "k \<le> j" "j < 256"
    and "RH = tbl ! nat (2 * (j - k))" "LH = tbl ! nat (2 * (j - k) + 1)"
    and "m = (256 * j + 255) * RH div 2 ^ 48 - 2 ^ 15"
  shows "2 ^ 63 \<le> 256 * j * RH \<and> 0 \<le> m \<and> m \<le> i \<and> 0 \<le> RH \<and> 0 \<le> LH \<and> LH + LL ! nat m < 2 ^ 48"
  using assms
proof (induction "nat (j - k)" arbitrary: k tbl i)
  case 0
  then have j: "j = k" by simp
  obtain R L t m' where "tbl = R # L # t" "m' = (256 * k + 255) * R div 2 ^ 48 - 2 ^ 15"
      "2 ^ 63 \<le> 256 * k * R" "0 \<le> m'" "m' \<le> i" "0 \<le> R" "0 \<le> L" "L + LL ! nat m' < 2 ^ 48"
    using ln_rows_step[OF 0(2-4)] 0(6) j by blast
  moreover have "RH = R" "LH = L" using calculation(1) 0(7,8) j by simp_all
  moreover have "m = m'" using calculation 0(9) j by simp
  ultimately show ?case unfolding j by blast
next
  case (Suc n)
  have k: "k < 256" using Suc(2,7) by linarith
  obtain R L t m' where t: "tbl = R # L # t" "0 \<le> m'" "m' \<le> i"
      "ln_rows_ok (k + 1) t (rev (take (Suc (nat m')) LL)) m'"
    using ln_rows_step[OF Suc(3-5)] k by blast
  have "nat (2 * (j - k)) = Suc (Suc (nat (2 * (j - (k + 1)))))"
    "nat (2 * (j - k) + 1) = Suc (Suc (nat (2 * (j - (k + 1)) + 1)))"
    using Suc(2,6) by simp_all
  then have "RH = t ! nat (2 * (j - (k + 1)))" "LH = t ! nat (2 * (j - (k + 1)) + 1)"
    using Suc(8,9) t(1) by simp_all
  then show ?case
    using Suc(1)[of "k + 1" t m'] Suc(2,5,7,10) t(2-4) by fastforce
qed

text \<open>The logarithm of a 16-bit value exists and is at most \<open>2 ^ 48\<close>.\<close>

lemma ln_lookup_bound:
  assumes x: "2 ^ 15 \<le> x" "x < 2 ^ 16" and k: "k = x div 2 ^ 8"
    and R: "RH = RH_LH_tbl ! nat (k * 2 - 256)" and L: "LH = RH_LH_tbl ! nat (k * 2 + 1 - 256)"
  shows "0 \<le> LH \<and> LH + LL_tbl ! nat (x * RH mod 2 ^ 64 div 2 ^ 48 mod 2 ^ 8) < 2 ^ 48"
proof -
  define m where "m = (256 * k + 255) * RH div 2 ^ 48 - 2 ^ 15"
  have k': "128 \<le> k" "k < 256" using x k by auto
  have xk: "256 * k \<le> x" "x \<le> 256 * k + 255" using k by auto
  have "k * 2 - 256 = 2 * (k - 128)" "k * 2 + 1 - 256 = 2 * (k - 128) + 1" by simp_all
  then have RL: "RH = RH_LH_tbl ! nat (2 * (k - 128))" "LH = RH_LH_tbl ! nat (2 * (k - 128) + 1)"
    unfolding R L by (simp_all only:)
  have "rev LL_tbl = rev (take (Suc (nat 255)) LL_tbl)" by simp
  then have row: "2 ^ 63 \<le> 256 * k * RH" "0 \<le> m" "m \<le> 255" "0 \<le> RH"
      "0 \<le> LH" "LH + LL_tbl ! nat m < 2 ^ 48"
    using ln_rows_nth[of 128 RH_LH_tbl 255 LL_tbl k RH LH m] ln_rows k' RL m_def by simp_all
  have "256 * k * RH \<le> x * RH" "x * RH \<le> (256 * k + 255) * RH"
    using xk row(4) by (auto intro: mult_right_mono)
  then have "2 ^ 63 \<le> x * RH" "x * RH \<le> (256 * k + 255) * RH" using row(1) by linarith+
  then have q: "2 ^ 15 \<le> x * RH div 2 ^ 48" "x * RH div 2 ^ 48 \<le> m + 2 ^ 15"
    using zdiv_mono1[of "x * RH" "(256 * k + 255) * RH" "2 ^ 48"]
      zdiv_mono1[of "2 ^ 63" "x * RH" "2 ^ 48"] unfolding m_def by simp_all
  then have "x * RH < 2 ^ 64" "0 \<le> x * RH" using row(3,4) x by auto
  then have "x * RH mod 2 ^ 64 = x * RH" by simp
  moreover have "x * RH div 2 ^ 48 mod 2 ^ 8 = x * RH div 2 ^ 48 - 2 ^ 15"
  proof -
    have "x * RH div 2 ^ 48 = (x * RH div 2 ^ 48 - 2 ^ 15) + 2 ^ 7 * 2 ^ 8" by simp
    then have "x * RH div 2 ^ 48 mod 2 ^ 8 = (x * RH div 2 ^ 48 - 2 ^ 15) mod 2 ^ 8"
      by (metis mod_mult_self1 mult.commute)
    then show ?thesis using q row(3) by simp
  qed
  moreover have "LL_tbl ! nat (x * RH div 2 ^ 48 - 2 ^ 15) \<le> LL_tbl ! nat m"
    using q row(2,3) LL_tbl_chain by (intro sorted_nth_mono) (auto simp: chain_le_sorted)
  ultimately show ?thesis using row(5,6) by simp
qed

lemma ln_tbl_ends: "RH_LH_tbl ! 256 = 0x800000000000" "RH_LH_tbl ! 257 = 0xffff00000000" "LL_tbl ! 0 = 0"
  by (simp_all only: RH_LH_tbl_def LL_tbl_def) simp_all

text \<open>Normalisation brings the argument into the range of the table.\<close>

lemma ln_normalise:
  assumes "0 < x" "x < 2 ^ 15"
  shows "\<exists>z. builtin_clz x = Some z \<and> 17 \<le> z \<and> z \<le> 31
    \<and> 2 ^ 15 \<le> x * 2 ^ (z - 16) \<and> x * 2 ^ (z - 16) < 2 ^ 16"
proof -
  define l where "l = bit_length x"
  have l: "2 ^ (l - 1) \<le> x" "x < 2 ^ l" "0 < l"
    using bit_length_bounds[OF assms(1)] by (simp_all add: l_def)
  have "(2::int) ^ (l - 1) < 2 ^ 15" using l(1) assms(2) by linarith
  then have "l - 1 < 15" by (rule power_less_imp_less_exp[rotated]) simp
  then have le: "l \<le> 15" by simp
  have e: "2 ^ (l - 1) * 2 ^ (16 - l) = (2 ^ 15 :: int)" "2 ^ l * 2 ^ (16 - l) = (2 ^ 16 :: int)"
    using le l(3) by (simp_all flip: power_add)
  have "2 ^ 15 \<le> x * 2 ^ (16 - l)" "x * 2 ^ (16 - l) < 2 ^ 16"
    using l(1,2) e by (metis mult_right_mono zero_le_power zero_le_numeral,
        metis mult_strict_right_mono zero_less_power zero_less_numeral)
  moreover have "builtin_clz x = Some (32 - l)" "32 - l - 16 = 16 - l"
    using assms(1) le by (simp_all add: builtin_clz_def l_def)
  ultimately show ?thesis using l(3) le by auto
qed

lemma crush_ln_lookup_le:
  assumes x: "2 ^ 15 \<le> x" "x \<le> 2 ^ 16" and e: "0 \<le> e" "e \<le> 15"
  shows "\<exists>l. crush_ln_lookup x e = Some l \<and> 0 \<le> l \<and> l < 2 ^ 48"
proof -
  define k where "k = x div 2 ^ 8"
  define RH where "RH = RH_LH_tbl ! nat (k * 2 - 256)"
  define LH where "LH = RH_LH_tbl ! nat (k * 2 + 1 - 256)"
  define i where "i = nat (x * RH mod 2 ^ 64 div 2 ^ 48 mod 2 ^ 8)"
  have k: "128 \<le> k" "k \<le> 256" using x unfolding k_def by auto
  have "x * RH mod 2 ^ 64 div 2 ^ 48 mod 2 ^ 8 < 2 ^ 8" by simp
  then have i: "i < 256" unfolding i_def by simp
  have get: "arr_get RH_LH_tbl (nat (k * 2 - 256)) = Some RH" "256 \<le> k * 2"
    "arr_get RH_LH_tbl (nat (k * 2 + 1 - 256)) = Some LH" "arr_get LL_tbl i = Some (LL_tbl ! i)"
    using k i unfolding RH_def LH_def by simp_all
  have "crush_ln_lookup x e = Some (e * 2 ^ 44 + (LH + LL_tbl ! i) div 2 ^ 4)"
    unfolding crush_ln_lookup_def Let_def k_def[symmetric]
    by (simp only: get bind_ceph_assert_True bind.bind_lunit i_def[symmetric])
  moreover have "0 \<le> LH \<and> LH + LL_tbl ! i < 2 ^ 48"
  proof (cases "x = 2 ^ 16")
    case True
    then have "k = 256" by (simp add: k_def)
    then show ?thesis using True by (simp add: i_def RH_def LH_def ln_tbl_ends)
  next
    case False
    then have "x < 2 ^ 16" using x(2) by simp
    then show ?thesis
      using ln_lookup_bound[OF x(1) _ k_def RH_def LH_def] unfolding i_def by blast
  qed
  moreover have "0 \<le> LL_tbl ! i"
    using LL_tbl_chain sorted_nth_mono[of LL_tbl 0 i] i by (simp add: chain_le_sorted ln_tbl_ends)
  moreover have "e * 2 ^ 44 \<le> 15 * 2 ^ 44" "0 \<le> e * 2 ^ 44" using e by simp_all
  ultimately show ?thesis by auto
qed

lemma crush_ln_bound:
  assumes u: "0 \<le> u" "u < 2 ^ 16"
  shows "\<exists>l. crush_ln u = Some l \<and> 0 \<le> l \<and> l < 2 ^ 48"
proof -
  define x where "x = u + 1"
  have x: "0 < x" "x \<le> 2 ^ 16" "(u + 1) mod 2 ^ 32 = x" using u unfolding x_def by simp_all
  have split: "crush_ln u =
    (if x < 2 ^ 15 then do { z \<leftarrow> builtin_clz x; crush_ln_lookup (x * 2 ^ (z - 16) mod 2 ^ 32) (15 - int (z - 16)) }
     else crush_ln_lookup x 15)"
    unfolding crush_ln_def x(3) using and_0x18000[of x] and_0x1FFFF[of x] x
    by (simp add: Let_def)
  show ?thesis
  proof (cases "x < 2 ^ 15")
    case True
    obtain z where z: "builtin_clz x = Some z" "17 \<le> z" "z \<le> 31" "2 ^ 15 \<le> x * 2 ^ (z - 16)"
        "x * 2 ^ (z - 16) < 2 ^ 16"
      using ln_normalise[OF x(1) True] by auto
    have "x * 2 ^ (z - 16) mod 2 ^ 32 = x * 2 ^ (z - 16)" 
      using z(4,5) by (intro mod_pos_pos_trivial) simp_all
    then show ?thesis using split True z crush_ln_lookup_le[of "x * 2 ^ (z - 16)" "15 - int (z - 16)"] by simp
  next
    case False
    then show ?thesis using split crush_ln_lookup_le[of x 15] x by simp
  qed
qed

text \<open>
  On every 16-bit input \<open>crush_ln\<close> stays inside its two tables and returns a
  value between 0 and \<open>0xffffffffffff\<close>, the range that the comment in
  \<open>generate_exponential_distribution\<close> gives and that makes the logarithm of a draw negative.
\<close>

lemma crush_ln_in_range:
  assumes "0 \<le> u" "u \<le> 0xffff"
  shows "\<exists>l. crush_ln u = Some l \<and> 0 \<le> l \<and> l \<le> 0xffffffffffff"
  using crush_ln_bound[of u] assms by auto

end
