(* ===== verification/Crush_Bucket.thy ===== *)
theory Crush_Bucket
  imports Crush_Ln "HOL-Library.Signed_Division" "HOL-Library.Multiset"
begin

text \<open>
  The bucket choose methods of \<open>crush/mapper.c\<close>: given an input \<open>x\<close> and a replica number \<open>r\<close>
  each of them picks one item of a bucket.  The permutation cache of a bucket
  (\<open>crush_work_bucket\<close>) is passed in and returned.  The lemmas show that the cached,
  incremental permutation is the permutation computed from scratch, that every method returns
  an item of the bucket without an out-of-range access when the bucket is well formed, and what
  a change of weights does to the choice of a straw2 bucket.
\<close>

section \<open>Bucket choose methods (mapper.c)\<close>

subsection \<open>The random permutation of a bucket\<close>

text \<open>One round of the \<open>while\<close> loop: fix entry \<open>p\<close> by swapping it with a later one.\<close>

definition perm_round :: "crush_bucket \<Rightarrow> int \<Rightarrow> nat \<Rightarrow> nat list \<Rightarrow> nat list option" where
  "perm_round bucket x p pm =
    (if p < bucket_size bucket - 1 then
       do { let i = umod (crush_hash32_3 (bucket_hash bucket) (word_of_int x)
                            (word_of_int (bucket_id bucket)) (word_of_nat p))
                         (bucket_size bucket - p);
            if i \<noteq> 0 then
              do { t \<leftarrow> arr_get pm (p + i); u \<leftarrow> arr_get pm p;
                   pm \<leftarrow> arr_set pm (p + i) u; arr_set pm p t }
            else Some pm }
     else Some pm)"

function perm_loop :: "crush_bucket \<Rightarrow> int \<Rightarrow> nat \<Rightarrow> nat \<Rightarrow> nat list \<Rightarrow> (nat \<times> nat list) option" where
  "perm_loop bucket x pr n pm =
    (if n \<le> pr then perm_round bucket x n pm \<bind> perm_loop bucket x pr (n + 1)
     else Some (n, pm))"
  by pat_completeness auto
termination
  by (relation "measure (\<lambda>(bucket, x, pr, n, pm). pr + 1 - n)") auto

declare perm_loop.simps [simp del]

definition bucket_perm_choose ::
  "crush_bucket \<Rightarrow> crush_work_bucket \<Rightarrow> int \<Rightarrow> int \<Rightarrow> (int \<times> crush_work_bucket) option"
where
  "bucket_perm_choose bucket work x r =
    do { let size = bucket_size bucket;
         ceph_assert (size \<noteq> 0);
         let pr = umod (word_of_int r) size;
         if perm_x work \<noteq> word_of_int x \<or> perm_n work = 0 then
           if pr = 0 then
             do { let s = umod (crush_hash32_3 (bucket_hash bucket) (word_of_int x)
                                  (word_of_int (bucket_id bucket)) 0) size;
                  pm \<leftarrow> arr_set (perm work) 0 s;
                  item \<leftarrow> arr_get (bucket_items bucket) s;
                  Some (item, \<lparr>perm_x = word_of_int x, perm_n = 0xffff, perm = pm\<rparr>) }
           else
             do { ceph_assert (size \<le> length (perm work));
                  (n, pm) \<leftarrow> perm_loop bucket x pr 0 ([0..<size] @ drop size (perm work));
                  s \<leftarrow> arr_get pm pr;
                  item \<leftarrow> arr_get (bucket_items bucket) s;
                  Some (item, \<lparr>perm_x = word_of_int x, perm_n = n, perm = pm\<rparr>) }
         else
           do { (n, pm) \<leftarrow>
                  (if perm_n work = 0xffff then
                     do { ceph_assert (size \<le> length (perm work));
                          let pm = take 1 (perm work) @ [1..<size] @ drop size (perm work);
                          pm \<leftarrow> arr_set pm (hd pm) 0;
                          Some (1, pm) }
                   else Some (perm_n work, perm work));
                (n, pm) \<leftarrow> perm_loop bucket x pr n pm;
                s \<leftarrow> arr_get pm pr;
                item \<leftarrow> arr_get (bucket_items bucket) s;
                Some (item, \<lparr>perm_x = perm_x work, perm_n = n, perm = pm\<rparr>) } }"

definition bucket_uniform_choose ::
  "crush_bucket \<Rightarrow> crush_work_bucket \<Rightarrow> int \<Rightarrow> int \<Rightarrow> (int \<times> crush_work_bucket) option"
where
  "bucket_uniform_choose bucket work x r = bucket_perm_choose bucket work x r"

subsection \<open>List buckets\<close>

text \<open>The loop from \<open>n - 1\<close> down to 0.\<close>

fun list_choose_loop ::
  "crush_bucket \<Rightarrow> u32 list \<Rightarrow> u32 list \<Rightarrow> int \<Rightarrow> int \<Rightarrow> nat \<Rightarrow> int option"
where
  "list_choose_loop bucket iw sw x r 0 = arr_get (bucket_items bucket) 0"
| "list_choose_loop bucket iw sw x r (Suc i) =
    do { item \<leftarrow> arr_get (bucket_items bucket) i;
         sum \<leftarrow> arr_get sw i;
         weight \<leftarrow> arr_get iw i;
         let w = uint (crush_hash32_4 (bucket_hash bucket) (word_of_int x) (word_of_int item)
                         (word_of_int r) (word_of_int (bucket_id bucket))) mod 2 ^ 16;
         let w = w * uint sum div 2 ^ 16;
         if w < uint weight then Some item else list_choose_loop bucket iw sw x r i }"

definition bucket_list_choose ::
  "crush_bucket \<Rightarrow> u32 list \<Rightarrow> u32 list \<Rightarrow> int \<Rightarrow> int \<Rightarrow> int option"
where
  "bucket_list_choose bucket iw sw x r = list_choose_loop bucket iw sw x r (bucket_size bucket)"

subsection \<open>Tree buckets\<close>

text \<open>\<open>height 0\<close> never returns in the code.\<close>

fun height :: "nat \<Rightarrow> nat option" where
  "height n = (if n = 0 then None
               else if even n then map_option Suc (height (n div 2)) else Some 0)"

declare height.simps [simp del]

definition left :: "nat \<Rightarrow> nat option" where
  "left x = do { h \<leftarrow> height x; ceph_assert (0 < h); Some (x - 2 ^ (h - 1)) }"

definition right :: "nat \<Rightarrow> nat option" where
  "right x = do { h \<leftarrow> height x; ceph_assert (0 < h); Some (x + 2 ^ (h - 1)) }"

definition terminal :: "nat \<Rightarrow> bool" where
  "terminal x = odd x"

partial_function (option) tree_choose_loop ::
  "crush_bucket \<Rightarrow> u32 list \<Rightarrow> int \<Rightarrow> int \<Rightarrow> nat \<Rightarrow> nat option"
where
  "tree_choose_loop bucket nw x r n =
    (if terminal n then Some n
     else do { w \<leftarrow> arr_get nw n;
               let t = uint (crush_hash32_4 (bucket_hash bucket) (word_of_int x) (word_of_nat n)
                               (word_of_int r) (word_of_int (bucket_id bucket)))
                       * uint w div 2 ^ 32;
               l \<leftarrow> left n;
               wl \<leftarrow> arr_get nw l;
               if t < uint wl then tree_choose_loop bucket nw x r l
               else do { n \<leftarrow> right n; tree_choose_loop bucket nw x r n } })"

definition bucket_tree_choose ::
  "crush_bucket \<Rightarrow> u8 \<Rightarrow> u32 list \<Rightarrow> int \<Rightarrow> int \<Rightarrow> int option"
where
  "bucket_tree_choose bucket num_nodes nw x r =
    do { n \<leftarrow> tree_choose_loop bucket nw x r (unat num_nodes div 2);
         arr_get (bucket_items bucket) (n div 2) }"

subsection \<open>Straw and straw2 buckets\<close>

text \<open>The loop over the draws that keeps the highest one and its index.\<close>

fun high_loop :: "'a::linorder list \<Rightarrow> nat \<Rightarrow> nat \<Rightarrow> 'a \<Rightarrow> nat" where
  "high_loop [] i high high_draw = high"
| "high_loop (draw # draws) i high high_draw =
    (if i = 0 \<or> high_draw < draw then high_loop draws (Suc i) i draw
     else high_loop draws (Suc i) high high_draw)"

definition straw_draw :: "crush_bucket \<Rightarrow> u32 list \<Rightarrow> int \<Rightarrow> int \<Rightarrow> nat \<Rightarrow> int option" where
  "straw_draw bucket straws x r i =
    do { item \<leftarrow> arr_get (bucket_items bucket) i;
         straw \<leftarrow> arr_get straws i;
         Some (uint (crush_hash32_3 (bucket_hash bucket) (word_of_int x) (word_of_int item)
                       (word_of_int r)) mod 2 ^ 16 * uint straw) }"

definition bucket_straw_choose :: "crush_bucket \<Rightarrow> u32 list \<Rightarrow> int \<Rightarrow> int \<Rightarrow> int option" where
  "bucket_straw_choose bucket straws x r =
    do { draws \<leftarrow> those (map (straw_draw bucket straws x r) [0..<bucket_size bucket]);
         arr_get (bucket_items bucket) (high_loop draws 0 0 0) }"

definition get_choose_arg_weights ::
  "u32 list \<Rightarrow> crush_choose_arg option \<Rightarrow> nat \<Rightarrow> u32 list option"
where
  "get_choose_arg_weights item_weights arg position =
    (case arg of
       None \<Rightarrow> Some item_weights
     | Some a \<Rightarrow>
        (case arg_weight_set a of
           None \<Rightarrow> Some item_weights
         | Some ws \<Rightarrow>
            (if length ws \<le> position then
               do { ceph_assert (0 < length ws); arr_get ws (length ws - 1) }
             else arr_get ws position)))"

definition get_choose_arg_ids :: "crush_bucket \<Rightarrow> crush_choose_arg option \<Rightarrow> int list" where
  "get_choose_arg_ids bucket arg =
    (case arg of
       None \<Rightarrow> bucket_items bucket
     | Some a \<Rightarrow> (case arg_ids a of None \<Rightarrow> bucket_items bucket | Some ids \<Rightarrow> ids))"

definition generate_exponential_distribution ::
  "nat \<Rightarrow> int \<Rightarrow> int \<Rightarrow> int \<Rightarrow> int \<Rightarrow> int option"
where
  "generate_exponential_distribution ty x y z weight =
    do { let u = uint (crush_hash32_3 ty (word_of_int x) (word_of_int y) (word_of_int z)) mod 2 ^ 16;
         l \<leftarrow> crush_ln u;
         let ln = l - 0x1000000000000;
         ceph_assert (weight \<noteq> 0);
         Some (ln sdiv weight) }"

definition S64_MIN :: int where
  "S64_MIN = - 0x8000000000000000"

text \<open>The \<open>__u32\<close> weight is passed as an \<open>int\<close>.\<close>

definition straw2_draw ::
  "crush_bucket \<Rightarrow> u32 list \<Rightarrow> int list \<Rightarrow> int \<Rightarrow> int \<Rightarrow> nat \<Rightarrow> int option"
where
  "straw2_draw bucket weights ids x r i =
    do { weight \<leftarrow> arr_get weights i;
         if weight \<noteq> 0 then
           do { y \<leftarrow> arr_get ids i;
                generate_exponential_distribution (bucket_hash bucket) x y r (sint weight) }
         else Some S64_MIN }"

definition bucket_straw2_choose ::
  "crush_bucket \<Rightarrow> u32 list \<Rightarrow> int \<Rightarrow> int \<Rightarrow> crush_choose_arg option \<Rightarrow> nat \<Rightarrow> int option"
where
  "bucket_straw2_choose bucket item_weights x r arg position =
    do { weights \<leftarrow> get_choose_arg_weights item_weights arg position;
         let ids = get_choose_arg_ids bucket arg;
         draws \<leftarrow> those (map (straw2_draw bucket weights ids x r) [0..<bucket_size bucket]);
         arr_get (bucket_items bucket) (high_loop draws 0 0 0) }"

subsection \<open>Dispatch\<close>

definition crush_bucket_choose ::
  "crush_bucket \<Rightarrow> crush_work_bucket \<Rightarrow> int \<Rightarrow> int \<Rightarrow> crush_choose_arg option \<Rightarrow> nat \<Rightarrow>
    (int \<times> crush_work_bucket) option"
where
  "crush_bucket_choose b work x r arg position =
    do { ceph_assert (bucket_size b \<noteq> 0);
         case bucket_alg b of
           CRUSH_BUCKET_UNIFORM _ \<Rightarrow> bucket_uniform_choose b work x r
         | CRUSH_BUCKET_LIST iw sw \<Rightarrow>
             map_option (\<lambda>i. (i, work)) (bucket_list_choose b iw sw x r)
         | CRUSH_BUCKET_TREE nn nw \<Rightarrow>
             map_option (\<lambda>i. (i, work)) (bucket_tree_choose b nn nw x r)
         | CRUSH_BUCKET_STRAW _ straws \<Rightarrow>
             map_option (\<lambda>i. (i, work)) (bucket_straw_choose b straws x r)
         | CRUSH_BUCKET_STRAW2 iw \<Rightarrow>
             map_option (\<lambda>i. (i, work)) (bucket_straw2_choose b iw x r arg position)
         | CRUSH_BUCKET_UNKNOWN _ \<Rightarrow>
             map_option (\<lambda>i. (i, work)) (arr_get (bucket_items b) 0) }"

definition is_out :: "u32 list \<Rightarrow> int \<Rightarrow> int \<Rightarrow> bool option" where
  "is_out weight item x =
    (if int (length weight) \<le> item then Some True
     else do { ceph_assert (0 \<le> item);
               w \<leftarrow> arr_get weight (nat item);
               if 0x10000 \<le> w then Some False
               else if w = 0 then Some True
               else Some (\<not> (crush_hash32_2 CRUSH_HASH_RJENKINS1 (word_of_int x) (word_of_int item)
                            AND 0xffff < w)) })"


section \<open>The permutation cache is transparent\<close>

definition perm_off :: "crush_bucket \<Rightarrow> int \<Rightarrow> nat \<Rightarrow> nat" where
  "perm_off b x p = umod (crush_hash32_3 (bucket_hash b) (word_of_int x)
     (word_of_int (bucket_id b)) (word_of_nat p)) (bucket_size b - p)"

definition perm_swap :: "crush_bucket \<Rightarrow> int \<Rightarrow> nat \<Rightarrow> nat list \<Rightarrow> nat list" where
  "perm_swap b x p pm =
    (if p < bucket_size b - 1
     then pm[p := pm ! (p + perm_off b x p), p + perm_off b x p := pm ! p] else pm)"

text \<open>The permutation after its first \<open>n\<close> rounds, computed from scratch.\<close>

primrec perm_ref :: "crush_bucket \<Rightarrow> int \<Rightarrow> nat \<Rightarrow> nat list" where
  "perm_ref b x 0 = [0..<bucket_size b]"
| "perm_ref b x (Suc n) = perm_swap b x n (perm_ref b x n)"

lemma length_perm_swap [simp]: "length (perm_swap b x p pm) = length pm"
  by (simp add: perm_swap_def)

lemma length_perm_ref [simp]: "length (perm_ref b x n) = bucket_size b"
  by (induction n) simp_all

lemma perm_off_less: "p < bucket_size b \<Longrightarrow> p + perm_off b x p < bucket_size b"
  using umod_less[of "bucket_size b - p"] unfolding perm_off_def
  by (metis less_diff_conv add.commute zero_less_diff)

lemma perm_round_eq:
  assumes "length pm = bucket_size b"
  shows "perm_round b x p pm = Some (perm_swap b x p pm)"
  using assms perm_off_less[of p b x]
  by (cases "perm_off b x p = 0")
    (auto simp: perm_round_def perm_swap_def Let_def perm_off_def[symmetric] list_update_swap)

lemma mset_perm_swap: "length pm = bucket_size b \<Longrightarrow> mset (perm_swap b x p pm) = mset pm"
  using perm_off_less[of p b x] by (simp add: perm_swap_def mset_swap)

lemma mset_perm_ref: "mset (perm_ref b x n) = mset [0..<bucket_size b]"
  by (induction n) (simp_all add: mset_perm_swap)

lemma perm_ref_permutation:
  "set (perm_ref b x n) = {0..<bucket_size b}" "distinct (perm_ref b x n)"
  using mset_perm_ref[of b x n]
  by (metis atLeast_upt mset_eq_setD atLeast0LessThan, metis distinct_upt mset_eq_imp_distinct_iff)

lemma perm_ref_less: "i < bucket_size b \<Longrightarrow> perm_ref b x n ! i < bucket_size b"
  using perm_ref_permutation(1)[of b x n] nth_mem[of i "perm_ref b x n"] by auto

lemma perm_swap_nth_before: "q < p \<Longrightarrow> perm_swap b x p pm ! q = pm ! q"
  by (simp add: perm_swap_def)

lemma perm_ref_stable: "q < n \<Longrightarrow> n \<le> m \<Longrightarrow> perm_ref b x m ! q = perm_ref b x n ! q"
  by (induction m) (auto simp: le_Suc_eq perm_swap_nth_before)

lemma perm_swap_cong: "word_of_int x = (word_of_int y :: u32) \<Longrightarrow> perm_swap b x = perm_swap b y"
  by (intro ext) (simp add: perm_swap_def perm_off_def)

lemma perm_ref_cong:
  "word_of_int x = (word_of_int y :: u32) \<Longrightarrow> perm_ref b x n = perm_ref b y n"
  using perm_swap_cong[of x y b] by (induction n) simp_all

lemma perm_loop_ref:
  "n \<le> pr + 1 \<Longrightarrow> perm_loop b x pr n (perm_ref b x n) = Some (pr + 1, perm_ref b x (pr + 1))"
proof (induction "pr + 1 - n" arbitrary: n)
  case 0
  then have "n = pr + 1" by simp
  then show ?case by (subst perm_loop.simps) simp
next
  case (Suc k)
  then have "n \<le> pr" by simp
  then show ?case
    using Suc(1)[of "Suc n"] Suc(2) by (subst perm_loop.simps) (simp add: perm_round_eq)
qed

lemma perm_loop_done: "pr < n \<Longrightarrow> perm_loop b x pr n pm = Some (n, pm)"
  by (subst perm_loop.simps) simp

lemma perm_ref_one:
  assumes "0 < bucket_size b"
  shows "perm_ref b x 1 = (perm_off b x 0 # [1..<bucket_size b])[perm_off b x 0 := 0]"
proof -
  have up: "[0..<bucket_size b] = 0 # [1..<bucket_size b]"
    using assms by (simp add: upt_rec)
  show ?thesis
  proof (cases "0 < bucket_size b - 1")
    case True
    have "[0..<bucket_size b] ! perm_off b x 0 = perm_off b x 0"
      using perm_off_less[OF assms, of x] by simp
    then show ?thesis using True by (simp add: perm_swap_def up)
  next
    case False
    then have "bucket_size b = 1" using assms by linarith
    then show ?thesis by (simp add: perm_swap_def perm_off_def umod_def)
  qed
qed

lemma perm_ref_hd: "0 < bucket_size b \<Longrightarrow> perm_ref b x 1 ! 0 = perm_off b x 0"
  by (cases "perm_off b x 0") (simp_all only: perm_ref_one list_update_code nth_Cons_0)

text \<open>
  The cache of a bucket is valid when it is empty, when it holds the first entry of the
  permutation of its \<open>perm_x\<close> (the magic value), or when it holds the permutation after
  \<open>perm_n\<close> rounds.
\<close>

definition work_bucket_ok :: "crush_bucket \<Rightarrow> crush_work_bucket \<Rightarrow> bool" where
  "work_bucket_ok b w \<longleftrightarrow>
    length (perm w) = bucket_size b \<and>
    (perm_n w = 0
     \<or> perm_n w = 0xffff \<and> 0 < bucket_size b
         \<and> perm w ! 0 = perm_ref b (uint (perm_x w)) 1 ! 0
     \<or> perm_n w \<le> bucket_size b \<and> perm w = perm_ref b (uint (perm_x w)) (perm_n w))"

definition perm_item :: "crush_bucket \<Rightarrow> int \<Rightarrow> int \<Rightarrow> int" where
  "perm_item b x r =
    bucket_items b ! (perm_ref b x (bucket_size b) ! (umod (word_of_int r) (bucket_size b)))"

text \<open>Cleaning up after the \<open>r = 0\<close> shortcut gives the permutation after one round.\<close>

lemma perm_cleanup:
  assumes "length pm = bucket_size b" "0 < bucket_size b" "pm ! 0 = perm_ref b x 1 ! 0"
  shows "(take 1 pm @ [1..<bucket_size b])[pm ! 0 := 0] = perm_ref b x 1"
proof -
  have "take 1 pm = [pm ! 0]" using assms(1,2) by (cases pm) auto
  then show ?thesis
    using perm_ref_one[OF assms(2), of x] perm_ref_hd[OF assms(2), of x] assms(3)
    by (simp add: Let_def)
qed

lemma perm_item_get:
  assumes "pr = umod (word_of_int r) (bucket_size b)" "pr < n" "n \<le> bucket_size b"
  shows "arr_get (bucket_items b) (perm_ref b x n ! pr) = Some (perm_item b x r)"
  using assms perm_ref_stable[of pr n "bucket_size b" b x] perm_ref_less[of pr b x n]
  by (simp add: perm_item_def)

lemma work_bucket_ok_ref:
  "n \<le> bucket_size b \<Longrightarrow>
    work_bucket_ok b \<lparr>perm_x = word_of_int x, perm_n = n, perm = perm_ref b x n\<rparr>"
  using perm_ref_cong[of x "uint (word_of_int x :: u32)" b n] by (simp add: work_bucket_ok_def)

text \<open>The four ways through \<open>bucket_perm_choose\<close>.\<close>

lemma perm_pos_less:
  "0 < bucket_size b \<Longrightarrow> pr = umod (word_of_int r) (bucket_size b) \<Longrightarrow> pr < bucket_size b"
  using umod_less by simp

lemma work_bucket_len: "work_bucket_ok b w \<Longrightarrow> length (perm w) = bucket_size b"
  by (simp add: work_bucket_ok_def)

lemma perm_choose_new0:
  assumes ok: "work_bucket_ok b w" and sz: "0 < bucket_size b" "bucket_size b < 0xffff"
    and pr_eq: "pr = umod (word_of_int r) (bucket_size b)"
    and br: "perm_x w \<noteq> word_of_int x \<or> perm_n w = 0" "pr = 0"
  shows "\<exists>w'. bucket_perm_choose b w x r = Some (perm_item b x r, w') \<and> work_bucket_ok b w'"
proof -
  have hash: "umod (crush_hash32_3 (bucket_hash b) (word_of_int x) (word_of_int (bucket_id b)) 0)
      (bucket_size b) = perm_ref b x 1 ! 0"
    using perm_ref_hd[OF sz(1), of x] by (simp add: perm_off_def)
  have "work_bucket_ok b \<lparr>perm_x = word_of_int x, perm_n = 0xffff,
      perm = (perm w)[0 := perm_ref b x 1 ! 0]\<rparr>"
    using work_bucket_len[OF ok] sz perm_ref_cong[of x "uint (word_of_int x :: u32)" b 1]
    by (simp add: work_bucket_ok_def)
  then show ?thesis
    using br perm_item_get[OF pr_eq, of 1 x] work_bucket_len[OF ok] sz hash
    by (simp add: bucket_perm_choose_def Let_def pr_eq[symmetric])
qed

lemma perm_choose_new:
  assumes ok: "work_bucket_ok b w" and sz: "0 < bucket_size b" "bucket_size b < 0xffff"
    and pr_eq: "pr = umod (word_of_int r) (bucket_size b)"
    and br: "perm_x w \<noteq> word_of_int x \<or> perm_n w = 0" "pr \<noteq> 0"
  shows "\<exists>w'. bucket_perm_choose b w x r = Some (perm_item b x r, w') \<and> work_bucket_ok b w'"
proof -
  have "perm_loop b x pr 0 [0..<bucket_size b] = Some (pr + 1, perm_ref b x (pr + 1))"
    using perm_loop_ref[of 0 pr b x] by simp
  then show ?thesis
    using br perm_item_get[OF pr_eq, of "pr + 1" x] work_bucket_ok_ref[of "pr + 1" b x]
      perm_pos_less[OF sz(1) pr_eq] work_bucket_len[OF ok] sz
    by (simp add: bucket_perm_choose_def Let_def pr_eq[symmetric])
qed

lemma perm_choose_magic:
  assumes ok: "work_bucket_ok b w" and sz: "0 < bucket_size b" "bucket_size b < 0xffff"
    and pr_eq: "pr = umod (word_of_int r) (bucket_size b)"
    and br: "perm_x w = word_of_int x" "perm_n w = 0xffff"
  shows "\<exists>w'. bucket_perm_choose b w x r = Some (perm_item b x r, w') \<and> work_bucket_ok b w'"
proof -
  have hd0: "perm w ! 0 = perm_ref b x 1 ! 0"
    using br ok sz perm_ref_cong[of x "uint (word_of_int x :: u32)" b 1]
    by (auto simp: work_bucket_ok_def)
  have "(take 1 (perm w) @ [1..<bucket_size b])[perm w ! 0 := 0] = perm_ref b x 1"
    using perm_cleanup[OF work_bucket_len[OF ok] sz(1) hd0] .
  moreover have "perm w ! 0 < bucket_size b"
    using hd0 perm_ref_less[of 0 b x 1] sz by simp
  moreover have "hd (take 1 (perm w) @ [1..<bucket_size b]) = perm w ! 0"
    using work_bucket_len[OF ok] sz by (cases "perm w") auto
  moreover have "perm_loop b x pr 1 (perm_ref b x 1) = Some (pr + 1, perm_ref b x (pr + 1))"
    using perm_loop_ref[of 1 pr b x] by simp
  ultimately show ?thesis
    using br perm_item_get[OF pr_eq, of "pr + 1" x] work_bucket_ok_ref[of "pr + 1" b x]
      perm_pos_less[OF sz(1) pr_eq] work_bucket_len[OF ok] sz
    by (simp add: bucket_perm_choose_def Let_def pr_eq[symmetric])
qed

lemma perm_choose_cached:
  assumes ok: "work_bucket_ok b w" and sz: "0 < bucket_size b" "bucket_size b < 0xffff"
    and pr_eq: "pr = umod (word_of_int r) (bucket_size b)"
    and br: "perm_x w = word_of_int x" "perm_n w \<noteq> 0" "perm_n w \<noteq> 0xffff"
  shows "\<exists>w'. bucket_perm_choose b w x r = Some (perm_item b x r, w') \<and> work_bucket_ok b w'"
proof -
  define m where "m = max (perm_n w) (pr + 1)"
  have n: "perm_n w \<le> bucket_size b" "perm w = perm_ref b x (perm_n w)"
    using br ok perm_ref_cong[of x "uint (word_of_int x :: u32)" b "perm_n w"]
    by (auto simp: work_bucket_ok_def)
  have "perm_loop b x pr (perm_n w) (perm w) = Some (m, perm_ref b x m)"
    using perm_loop_ref[of "perm_n w" pr b x] perm_loop_done[of pr "perm_n w"] n(2)
    by (cases "perm_n w \<le> pr + 1") (auto simp: m_def max_def)
  moreover have "pr < m" "m \<le> bucket_size b"
    using n(1) perm_pos_less[OF sz(1) pr_eq] by (auto simp: m_def)
  ultimately show ?thesis
    using br perm_item_get[OF pr_eq, of m x] work_bucket_ok_ref[of m b x] sz perm_pos_less[OF sz(1) pr_eq]
    by (simp add: bucket_perm_choose_def Let_def pr_eq[symmetric])
qed

lemma bucket_perm_choose_correct:
  assumes "work_bucket_ok b w" "0 < bucket_size b" "bucket_size b < 0xffff"
  shows "\<exists>w'. bucket_perm_choose b w x r = Some (perm_item b x r, w') \<and> work_bucket_ok b w'"
  using perm_choose_new0[OF assms refl] perm_choose_new[OF assms refl]
    perm_choose_magic[OF assms refl] perm_choose_cached[OF assms refl] by blast

section \<open>The highest draw\<close>

text \<open>\<open>high\<close> is the first position that holds the highest draw.\<close>

definition first_max :: "'a::linorder list \<Rightarrow> nat \<Rightarrow> bool" where
  "first_max ds h \<longleftrightarrow> h < length ds \<and> (\<forall>j<length ds. ds ! j \<le> ds ! h) \<and> (\<forall>j<h. ds ! j < ds ! h)"

lemma first_max_unique: "first_max ds h \<Longrightarrow> first_max ds h' \<Longrightarrow> h = h'"
  unfolding first_max_def by (metis leD linorder_neqE_nat)

lemma first_max_less: "first_max ds h \<Longrightarrow> j < h \<Longrightarrow> ds ! j < ds ! h"
  by (simp add: first_max_def)

lemma first_max_snoc:
  "first_max ds h \<Longrightarrow> first_max (ds @ [d]) (if ds ! h < d then length ds else h)"
  unfolding first_max_def by (auto simp: nth_append less_Suc_eq intro: le_less_trans)

lemma high_loop_first_max:
  "first_max pre h \<Longrightarrow> first_max (pre @ ds) (high_loop ds (length pre) h (pre ! h))"
proof (induction ds arbitrary: pre h)
  case (Cons d ds)
  have pre: "length pre \<noteq> 0" using Cons(2) by (auto simp: first_max_def)
  have h: "h < length pre" using Cons(2) by (simp add: first_max_def)
  show ?case
    using Cons(1)[OF first_max_snoc[OF Cons(2), of d]] pre h
    by (auto simp: nth_append split: if_splits)
qed simp

lemma high_loop_correct: "ds \<noteq> [] \<Longrightarrow> first_max ds (high_loop ds 0 0 z)"
proof (cases ds)
  case (Cons d ds')
  have "first_max [d] 0" by (simp add: first_max_def)
  then show ?thesis using high_loop_first_max[of "[d]" 0 ds'] Cons by simp
qed simp

lemma those_map_Some: "(\<And>i. i \<in> set is \<Longrightarrow> f i = Some (g i)) \<Longrightarrow> those (map f is) = Some (map g is)"
  by (induction "is") auto

section \<open>Straw2 draws\<close>

lemma exp_draw:
  "\<exists>l. l \<le> 0 \<and> - (2 ^ 48) \<le> l \<and> (\<forall>w. w \<noteq> 0 \<longrightarrow>
    generate_exponential_distribution ty x y z w = Some (l sdiv w))"
proof -
  obtain l where "crush_ln (uint (crush_hash32_3 ty (word_of_int x) (word_of_int y) (word_of_int z))
      mod 2 ^ 16) = Some l" "0 \<le> l" "l < 2 ^ 48"
    using crush_ln_bound[of "uint (crush_hash32_3 ty (word_of_int x) (word_of_int y) (word_of_int z))
      mod 2 ^ 16"] by auto
  then show ?thesis
    by (intro exI[of _ "l - 2 ^ 48"]) (auto simp: generate_exponential_distribution_def Let_def)
qed

lemma sdiv_mono_weight: "l \<le> 0 \<Longrightarrow> 0 < w \<Longrightarrow> w \<le> w' \<Longrightarrow> l sdiv w \<le> (l sdiv w' :: int)"
  by (cases "l = 0") (simp_all add: signed_divide_int_def sgn_mult zdiv_mono2)

lemma sdiv_weight_bounds:
  "l \<le> 0 \<Longrightarrow> - (2 ^ 48) \<le> l \<Longrightarrow> 0 < w \<Longrightarrow> - (2 ^ 48) \<le> l sdiv w \<and> l sdiv w \<le> (0 :: int)"
  using zdiv_mono2[of "- l" 1 w]
  by (cases "l = 0") (auto simp: signed_divide_int_def sgn_mult pos_imp_zdiv_nonneg_iff)

lemma sdiv_neg_weight: "l \<le> 0 \<Longrightarrow> w < 0 \<Longrightarrow> 0 \<le> (l sdiv w :: int)"
  by (cases "l = 0") (auto simp: signed_divide_int_def sgn_mult neg_imp_zdiv_nonneg_iff)

lemma sint_small: "w < 2 ^ 31 \<Longrightarrow> sint (w :: u32) = uint w"
  using order_trans[of "- 2147483648" 0 "uint w"]
  by (simp add: sint_uint signed_take_bit_int_eq_self_iff word_less_def)

lemma sint_big: "2 ^ 31 \<le> w \<Longrightarrow> sint (w :: u32) < 0"
proof -
  assume "2 ^ 31 \<le> w"
  then have w: "2 ^ 31 \<le> uint w" "uint w < 2 ^ 32"
    using uint_lt2p[of w] by (simp_all add: word_le_def)
  have "(uint w + 2 ^ 31) mod 2 ^ 32 = uint w + 2 ^ 31 - 2 ^ 32"
    using w minus_mod_self2[of "uint w + 2 ^ 31" "2 ^ 32"]
      mod_pos_pos_trivial[of "uint w + 2 ^ 31 - 2 ^ 32" "2 ^ 32"] by simp
  then show ?thesis
    using w by (simp add: sint_uint signed_take_bit_eq_take_bit_shift take_bit_eq_mod)
qed

text \<open>The draw of item \<open>i\<close> under weight \<open>w\<close>.\<close>

definition draw_of :: "crush_bucket \<Rightarrow> int list \<Rightarrow> int \<Rightarrow> int \<Rightarrow> nat \<Rightarrow> u32 \<Rightarrow> int" where
  "draw_of b ids x r i w =
    (if w = 0 then S64_MIN
     else the (generate_exponential_distribution (bucket_hash b) x (ids ! i) r (sint w)))"

lemma straw2_draw_eq:
  "i < length ws \<Longrightarrow> i < length ids \<Longrightarrow>
    straw2_draw b ws ids x r i = Some (draw_of b ids x r i (ws ! i))"
  using exp_draw[of "bucket_hash b" x "ids ! i" r] signed_eq_0_iff[of "ws ! i"]
  by (auto simp: straw2_draw_def draw_of_def)

lemma draw_of_mono:
  assumes "w \<le> w'" "w' < 2 ^ 31"
  shows "draw_of b ids x r i w \<le> draw_of b ids x r i w'"
proof -
  obtain l where l: "l \<le> 0" "- (2 ^ 48) \<le> l"
      "\<And>w. w \<noteq> 0 \<Longrightarrow> generate_exponential_distribution (bucket_hash b) x (ids ! i) r w = Some (l sdiv w)"
    using exp_draw by blast
  have w: "sint w = uint w" "sint w' = uint w'" "uint w \<le> uint w'"
    using assms sint_small[of w] sint_small[of w'] by (auto simp: word_le_def[symmetric])
  have pos: "0 < uint v" if "v \<noteq> 0" for v :: u32
    using that by (metis uint_0_iff uint_ge_0 less_le)
  show ?thesis
    using l w pos[of w] pos[of w'] assms sdiv_mono_weight[of l "uint w" "uint w'"]
      sdiv_weight_bounds[of l "uint w'"]
    by (auto simp: draw_of_def S64_MIN_def word_le_def uint_0_iff)
qed

lemma straw2_choose_eq:
  assumes "0 < bucket_size b" "length ws = bucket_size b"
  shows "\<exists>h. first_max (map (\<lambda>i. draw_of b (bucket_items b) x r i (ws ! i)) [0..<bucket_size b]) h
    \<and> bucket_straw2_choose b ws x r None pos = Some (bucket_items b ! h)"
proof -
  let ?ds = "map (\<lambda>i. draw_of b (bucket_items b) x r i (ws ! i)) [0..<bucket_size b]"
  have "those (map (straw2_draw b ws (bucket_items b) x r) [0..<bucket_size b]) = Some ?ds"
    using assms by (intro those_map_Some) (simp add: straw2_draw_eq)
  moreover have "first_max ?ds (high_loop ?ds 0 0 0)"
    using assms(1) by (intro high_loop_correct) simp
  ultimately show ?thesis
    by (auto simp: bucket_straw2_choose_def get_choose_arg_weights_def get_choose_arg_ids_def
        first_max_def)
qed

lemma first_max_raise:
  assumes "first_max ds h" "first_max ds' h'" "length ds' = length ds" "h' \<noteq> j"
    and same: "\<And>i. i < length ds \<Longrightarrow> i \<noteq> j \<Longrightarrow> ds' ! i = ds ! i"
    and up: "j < length ds \<Longrightarrow> ds ! j \<le> ds' ! j"
  shows "h' = h"
proof (rule first_max_unique[OF _ assms(1)])
  have le: "ds ! i \<le> ds' ! i" if "i < length ds" for i
    using same[OF that] up that by (cases "i = j") auto
  have h': "h' < length ds" "ds' ! h' = ds ! h'"
    using assms(2,3,4) same by (auto simp: first_max_def)
  show "first_max ds h'"
    using assms(2,3) le h' unfolding first_max_def
    by (metis le_less_trans order_trans less_trans)
qed

text \<open>
  Property C25.  Straw2 moves only the data it has to: when the weight of one item of a straw2
  bucket goes up and all weights stay below \<open>2 ^ 31\<close>, every input keeps the item it had before
  or moves to the item whose weight went up (read the other way round: when a weight goes down,
  an input moves only away from that item).
\<close>

theorem straw2_minimal_movement:
  assumes "length ws = bucket_size b" "j < bucket_size b" "ws ! j \<le> w" "w < 2 ^ 31"
  shows "bucket_straw2_choose b (ws[j := w]) x r None pos
    \<in> {bucket_straw2_choose b ws x r None pos, Some (bucket_items b ! j)}"
proof -
  let ?D = "\<lambda>ws. map (\<lambda>i. draw_of b (bucket_items b) x r i (ws ! i)) [0..<bucket_size b]"
  have sz: "0 < bucket_size b" using assms(2) by linarith
  obtain h where h: "first_max (?D ws) h"
      "bucket_straw2_choose b ws x r None pos = Some (bucket_items b ! h)"
    using straw2_choose_eq[OF sz assms(1)] by blast
  obtain h' where h': "first_max (?D (ws[j := w])) h'"
      "bucket_straw2_choose b (ws[j := w]) x r None pos = Some (bucket_items b ! h')"
    using straw2_choose_eq[OF sz, of "ws[j := w]"] assms(1) by (metis length_list_update)
  have "h' = h" if "h' \<noteq> j"
    using first_max_raise[OF h(1) h'(1) _ that] draw_of_mono[OF assms(3,4)] assms(1,2) by simp
  then show ?thesis using h(2) h'(2) by auto
qed

definition demo_straw2 :: "u32 list \<Rightarrow> crush_bucket" where
  "demo_straw2 ws = \<lparr>bucket_id = - 2, bucket_type = 1, bucket_alg = CRUSH_BUCKET_STRAW2 ws,
     bucket_hash = 0, bucket_weight = sum_list ws, bucket_items = [0..int (length ws) - 1]\<rparr>"

theorem straw2_minimal_movement_witness:
  "bucket_straw2_choose (demo_straw2 [0x10000, 0x10000, 0x10000])
     ([0x10000, 0x10000, 0x10000][1 := 0x30000]) 7 0 None 0
   \<in> {bucket_straw2_choose (demo_straw2 [0x10000, 0x10000, 0x10000]) [0x10000, 0x10000, 0x10000]
        7 0 None 0, Some (bucket_items (demo_straw2 [0x10000, 0x10000, 0x10000]) ! 1)}"
  by (rule straw2_minimal_movement) (simp_all add: demo_straw2_def upto.simps)

text \<open>The sign of a draw.\<close>

lemma draw_of_heavy: "2 ^ 31 \<le> w \<Longrightarrow> 0 \<le> draw_of b ids x r i w"
  using exp_draw[of "bucket_hash b" x "ids ! i" r] sint_big[of w]
  by (auto simp: draw_of_def intro: sdiv_neg_weight)

lemma draw_of_light:
  assumes "w < 2 ^ 31"
  shows "draw_of b ids x r i w \<le> 0"
proof -
  obtain l where "l \<le> 0" "- (2 ^ 48) \<le> l" "\<And>w. w \<noteq> 0 \<Longrightarrow>
      generate_exponential_distribution (bucket_hash b) x (ids ! i) r w = Some (l sdiv w)"
    using exp_draw by blast
  moreover have "w \<noteq> 0 \<Longrightarrow> 0 < uint w" by (metis uint_0_iff uint_ge_0 less_le)
  ultimately show ?thesis
    using sint_small[OF assms] sdiv_weight_bounds[of l "uint w"]
    by (auto simp: draw_of_def S64_MIN_def)
qed

text \<open>
  Property C36.  A weight of \<open>2 ^ 31\<close> or more, which \<open>CRUSH_MAX_BUCKET_WEIGHT\<close> allows, turns
  negative when \<open>bucket_straw2_choose\<close> passes it as an \<open>int\<close>.  If item \<open>j\<close> is the only one of a
  straw2 bucket with such a weight, then every input goes to item \<open>j\<close>, or to an item before it whose
  draw is 0 (a draw that is rounded to 0 ties with the heavy item, and the first of them is kept).
  The items after \<open>j\<close> receive nothing, whatever their weights below \<open>2 ^ 31\<close> are.
\<close>

theorem straw2_heavy_item_takes_all:
  assumes "length ws = bucket_size b" "j < bucket_size b" "2 ^ 31 \<le> ws ! j"
    and "\<forall>i<bucket_size b. i \<noteq> j \<longrightarrow> ws ! i < 2 ^ 31"
  shows "\<exists>h\<le>j. bucket_straw2_choose b ws x r None pos = Some (bucket_items b ! h) \<and>
    (h < j \<longrightarrow> straw2_draw b ws (bucket_items b) x r h = Some 0)"
proof -
  have sz: "0 < bucket_size b" using assms(2) by linarith
  let ?ds = "map (\<lambda>i. draw_of b (bucket_items b) x r i (ws ! i)) [0..<bucket_size b]"
  obtain h where h: "first_max ?ds h"
      "bucket_straw2_choose b ws x r None pos = Some (bucket_items b ! h)"
    using straw2_choose_eq[OF sz assms(1)] by blast
  have ds: "?ds ! i = draw_of b (bucket_items b) x r i (ws ! i)" if "i < bucket_size b" for i
    using that by simp
  have hs: "h < bucket_size b" "?ds ! j \<le> ?ds ! h" using h(1) assms(2) by (auto simp: first_max_def)
  have j: "0 \<le> ?ds ! j" unfolding ds[OF assms(2)] by (rule draw_of_heavy[OF assms(3)])
  have light: "?ds ! h \<le> 0" if "h \<noteq> j" unfolding ds[OF hs(1)] using assms(4) hs(1) that by (intro draw_of_light) simp
  have "h \<le> j"
  proof (rule ccontr)
    assume "\<not> h \<le> j"
    then have "?ds ! j < ?ds ! h" "h \<noteq> j" using first_max_less[OF h(1), of j] by simp_all
    then show False using j light by linarith
  qed
  moreover have "straw2_draw b ws (bucket_items b) x r h = Some 0" if "h < j"
    using straw2_draw_eq[of h ws "bucket_items b" b x r] ds[OF hs(1)] j light hs that assms(1) by simp
  ultimately show ?thesis using h(2) by blast
qed

theorem straw2_heavy_item_takes_all_witness:
  "\<exists>h\<le>1. bucket_straw2_choose (demo_straw2 [0x10000, 0x80000000, 0x7fff0000]) [0x10000, 0x80000000, 0x7fff0000] 5 1 None 0
    = Some (bucket_items (demo_straw2 [0x10000, 0x80000000, 0x7fff0000]) ! h)"
proof -
  let ?ws = "[0x10000, 0x80000000, 0x7fff0000] :: u32 list"
  have "bucket_size (demo_straw2 ?ws) = 3" by (simp add: demo_straw2_def)
  then show ?thesis
    using straw2_heavy_item_takes_all[of ?ws "demo_straw2 ?ws" 1 5 1 0]
    by (auto simp: less_Suc_eq numeral_3_eq_3)
qed

section \<open>Tree buckets\<close>

lemma height_pow: "odd k \<Longrightarrow> height (2 ^ h * k) = Some h"
proof (induction h)
  case 0
  then show ?case by (subst height.simps) (auto elim: oddE)
next
  case (Suc h)
  have "2 ^ Suc h * k \<noteq> 0" using Suc(2) by (auto elim: oddE)
  then show ?case using Suc by (subst height.simps) simp
qed

lemma pow_odd: "0 < (n :: nat) \<Longrightarrow> \<exists>h k. odd k \<and> n = 2 ^ h * k"
proof (induction n rule: less_induct)
  case (less n)
  show ?case
  proof (cases "odd n")
    case True
    then show ?thesis by (intro exI[of _ 0] exI[of _ n]) simp
  next
    case False
    then obtain m where m: "n = 2 * m" by blast
    have "m < n" "0 < m" using m less(2) by simp_all
    then obtain h k where "odd k" "m = 2 ^ h * k" using less(1) by blast
    then show ?thesis using m by (intro exI[of _ "Suc h"] exI[of _ k]) simp
  qed
qed

text \<open>The two children of an inner node of a tree with \<open>2 ^ d\<close> slots.\<close>

lemma tree_children:
  assumes "odd k" "n = 2 ^ Suc h * k" "n < 2 ^ d"
  shows "left n = Some (2 ^ h * (2 * k - 1))" "right n = Some (2 ^ h * (2 * k + 1))"
    "2 ^ h * (2 * k - 1) < 2 ^ d" "2 ^ h * (2 * k + 1) < 2 ^ d"
proof -
  have hn: "height n = Some (Suc h)" using height_pow[OF assms(1), of "Suc h"] assms(2) by simp
  have k: "0 < k" using assms(1) by (auto elim: oddE)
  show "left n = Some (2 ^ h * (2 * k - 1))" "right n = Some (2 ^ h * (2 * k + 1))"
    using hn assms(2) k by (simp_all add: left_def right_def algebra_simps)
  have hd: "Suc h \<le> d"
  proof (rule ccontr)
    assume "\<not> Suc h \<le> d"
    then have "(2::nat) ^ d \<le> 2 ^ h" by (intro power_increasing) auto
    moreover have "2 ^ h \<le> n"
      using assms(2) k by (intro dvd_imp_le) (simp_all add: dvd_mult2)
    ultimately show False using assms(3) by linarith
  qed
  then have dd: "(2::nat) ^ d = 2 ^ Suc h * 2 ^ (d - Suc h)"
    by (metis power_add le_add_diff_inverse)
  then have "k < 2 ^ (d - Suc h)" using assms(2,3) by simp
  then have "k + 1 \<le> 2 ^ (d - Suc h)" by simp
  then have "2 ^ Suc h * (k + 1) \<le> 2 ^ d" unfolding dd by (rule mult_le_mono2)
  moreover have "2 ^ h * (2 * k + 1) < 2 ^ Suc h * (k + 1)" by simp
  ultimately show "2 ^ h * (2 * k + 1) < 2 ^ d" by linarith
  moreover have "2 ^ h * (2 * k - 1) \<le> 2 ^ h * (2 * k + 1)" by (intro mult_le_mono2) simp
  ultimately show "2 ^ h * (2 * k - 1) < 2 ^ d" by linarith
qed

text \<open>
  A well-formed tree: a power of two of slots, the weight of an inner node is the sum of the
  weights of its children, the leaves beyond the items weigh nothing and the root weighs
  something.
\<close>

definition tree_ok :: "crush_bucket \<Rightarrow> u8 \<Rightarrow> u32 list \<Rightarrow> bool" where
  "tree_ok b nn nw \<longleftrightarrow>
    unat nn \<in> {2, 4, 8, 16, 32, 64, 128} \<and> length nw = unat nn \<and> 0 < uint (nw ! (unat nn div 2)) \<and>
    (\<forall>n\<in>set [1..<unat nn].
       if even n then uint (nw ! n) = uint (nw ! the (left n)) + uint (nw ! the (right n))
       else nw ! n = 0 \<or> n div 2 < bucket_size b)"

lemma tree_ok_pow: "tree_ok b nn nw \<Longrightarrow> \<exists>d. unat nn = 2 ^ Suc d"
proof -
  assume "tree_ok b nn nw"
  then have "unat nn \<in> (\<lambda>d. 2 ^ Suc d) ` {0, 1, 2, 3, 4, 5, 6}" by (simp add: tree_ok_def)
  then show ?thesis by blast
qed

lemma tree_okD:
  assumes "tree_ok b nn nw"
  shows "length nw = unat nn" "0 < uint (nw ! (unat nn div 2))"
    "0 < n \<Longrightarrow> n < unat nn \<Longrightarrow> even n \<Longrightarrow> left n = Some l \<Longrightarrow> right n = Some q \<Longrightarrow>
      uint (nw ! n) = uint (nw ! l) + uint (nw ! q)"
    "n < unat nn \<Longrightarrow> odd n \<Longrightarrow> 0 < uint (nw ! n) \<Longrightarrow> n div 2 < bucket_size b"
proof -
  have node: "if even n then uint (nw ! n) = uint (nw ! the (left n)) + uint (nw ! the (right n))
      else nw ! n = 0 \<or> n div 2 < bucket_size b" if "0 < n" "n < unat nn"
    using assms that unfolding tree_ok_def by force
  show "length nw = unat nn" "0 < uint (nw ! (unat nn div 2))"
    using assms unfolding tree_ok_def by blast+
  show "uint (nw ! n) = uint (nw ! l) + uint (nw ! q)"
    if "0 < n" "n < unat nn" "even n" "left n = Some l" "right n = Some q"
    using node that by simp
  show "n div 2 < bucket_size b" if "n < unat nn" "odd n" "0 < uint (nw ! n)"
    using node that odd_pos[of n] by fastforce
qed

text \<open>The walk keeps to nodes of positive weight, so it ends at the leaf of an item.\<close>

lemma tree_choose_loop_ok:
  assumes "tree_ok b nn nw" "odd k" "n = 2 ^ h * k" "n < unat nn" "0 < uint (nw ! n)"
  shows "\<exists>m. tree_choose_loop b nw x r n = Some m \<and> odd m \<and> m < unat nn \<and> 0 < uint (nw ! m)"
  using assms
proof (induction h arbitrary: n k)
  case 0
  then show ?case by (subst tree_choose_loop.simps) (simp add: terminal_def)
next
  case (Suc h)
  obtain d where d: "unat nn = 2 ^ d" using tree_ok_pow[OF Suc(2)] by blast
  note ch = tree_children[OF Suc(3,4), of d]
  define l where "l = 2 ^ h * (2 * k - 1)"
  define q where "q = 2 ^ h * (2 * k + 1)"
  have lr: "left n = Some l" "right n = Some q" "l < unat nn" "q < unat nn"
    using ch Suc(5) d by (simp_all add: l_def q_def)
  have n: "even n" "0 < n" using Suc(3,4) by (auto elim: oddE)
  then have sum: "uint (nw ! n) = uint (nw ! l) + uint (nw ! q)"
    using tree_okD(3)[OF Suc(2)] lr Suc(5) by blast
  have odds: "odd (2 * k - 1)" "odd (2 * k + 1)" using Suc(3) by (auto elim: oddE)
  define t where "t = uint (crush_hash32_4 (bucket_hash b) (word_of_int x) (word_of_nat n)
      (word_of_int r) (word_of_int (bucket_id b))) * uint (nw ! n) div 2 ^ 32"
  have "uint (crush_hash32_4 (bucket_hash b) (word_of_int x) (word_of_nat n)
      (word_of_int r) (word_of_int (bucket_id b))) * uint (nw ! n) < 2 ^ 32 * uint (nw ! n)"
    using Suc(6) by (intro mult_strict_right_mono) (simp_all add: uint_lt2p[where 'a = 32, simplified])
  then have t: "t < uint (nw ! n)" unfolding t_def by (simp add: div_less_iff_less_mult ac_simps)
  have step: "tree_choose_loop b nw x r n =
      (if t < uint (nw ! l) then tree_choose_loop b nw x r l else tree_choose_loop b nw x r q)"
    using n lr Suc(5) tree_okD(1)[OF Suc(2)]
    by (subst tree_choose_loop.simps) (simp add: terminal_def Let_def t_def)
  show ?case
  proof (cases "t < uint (nw ! l)")
    case True
    moreover have "0 \<le> t" unfolding t_def by (intro div_int_pos_iff[THEN iffD2]) simp
    ultimately have "0 < uint (nw ! l)" by linarith
    then show ?thesis
      using Suc(1)[OF Suc(2) odds(1) l_def lr(3)] step True by simp
  next
    case False
    then have "0 < uint (nw ! q)" using t sum by linarith
    then show ?thesis
      using Suc(1)[OF Suc(2) odds(2) q_def lr(4)] step False by simp
  qed
qed

lemma bucket_tree_choose_ok:
  assumes "tree_ok b nn nw"
  shows "\<exists>p<bucket_size b. bucket_tree_choose b nn nw x r = Some (bucket_items b ! p)
    \<and> 0 < uint (nw ! crush_calc_tree_node p)"
proof -
  obtain d where d: "unat nn = 2 ^ Suc d" using tree_ok_pow[OF assms] by blast
  obtain m where m: "tree_choose_loop b nw x r (unat nn div 2) = Some m" "odd m" "m < unat nn"
      "0 < uint (nw ! m)"
    using tree_choose_loop_ok[OF assms, of 1 "unat nn div 2" d x r] d
      tree_okD(2)[OF assms] by auto
  have "m div 2 < bucket_size b"
    using tree_okD(4)[OF assms] m(2-4) by blast
  moreover have "crush_calc_tree_node (m div 2) = m"
    using m(2) by (auto simp: crush_calc_tree_node_def elim: oddE)
  ultimately show ?thesis
    using m by (intro exI[of _ "m div 2"]) (simp add: bucket_tree_choose_def)
qed

text \<open>
  On a well-formed tree bucket \<open>bucket_tree_choose\<close> walks from the root to a leaf
  (so its loop and \<open>height\<close> terminate), never leaves the item array, and picks an item whose leaf
  has a positive weight.
\<close>

lemma bucket_tree_choose_weighted:
  assumes "tree_ok b nn nw"
  shows "\<exists>p<bucket_size b. bucket_tree_choose b nn nw x r = Some (bucket_items b ! p)
    \<and> 0 < uint (nw ! crush_calc_tree_node p)"
  by (rule bucket_tree_choose_ok[OF assms])

definition demo_tree :: "u32 list \<Rightarrow> crush_bucket" where
  "demo_tree nw = \<lparr>bucket_id = - 3, bucket_type = 1, bucket_alg = CRUSH_BUCKET_TREE 8 nw,
     bucket_hash = 0, bucket_weight = nw ! 4, bucket_items = [10, 11, 12]\<rparr>"

lemma demo_tree_zero_loop:
  "tree_choose_loop b (replicate 8 0) x r 4 = Some 7"
proof -
  have h: "height 4 = Some 2" "height 6 = Some 1"
    using height_pow[of 1 2] height_pow[of 3 1] by simp_all
  have lr: "left 4 = Some 2" "right 4 = Some 6" "left 6 = Some 5" "right 6 = Some 7"
    by (simp_all add: left_def right_def h)
  have "tree_choose_loop b (replicate 8 0) x r 7 = Some 7"
    by (subst tree_choose_loop.simps) (simp add: terminal_def)
  then have "tree_choose_loop b (replicate 8 0) x r 6 = Some 7"
    by (subst tree_choose_loop.simps) (simp add: terminal_def lr)
  then show ?thesis
    by (subst tree_choose_loop.simps) (simp add: terminal_def lr)
qed

text \<open>
  Property C37.  A tree bucket whose items all have weight 0 makes \<open>bucket_tree_choose\<close> go right
  at every node; when the number of items is not a power of two it then reads past the end of
  the item array (here, three items), for every input.
\<close>

theorem bucket_tree_choose_zero_overruns:
  "bucket_tree_choose (demo_tree (replicate 8 0)) 8 (replicate 8 0) x r = None"
  using demo_tree_zero_loop by (simp add: bucket_tree_choose_def demo_tree_def)

section \<open>Every choose method returns an item of the bucket\<close>

definition alg_ok :: "crush_bucket \<Rightarrow> bool" where
  "alg_ok b \<longleftrightarrow>
    (case bucket_alg b of
       CRUSH_BUCKET_LIST iw sw \<Rightarrow> length iw = bucket_size b \<and> length sw = bucket_size b
     | CRUSH_BUCKET_TREE nn nw \<Rightarrow> tree_ok b nn nw
     | CRUSH_BUCKET_STRAW _ straws \<Rightarrow> length straws = bucket_size b
     | CRUSH_BUCKET_STRAW2 iw \<Rightarrow> length iw = bucket_size b
     | _ \<Rightarrow> True)"

definition arg_ok :: "crush_bucket \<Rightarrow> crush_choose_arg option \<Rightarrow> bool" where
  "arg_ok b arg \<longleftrightarrow>
    (case arg of None \<Rightarrow> True
     | Some a \<Rightarrow>
        (case arg_ids a of None \<Rightarrow> True | Some ids \<Rightarrow> length ids = bucket_size b) \<and>
        (case arg_weight_set a of None \<Rightarrow> True
         | Some ws \<Rightarrow> ws \<noteq> [] \<and> (\<forall>w\<in>set ws. length w = bucket_size b)))"

lemma list_choose_loop_ok:
  "n \<le> bucket_size b \<Longrightarrow> 0 < bucket_size b \<Longrightarrow> length iw = bucket_size b \<Longrightarrow>
    length sw = bucket_size b \<Longrightarrow>
    \<exists>i<bucket_size b. list_choose_loop b iw sw x r n = Some (bucket_items b ! i)"
  by (induction n) (auto simp: Let_def Suc_le_eq)

lemma high_loop_less: "0 < length ds \<Longrightarrow> high_loop ds 0 0 z < length ds"
  using high_loop_correct[of ds z] by (simp add: first_max_def)

lemma bucket_straw_choose_ok:
  assumes "0 < bucket_size b" "length straws = bucket_size b"
  shows "\<exists>i<bucket_size b. bucket_straw_choose b straws x r = Some (bucket_items b ! i)"
proof -
  obtain ds where ds: "those (map (straw_draw b straws x r) [0..<bucket_size b]) = Some ds"
      "length ds = bucket_size b"
    using those_map_Some[of "[0..<bucket_size b]" "straw_draw b straws x r"
        "\<lambda>i. the (straw_draw b straws x r i)"] assms(2) by (simp add: straw_draw_def)
  then have "high_loop ds 0 0 0 < bucket_size b"
    using high_loop_less[of ds] assms(1) by metis
  then show ?thesis using ds by (auto simp: bucket_straw_choose_def)
qed

lemma get_choose_arg_weights_ok:
  "arg_ok b arg \<Longrightarrow> length iw = bucket_size b \<Longrightarrow>
    \<exists>ws. get_choose_arg_weights iw arg pos = Some ws \<and> length ws = bucket_size b"
  by (auto simp: arg_ok_def get_choose_arg_weights_def split: option.splits)

lemma get_choose_arg_ids_ok: "arg_ok b arg \<Longrightarrow> length (get_choose_arg_ids b arg) = bucket_size b"
  by (auto simp: arg_ok_def get_choose_arg_ids_def split: option.splits)

lemma bucket_straw2_choose_ok:
  assumes "0 < bucket_size b" "length iw = bucket_size b" "arg_ok b arg"
  shows "\<exists>i<bucket_size b. bucket_straw2_choose b iw x r arg pos = Some (bucket_items b ! i)"
proof -
  obtain ws where ws: "get_choose_arg_weights iw arg pos = Some ws" "length ws = bucket_size b"
    using get_choose_arg_weights_ok[OF assms(3,2)] by blast
  obtain ds where ds: "those (map (straw2_draw b ws (get_choose_arg_ids b arg) x r)
      [0..<bucket_size b]) = Some ds" "length ds = bucket_size b"
    using those_map_Some[of "[0..<bucket_size b]" "straw2_draw b ws (get_choose_arg_ids b arg) x r"
        "\<lambda>i. draw_of b (get_choose_arg_ids b arg) x r i (ws ! i)"] ws(2)
      get_choose_arg_ids_ok[OF assms(3)] by (simp add: straw2_draw_eq)
  then have "high_loop ds 0 0 0 < bucket_size b"
    using high_loop_less[of ds] assms(1) by metis
  then show ?thesis using ds ws by (auto simp: bucket_straw2_choose_def)
qed

text \<open>
  The interface between the choose methods and the descent of \<open>crush_choose_firstn\<close> and
  \<open>crush_choose_indep\<close>: on a bucket it accepts and with a valid cache, a chooser returns the item
  that the cache-free function \<open>chosen\<close> names, an item of the bucket, and leaves a valid cache.
\<close>

locale bucket_chooser =
  fixes pick :: "crush_bucket \<Rightarrow> crush_work_bucket \<Rightarrow> int \<Rightarrow> int \<Rightarrow> crush_choose_arg option \<Rightarrow> nat \<Rightarrow>
      (int \<times> crush_work_bucket) option"
    and chosen :: "crush_bucket \<Rightarrow> int \<Rightarrow> int \<Rightarrow> crush_choose_arg option \<Rightarrow> nat \<Rightarrow> int"
    and accepts :: "crush_bucket \<Rightarrow> crush_choose_arg option \<Rightarrow> bool"
  assumes pick_chosen: "accepts b arg \<Longrightarrow> work_bucket_ok b w \<Longrightarrow>
      \<exists>w'. pick b w x r arg pos = Some (chosen b x r arg pos, w') \<and> work_bucket_ok b w'"
    and chosen_item: "accepts b arg \<Longrightarrow> chosen b x r arg pos \<in> set (bucket_items b)"
begin

lemma pick_total:
  "accepts b arg \<Longrightarrow> work_bucket_ok b w \<Longrightarrow>
    \<exists>i w'. pick b w x r arg pos = Some (i, w') \<and> i \<in> set (bucket_items b) \<and> work_bucket_ok b w'"
  using pick_chosen chosen_item by meson

lemma pick_cache_irrelevant:
  "accepts b arg \<Longrightarrow> work_bucket_ok b w \<Longrightarrow> work_bucket_ok b v \<Longrightarrow>
    map_option fst (pick b w x r arg pos) = map_option fst (pick b v x r arg pos)"
  using pick_chosen[of b arg w x r pos] pick_chosen[of b arg v x r pos] by auto

end

definition fresh_work :: "crush_bucket \<Rightarrow> crush_work_bucket" where
  "fresh_work b = \<lparr>perm_x = 0, perm_n = 0, perm = replicate (bucket_size b) 0\<rparr>"

definition chooser_accepts :: "crush_bucket \<Rightarrow> crush_choose_arg option \<Rightarrow> bool" where
  "chooser_accepts b arg \<longleftrightarrow>
    0 < bucket_size b \<and> bucket_size b < 0xffff \<and> alg_ok b \<and> arg_ok b arg"

definition bucket_item :: "crush_bucket \<Rightarrow> int \<Rightarrow> int \<Rightarrow> crush_choose_arg option \<Rightarrow> nat \<Rightarrow> int" where
  "bucket_item b x r arg pos = fst (the (crush_bucket_choose b (fresh_work b) x r arg pos))"

lemma perm_item_mem: "0 < bucket_size b \<Longrightarrow> perm_item b x r \<in> set (bucket_items b)"
  using perm_ref_less[of "umod (word_of_int r) (bucket_size b)" b x "bucket_size b"]
    umod_less[of "bucket_size b" "word_of_int r"]
  by (simp add: perm_item_def)

lemma crush_bucket_choose_cases:
  assumes "chooser_accepts b arg"
  shows "(\<forall>w. crush_bucket_choose b w x r arg pos = bucket_perm_choose b w x r) \<or>
    (\<exists>i\<in>set (bucket_items b). \<forall>w. crush_bucket_choose b w x r arg pos = Some (i, w))"
proof -
  have sz: "0 < bucket_size b" using assms by (simp add: chooser_accepts_def)
  show ?thesis
  proof (cases "bucket_alg b")
    case (CRUSH_BUCKET_LIST iw sw)
    then show ?thesis
      using list_choose_loop_ok[of "bucket_size b" b iw sw x r] assms sz
      by (auto simp: crush_bucket_choose_def bucket_list_choose_def chooser_accepts_def alg_ok_def)
  next
    case (CRUSH_BUCKET_TREE nn nw)
    then show ?thesis
      using bucket_tree_choose_ok[of b nn nw x r] assms sz
      by (auto simp: crush_bucket_choose_def chooser_accepts_def alg_ok_def)
  next
    case (CRUSH_BUCKET_STRAW iw straws)
    then show ?thesis
      using bucket_straw_choose_ok[of b straws x r] assms sz
      by (auto simp: crush_bucket_choose_def chooser_accepts_def alg_ok_def)
  next
    case (CRUSH_BUCKET_STRAW2 iw)
    then show ?thesis
      using bucket_straw2_choose_ok[of b iw arg x r pos] assms sz
      by (auto simp: crush_bucket_choose_def chooser_accepts_def alg_ok_def)
  qed (use sz in \<open>auto simp: crush_bucket_choose_def bucket_uniform_choose_def\<close>)
qed

lemma fresh_work_ok [simp]: "work_bucket_ok b (fresh_work b)"
  by (simp add: work_bucket_ok_def fresh_work_def)

lemma crush_bucket_choose_ok:
  assumes "chooser_accepts b arg" "work_bucket_ok b w"
  shows "\<exists>w'. crush_bucket_choose b w x r arg pos = Some (bucket_item b x r arg pos, w') \<and> work_bucket_ok b w'"
    and "bucket_item b x r arg pos \<in> set (bucket_items b)"
proof -
  have sz: "0 < bucket_size b" "bucket_size b < 0xffff"
    using assms(1) by (simp_all add: chooser_accepts_def)
  show "\<exists>w'. crush_bucket_choose b w x r arg pos = Some (bucket_item b x r arg pos, w') \<and> work_bucket_ok b w'"
    "bucket_item b x r arg pos \<in> set (bucket_items b)"
    using crush_bucket_choose_cases[OF assms(1), of x r pos] assms(2)
      bucket_perm_choose_correct[OF assms(2) sz, of x r] perm_item_mem[OF sz(1), of x r]
      bucket_perm_choose_correct[OF fresh_work_ok sz, of x r]
    by (auto simp: bucket_item_def)
qed

interpretation bucket_ch: bucket_chooser crush_bucket_choose bucket_item chooser_accepts
  using crush_bucket_choose_ok fresh_work_ok by unfold_locales blast+

interpretation perm_ch: bucket_chooser "\<lambda>b w x r arg pos. bucket_perm_choose b w x r"
  "\<lambda>b x r arg pos. perm_item b x r" "\<lambda>b arg. 0 < bucket_size b \<and> bucket_size b < 0xffff"
  using bucket_perm_choose_correct perm_item_mem by unfold_locales blast+

text \<open>
  Property C26.  Every choose method returns, for every input and replica number, an item of the
  bucket, without reading outside an array; the result does not depend on what earlier calls left
  in the permutation cache, and the cache stays valid.
\<close>

theorem crush_bucket_choose_item:
  assumes "chooser_accepts b arg" "work_bucket_ok b w"
  shows "\<exists>w'. crush_bucket_choose b w x r arg pos = Some (bucket_item b x r arg pos, w')
    \<and> work_bucket_ok b w' \<and> bucket_item b x r arg pos \<in> set (bucket_items b)"
  using bucket_ch.pick_chosen[OF assms] bucket_ch.chosen_item[OF assms(1)] by blast

theorem crush_bucket_choose_item_witness:
  "\<exists>w'. crush_bucket_choose (demo_straw2 [1, 2]) (fresh_work (demo_straw2 [1, 2])) 3 4 None 0 =
      Some (bucket_item (demo_straw2 [1, 2]) 3 4 None 0, w')
    \<and> work_bucket_ok (demo_straw2 [1, 2]) w'
    \<and> bucket_item (demo_straw2 [1, 2]) 3 4 None 0 \<in> set (bucket_items (demo_straw2 [1, 2]))"
  by (rule crush_bucket_choose_item)
    (simp_all add: chooser_accepts_def demo_straw2_def alg_ok_def arg_ok_def upto.simps)

text \<open>
  Property C23.  The permutation that \<open>bucket_perm_choose\<close> builds incrementally, across calls and
  with the shortcut for \<open>r = 0\<close>, is the one computed from scratch (\<open>perm_ref\<close>): replica \<open>r\<close> gets
  entry \<open>r mod size\<close> of it, and it is a permutation, so consecutive replica numbers visit every
  item of the bucket before one repeats.
\<close>

theorem bucket_perm_choose_permutation:
  assumes "work_bucket_ok b w" "0 < bucket_size b" "bucket_size b < 0xffff"
  shows "(\<exists>w'. bucket_perm_choose b w x r =
      Some (bucket_items b ! (perm_ref b x (bucket_size b) ! umod (word_of_int r) (bucket_size b)), w')
      \<and> work_bucket_ok b w')
    \<and> distinct (perm_ref b x (bucket_size b))
    \<and> set (perm_ref b x (bucket_size b)) = {0..<bucket_size b}"
  using bucket_perm_choose_correct[OF assms, of x r] perm_ref_permutation
  by (simp add: perm_item_def)

theorem bucket_perm_choose_permutation_witness:
  "(\<exists>w'. bucket_perm_choose (demo_straw2 [1, 1, 1]) (fresh_work (demo_straw2 [1, 1, 1])) 5 2 =
      Some (bucket_items (demo_straw2 [1, 1, 1]) !
        (perm_ref (demo_straw2 [1, 1, 1]) 5 (bucket_size (demo_straw2 [1, 1, 1]))
          ! umod (word_of_int 2) (bucket_size (demo_straw2 [1, 1, 1]))), w')
      \<and> work_bucket_ok (demo_straw2 [1, 1, 1]) w')
    \<and> distinct (perm_ref (demo_straw2 [1, 1, 1]) 5 (bucket_size (demo_straw2 [1, 1, 1])))
    \<and> set (perm_ref (demo_straw2 [1, 1, 1]) 5 (bucket_size (demo_straw2 [1, 1, 1])))
       = {0..<bucket_size (demo_straw2 [1, 1, 1])}"
  by (rule bucket_perm_choose_permutation) (simp_all add: demo_straw2_def upto.simps)

end
