(* ===== verification/Crush_Mapper.thy ===== *)
theory Crush_Mapper
  imports Crush_Bucket
begin

text \<open>
  The descent of \<open>crush/mapper.c\<close>: \<open>crush_init_workspace\<close>, \<open>crush_choose_firstn\<close> and
  \<open>crush_choose_indep\<close>.  The arguments that stay fixed during a call are a
  record; the workspace is threaded through every operation, so an operation has the type
  \<open>crush_work \<Rightarrow> ('a \<times> crush_work) option\<close>.  Output vectors are lists that start at the pointer the
  code passes; a null \<open>out2\<close> is \<^term>\<open>None\<close>.  The retry loops are partial functions, and their
  termination is proved for maps without cycles.  The retry counters are unbounded, which agrees
  with the code's as long as they stay below \<open>2 ^ 32\<close>.
\<close>

section \<open>The workspace\<close>

record crush_work =
  work_buckets :: "crush_work_bucket option list"
  work_choose_tries :: "u32 list option"

text \<open>
  \<open>crush_init_workspace\<close> lays the per-bucket caches out one after the other; \<open>mem\<close> is the former
  content of the memory.  The final check compares the bytes used with \<open>working_size\<close>.
\<close>

definition workspace_bytes :: "crush_bucket option list \<Rightarrow> nat" where
  "workspace_bytes bs =
    8 + length bs * 8 +
    sum_list (map (\<lambda>b. case b of None \<Rightarrow> 0 | Some b \<Rightarrow> 16 + bucket_size b * 4) bs)"

definition crush_init_workspace :: "crush_map \<Rightarrow> (nat \<Rightarrow> nat) \<Rightarrow> u32 list option \<Rightarrow> crush_work option" where
  "crush_init_workspace m mem tries =
    do { ceph_assert (workspace_bytes (map_buckets m) = working_size m);
         Some \<lparr>work_buckets =
                 map (map_option (\<lambda>b. \<lparr>perm_x = 0, perm_n = 0, perm = map mem [0..<bucket_size b]\<rparr>))
                   (map_buckets m),
               work_choose_tries = tries\<rparr> }"

text \<open>A choose method applied to \<open>work->work[-1-in->id]\<close>.\<close>

definition work_choose ::
  "crush_bucket \<Rightarrow> (crush_work_bucket \<Rightarrow> (int \<times> crush_work_bucket) option) \<Rightarrow>
    crush_work \<Rightarrow> (int \<times> crush_work) option"
where
  "work_choose b f work =
    do { ceph_assert (bucket_id b < 0);
         let i = nat (- 1 - bucket_id b);
         wb \<leftarrow> arr_get (work_buckets work) i;
         wb \<leftarrow> wb;
         (item, wb) \<leftarrow> f wb;
         wbs \<leftarrow> arr_set (work_buckets work) i (Some wb);
         Some (item, work\<lparr>work_buckets := wbs\<rparr>) }"

definition choose_arg_of ::
  "crush_choose_arg list option \<Rightarrow> crush_bucket \<Rightarrow> crush_choose_arg option option"
where
  "choose_arg_of choose_args b =
    (case choose_args of None \<Rightarrow> Some None
     | Some args \<Rightarrow> do { ceph_assert (bucket_id b < 0);
                         map_option Some (arr_get args (nat (- 1 - bucket_id b))) })"

text \<open>The histogram of tries, \<open>map->choose_tries[ftotal]++\<close>.\<close>

definition note_tries :: "crush_map \<Rightarrow> nat \<Rightarrow> crush_work \<Rightarrow> (unit \<times> crush_work) option" where
  "note_tries m ftotal work =
    (case work_choose_tries work of
       None \<Rightarrow> Some ((), work)
     | Some h \<Rightarrow>
        (if ftotal \<le> choose_total_tries m then
           do { v \<leftarrow> arr_get h ftotal; h \<leftarrow> arr_set h ftotal (v + 1);
                Some ((), work\<lparr>work_choose_tries := Some h\<rparr>) }
         else Some ((), work)))"

definition item_type :: "crush_map \<Rightarrow> int \<Rightarrow> int option" where
  "item_type m item =
    (if item < 0 then map_option bucket_type (crush_bucket_at m item) else Some 0)"

section \<open>crush\_choose\_firstn\<close>

record firstn_args =
  fa_map :: crush_map
  fa_weight :: "u32 list"
  fa_x :: int
  fa_numrep :: int
  fa_type :: int
  fa_tries :: nat
  fa_recurse_tries :: nat
  fa_local_retries :: nat
  fa_local_fallback_retries :: nat
  fa_recurse_to_leaf :: bool
  fa_vary_r :: nat
  fa_stable :: bool
  fa_parent_r :: int
  fa_choose_args :: "crush_choose_arg list option"

text \<open>One pass through the body of the inner loop ends in one of four ways.\<close>

datatype firstn_outcome =
    Skip_rep
  | Descend crush_bucket
  | Failed bool
  | Found int

type_synonym firstn_leaf_call =
  "crush_bucket \<Rightarrow> int \<Rightarrow> nat \<Rightarrow> nat \<Rightarrow> int list \<Rightarrow> crush_work \<Rightarrow> ((nat \<times> int list) \<times> crush_work) option"

definition firstn_pick ::
  "firstn_args \<Rightarrow> crush_bucket \<Rightarrow> int \<Rightarrow> nat \<Rightarrow> nat \<Rightarrow> crush_work \<Rightarrow> (int \<times> crush_work) option"
where
  "firstn_pick a b r flocal outpos work =
    (if 0 < fa_local_fallback_retries a \<and> bucket_size b div 2 \<le> flocal
        \<and> fa_local_fallback_retries a < flocal
     then work_choose b (\<lambda>wb. bucket_perm_choose b wb (fa_x a) r) work
     else do { arg \<leftarrow> choose_arg_of (fa_choose_args a) b;
               work_choose b (\<lambda>wb. crush_bucket_choose b wb (fa_x a) r arg outpos) work })"

definition firstn_sub_r :: "nat \<Rightarrow> int \<Rightarrow> int option" where
  "firstn_sub_r vary_r r =
    (if vary_r = 0 then Some 0
     else do { ceph_assert (vary_r - 1 < 32); Some (drop_bit (vary_r - 1) r) })"

text \<open>The leaf below \<open>item\<close> when \<open>recurse_to_leaf\<close> is set; the flag is \<open>reject\<close>.\<close>

definition firstn_leaf_step ::
  "firstn_leaf_call \<Rightarrow> firstn_args \<Rightarrow> nat \<Rightarrow> nat \<Rightarrow> int \<Rightarrow> int \<Rightarrow> int list option \<Rightarrow> crush_work \<Rightarrow>
    ((bool \<times> int list option) \<times> crush_work) option"
where
  "firstn_leaf_step leaf a outpos cnt item r out2 work =
    (if item < 0 then
       do { sub_r \<leftarrow> firstn_sub_r (fa_vary_r a) r;
            b \<leftarrow> crush_bucket_at (fa_map a) item;
            o2 \<leftarrow> out2;
            ((n, o2), work) \<leftarrow> leaf b sub_r outpos cnt o2 work;
            Some ((n \<le> outpos, Some o2), work) }
     else
       do { o2 \<leftarrow> out2; o2 \<leftarrow> arr_set o2 outpos item; Some ((False, Some o2), work) })"

definition firstn_step ::
  "firstn_leaf_call \<Rightarrow> firstn_args \<Rightarrow> nat \<Rightarrow> nat \<Rightarrow> nat \<Rightarrow> int list \<Rightarrow> crush_bucket \<Rightarrow> nat \<Rightarrow> nat \<Rightarrow>
    int list option \<Rightarrow> crush_work \<Rightarrow> ((firstn_outcome \<times> int list option) \<times> crush_work) option"
where
  "firstn_step leaf a outpos cnt rep out b ftotal flocal out2 work =
    do { let m = fa_map a;
         let r = s32 (int rep + fa_parent_r a + int ftotal);
         if bucket_size b = 0 then Some ((Failed False, out2), work)
         else do {
           (item, work) \<leftarrow> firstn_pick a b r flocal outpos work;
           if max_devices m \<le> item then Some ((Skip_rep, out2), work)
           else do {
             itemtype \<leftarrow> item_type m item;
             if itemtype \<noteq> fa_type a then
               if 0 \<le> item \<or> int (max_buckets m) \<le> - 1 - item then Some ((Skip_rep, out2), work)
               else do { b \<leftarrow> crush_bucket_at m item; Some ((Descend b, out2), work) }
             else do {
               ceph_assert (outpos \<le> length out);
               let collide = item \<in> set (take outpos out);
               ((reject, out2), work) \<leftarrow>
                 (if \<not> collide \<and> fa_recurse_to_leaf a
                  then firstn_leaf_step leaf a outpos cnt item r out2 work
                  else Some ((False, out2), work));
               reject \<leftarrow>
                 (if \<not> reject \<and> \<not> collide \<and> itemtype = 0 then is_out (fa_weight a) item (fa_x a)
                  else Some reject);
               Some ((if reject \<or> collide then Failed collide else Found item, out2), work) } } } }"

text \<open>
  The two nested \<open>do\<close> loops around the body \<open>step\<close>; the result is the item, or \<^term>\<open>None\<close> for
  \<open>skip_rep\<close>, and \<open>ftotal\<close>.
\<close>

partial_function (option) firstn_try ::
  "(crush_bucket \<Rightarrow> nat \<Rightarrow> nat \<Rightarrow> int list option \<Rightarrow> crush_work \<Rightarrow>
      ((firstn_outcome \<times> int list option) \<times> crush_work) option) \<Rightarrow>
    firstn_args \<Rightarrow> crush_bucket \<Rightarrow> crush_bucket \<Rightarrow> nat \<Rightarrow> nat \<Rightarrow> int list option \<Rightarrow> crush_work \<Rightarrow>
    ((int option \<times> nat \<times> int list option) \<times> crush_work) option"
where
  "firstn_try step a bucket b ftotal flocal out2 work =
    do { ((oc, out2), work) \<leftarrow> step b ftotal flocal out2 work;
         case oc of
           Skip_rep \<Rightarrow> Some ((None, ftotal, out2), work)
         | Found item \<Rightarrow> Some ((Some item, ftotal, out2), work)
         | Descend b' \<Rightarrow> firstn_try step a bucket b' ftotal flocal out2 work
         | Failed collide \<Rightarrow>
            (if collide \<and> flocal + 1 \<le> fa_local_retries a then
               firstn_try step a bucket b (ftotal + 1) (flocal + 1) out2 work
             else if 0 < fa_local_fallback_retries a
                  \<and> flocal + 1 \<le> bucket_size b + fa_local_fallback_retries a then
               firstn_try step a bucket b (ftotal + 1) (flocal + 1) out2 work
             else if ftotal + 1 < fa_tries a then
               firstn_try step a bucket bucket (ftotal + 1) 0 out2 work
             else Some ((None, ftotal + 1, out2), work)) }"

function firstn_loop ::
  "firstn_leaf_call \<Rightarrow> firstn_args \<Rightarrow> crush_bucket \<Rightarrow> nat \<Rightarrow> nat \<Rightarrow> nat \<Rightarrow> int list \<Rightarrow>
    int list option \<Rightarrow> crush_work \<Rightarrow> ((nat \<times> int list \<times> int list option) \<times> crush_work) option"
where
  "firstn_loop leaf a bucket rep outpos cnt out out2 work =
    (if int rep < fa_numrep a \<and> 0 < cnt then
       do { ((found, ftotal, out2), work) \<leftarrow>
              firstn_try (firstn_step leaf a outpos cnt rep out) a bucket bucket 0 0 out2 work;
            case found of
              None \<Rightarrow> firstn_loop leaf a bucket (rep + 1) outpos cnt out out2 work
            | Some item \<Rightarrow>
                do { out \<leftarrow> arr_set out outpos item;
                     (_, work) \<leftarrow> note_tries (fa_map a) ftotal work;
                     firstn_loop leaf a bucket (rep + 1) (outpos + 1) (cnt - 1) out out2 work } }
     else Some ((outpos, out, out2), work))"
  by pat_completeness auto
termination
  by (relation "measure (\<lambda>(leaf, a, bucket, rep, outpos, cnt, out, out2, work).
        nat (fa_numrep a) - rep)") auto

declare firstn_loop.simps [simp del]

definition choose_firstn_with ::
  "firstn_leaf_call \<Rightarrow> firstn_args \<Rightarrow> crush_bucket \<Rightarrow> int list \<Rightarrow> nat \<Rightarrow> nat \<Rightarrow> int list option \<Rightarrow>
    crush_work \<Rightarrow> ((nat \<times> int list \<times> int list option) \<times> crush_work) option"
where
  "choose_firstn_with leaf a bucket out outpos out_size out2 work =
    firstn_loop leaf a bucket (if fa_stable a then 0 else outpos) outpos out_size out out2 work"

text \<open>
  The recursive call passes \<open>recurse_to_leaf = 0\<close> and a null \<open>out2\<close>, so it does not recurse again.
\<close>

definition firstn_leaf :: "firstn_args \<Rightarrow> firstn_leaf_call" where
  "firstn_leaf a b sub_r outpos cnt out2 work =
    do { ((n, out, _), work) \<leftarrow>
           choose_firstn_with (\<lambda>_ _ _ _ _ _. None)
             (a\<lparr>fa_numrep := (if fa_stable a then 1 else int outpos + 1), fa_type := 0,
                fa_tries := fa_recurse_tries a, fa_recurse_tries := 0,
                fa_recurse_to_leaf := False, fa_parent_r := sub_r\<rparr>)
             b out2 outpos cnt None work;
         Some ((n, out), work) }"

definition crush_choose_firstn ::
  "firstn_args \<Rightarrow> crush_bucket \<Rightarrow> int list \<Rightarrow> nat \<Rightarrow> nat \<Rightarrow> int list option \<Rightarrow> crush_work \<Rightarrow>
    ((nat \<times> int list \<times> int list option) \<times> crush_work) option"
where
  "crush_choose_firstn a bucket out outpos out_size out2 work =
    choose_firstn_with (firstn_leaf a) a bucket out outpos out_size out2 work"

section \<open>crush\_choose\_indep\<close>

record indep_args =
  ia_map :: crush_map
  ia_weight :: "u32 list"
  ia_x :: int
  ia_numrep :: int
  ia_type :: int
  ia_tries :: nat
  ia_recurse_tries :: nat
  ia_recurse_to_leaf :: bool
  ia_parent_r :: int
  ia_choose_args :: "crush_choose_arg list option"

type_synonym indep_leaf_call =
  "crush_bucket \<Rightarrow> int \<Rightarrow> nat \<Rightarrow> int list \<Rightarrow> crush_work \<Rightarrow> (int list \<times> crush_work) option"

definition set_opt :: "int list option \<Rightarrow> nat \<Rightarrow> int \<Rightarrow> int list option option" where
  "set_opt out2 i v = (case out2 of None \<Rightarrow> Some None | Some o2 \<Rightarrow> map_option Some (arr_set o2 i v))"

definition indep_r :: "indep_args \<Rightarrow> crush_bucket \<Rightarrow> nat \<Rightarrow> nat \<Rightarrow> int option" where
  "indep_r a b rep ftotal =
    do { let r = int rep + ia_parent_r a;
         step \<leftarrow>
           (case bucket_alg b of
              CRUSH_BUCKET_UNIFORM _ \<Rightarrow>
                do { ceph_assert (ia_numrep a \<noteq> 0);
                     Some (if int (bucket_size b) mod ia_numrep a = 0 then ia_numrep a + 1
                           else ia_numrep a) }
            | _ \<Rightarrow> Some (ia_numrep a));
         Some (s32 (r + step * int ftotal)) }"

text \<open>The leaf below \<open>item\<close>; the flag says that no leaf was placed.\<close>

definition indep_leaf_step ::
  "indep_leaf_call \<Rightarrow> indep_args \<Rightarrow> nat \<Rightarrow> int \<Rightarrow> int \<Rightarrow> int list option \<Rightarrow> crush_work \<Rightarrow>
    ((bool \<times> int list option) \<times> crush_work) option"
where
  "indep_leaf_step leaf a rep item r out2 work =
    (if item < 0 then
       do { b \<leftarrow> crush_bucket_at (ia_map a) item;
            o2 \<leftarrow> out2;
            (o2, work) \<leftarrow> leaf b r rep o2 work;
            v \<leftarrow> arr_get o2 rep;
            Some ((v = CRUSH_ITEM_NONE, Some o2), work) }
     else do { out2 \<leftarrow> set_opt out2 rep item; Some ((False, out2), work) })"

text \<open>
  The loop \<open>for (;;)\<close> for position \<open>rep\<close>: the result holds the two vectors and whether the
  position was settled (\<open>left--\<close>).
\<close>

partial_function (option) indep_try ::
  "indep_leaf_call \<Rightarrow> indep_args \<Rightarrow> nat \<Rightarrow> nat \<Rightarrow> nat \<Rightarrow> nat \<Rightarrow> crush_bucket \<Rightarrow> int list \<Rightarrow>
    int list option \<Rightarrow> crush_work \<Rightarrow> ((bool \<times> int list \<times> int list option) \<times> crush_work) option"
where
  "indep_try leaf a outpos endpos rep ftotal b out out2 work =
    do { let m = ia_map a;
         r \<leftarrow> indep_r a b rep ftotal;
         if bucket_size b = 0 then Some ((False, out, out2), work)
         else do {
           arg \<leftarrow> choose_arg_of (ia_choose_args a) b;
           (item, work) \<leftarrow> work_choose b (\<lambda>wb. crush_bucket_choose b wb (ia_x a) r arg outpos) work;
           if max_devices m \<le> item then
             do { out \<leftarrow> arr_set out rep CRUSH_ITEM_NONE;
                  out2 \<leftarrow> set_opt out2 rep CRUSH_ITEM_NONE;
                  Some ((True, out, out2), work) }
           else do {
             itemtype \<leftarrow> item_type m item;
             if itemtype \<noteq> ia_type a then
               if 0 \<le> item \<or> int (max_buckets m) \<le> - 1 - item then
                 do { out \<leftarrow> arr_set out rep CRUSH_ITEM_NONE;
                      out2 \<leftarrow> set_opt out2 rep CRUSH_ITEM_NONE;
                      Some ((True, out, out2), work) }
               else do { b \<leftarrow> crush_bucket_at m item;
                         indep_try leaf a outpos endpos rep ftotal b out out2 work }
             else do {
               ceph_assert (endpos \<le> length out);
               if item \<in> set (take (endpos - outpos) (drop outpos out)) then
                 Some ((False, out, out2), work)
               else do {
                 ((noleaf, out2), work) \<leftarrow>
                   (if ia_recurse_to_leaf a then indep_leaf_step leaf a rep item r out2 work
                    else Some ((False, out2), work));
                 if noleaf then Some ((False, out, out2), work)
                 else do {
                   isout \<leftarrow> (if itemtype = 0 then is_out (ia_weight a) item (ia_x a)
                             else Some False);
                   if isout then Some ((False, out, out2), work)
                   else do { out \<leftarrow> arr_set out rep item;
                             Some ((True, out, out2), work) } } } } } } }"

text \<open>One round over the positions that are still undefined.\<close>

fun indep_pass ::
  "indep_leaf_call \<Rightarrow> indep_args \<Rightarrow> crush_bucket \<Rightarrow> nat \<Rightarrow> nat \<Rightarrow> nat \<Rightarrow> nat list \<Rightarrow> nat \<Rightarrow> int list \<Rightarrow>
    int list option \<Rightarrow> crush_work \<Rightarrow> ((nat \<times> int list \<times> int list option) \<times> crush_work) option"
where
  "indep_pass leaf a bucket outpos endpos ftotal [] nleft out out2 work =
    Some ((nleft, out, out2), work)"
| "indep_pass leaf a bucket outpos endpos ftotal (rep # reps) nleft out out2 work =
    do { v \<leftarrow> arr_get out rep;
         if v \<noteq> CRUSH_ITEM_UNDEF
         then indep_pass leaf a bucket outpos endpos ftotal reps nleft out out2 work
         else do {
           ((settled, out, out2), work) \<leftarrow>
             indep_try leaf a outpos endpos rep ftotal bucket out out2 work;
           indep_pass leaf a bucket outpos endpos ftotal reps
             (if settled then nleft - 1 else nleft) out out2 work } }"

function indep_rounds ::
  "indep_leaf_call \<Rightarrow> indep_args \<Rightarrow> crush_bucket \<Rightarrow> nat \<Rightarrow> nat \<Rightarrow> nat \<Rightarrow> nat \<Rightarrow> int list \<Rightarrow>
    int list option \<Rightarrow> crush_work \<Rightarrow> ((nat \<times> int list \<times> int list option) \<times> crush_work) option"
where
  "indep_rounds leaf a bucket outpos endpos ftotal nleft out out2 work =
    (if 0 < nleft \<and> ftotal < ia_tries a then
       do { ((nleft, out, out2), work) \<leftarrow>
              indep_pass leaf a bucket outpos endpos ftotal [outpos..<endpos] nleft out out2 work;
            indep_rounds leaf a bucket outpos endpos (ftotal + 1) nleft out out2 work }
     else Some ((ftotal, out, out2), work))"
  by pat_completeness auto
termination
  by (relation "measure (\<lambda>(leaf, a, bucket, outpos, endpos, ftotal, nleft, out, out2, work).
        ia_tries a - ftotal)") auto

declare indep_rounds.simps [simp del]

text \<open>\<open>out[rep] = v\<close> for the positions from \<open>outpos\<close> to \<open>endpos - 1\<close>.\<close>

definition fill_range :: "nat \<Rightarrow> nat \<Rightarrow> int \<Rightarrow> int list \<Rightarrow> int list option" where
  "fill_range outpos endpos v out =
    (if endpos \<le> length out
     then Some (take outpos out @ replicate (endpos - outpos) v @ drop endpos out) else None)"

definition undef_to_none :: "nat \<Rightarrow> nat \<Rightarrow> int list \<Rightarrow> int list" where
  "undef_to_none outpos endpos out =
    take outpos out @
    map (\<lambda>v. if v = CRUSH_ITEM_UNDEF then CRUSH_ITEM_NONE else v)
      (take (endpos - outpos) (drop outpos out)) @
    drop endpos out"

definition choose_indep_with ::
  "indep_leaf_call \<Rightarrow> indep_args \<Rightarrow> crush_bucket \<Rightarrow> nat \<Rightarrow> int list \<Rightarrow> nat \<Rightarrow> int list option \<Rightarrow>
    crush_work \<Rightarrow> ((int list \<times> int list option) \<times> crush_work) option"
where
  "choose_indep_with leaf a bucket nleft out outpos out2 work =
    do { let endpos = outpos + nleft;
         out \<leftarrow> fill_range outpos endpos CRUSH_ITEM_UNDEF out;
         out2 \<leftarrow> (case out2 of None \<Rightarrow> Some None
                  | Some o2 \<Rightarrow> map_option Some (fill_range outpos endpos CRUSH_ITEM_UNDEF o2));
         ((ftotal, out, out2), work) \<leftarrow> indep_rounds leaf a bucket outpos endpos 0 nleft out out2 work;
         (_, work) \<leftarrow> note_tries (ia_map a) ftotal work;
         Some ((undef_to_none outpos endpos out, map_option (undef_to_none outpos endpos) out2), work) }"

definition indep_leaf :: "indep_args \<Rightarrow> indep_leaf_call" where
  "indep_leaf a b r rep out2 work =
    do { ((out, _), work) \<leftarrow>
           choose_indep_with (\<lambda>_ _ _ _ _. None)
             (a\<lparr>ia_type := 0, ia_tries := ia_recurse_tries a, ia_recurse_tries := 0,
                ia_recurse_to_leaf := False, ia_parent_r := r\<rparr>)
             b 1 out2 rep None work;
         Some (out, work) }"

definition crush_choose_indep ::
  "indep_args \<Rightarrow> crush_bucket \<Rightarrow> nat \<Rightarrow> int list \<Rightarrow> nat \<Rightarrow> int list option \<Rightarrow> crush_work \<Rightarrow>
    ((int list \<times> int list option) \<times> crush_work) option"
where
  "crush_choose_indep a bucket nleft out outpos out2 work =
    choose_indep_with (indep_leaf a) a bucket nleft out outpos out2 work"

section \<open>Well-formed maps and workspaces\<close>

text \<open>
  In a well-formed map every bucket sits at its own index, has a positive type and tables of the
  right size, and refers only to buckets of smaller rank: the hierarchy has no cycle.
\<close>

definition bucket_ok :: "crush_map \<Rightarrow> nat list \<Rightarrow> nat \<Rightarrow> crush_bucket \<Rightarrow> bool" where
  "bucket_ok m rank i b \<longleftrightarrow>
    bucket_id b = - 1 - int i \<and> 0 < bucket_type b \<and> bucket_size b < 0xffff \<and>
    (bucket_items b = [] \<or> alg_ok b) \<and>
    (\<forall>it\<in>set (bucket_items b). 0 \<le> it \<or>
       crush_bucket_at m it \<noteq> None \<and> rank ! nat (- 1 - it) < rank ! i)"

definition map_ok :: "crush_map \<Rightarrow> nat list \<Rightarrow> bool" where
  "map_ok m rank \<longleftrightarrow>
    length rank = max_buckets m \<and>
    (\<forall>i\<in>set [0..<max_buckets m].
       case map_buckets m ! i of None \<Rightarrow> True | Some b \<Rightarrow> bucket_ok m rank i b)"

definition choose_args_ok :: "crush_map \<Rightarrow> crush_choose_arg list option \<Rightarrow> bool" where
  "choose_args_ok m args \<longleftrightarrow>
    (case args of None \<Rightarrow> True
     | Some as \<Rightarrow> length as = max_buckets m \<and>
        (\<forall>i\<in>set [0..<max_buckets m].
           case map_buckets m ! i of None \<Rightarrow> True | Some b \<Rightarrow> arg_ok b (Some (as ! i))))"

definition work_ok :: "crush_map \<Rightarrow> crush_work \<Rightarrow> bool" where
  "work_ok m work \<longleftrightarrow>
    length (work_buckets work) = max_buckets m \<and>
    (\<forall>i<max_buckets m. \<forall>b. map_buckets m ! i = Some b \<longrightarrow>
       (\<exists>wb. work_buckets work ! i = Some wb \<and> work_bucket_ok b wb)) \<and>
    (\<forall>h. work_choose_tries work = Some h \<longrightarrow> choose_total_tries m < length h)"

definition rank_of :: "nat list \<Rightarrow> crush_bucket \<Rightarrow> nat" where
  "rank_of rank b = rank ! nat (- 1 - bucket_id b)"

lemma crush_bucket_at_Some:
  "crush_bucket_at m i = Some b \<longleftrightarrow>
    i < 0 \<and> nat (- 1 - i) < max_buckets m \<and> map_buckets m ! nat (- 1 - i) = Some b"
  by (auto simp: crush_bucket_at_def arr_get_def)

lemma map_okD:
  "map_ok m rank \<Longrightarrow> i < max_buckets m \<Longrightarrow> map_buckets m ! i = Some b \<Longrightarrow> bucket_ok m rank i b"
  unfolding map_ok_def by (auto dest!: bspec[where x = i])

lemma choose_args_okD:
  "choose_args_ok m (Some as) \<Longrightarrow> i < max_buckets m \<Longrightarrow> map_buckets m ! i = Some b \<Longrightarrow>
    length as = max_buckets m \<and> arg_ok b (Some (as ! i))"
  unfolding choose_args_ok_def by (auto dest!: bspec[where x = i])

lemma map_ok_bucket:
  assumes "map_ok m rank" "crush_bucket_at m i = Some b"
  shows "bucket_ok m rank (nat (- 1 - i)) b" "bucket_id b = i" "i < 0"
    "nat (- 1 - i) < max_buckets m" "map_buckets m ! nat (- 1 - i) = Some b"
proof -
  show i: "i < 0" "nat (- 1 - i) < max_buckets m" "map_buckets m ! nat (- 1 - i) = Some b"
    using assms(2) by (simp_all add: crush_bucket_at_Some)
  then show "bucket_ok m rank (nat (- 1 - i)) b"
    using map_okD[OF assms(1)] by blast
  then show "bucket_id b = i" using i(1) by (simp add: bucket_ok_def)
qed

lemma map_ok_child:
  assumes "map_ok m rank" "crush_bucket_at m i = Some b" "it \<in> set (bucket_items b)" "it < 0"
  shows "\<exists>b'. crush_bucket_at m it = Some b' \<and> rank_of rank b' < rank_of rank b"
proof -
  obtain b' where b': "crush_bucket_at m it = Some b'" "rank ! nat (- 1 - it) < rank ! nat (- 1 - i)"
    using map_ok_bucket(1)[OF assms(1,2)] assms(3,4) by (auto simp: bucket_ok_def)
  then show ?thesis
    using map_ok_bucket(2)[OF assms(1,2)] map_ok_bucket(2)[OF assms(1) b'(1)]
    by (auto simp: rank_of_def)
qed

text \<open>
  \<open>yields m f v\<close>: from every valid workspace \<open>f\<close> returns the value \<open>v\<close> and a valid workspace.
  The value does not depend on the workspace.
\<close>

definition yields :: "crush_map \<Rightarrow> (crush_work \<Rightarrow> ('a \<times> crush_work) option) \<Rightarrow> 'a \<Rightarrow> bool" where
  "yields m f v \<longleftrightarrow> (\<forall>work. work_ok m work \<longrightarrow> (\<exists>work'. f work = Some (v, work') \<and> work_ok m work'))"

lemma yields_return [intro, simp]: "yields m (\<lambda>work. Some (v, work)) v"
  by (simp add: yields_def)

text \<open>A first call \<open>f\<close> yields \<open>v\<close> and the rest \<open>G\<close> of \<open>F\<close> yields \<open>u\<close>.\<close>

lemma yields_bind:
  assumes "yields m f v" "\<And>work work'. f work = Some (v, work') \<Longrightarrow> F work = G work'" "yields m G u"
  shows "yields m F u"
  using assms unfolding yields_def by metis

lemma yields_cong: "yields m g v \<Longrightarrow> (\<And>work. f work = g work) \<Longrightarrow> yields m f v"
  by (simp add: yields_def)

lemma yields_work_choose:
  assumes "map_ok m rank" "crush_bucket_at m i = Some b"
    and f: "\<And>wb. work_bucket_ok b wb \<Longrightarrow> \<exists>wb'. f wb = Some (item, wb') \<and> work_bucket_ok b wb'"
  shows "yields m (work_choose b f) item"
  unfolding yields_def
proof (intro allI impI)
  fix work assume ok: "work_ok m work"
  let ?i = "nat (- 1 - bucket_id b)"
  have b: "bucket_id b < 0" "?i < max_buckets m" "map_buckets m ! ?i = Some b"
    using map_ok_bucket[OF assms(1,2)] by simp_all
  obtain wb where wb: "work_buckets work ! ?i = Some wb" "work_bucket_ok b wb"
    using ok b(2,3) unfolding work_ok_def by blast
  obtain wb' where wb': "f wb = Some (item, wb')" "work_bucket_ok b wb'" using f[OF wb(2)] by blast
  have "work_ok m (work\<lparr>work_buckets := (work_buckets work)[?i := Some wb']\<rparr>)"
    using ok b(2,3) wb'(2) unfolding work_ok_def by (auto simp: nth_list_update)
  then show "\<exists>work'. work_choose b f work = Some (item, work') \<and> work_ok m work'"
    using b(1,2) wb wb' ok by (simp add: work_choose_def Let_def work_ok_def)
qed

lemma yields_note_tries: "yields m (note_tries m ftotal) ()"
  by (auto simp: yields_def note_tries_def work_ok_def split: option.splits)

lemma choose_arg_ok:
  assumes "map_ok m rank" "crush_bucket_at m i = Some b" "choose_args_ok m args"
  shows "\<exists>arg. choose_arg_of args b = Some arg \<and> arg_ok b arg"
proof (cases args)
  case None
  then show ?thesis by (simp add: choose_arg_of_def arg_ok_def)
next
  case (Some as)
  have b: "bucket_id b < 0" "nat (- 1 - bucket_id b) < max_buckets m"
      "map_buckets m ! nat (- 1 - bucket_id b) = Some b"
    using map_ok_bucket[OF assms(1,2)] by simp_all
  then have "length as = max_buckets m" "arg_ok b (Some (as ! nat (- 1 - bucket_id b)))"
    using choose_args_okD assms(3) Some by blast+
  then show ?thesis using Some b by (simp add: choose_arg_of_def)
qed

lemma yields_bucket_choose:
  assumes "map_ok m rank" "crush_bucket_at m i = Some b" "bucket_items b \<noteq> []" "arg_ok b arg"
  shows "yields m (work_choose b (\<lambda>wb. crush_bucket_choose b wb x r arg pos)) (bucket_item b x r arg pos)
    \<and> bucket_item b x r arg pos \<in> set (bucket_items b)"
proof -
  have "chooser_accepts b arg"
    using map_ok_bucket(1)[OF assms(1,2)] assms(3,4) by (simp add: chooser_accepts_def bucket_ok_def)
  then show ?thesis
    using yields_work_choose[OF assms(1,2)] bucket_ch.pick_chosen bucket_ch.chosen_item by meson
qed

lemma yields_perm_choose:
  assumes "map_ok m rank" "crush_bucket_at m i = Some b" "bucket_items b \<noteq> []"
  shows "yields m (work_choose b (\<lambda>wb. bucket_perm_choose b wb x r)) (perm_item b x r)
    \<and> perm_item b x r \<in> set (bucket_items b)"
proof -
  have "0 < bucket_size b \<and> bucket_size b < 0xffff"
    using map_ok_bucket(1)[OF assms(1,2)] assms(3) by (simp add: bucket_ok_def)
  then show ?thesis
    using yields_work_choose[OF assms(1,2)] perm_ch.pick_chosen perm_ch.chosen_item by meson
qed

section \<open>What a choice by crush\_choose\_firstn satisfies\<close>

definition fa_ok :: "firstn_args \<Rightarrow> nat list \<Rightarrow> bool" where
  "fa_ok a rank \<longleftrightarrow>
    map_ok (fa_map a) rank \<and> choose_args_ok (fa_map a) (fa_choose_args a) \<and> fa_vary_r a \<le> 32"

text \<open>A device that may be used: it exists and the weight vector does not reject it.\<close>

definition usable :: "crush_map \<Rightarrow> u32 list \<Rightarrow> int \<Rightarrow> int \<Rightarrow> bool" where
  "usable m weight x item \<longleftrightarrow> 0 \<le> item \<and> item < max_devices m \<and> is_out weight item x = Some False"

definition item_good :: "crush_map \<Rightarrow> u32 list \<Rightarrow> int \<Rightarrow> int \<Rightarrow> int \<Rightarrow> bool" where
  "item_good m weight x ty item \<longleftrightarrow>
    item < max_devices m \<and> item_type m item = Some ty \<and> (ty = 0 \<longrightarrow> usable m weight x item)"

lemma is_out_Some: "0 \<le> item \<Longrightarrow> \<exists>v. is_out weight item x = Some v"
  by (auto simp: is_out_def)

lemma item_type_cases:
  assumes "map_ok m rank" "item < 0 \<longrightarrow> crush_bucket_at m item \<noteq> None"
  shows "\<exists>t. item_type m item = Some t \<and> (t = 0 \<longleftrightarrow> 0 \<le> item)"
  using assms map_ok_bucket(1)[OF assms(1)]
  by (cases "item < 0") (fastforce simp: item_type_def bucket_ok_def)+

lemma yields_firstn_pick:
  assumes "fa_ok a rank" "crush_bucket_at (fa_map a) i = Some b" "bucket_items b \<noteq> []"
  shows "\<exists>item\<in>set (bucket_items b). yields (fa_map a) (firstn_pick a b r flocal outpos) item"
proof -
  have ok: "map_ok (fa_map a) rank" "choose_args_ok (fa_map a) (fa_choose_args a)"
    using assms(1) by (simp_all add: fa_ok_def)
  obtain arg where arg: "choose_arg_of (fa_choose_args a) b = Some arg" "arg_ok b arg"
    using choose_arg_ok[OF ok(1) assms(2) ok(2)] by blast
  show ?thesis
  proof (cases "0 < fa_local_fallback_retries a \<and> bucket_size b div 2 \<le> flocal
        \<and> fa_local_fallback_retries a < flocal")
    case True
    then have "firstn_pick a b r flocal outpos = work_choose b (\<lambda>wb. bucket_perm_choose b wb (fa_x a) r)"
      by (intro ext) (auto simp: firstn_pick_def)
    then show ?thesis
      using yields_perm_choose[OF ok(1) assms(2,3), of "fa_x a" r] by auto
  next
    case False
    then have "firstn_pick a b r flocal outpos =
        work_choose b (\<lambda>wb. crush_bucket_choose b wb (fa_x a) r arg outpos)"
      using arg(1) by (intro ext) (auto simp: firstn_pick_def)
    then show ?thesis
      using yields_bucket_choose[OF ok(1) assms(2,3) arg(2), of "fa_x a" r outpos] by auto
  qed
qed

text \<open>What the recursive call for a leaf has to provide.\<close>

definition leaf_good :: "firstn_args \<Rightarrow> firstn_leaf_call \<Rightarrow> bool" where
  "leaf_good a leaf \<longleftrightarrow>
    (\<forall>i b r outpos cnt out2. crush_bucket_at (fa_map a) i = Some b \<longrightarrow> 0 < cnt \<longrightarrow>
       outpos + cnt \<le> length out2 \<longrightarrow>
       (\<exists>n o2. yields (fa_map a) (leaf b r outpos cnt out2) (n, o2) \<and>
          length o2 = length out2 \<and> take outpos o2 = take outpos out2 \<and>
          (outpos < n \<longrightarrow> usable (fa_map a) (fa_weight a) (fa_x a) (o2 ! outpos)
             \<and> o2 ! outpos \<notin> set (take outpos out2))))"

text \<open>A leaf was placed at \<open>outpos\<close>.\<close>

definition leaf_found :: "firstn_args \<Rightarrow> nat \<Rightarrow> int \<Rightarrow> int list \<Rightarrow> bool" where
  "leaf_found a outpos item o2 \<longleftrightarrow>
    usable (fa_map a) (fa_weight a) (fa_x a) (o2 ! outpos) \<and> o2 ! outpos \<notin> set (take outpos o2) \<and>
    (fa_type a = 0 \<longrightarrow> o2 ! outpos = item)"

text \<open>The side conditions of a pass: room in the vectors, and for devices the two vectors agree.\<close>

definition room_ok :: "firstn_args \<Rightarrow> nat \<Rightarrow> nat \<Rightarrow> int list \<Rightarrow> int list option \<Rightarrow> bool" where
  "room_ok a outpos cnt out out2 \<longleftrightarrow>
    outpos + cnt \<le> length out \<and>
    (fa_recurse_to_leaf a \<longrightarrow>
      (\<exists>o2. out2 = Some o2 \<and> outpos + cnt \<le> length o2 \<and>
         (fa_type a = 0 \<longrightarrow> take outpos o2 = take outpos out)))"

definition vectors_ok :: "firstn_args \<Rightarrow> nat \<Rightarrow> nat \<Rightarrow> int list \<Rightarrow> int list option \<Rightarrow> bool" where
  "vectors_ok a outpos cnt out out2 \<longleftrightarrow> 0 < cnt \<and> room_ok a outpos cnt out out2"

definition out2_step :: "nat \<Rightarrow> int list option \<Rightarrow> int list option \<Rightarrow> bool" where
  "out2_step outpos out2 out2' \<longleftrightarrow>
    (case out2 of None \<Rightarrow> out2' = None
     | Some o1 \<Rightarrow> \<exists>o2. out2' = Some o2 \<and> length o2 = length o1 \<and> take outpos o2 = take outpos o1)"

lemma out2_step_refl [simp]: "out2_step outpos out2 out2"
  by (simp add: out2_step_def split: option.splits)

lemma out2_step_trans: "out2_step n a b \<Longrightarrow> out2_step n b c \<Longrightarrow> out2_step n a c"
  by (auto simp: out2_step_def split: option.splits)

lemma vectors_ok_step: "vectors_ok a outpos cnt out out2 \<Longrightarrow> out2_step outpos out2 out2' \<Longrightarrow> vectors_ok a outpos cnt out out2'"
  by (auto simp: vectors_ok_def room_ok_def out2_step_def)

lemma firstn_sub_r_Some: "v \<le> 32 \<Longrightarrow> \<exists>s. firstn_sub_r v r = Some s"
  by (cases "v = 0") (simp_all add: firstn_sub_r_def)

lemma yields_leaf_step:
  assumes "fa_ok a rank" "leaf_good a leaf" "vectors_ok a outpos cnt out out2" "fa_recurse_to_leaf a"
    and item: "item < 0 \<longrightarrow> crush_bucket_at (fa_map a) item \<noteq> None"
      "item_type (fa_map a) item = Some (fa_type a)" "item < max_devices (fa_map a)"
      "item \<notin> set (take outpos out)"
  shows "\<exists>reject o2. yields (fa_map a) (firstn_leaf_step leaf a outpos cnt item r out2) (reject, Some o2)
    \<and> out2_step outpos out2 (Some o2)
    \<and> (\<not> reject \<and> (fa_type a = 0 \<longrightarrow> is_out (fa_weight a) item (fa_x a) = Some False) \<longrightarrow> leaf_found a outpos item o2)"
proof -
  obtain o1 where o1: "out2 = Some o1" "outpos < length o1" "fa_type a = 0 \<longrightarrow> take outpos o1 = take outpos out"
      and room: "0 < cnt" "outpos + cnt \<le> length o1"
    using assms(3,4) by (auto simp: vectors_ok_def room_ok_def)
  show ?thesis
  proof (cases "item < 0")
    case True
    obtain b where b: "crush_bucket_at (fa_map a) item = Some b" using item(1) True by blast
    have ty: "fa_type a \<noteq> 0"
      using item_type_cases[of "fa_map a" rank item] assms(1) item(1,2) True by (auto simp: fa_ok_def)
    obtain sub where sub: "firstn_sub_r (fa_vary_r a) r = Some sub"
      using assms(1) firstn_sub_r_Some by (auto simp: fa_ok_def)
    obtain n o2 where l: "yields (fa_map a) (leaf b sub outpos cnt o1) (n, o2)" "length o2 = length o1"
        "take outpos o2 = take outpos o1"
        "outpos < n \<longrightarrow> usable (fa_map a) (fa_weight a) (fa_x a) (o2 ! outpos) \<and> o2 ! outpos \<notin> set (take outpos o1)"
      using assms(2) b room unfolding leaf_good_def by blast
    have "yields (fa_map a) (firstn_leaf_step leaf a outpos cnt item r out2) (n \<le> outpos, Some o2)"
      using True b sub o1(1) by (intro yields_bind[OF l(1) _ yields_return]) (simp add: firstn_leaf_step_def)
    then show ?thesis
      using l(2,3,4) o1(1) ty
      by (intro exI[of _ "n \<le> outpos"] exI[of _ o2]) (auto simp: out2_step_def leaf_found_def)
  next
    case False
    then have t: "fa_type a = 0" using item(2) by (simp add: item_type_def)
    have "yields (fa_map a) (firstn_leaf_step leaf a outpos cnt item r out2)
        (False, Some (o1[outpos := item]))"
      using False o1(1,2) by (intro yields_cong[OF yields_return]) (simp add: firstn_leaf_step_def)
    then show ?thesis
      using False t o1 item(3,4)
      by (intro exI[of _ False] exI[of _ "o1[outpos := item]"])
        (auto simp: out2_step_def leaf_found_def usable_def)
  qed
qed

definition step_post ::
  "firstn_args \<Rightarrow> nat list \<Rightarrow> crush_bucket \<Rightarrow> nat \<Rightarrow> int list \<Rightarrow> firstn_outcome \<Rightarrow> int list option \<Rightarrow> bool"
where
  "step_post a rank b outpos out oc out2 \<longleftrightarrow>
    (case oc of
       Skip_rep \<Rightarrow> True
     | Failed c \<Rightarrow> True
     | Descend b' \<Rightarrow> \<exists>i. crush_bucket_at (fa_map a) i = Some b' \<and> rank_of rank b' < rank_of rank b
     | Found item \<Rightarrow>
         item_good (fa_map a) (fa_weight a) (fa_x a) (fa_type a) item \<and> item \<notin> set (take outpos out) \<and>
         (fa_recurse_to_leaf a \<longrightarrow> (\<exists>o2. out2 = Some o2 \<and> leaf_found a outpos item o2)))"

text \<open>The end of a pass, for an item of the wanted type.\<close>

lemma yields_firstn_check:
  assumes "fa_ok a rank" "fa_recurse_to_leaf a \<longrightarrow> leaf_good a leaf" "vectors_ok a outpos cnt out out2"
    and item: "item < 0 \<longrightarrow> crush_bucket_at (fa_map a) item \<noteq> None"
      "item_type (fa_map a) item = Some (fa_type a)" "item < max_devices (fa_map a)"
  shows "\<exists>oc out2'. yields (fa_map a) (\<lambda>work. do {
        ((reject, out2), work) \<leftarrow>
          (if item \<notin> set (take outpos out) \<and> fa_recurse_to_leaf a
           then firstn_leaf_step leaf a outpos cnt item r out2 work
           else Some ((False, out2), work));
        reject \<leftarrow>
          (if \<not> reject \<and> item \<notin> set (take outpos out) \<and> fa_type a = 0
           then is_out (fa_weight a) item (fa_x a) else Some reject);
        Some ((if reject \<or> item \<in> set (take outpos out) then Failed (item \<in> set (take outpos out))
               else Found item, out2), work) }) (oc, out2')
    \<and> out2_step outpos out2 out2' \<and> step_post a rank b outpos out oc out2'"
proof (cases "item \<in> set (take outpos out)")
  case True
  then show ?thesis
    by (intro exI[of _ "Failed True"] exI[of _ out2]) (simp add: step_post_def)
next
  case False
  have dev: "fa_type a = 0 \<longleftrightarrow> 0 \<le> item"
    using item_type_cases[of "fa_map a" rank item] assms(1) item by (auto simp: fa_ok_def)
  obtain v where v: "fa_type a = 0 \<longrightarrow> is_out (fa_weight a) item (fa_x a) = Some v"
    using is_out_Some dev by blast
  have good: "item_good (fa_map a) (fa_weight a) (fa_x a) (fa_type a) item" if "fa_type a = 0 \<longrightarrow> \<not> v"
    using item dev v that by (auto simp: item_good_def usable_def)
  define rej where "rej reject = (if \<not> reject \<and> fa_type a = 0 then v else reject)" for reject
  define oc where "oc reject = (if rej reject then Failed False else Found item)" for reject
  have fin: "yields (fa_map a) (\<lambda>work. do {
        reject \<leftarrow> (if \<not> reject \<and> fa_type a = 0 then is_out (fa_weight a) item (fa_x a) else Some reject);
        Some ((if reject then Failed False else Found item, o2), work) }) (oc reject, o2)" for reject o2
    using v by (auto simp: oc_def rej_def)
  show ?thesis
  proof (cases "fa_recurse_to_leaf a")
    case True
    obtain reject o2 where l: "yields (fa_map a) (firstn_leaf_step leaf a outpos cnt item r out2) (reject, Some o2)"
        "out2_step outpos out2 (Some o2)"
        "\<not> reject \<and> (fa_type a = 0 \<longrightarrow> is_out (fa_weight a) item (fa_x a) = Some False) \<longrightarrow> leaf_found a outpos item o2"
      using yields_leaf_step[OF assms(1) _ assms(3) True item False] assms(2) True by blast
    have "step_post a rank b outpos out (oc reject) (Some o2)"
      using good False l(3) v by (auto simp: step_post_def oc_def rej_def)
    then show ?thesis
      using l(2) False True
      by (intro exI[of _ "oc reject"] exI[of _ "Some o2"] conjI yields_bind[OF l(1) _ fin])
        (simp_all cong: if_cong)
  next
    case nr: False
    have "step_post a rank b outpos out (oc False) out2"
      using good False v nr by (auto simp: step_post_def oc_def rej_def)
    then show ?thesis
      using False nr by (intro exI[of _ "oc False"] exI[of _ out2] conjI yields_cong[OF fin])
        (simp_all cong: if_cong)
  qed
qed

lemma yields_firstn_step:
  assumes "fa_ok a rank" "fa_recurse_to_leaf a \<longrightarrow> leaf_good a leaf" "vectors_ok a outpos cnt out out2"
    and b: "crush_bucket_at (fa_map a) i = Some b"
  shows "\<exists>oc out2'. yields (fa_map a) (firstn_step leaf a outpos cnt rep out b ftotal flocal out2) (oc, out2')
    \<and> out2_step outpos out2 out2' \<and> step_post a rank b outpos out oc out2'"
proof (cases "bucket_items b = []")
  case True
  then show ?thesis
    by (intro exI[of _ "Failed False"] exI[of _ out2] conjI yields_cong[OF yields_return])
      (simp_all add: firstn_step_def step_post_def)
next
  case False
  define r where "r = s32 (int rep + fa_parent_r a + int ftotal)"
  have m: "map_ok (fa_map a) rank" using assms(1) by (simp add: fa_ok_def)
  obtain item where item: "item \<in> set (bucket_items b)"
      "yields (fa_map a) (firstn_pick a b r flocal outpos) item"
    using yields_firstn_pick[OF assms(1) b False] by blast
  have at: "item < 0 \<longrightarrow> (\<exists>b'. crush_bucket_at (fa_map a) item = Some b' \<and> rank_of rank b' < rank_of rank b)"
    using map_ok_child[OF m b item(1)] by blast
  obtain t where t: "item_type (fa_map a) item = Some t" "t = 0 \<longleftrightarrow> 0 \<le> item"
    using item_type_cases[OF m] at by blast
  have bound: "item < 0 \<longrightarrow> - 1 - item < int (max_buckets (fa_map a))"
    using at by (auto simp: crush_bucket_at_Some)
  have out: "outpos \<le> length out" using assms(3) by (simp add: vectors_ok_def room_ok_def)
  consider (bad) "max_devices (fa_map a) \<le> item"
    | (dev) "item < max_devices (fa_map a)" "t \<noteq> fa_type a" "0 \<le> item"
    | (desc) b' where "item < max_devices (fa_map a)" "t \<noteq> fa_type a" "item < 0"
        "crush_bucket_at (fa_map a) item = Some b'" "rank_of rank b' < rank_of rank b"
    | (ok) "item < max_devices (fa_map a)" "t = fa_type a"
    using at by force
  then show ?thesis
  proof cases
    case bad
    then show ?thesis
      using False
      by (intro exI[of _ Skip_rep] exI[of _ out2] conjI yields_bind[OF item(2) _ yields_return])
        (simp_all add: firstn_step_def step_post_def Let_def flip: r_def)
  next
    case dev
    then show ?thesis
      using False t(1)
      by (intro exI[of _ Skip_rep] exI[of _ out2] conjI yields_bind[OF item(2) _ yields_return])
        (simp_all add: firstn_step_def step_post_def Let_def flip: r_def)
  next
    case desc
    then show ?thesis
      using False t(1) bound
      by (intro exI[of _ "Descend b'"] exI[of _ out2] conjI yields_bind[OF item(2) _ yields_return])
        (auto simp: firstn_step_def step_post_def Let_def simp flip: r_def)
  next
    case ok
    have at': "item < 0 \<longrightarrow> crush_bucket_at (fa_map a) item \<noteq> None" using at by auto
    obtain oc out2' where fin: "yields (fa_map a) (\<lambda>work. do {
        ((reject, out2), work) \<leftarrow>
          (if item \<notin> set (take outpos out) \<and> fa_recurse_to_leaf a
           then firstn_leaf_step leaf a outpos cnt item r out2 work
           else Some ((False, out2), work));
        reject \<leftarrow>
          (if \<not> reject \<and> item \<notin> set (take outpos out) \<and> fa_type a = 0
           then is_out (fa_weight a) item (fa_x a) else Some reject);
        Some ((if reject \<or> item \<in> set (take outpos out) then Failed (item \<in> set (take outpos out))
               else Found item, out2), work) }) (oc, out2')"
      "out2_step outpos out2 out2'" "step_post a rank b outpos out oc out2'"
      using yields_firstn_check[OF assms(1-3) at' _ ok(1)] t(1) ok(2) by blast
    show ?thesis
      using False t(1) ok out fin(2,3)
      by (intro exI[of _ oc] exI[of _ out2'] conjI yields_bind[OF item(2) _ fin(1)])
        (simp_all add: firstn_step_def Let_def flip: r_def)
  qed
qed

section \<open>Termination and result of the retry loops\<close>

definition try_post ::
  "firstn_args \<Rightarrow> nat \<Rightarrow> int list \<Rightarrow> int list option \<Rightarrow> int option \<Rightarrow> int list option \<Rightarrow> bool"
where
  "try_post a outpos out out2 found out2' \<longleftrightarrow>
    out2_step outpos out2 out2' \<and>
    (\<forall>item. found = Some item \<longrightarrow>
       item_good (fa_map a) (fa_weight a) (fa_x a) (fa_type a) item \<and> item \<notin> set (take outpos out) \<and>
       (fa_recurse_to_leaf a \<longrightarrow> (\<exists>o2. out2' = Some o2 \<and> leaf_found a outpos item o2)))"

lemma try_post_trans:
  "out2_step outpos out2 out2' \<Longrightarrow> try_post a outpos out out2' f o2 \<Longrightarrow> try_post a outpos out out2 f o2"
  using out2_step_trans[of outpos out2 out2' o2] by (simp add: try_post_def)

lemma firstn_try_step:
  "step b ftotal flocal out2 work = Some ((oc, out2'), work') \<Longrightarrow>
    firstn_try step a bucket b ftotal flocal out2 work =
      (case oc of
         Skip_rep \<Rightarrow> Some ((None, ftotal, out2'), work')
       | Found item \<Rightarrow> Some ((Some item, ftotal, out2'), work')
       | Descend b' \<Rightarrow> firstn_try step a bucket b' ftotal flocal out2' work'
       | Failed collide \<Rightarrow>
          (if collide \<and> flocal + 1 \<le> fa_local_retries a
              \<or> 0 < fa_local_fallback_retries a \<and> flocal + 1 \<le> bucket_size b + fa_local_fallback_retries a
           then firstn_try step a bucket b (ftotal + 1) (flocal + 1) out2' work'
           else if ftotal + 1 < fa_tries a
           then firstn_try step a bucket bucket (ftotal + 1) 0 out2' work'
           else Some ((None, ftotal + 1, out2'), work')))"
  by (subst firstn_try.simps) (simp split: firstn_outcome.split)

text \<open>
  A bound on the local retries in one bucket.  Every failure raises \<open>ftotal\<close>, a fresh descent
  needs \<open>ftotal < tries\<close>, and between two failures the rank of the bucket decreases.
\<close>

definition local_bound :: "firstn_args \<Rightarrow> nat" where
  "local_bound a = max (fa_local_retries a) (0xffff + fa_local_fallback_retries a)"

lemma yields_firstn_try:
  assumes ok: "fa_ok a rank" "fa_recurse_to_leaf a \<longrightarrow> leaf_good a leaf"
    and root: "crush_bucket_at (fa_map a) i0 = Some bucket"
    and "vectors_ok a outpos cnt out out2" "crush_bucket_at (fa_map a) i = Some b"
    and "ftotal \<le> fa_tries a + flocal" "flocal \<le> local_bound a"
  shows "\<exists>found ft out2'.
    yields (fa_map a) (firstn_try (firstn_step leaf a outpos cnt rep out) a bucket b ftotal flocal out2)
      (found, ft, out2') \<and> try_post a outpos out out2 found out2'"
  using assms(4-)
proof (induction "fa_tries a + local_bound a + 1 - ftotal" arbitrary: b i ftotal flocal out2 rule: less_induct)
  case outer: less
  show ?case
    using outer(2-)
  proof (induction "rank_of rank b" arbitrary: b i out2 rule: less_induct)
    case inner: less
    note vec = inner(2) and b = inner(3) and inv = inner(4,5)
    let ?step = "firstn_step leaf a outpos cnt rep out"
    let ?post = "\<lambda>out2 f. \<exists>found ft out2'. yields (fa_map a) f (found, ft, out2') \<and> try_post a outpos out out2 found out2'"
    obtain oc out2' where st: "yields (fa_map a) (?step b ftotal flocal out2) (oc, out2')"
        "out2_step outpos out2 out2'" "step_post a rank b outpos out oc out2'"
      using yields_firstn_step[OF ok vec b] by blast
    have vec': "vectors_ok a outpos cnt out out2'" by (rule vectors_ok_step[OF vec st(2)])
    have retry: "?post out2' (firstn_try ?step a bucket b' (ftotal + 1) fl out2')"
      if "crush_bucket_at (fa_map a) i' = Some b'" "ftotal + 1 \<le> fa_tries a + fl" "fl \<le> local_bound a" for i' b' fl
      using outer(1)[OF _ vec' that] inv by fastforce
    have cont: "?post out2 (firstn_try ?step a bucket b ftotal flocal out2)"
      if post: "?post out2' g" and eq: "\<And>work work'. ?step b ftotal flocal out2 work = Some ((oc, out2'), work') \<Longrightarrow>
        firstn_try ?step a bucket b ftotal flocal out2 work = g work'" for g
    proof -
      obtain f ft o2 where g: "yields (fa_map a) g (f, ft, o2)" "try_post a outpos out out2' f o2"
        using post by blast
      have "yields (fa_map a) (firstn_try ?step a bucket b ftotal flocal out2) (f, ft, o2)"
        by (rule yields_bind[OF st(1) _ g(1)]) (rule eq)
      then show ?thesis using try_post_trans[OF st(2) g(2)] by blast
    qed
    have ret: "?post out2' (\<lambda>work. Some ((None, ft, out2'), work))" for ft
      by (intro exI[of _ None] exI[of _ ft] exI[of _ out2']) (simp add: try_post_def)
    have size: "bucket_size b < 0xffff"
      using map_ok_bucket(1)[OF _ b] ok(1) by (auto simp: fa_ok_def bucket_ok_def)
    show ?case
    proof (cases oc)
      case Skip_rep
      then show ?thesis by (intro cont[OF ret]) (simp add: firstn_try_step)
    next
      case (Found item)
      then have "?post out2' (\<lambda>work. Some ((Some item, ftotal, out2'), work))"
        using st(3) by (intro exI[of _ "Some item"] exI[of _ ftotal] exI[of _ out2'])
          (auto simp: try_post_def step_post_def)
      then show ?thesis using Found by (intro cont) (simp_all add: firstn_try_step)
    next
      case (Descend b')
      then obtain i' where i': "crush_bucket_at (fa_map a) i' = Some b'" "rank_of rank b' < rank_of rank b"
        using st(3) by (auto simp: step_post_def)
      show ?thesis
        by (rule cont[OF inner(1)[OF i'(2) vec' i'(1) inv]]) (simp add: firstn_try_step Descend)
    next
      case (Failed c)
      let ?local = "c \<and> flocal + 1 \<le> fa_local_retries a \<or> 0 < fa_local_fallback_retries a
          \<and> flocal + 1 \<le> bucket_size b + fa_local_fallback_retries a"
      show ?thesis
      proof (cases ?local)
        case True
        then have "flocal + 1 \<le> local_bound a" using size by (auto simp: local_bound_def)
        then have "?post out2' (firstn_try ?step a bucket b (ftotal + 1) (flocal + 1) out2')"
          using retry[OF b] inv by simp
        then show ?thesis by (rule cont) (simp only: firstn_try_step Failed firstn_outcome.case True if_True)
      next
        case no_local: False
        show ?thesis
        proof (cases "ftotal + 1 < fa_tries a")
          case True
          then have "?post out2' (firstn_try ?step a bucket bucket (ftotal + 1) 0 out2')"
            using retry[OF root, of 0] by simp
          then show ?thesis
            by (rule cont) (simp only: firstn_try_step Failed firstn_outcome.case no_local True if_True if_False)
        next
          case False
          show ?thesis
            by (rule cont[OF ret]) (simp only: firstn_try_step Failed firstn_outcome.case no_local False if_False)
        qed
      qed
    qed
  qed
qed

text \<open>
  What the vectors hold after the loop over the replicas: the entries from \<open>outpos\<close> to \<open>n\<close> are good
  items, each different from all earlier ones, and so are the leaves below them.
\<close>

definition all_new :: "(int \<Rightarrow> bool) \<Rightarrow> nat \<Rightarrow> nat \<Rightarrow> int list \<Rightarrow> bool" where
  "all_new P outpos n xs \<longleftrightarrow> (\<forall>i. outpos \<le> i \<longrightarrow> i < n \<longrightarrow> P (xs ! i) \<and> xs ! i \<notin> set (take i xs))"

lemma all_new_distinct:
  "all_new P m n xs \<Longrightarrow> m \<le> n \<Longrightarrow> n \<le> length xs \<Longrightarrow> distinct (take m xs) \<Longrightarrow> distinct (take n xs)"
proof (induction n)
  case (Suc n)
  then show ?case
    by (cases "m = Suc n") (auto simp: all_new_def take_Suc_conv_app_nth le_Suc_eq)
qed simp

lemma all_new_first:
  assumes "P (xs ! m)" "xs ! m \<notin> set (take m xs)" "m < length xs"
    and "all_new P (Suc m) n ys" "take (Suc m) ys = take (Suc m) xs" "length ys = length xs"
  shows "all_new P m n ys"
proof -
  have "take m ys = take m xs" "ys ! m = xs ! m"
    using assms(3,5,6) by (metis Suc_n_not_le_n nat_le_linear take_take min.absorb1 le_Suc_eq,
        metis nth_take lessI)
  then show ?thesis
    using assms(1,2,4) unfolding all_new_def by (metis Suc_leI le_neq_implies_less)
qed

definition loop_post ::
  "firstn_args \<Rightarrow> nat \<Rightarrow> nat \<Rightarrow> int list \<Rightarrow> int list option \<Rightarrow> nat \<Rightarrow> int list \<Rightarrow> int list option \<Rightarrow> bool"
where
  "loop_post a outpos cnt out out2 n out' out2' \<longleftrightarrow>
    outpos \<le> n \<and> n \<le> outpos + cnt \<and> length out' = length out \<and>
    take outpos out' = take outpos out \<and>
    all_new (item_good (fa_map a) (fa_weight a) (fa_x a) (fa_type a)) outpos n out' \<and>
    out2_step outpos out2 out2' \<and>
    (fa_recurse_to_leaf a \<longrightarrow> (\<exists>o2. out2' = Some o2 \<and>
       all_new (usable (fa_map a) (fa_weight a) (fa_x a)) outpos n o2))"

lemma room_vectors: "room_ok a outpos cnt out out2 \<Longrightarrow> 0 < cnt \<Longrightarrow> vectors_ok a outpos cnt out out2"
  by (simp add: vectors_ok_def)

lemma room_step: "room_ok a outpos cnt out out2 \<Longrightarrow> out2_step outpos out2 out2' \<Longrightarrow> room_ok a outpos cnt out out2'"
  by (auto simp: room_ok_def out2_step_def)

lemma room_next:
  assumes "room_ok a outpos cnt out out2" "0 < cnt" "try_post a outpos out out2 (Some item) out2'"
  shows "room_ok a (outpos + 1) (cnt - 1) (out[outpos := item]) out2'"
  using room_step[OF assms(1), of out2'] assms(2,3)
  by (auto simp: room_ok_def try_post_def leaf_found_def take_Suc_conv_app_nth)

lemma out2_step_Suc: "out2_step (Suc n) a b \<Longrightarrow> out2_step n a b"
proof (cases a)
  case (Some o1)
  assume "out2_step (Suc n) a b"
  then obtain o2 where "b = Some o2" "length o2 = length o1" "take (Suc n) o2 = take (Suc n) o1"
    using Some by (auto simp: out2_step_def)
  moreover from this(3) have "take n o2 = take n o1"
    by (metis Suc_n_not_le_n nat_le_linear take_take min.absorb1)
  ultimately show ?thesis using Some by (simp add: out2_step_def)
qed (simp add: out2_step_def)

text \<open>One found item followed by the rest of the loop.\<close>

lemma loop_post_cons:
  assumes room: "room_ok a outpos cnt out out2" "0 < cnt"
    and tr: "try_post a outpos out out2 (Some item) out2'"
    and rest: "loop_post a (outpos + 1) (cnt - 1) (out[outpos := item]) out2' n out'' out2''"
  shows "loop_post a outpos cnt out out2 n out'' out2''"
proof -
  let ?out = "out[outpos := item]"
  have len: "outpos < length out" using room by (simp add: room_ok_def)
  have pre: "take (Suc outpos) out'' = take (Suc outpos) ?out" "length out'' = length ?out"
      "all_new (item_good (fa_map a) (fa_weight a) (fa_x a) (fa_type a)) (Suc outpos) n out''"
    using rest by (simp_all add: loop_post_def)
  have "all_new (item_good (fa_map a) (fa_weight a) (fa_x a) (fa_type a)) outpos n out''"
    using tr len by (intro all_new_first[OF _ _ _ pre(3,1,2)]) (auto simp: try_post_def)
  moreover have "take outpos out'' = take outpos out"
    using arg_cong[OF pre(1), of "take outpos"] by (simp add: min_def)
  moreover have "out2_step outpos out2 out2''"
    using tr rest out2_step_Suc out2_step_trans unfolding try_post_def loop_post_def by (metis Suc_eq_plus1)
  moreover have "\<exists>o2. out2'' = Some o2 \<and> all_new (usable (fa_map a) (fa_weight a) (fa_x a)) outpos n o2"
    if rec: "fa_recurse_to_leaf a"
  proof -
    obtain o1 o2 where o: "out2' = Some o1" "leaf_found a outpos item o1" "out2'' = Some o2"
        "all_new (usable (fa_map a) (fa_weight a) (fa_x a)) (Suc outpos) n o2"
        "length o2 = length o1" "take (Suc outpos) o2 = take (Suc outpos) o1"
      using tr rest rec by (auto simp: try_post_def loop_post_def out2_step_def)
    have "outpos < length o1" using room_next[OF room tr] room rec o(1) room_step[OF room(1), of out2'] tr
      by (auto simp: room_ok_def try_post_def)
    then show ?thesis
      using o all_new_first[OF _ _ _ o(4,6,5)] by (auto simp: leaf_found_def)
  qed
  ultimately show ?thesis using rest pre(2) room(2) by (auto simp: loop_post_def)
qed

lemma yields_firstn_loop:
  assumes ok: "fa_ok a rank" "fa_recurse_to_leaf a \<longrightarrow> leaf_good a leaf"
    and root: "crush_bucket_at (fa_map a) i0 = Some bucket"
    and "room_ok a outpos cnt out out2"
  shows "\<exists>n out' out2'. yields (fa_map a) (firstn_loop leaf a bucket rep outpos cnt out out2) (n, out', out2')
    \<and> loop_post a outpos cnt out out2 n out' out2' \<and> int n \<le> int outpos + max 0 (fa_numrep a - int rep)"
  using assms(4)
proof (induction "nat (fa_numrep a) - rep" arbitrary: rep outpos cnt out out2 rule: less_induct)
  case less
  note room = less(2)
  show ?case
  proof (cases "int rep < fa_numrep a \<and> 0 < cnt")
    case False
    then show ?thesis
      using room
      by (intro exI[of _ outpos] exI[of _ out] exI[of _ out2] conjI yields_cong[OF yields_return])
        (auto simp: firstn_loop.simps loop_post_def all_new_def room_ok_def)
  next
    case True
    let ?attempt = "firstn_try (firstn_step leaf a outpos cnt rep out) a bucket bucket 0 0 out2"
    obtain found ft out2' where t: "yields (fa_map a) ?attempt (found, ft, out2')"
        "try_post a outpos out out2 found out2'"
      using yields_firstn_try[OF ok root room_vectors[OF room] root, of 0 0 rep] True by auto
    have dec: "nat (fa_numrep a) - (rep + 1) < nat (fa_numrep a) - rep" using True by linarith
    show ?thesis
    proof (cases found)
      case None
      have room': "room_ok a outpos cnt out out2'"
        using t(2) room_step[OF room] by (simp add: try_post_def)
      obtain n out' o2 where r: "yields (fa_map a) (firstn_loop leaf a bucket (rep + 1) outpos cnt out out2') (n, out', o2)"
          "loop_post a outpos cnt out out2' n out' o2" "int n \<le> int outpos + max 0 (fa_numrep a - int (rep + 1))"
        using less(1)[OF dec room'] by blast
      have "loop_post a outpos cnt out out2 n out' o2"
        using r(2) t(2) out2_step_trans by (auto simp: loop_post_def try_post_def)
      moreover have "yields (fa_map a) (firstn_loop leaf a bucket rep outpos cnt out out2) (n, out', o2)"
        using True None by (intro yields_bind[OF t(1) _ r(1)]) (simp add: firstn_loop.simps[of _ _ _ rep])
      ultimately show ?thesis using r(3) by (intro exI conjI) auto
    next
      case (Some item)
      note room' = room_next[OF room _ t(2)[unfolded Some]]
      obtain n out' o2 where r: "yields (fa_map a)
            (firstn_loop leaf a bucket (rep + 1) (outpos + 1) (cnt - 1) (out[outpos := item]) out2') (n, out', o2)"
          "loop_post a (outpos + 1) (cnt - 1) (out[outpos := item]) out2' n out' o2"
          "int n \<le> int (outpos + 1) + max 0 (fa_numrep a - int (rep + 1))"
        using less(1)[OF dec room'] True by blast
      have "outpos < length out" using room True by (simp add: room_ok_def)
      then have "yields (fa_map a) (firstn_loop leaf a bucket rep outpos cnt out out2) (n, out', o2)"
        using True Some
        by (intro yields_bind[OF t(1) _ yields_bind[OF yields_note_tries[of _ ft] _ r(1)]])
          (simp add: firstn_loop.simps[of _ _ _ rep], simp)
      moreover have "loop_post a outpos cnt out out2 n out' o2"
        using loop_post_cons[OF room _ t(2)[unfolded Some] r(2)] True by blast
      ultimately show ?thesis using r(3) True by (intro exI conjI) auto
    qed
  qed
qed

lemma leaf_good_firstn_leaf:
  assumes "fa_ok a rank"
  shows "leaf_good a (firstn_leaf a)"
  unfolding leaf_good_def
proof (intro allI impI)
  fix i b r outpos cnt and out2 :: "int list"
  assume b: "crush_bucket_at (fa_map a) i = Some b" and room: "0 < cnt" "outpos + cnt \<le> length out2"
  define a' where "a' = a\<lparr>fa_numrep := (if fa_stable a then 1 else int outpos + 1), fa_type := 0,
      fa_tries := fa_recurse_tries a, fa_recurse_tries := 0, fa_recurse_to_leaf := False, fa_parent_r := r\<rparr>"
  have a': "fa_ok a' rank" "fa_map a' = fa_map a" "fa_weight a' = fa_weight a" "fa_x a' = fa_x a"
      "fa_type a' = 0" "\<not> fa_recurse_to_leaf a'" "room_ok a' outpos cnt out2 None"
    using assms room by (simp_all add: a'_def fa_ok_def room_ok_def)
  obtain n out' o2 where r: "yields (fa_map a) (firstn_loop (\<lambda>_ _ _ _ _ _. None) a' b
        (if fa_stable a' then 0 else outpos) outpos cnt out2 None) (n, out', o2)"
      "loop_post a' outpos cnt out2 None n out' o2"
    using yields_firstn_loop[OF a'(1) _ _ a'(7)] a' b by metis
  have "yields (fa_map a) (firstn_leaf a b r outpos cnt out2) (n, out')"
    by (rule yields_bind[OF r(1) _ yields_return])
      (simp add: firstn_leaf_def choose_firstn_with_def flip: a'_def)
  moreover have "length out' = length out2" "take outpos out' = take outpos out2"
    using r(2) by (simp_all add: loop_post_def)
  moreover have "usable (fa_map a) (fa_weight a) (fa_x a) (out' ! outpos) \<and> out' ! outpos \<notin> set (take outpos out2)"
    if "outpos < n"
    using r(2) that a' unfolding loop_post_def all_new_def item_good_def by (metis order_refl)
  ultimately show "\<exists>n o2. yields (fa_map a) (firstn_leaf a b r outpos cnt out2) (n, o2) \<and>
      length o2 = length out2 \<and> take outpos o2 = take outpos out2 \<and>
      (outpos < n \<longrightarrow> usable (fa_map a) (fa_weight a) (fa_x a) (o2 ! outpos) \<and> o2 ! outpos \<notin> set (take outpos out2))"
    by blast
qed

lemma yields_choose_firstn:
  assumes "fa_ok a rank" "crush_bucket_at (fa_map a) i = Some bucket" "out_size \<le> length out"
    and "fa_recurse_to_leaf a \<longrightarrow> (\<exists>o2. out2 = Some o2 \<and> out_size \<le> length o2)"
  shows "\<exists>n out' out2'. yields (fa_map a) (crush_choose_firstn a bucket out 0 out_size out2) (n, out', out2')
    \<and> loop_post a 0 out_size out out2 n out' out2' \<and> int n \<le> max 0 (fa_numrep a)"
proof -
  have "room_ok a 0 out_size out out2" using assms(3,4) by (auto simp: room_ok_def)
  moreover have "crush_choose_firstn a bucket out 0 out_size out2 =
      firstn_loop (firstn_leaf a) a bucket 0 0 out_size out out2"
    by (intro ext) (simp add: crush_choose_firstn_def choose_firstn_with_def)
  ultimately show ?thesis
    using yields_firstn_loop[OF assms(1) _ assms(2), of "firstn_leaf a" 0 out_size out out2 0]
      leaf_good_firstn_leaf[OF assms(1)] by simp
qed

section \<open>What a choice by crush\_choose\_indep satisfies\<close>

definition ia_ok :: "indep_args \<Rightarrow> nat list \<Rightarrow> bool" where
  "ia_ok a rank \<longleftrightarrow>
    map_ok (ia_map a) rank \<and> choose_args_ok (ia_map a) (ia_choose_args a) \<and> 0 < ia_numrep a \<and>
    max_devices (ia_map a) \<le> CRUSH_ITEM_UNDEF"

abbreviation ia_good :: "indep_args \<Rightarrow> int \<Rightarrow> bool" where
  "ia_good a \<equiv> item_good (ia_map a) (ia_weight a) (ia_x a) (ia_type a)"

abbreviation ia_usable :: "indep_args \<Rightarrow> int \<Rightarrow> bool" where
  "ia_usable a \<equiv> usable (ia_map a) (ia_weight a) (ia_x a)"

definition indep_leaf_good :: "indep_args \<Rightarrow> indep_leaf_call \<Rightarrow> bool" where
  "indep_leaf_good a leaf \<longleftrightarrow>
    (\<forall>i b r rep o2. crush_bucket_at (ia_map a) i = Some b \<longrightarrow> rep < length o2 \<longrightarrow>
       (\<exists>v. yields (ia_map a) (leaf b r rep o2) (o2[rep := v]) \<and> (v = CRUSH_ITEM_NONE \<or> ia_usable a v)))"

definition indep_room :: "indep_args \<Rightarrow> nat \<Rightarrow> nat \<Rightarrow> int list \<Rightarrow> int list option \<Rightarrow> bool" where
  "indep_room a rep endpos out out2 \<longleftrightarrow>
    rep < endpos \<and> endpos \<le> length out \<and>
    (case out2 of None \<Rightarrow> \<not> ia_recurse_to_leaf a | Some o2 \<Rightarrow> endpos \<le> length o2)"

abbreviation put2 :: "int list option \<Rightarrow> nat \<Rightarrow> int \<Rightarrow> int list option" where
  "put2 out2 rep v \<equiv> map_option (\<lambda>o2. o2[rep := v]) out2"

text \<open>The three ways an attempt at position \<open>rep\<close> ends: given up for good, to be retried, or placed.\<close>

inductive indep_tried ::
  "indep_args \<Rightarrow> nat \<Rightarrow> int list \<Rightarrow> int list option \<Rightarrow> nat \<Rightarrow> int list \<Rightarrow> bool \<Rightarrow> int list \<Rightarrow> int list option \<Rightarrow> bool"
  for a rep out out2 outpos rng
where
  never: "indep_tried a rep out out2 outpos rng True (out[rep := CRUSH_ITEM_NONE]) (put2 out2 rep CRUSH_ITEM_NONE)"
| retry: "out2' = out2 \<or> ia_recurse_to_leaf a \<and> out2' = put2 out2 rep v \<and> 0 \<le> v
      \<and> (ia_type a \<noteq> 0 \<longrightarrow> v = CRUSH_ITEM_NONE) \<Longrightarrow>
    indep_tried a rep out out2 outpos rng False out out2'"
| placed: "ia_good a item \<Longrightarrow> item \<notin> set rng \<Longrightarrow>
    (if ia_recurse_to_leaf a then ia_usable a v \<and> out2' = put2 out2 rep v else out2' = out2) \<Longrightarrow>
    indep_tried a rep out out2 outpos rng True (out[rep := item]) out2'"

lemma ia_usable_not_none: "ia_ok a rank \<Longrightarrow> ia_usable a v \<Longrightarrow> v \<noteq> CRUSH_ITEM_NONE \<and> v \<noteq> CRUSH_ITEM_UNDEF"
  by (auto simp: ia_ok_def usable_def CRUSH_ITEM_NONE_def CRUSH_ITEM_UNDEF_def)

lemma ia_good_not_none: "ia_ok a rank \<Longrightarrow> ia_good a v \<Longrightarrow> v \<noteq> CRUSH_ITEM_NONE \<and> v \<noteq> CRUSH_ITEM_UNDEF"
  by (auto simp: ia_ok_def item_good_def CRUSH_ITEM_NONE_def CRUSH_ITEM_UNDEF_def)

lemma set_opt_room:
  "indep_room a rep endpos out out2 \<Longrightarrow> set_opt out2 rep v = Some (put2 out2 rep v)"
  by (auto simp: set_opt_def indep_room_def split: option.splits)

lemma indep_r_Some: "0 < ia_numrep a \<Longrightarrow> \<exists>r. indep_r a b rep ftotal = Some r"
  by (auto simp: indep_r_def Let_def split: crush_algorithm.split)

text \<open>The end of an attempt, for an item of the wanted type.\<close>

lemma yields_indep_check:
  assumes ok: "ia_ok a rank" "ia_recurse_to_leaf a \<longrightarrow> indep_leaf_good a leaf"
    and room: "indep_room a rep endpos out out2"
    and item: "item < 0 \<longrightarrow> crush_bucket_at (ia_map a) item \<noteq> None"
      "item_type (ia_map a) item = Some (ia_type a)" "item < max_devices (ia_map a)"
    and fresh: "item \<notin> set rng"
  shows "\<exists>s out' out2'. yields (ia_map a) (\<lambda>work. do {
      ((noleaf, out2), work) \<leftarrow>
        (if ia_recurse_to_leaf a then indep_leaf_step leaf a rep item r out2 work
         else Some ((False, out2), work));
      if noleaf then Some ((False, out, out2), work)
      else do {
        isout \<leftarrow> (if ia_type a = 0 then is_out (ia_weight a) item (ia_x a) else Some False);
        if isout then Some ((False, out, out2), work)
        else do { out \<leftarrow> arr_set out rep item; Some ((True, out, out2), work) } } }) (s, out', out2')
    \<and> indep_tried a rep out out2 outpos rng s out' out2'"
proof -
  have dev: "ia_type a = 0 \<longleftrightarrow> 0 \<le> item"
    using item_type_cases[of "ia_map a" rank item] ok(1) item by (auto simp: ia_ok_def)
  obtain v where v: "ia_type a = 0 \<longrightarrow> is_out (ia_weight a) item (ia_x a) = Some v"
    using is_out_Some dev by blast
  define io where "io = (ia_type a = 0 \<and> v)"
  have io: "(if ia_type a = 0 then is_out (ia_weight a) item (ia_x a) else Some False) = Some io"
    using v by (simp add: io_def)
  have good: "ia_good a item" if "\<not> io"
    using item dev v that by (auto simp: item_good_def usable_def io_def)
  have rep: "rep < length out" using room by (simp add: indep_room_def)
  let ?res = "\<lambda>o2. (\<not> io, if io then out else out[rep := item], o2)"
  have fin: "yields (ia_map a) (\<lambda>work. do {
        isout \<leftarrow> (if ia_type a = 0 then is_out (ia_weight a) item (ia_x a) else Some False);
        if isout then Some ((False, out, o2), work)
        else do { out \<leftarrow> arr_set out rep item; Some ((True, out, o2), work) } }) (?res o2)" for o2
    using rep unfolding io by (cases io) simp_all
  show ?thesis
  proof (cases "ia_recurse_to_leaf a")
    case False
    then show ?thesis
      using fin[of out2] good fresh
      by (intro exI[of _ "\<not> io"] exI[of _ "if io then out else out[rep := item]"] exI[of _ out2])
        (auto intro: indep_tried.intros)
  next
    case rec: True
    then obtain o1 where o1: "out2 = Some o1" "rep < length o1"
      using room by (auto simp: indep_room_def split: option.splits)
    show ?thesis
    proof (cases "item < 0")
      case True
      obtain b where b: "crush_bucket_at (ia_map a) item = Some b" using item(1) True by blast
      obtain u where l: "yields (ia_map a) (leaf b r rep o1) (o1[rep := u])"
          "u = CRUSH_ITEM_NONE \<or> ia_usable a u"
        using ok(2) rec b o1(2) unfolding indep_leaf_good_def by blast
      have step: "yields (ia_map a) (indep_leaf_step leaf a rep item r out2)
          (u = CRUSH_ITEM_NONE, Some (o1[rep := u]))"
        using True b o1 by (intro yields_bind[OF l(1) _ yields_return]) (simp add: indep_leaf_step_def)
      have "\<not> io" using dev True by (simp add: io_def)
      show ?thesis
      proof (cases "u = CRUSH_ITEM_NONE")
        case True
        then show ?thesis
          using rec o1(1)
          by (intro exI[of _ False] exI[of _ out] exI[of _ "Some (o1[rep := u])"] conjI
              yields_bind[OF step _ yields_return]) (auto intro!: indep_tried.retry[where v = u] simp: CRUSH_ITEM_NONE_def)
      next
        case False
        have "indep_tried a rep out out2 outpos rng (\<not> io) (if io then out else out[rep := item]) (Some (o1[rep := u]))"
          using rec o1(1) good fresh \<open>\<not> io\<close> False l(2)
          by (auto intro!: indep_tried.placed[where v = u])
        then show ?thesis
          using rec False
          by (intro exI[of _ "\<not> io"] exI[of _ "if io then out else out[rep := item]"]
              exI[of _ "Some (o1[rep := u])"] conjI yields_bind[OF step _ fin]) simp_all
      qed
    next
      case False
      have step: "yields (ia_map a) (indep_leaf_step leaf a rep item r out2) (False, Some (o1[rep := item]))"
        using False o1 by (intro yields_cong[OF yields_return]) (simp add: indep_leaf_step_def set_opt_def)
      have "indep_tried a rep out out2 outpos rng (\<not> io) (if io then out else out[rep := item]) (Some (o1[rep := item]))"
        using rec o1(1) good fresh dev False
        by (auto intro!: indep_tried.placed[where v = item] indep_tried.retry[where v = item] simp: item_good_def)
      then show ?thesis
        using rec
        by (intro exI[of _ "\<not> io"] exI[of _ "if io then out else out[rep := item]"]
            exI[of _ "Some (o1[rep := item])"] conjI yields_bind[OF step _ fin]) simp_all
    qed
  qed
qed

lemma indep_try_pick:
  assumes "indep_r a b rep ftotal = Some r" "bucket_items b \<noteq> []" "choose_arg_of (ia_choose_args a) b = Some arg"
    and "work_choose b (\<lambda>wb. crush_bucket_choose b wb (ia_x a) r arg outpos) work = Some (item, work')"
  shows "indep_try leaf a outpos endpos rep ftotal b out out2 work =
    (if max_devices (ia_map a) \<le> item then
       do { out \<leftarrow> arr_set out rep CRUSH_ITEM_NONE; out2 \<leftarrow> set_opt out2 rep CRUSH_ITEM_NONE;
            Some ((True, out, out2), work') }
     else do {
       itemtype \<leftarrow> item_type (ia_map a) item;
       if itemtype \<noteq> ia_type a then
         if 0 \<le> item \<or> int (max_buckets (ia_map a)) \<le> - 1 - item then
           do { out \<leftarrow> arr_set out rep CRUSH_ITEM_NONE; out2 \<leftarrow> set_opt out2 rep CRUSH_ITEM_NONE;
                Some ((True, out, out2), work') }
         else do { b \<leftarrow> crush_bucket_at (ia_map a) item;
                   indep_try leaf a outpos endpos rep ftotal b out out2 work' }
       else do {
         ceph_assert (endpos \<le> length out);
         if item \<in> set (take (endpos - outpos) (drop outpos out)) then Some ((False, out, out2), work')
         else do {
           ((noleaf, out2), work) \<leftarrow>
             (if ia_recurse_to_leaf a then indep_leaf_step leaf a rep item r out2 work'
              else Some ((False, out2), work'));
           if noleaf then Some ((False, out, out2), work)
           else do {
             isout \<leftarrow> (if itemtype = 0 then is_out (ia_weight a) item (ia_x a) else Some False);
             if isout then Some ((False, out, out2), work)
             else do { out \<leftarrow> arr_set out rep item; Some ((True, out, out2), work) } } } } })"
  using assms by (subst indep_try.simps) (simp add: Let_def)

lemma yields_indep_try:
  assumes ok: "ia_ok a rank" "ia_recurse_to_leaf a \<longrightarrow> indep_leaf_good a leaf"
    and room: "indep_room a rep endpos out out2"
    and "crush_bucket_at (ia_map a) i = Some b"
  shows "\<exists>s out' out2'. yields (ia_map a) (indep_try leaf a outpos endpos rep ftotal b out out2) (s, out', out2')
    \<and> indep_tried a rep out out2 outpos (take (endpos - outpos) (drop outpos out)) s out' out2'"
  using assms(4)
proof (induction "rank_of rank b" arbitrary: b i rule: less_induct)
  case less
  note b = less(2)
  let ?rng = "take (endpos - outpos) (drop outpos out)"
  have m: "map_ok (ia_map a) rank" "choose_args_ok (ia_map a) (ia_choose_args a)" "0 < ia_numrep a"
    using ok(1) by (simp_all add: ia_ok_def)
  obtain r where r: "indep_r a b rep ftotal = Some r" using indep_r_Some[OF m(3)] by blast
  have rep: "rep < length out" "endpos \<le> length out" using room by (auto simp: indep_room_def)
  show ?case
  proof (cases "bucket_items b = []")
    case True
    then show ?thesis
      using r by (intro exI[of _ False] exI[of _ out] exI[of _ out2] conjI yields_cong[OF yields_return])
        (auto simp: indep_try.simps[of _ _ _ _ _ _ b] intro: indep_tried.retry)
  next
    case False
    obtain arg where arg: "choose_arg_of (ia_choose_args a) b = Some arg" "arg_ok b arg"
      using choose_arg_ok[OF m(1) b m(2)] by blast
    define item where "item = bucket_item b (ia_x a) r arg outpos"
    have pick: "yields (ia_map a) (work_choose b (\<lambda>wb. crush_bucket_choose b wb (ia_x a) r arg outpos)) item"
        "item \<in> set (bucket_items b)"
      using yields_bucket_choose[OF m(1) b False arg(2)] by (simp_all add: item_def)
    note unf = indep_try_pick[OF r False arg(1)]
    have at: "item < 0 \<longrightarrow> (\<exists>b'. crush_bucket_at (ia_map a) item = Some b' \<and> rank_of rank b' < rank_of rank b)"
      using map_ok_child[OF m(1) b pick(2)] by blast
    then have at': "item < 0 \<longrightarrow> crush_bucket_at (ia_map a) item \<noteq> None" by auto
    obtain t where t: "item_type (ia_map a) item = Some t" "t = 0 \<longleftrightarrow> 0 \<le> item"
      using item_type_cases[OF m(1) at'] by blast
    have never: ?thesis if "\<And>work work'. work_choose b (\<lambda>wb. crush_bucket_choose b wb (ia_x a) r arg outpos) work
          = Some (item, work') \<Longrightarrow> indep_try leaf a outpos endpos rep ftotal b out out2 work =
          Some ((True, out[rep := CRUSH_ITEM_NONE], put2 out2 rep CRUSH_ITEM_NONE), work')"
      by (intro exI conjI, rule yields_bind[OF pick(1) _ yields_return], erule that, rule indep_tried.never)
    consider (bad) "max_devices (ia_map a) \<le> item"
      | (dev) "item < max_devices (ia_map a)" "t \<noteq> ia_type a" "0 \<le> item"
      | (desc) b' where "item < max_devices (ia_map a)" "t \<noteq> ia_type a" "item < 0"
          "crush_bucket_at (ia_map a) item = Some b'" "rank_of rank b' < rank_of rank b"
      | (coll) "item < max_devices (ia_map a)" "t = ia_type a" "item \<in> set ?rng"
      | (ok) "item < max_devices (ia_map a)" "t = ia_type a" "item \<notin> set ?rng"
      using at by force
    then show ?thesis
    proof cases
      case bad
      then show ?thesis using rep set_opt_room[OF room] by (intro never) (simp add: unf)
    next
      case dev
      then show ?thesis using rep set_opt_room[OF room] t(1) by (intro never) (simp add: unf)
    next
      case desc
      have "- 1 - item < int (max_buckets (ia_map a))" using desc(3,4) by (auto simp: crush_bucket_at_Some)
      moreover obtain s out' out2' where d: "yields (ia_map a) (indep_try leaf a outpos endpos rep ftotal b' out out2) (s, out', out2')"
          "indep_tried a rep out out2 outpos ?rng s out' out2'"
        using less(1)[OF desc(5,4)] by blast
      ultimately show ?thesis
        using desc t(1)
        by (intro exI[of _ s] exI[of _ out'] exI[of _ out2'] conjI yields_bind[OF pick(1) _ d(1)] d(2))
          (simp add: unf)
    next
      case coll
      then show ?thesis
        using t(1) rep
        by (intro exI[of _ False] exI[of _ out] exI[of _ out2] conjI yields_bind[OF pick(1) _ yields_return])
          (auto simp: unf intro: indep_tried.retry)
    next
      case okc: ok
      obtain s out' out2' where fin: "yields (ia_map a) (\<lambda>work. do {
          ((noleaf, out2), work) \<leftarrow>
            (if ia_recurse_to_leaf a then indep_leaf_step leaf a rep item r out2 work
             else Some ((False, out2), work));
          if noleaf then Some ((False, out, out2), work)
          else do {
            isout \<leftarrow> (if ia_type a = 0 then is_out (ia_weight a) item (ia_x a) else Some False);
            if isout then Some ((False, out, out2), work)
            else do { out \<leftarrow> arr_set out rep item; Some ((True, out, out2), work) } } }) (s, out', out2')"
          "indep_tried a rep out out2 outpos ?rng s out' out2'"
        using yields_indep_check[OF ok room at' _ okc(1,3)] t(1) okc(2) by blast
      show ?thesis
        using okc t(1) rep fin(2)
        by (intro exI[of _ s] exI[of _ out'] exI[of _ out2'] conjI yields_bind[OF pick(1) _ fin(1)])
          (simp_all add: unf)
    qed
  qed
qed

text \<open>
  The state of the vectors between two attempts: positions outside the range are untouched; a
  position is undefined, given up, or holds a good item that no other position holds; below a
  good item there is a usable leaf, below the others there is none.
\<close>

abbreviation no_item :: "int \<Rightarrow> bool" where
  "no_item v \<equiv> v = CRUSH_ITEM_UNDEF \<or> v = CRUSH_ITEM_NONE"

definition leaf_below :: "indep_args \<Rightarrow> int \<Rightarrow> int \<Rightarrow> bool" where
  "leaf_below a v l \<longleftrightarrow> (if no_item v then no_item l else ia_usable a l)"

definition vector_inv :: "indep_args \<Rightarrow> nat \<Rightarrow> nat \<Rightarrow> int list \<Rightarrow> int list \<Rightarrow> bool" where
  "vector_inv a outpos endpos out0 out \<longleftrightarrow>
    length out = length out0 \<and>
    (\<forall>j<length out. j < outpos \<or> endpos \<le> j \<longrightarrow> out ! j = out0 ! j) \<and>
    (\<forall>j. outpos \<le> j \<longrightarrow> j < endpos \<longrightarrow> no_item (out ! j) \<or> ia_good a (out ! j)) \<and>
    (\<forall>j k. outpos \<le> j \<longrightarrow> j < k \<longrightarrow> k < endpos \<longrightarrow> out ! j = out ! k \<longrightarrow> no_item (out ! j))"

definition leaf_inv :: "indep_args \<Rightarrow> nat \<Rightarrow> nat \<Rightarrow> int list \<Rightarrow> int list option \<Rightarrow> int list option \<Rightarrow> bool" where
  "leaf_inv a outpos endpos out o0 out2 \<longleftrightarrow>
    (case out2 of None \<Rightarrow> o0 = None
     | Some o2 \<Rightarrow>
        (\<exists>o1. o0 = Some o1 \<and> length o2 = length o1 \<and>
           (\<forall>j<length o2. j < outpos \<or> endpos \<le> j \<longrightarrow> o2 ! j = o1 ! j)) \<and>
        (\<forall>j. outpos \<le> j \<longrightarrow> j < endpos \<longrightarrow> 0 \<le> o2 ! j) \<and>
        (ia_recurse_to_leaf a \<and> ia_type a \<noteq> 0 \<longrightarrow>
           (\<forall>j. outpos \<le> j \<longrightarrow> j < endpos \<longrightarrow>
              leaf_below a (out ! j) (o2 ! j))))"

lemma set_take_drop_nth:
  "endpos \<le> length out \<Longrightarrow> outpos \<le> j \<Longrightarrow> j < endpos \<Longrightarrow> out ! j \<in> set (take (endpos - outpos) (drop outpos out))"
  by (auto simp: in_set_conv_nth intro!: exI[of _ "j - outpos"])

lemma vector_inv_tried:
  assumes "ia_ok a rank" "vector_inv a outpos endpos out0 out" "endpos \<le> length out" "outpos \<le> rep" "rep < endpos"
    and "indep_tried a rep out out2 outpos (take (endpos - outpos) (drop outpos out)) s out' out2'"
  shows "vector_inv a outpos endpos out0 out'"
  using assms(6)
proof cases
  case never
  then show ?thesis using assms(2-5) by (auto simp: vector_inv_def nth_list_update)
next
  case retry
  then show ?thesis using assms(2) by simp
next
  case (placed item)
  have new: "out ! j \<noteq> item" if "outpos \<le> j" "j < endpos" for j
    using placed(4) set_take_drop_nth[OF assms(3) that] by blast
  have ne: "\<not> no_item item" using ia_good_not_none[OF assms(1) placed(3)] by blast
  show ?thesis
    unfolding placed(2) vector_inv_def
  proof (intro conjI allI impI)
    fix j k assume jk: "outpos \<le> j" "j < k" "k < endpos" and eq: "out[rep := item] ! j = out[rep := item] ! k"
    have "j \<noteq> rep" "k \<noteq> rep" using eq jk new[of j] new[of k] assms(3) by (auto simp: nth_list_update)
    then show "no_item (out[rep := item] ! j)" using eq jk assms(2) by (auto simp: vector_inv_def)
  qed (use assms(2-5) placed(3) in \<open>auto simp: vector_inv_def nth_list_update\<close>)
qed

lemma leaf_inv_put:
  assumes inv: "leaf_inv a outpos endpos out o0 out2" and room: "indep_room a rep endpos out out2" "outpos \<le> rep"
    and out': "\<And>j. j \<noteq> rep \<Longrightarrow> out' ! j = out ! j"
    and v: "ia_recurse_to_leaf a \<and> ia_type a \<noteq> 0 \<Longrightarrow> leaf_below a (out' ! rep) v" "0 \<le> v"
  shows "leaf_inv a outpos endpos out' o0 (put2 out2 rep v)"
proof (cases out2)
  case None
  then show ?thesis using inv by (simp add: leaf_inv_def)
next
  case (Some o2)
  have len: "rep < length o2" "rep < endpos" using room Some by (simp_all add: indep_room_def)
  have "leaf_below a (out' ! j) (o2[rep := v] ! j)"
    if "ia_recurse_to_leaf a" "ia_type a \<noteq> 0" "outpos \<le> j" "j < endpos" for j
  proof (cases "j = rep")
    case True
    then show ?thesis using v that len by simp
  next
    case False
    then show ?thesis using inv Some that out'[OF False] by (simp add: leaf_inv_def)
  qed
  then show ?thesis
    using inv Some len room(2) v(2) by (auto simp: leaf_inv_def nth_list_update)
qed

lemma leaf_inv_tried:
  assumes "ia_ok a rank" "leaf_inv a outpos endpos out o0 out2" "indep_room a rep endpos out out2" "outpos \<le> rep"
    and "out ! rep = CRUSH_ITEM_UNDEF"
    and "indep_tried a rep out out2 outpos rng s out' out2'"
  shows "leaf_inv a outpos endpos out' o0 out2'"
  using assms(6)
proof cases
  case never
  then show ?thesis
    using assms(3) by (auto intro!: leaf_inv_put[OF assms(2-4)] simp: indep_room_def leaf_below_def CRUSH_ITEM_NONE_def)
next
  case (retry v)
  then show ?thesis
    using assms(2,5) by (auto intro!: leaf_inv_put[OF assms(2-4)] simp: leaf_below_def)
next
  case (placed item v)
  have item: "\<not> no_item item" using ia_good_not_none[OF assms(1) placed(3)] by blast
  have rep: "rep < length out" using assms(3) by (simp add: indep_room_def)
  show ?thesis
  proof (cases "ia_recurse_to_leaf a")
    case True
    then show ?thesis
      using placed item rep by (auto intro!: leaf_inv_put[OF assms(2-4)] simp: leaf_below_def usable_def)
  next
    case False
    then show ?thesis using placed assms(2) by (simp add: leaf_inv_def split: option.splits)
  qed
qed

lemma indep_room_tried:
  "indep_tried a rep out out2 outpos rng s out' out2' \<Longrightarrow>
    length out' = length out \<and> map_option length out2' = map_option length out2"
  by (erule indep_tried.cases) (auto simp: option.map_comp comp_def split: if_splits)

definition range_room :: "indep_args \<Rightarrow> nat \<Rightarrow> int list \<Rightarrow> int list option \<Rightarrow> bool" where
  "range_room a endpos out out2 \<longleftrightarrow>
    endpos \<le> length out \<and>
    (case out2 of None \<Rightarrow> \<not> ia_recurse_to_leaf a | Some o2 \<Rightarrow> endpos \<le> length o2)"

lemma range_room_cong:
  "length out' = length out \<Longrightarrow> map_option length out2' = map_option length out2 \<Longrightarrow>
    range_room a endpos out' out2' = range_room a endpos out out2"
  by (cases out2; cases out2') (auto simp: range_room_def)

lemma yields_indep_pass:
  assumes ok: "ia_ok a rank" "ia_recurse_to_leaf a \<longrightarrow> indep_leaf_good a leaf"
    and b: "crush_bucket_at (ia_map a) i = Some bucket"
    and "\<forall>rep\<in>set reps. outpos \<le> rep \<and> rep < endpos"
    and "range_room a endpos out out2" "vector_inv a outpos endpos out0 out" "leaf_inv a outpos endpos out o0 out2"
  shows "\<exists>nleft' out' out2'. yields (ia_map a) (indep_pass leaf a bucket outpos endpos ftotal reps nleft out out2) (nleft', out', out2')
    \<and> range_room a endpos out' out2' \<and> vector_inv a outpos endpos out0 out' \<and> leaf_inv a outpos endpos out' o0 out2'"
  using assms(4-)
proof (induction reps arbitrary: nleft out out2)
  case Nil
  then show ?case
    by (intro exI[of _ nleft] exI[of _ out] exI[of _ out2] conjI yields_cong[OF yields_return]) simp_all
next
  case (Cons rep reps)
  have rep: "outpos \<le> rep" "rep < endpos" "endpos \<le> length out" using Cons(2,3) by (auto simp: range_room_def)
  show ?case
  proof (cases "out ! rep = CRUSH_ITEM_UNDEF")
    case False
    obtain n' o1 o2 where r: "yields (ia_map a) (indep_pass leaf a bucket outpos endpos ftotal reps nleft out out2) (n', o1, o2)"
        "range_room a endpos o1 o2" "vector_inv a outpos endpos out0 o1" "leaf_inv a outpos endpos o1 o0 o2"
      using Cons(1)[of out out2 nleft] Cons(2-5) by auto
    then show ?thesis
      using False rep by (intro exI[of _ n'] exI[of _ o1] exI[of _ o2] conjI yields_cong[OF r(1)]) simp_all
  next
    case True
    have room: "indep_room a rep endpos out out2"
      using Cons(3) rep by (simp add: indep_room_def range_room_def)
    obtain s o1 o2 where t: "yields (ia_map a) (indep_try leaf a outpos endpos rep ftotal bucket out out2) (s, o1, o2)"
        "indep_tried a rep out out2 outpos (take (endpos - outpos) (drop outpos out)) s o1 o2"
      using yields_indep_try[OF ok room b] by blast
    have "range_room a endpos o1 o2"
      using Cons(3) indep_room_tried[OF t(2)] range_room_cong by blast
    moreover have "vector_inv a outpos endpos out0 o1"
      using vector_inv_tried[OF ok(1) Cons(4) rep(3,1,2) t(2)] .
    moreover have "leaf_inv a outpos endpos o1 o0 o2"
      using leaf_inv_tried[OF ok(1) Cons(5) room rep(1) True t(2)] .
    ultimately obtain n' o3 o4 where r: "yields (ia_map a) (indep_pass leaf a bucket outpos endpos ftotal reps
          (if s then nleft - 1 else nleft) o1 o2) (n', o3, o4)"
        "range_room a endpos o3 o4" "vector_inv a outpos endpos out0 o3" "leaf_inv a outpos endpos o3 o0 o4"
      using Cons(1)[of o1 o2 "if s then nleft - 1 else nleft"] Cons(2) by (metis list.set_intros(2))
    then show ?thesis
      using True rep by (intro exI[of _ n'] exI[of _ o3] exI[of _ o4] conjI yields_bind[OF t(1) _ r(1)]) simp_all
  qed
qed

lemma yields_indep_rounds:
  assumes ok: "ia_ok a rank" "ia_recurse_to_leaf a \<longrightarrow> indep_leaf_good a leaf"
    and b: "crush_bucket_at (ia_map a) i = Some bucket"
    and "range_room a endpos out out2" "vector_inv a outpos endpos out0 out" "leaf_inv a outpos endpos out o0 out2"
  shows "\<exists>ft out' out2'. yields (ia_map a) (indep_rounds leaf a bucket outpos endpos ftotal nleft out out2) (ft, out', out2')
    \<and> range_room a endpos out' out2' \<and> vector_inv a outpos endpos out0 out' \<and> leaf_inv a outpos endpos out' o0 out2'"
  using assms(4-)
proof (induction "ia_tries a - ftotal" arbitrary: ftotal nleft out out2 rule: less_induct)
  case less
  show ?case
  proof (cases "0 < nleft \<and> ftotal < ia_tries a")
    case False
    then show ?thesis
      using less(2-4)
      by (intro exI[of _ ftotal] exI[of _ out] exI[of _ out2] conjI yields_cong[OF yields_return])
        (auto simp: indep_rounds.simps)
  next
    case True
    have "\<forall>rep\<in>set [outpos..<endpos]. outpos \<le> rep \<and> rep < endpos" by simp
    from yields_indep_pass[OF ok b this less(2-4), of ftotal nleft]
    obtain n o1 o2 where p: "yields (ia_map a) (indep_pass leaf a bucket outpos endpos ftotal [outpos..<endpos] nleft out out2) (n, o1, o2)"
        "range_room a endpos o1 o2" "vector_inv a outpos endpos out0 o1" "leaf_inv a outpos endpos o1 o0 o2"
      by blast
    have "ia_tries a - (ftotal + 1) < ia_tries a - ftotal" using True by linarith
    from less(1)[OF this p(2-4), of n]
    obtain ft o3 o4 where r: "yields (ia_map a) (indep_rounds leaf a bucket outpos endpos (ftotal + 1) n o1 o2) (ft, o3, o4)"
        "range_room a endpos o3 o4" "vector_inv a outpos endpos out0 o3" "leaf_inv a outpos endpos o3 o0 o4"
      by blast
    then show ?thesis
      using True
      by (intro exI[of _ ft] exI[of _ o3] exI[of _ o4] conjI yields_bind[OF p(1) _ r(1)])
        (auto simp: indep_rounds.simps[of _ _ _ _ _ ftotal])
  qed
qed

text \<open>The vectors at the end: undefined positions have become holes.\<close>

definition indep_done :: "indep_args \<Rightarrow> nat \<Rightarrow> nat \<Rightarrow> int list \<Rightarrow> int list \<Rightarrow> bool" where
  "indep_done a outpos endpos out0 out \<longleftrightarrow>
    length out = length out0 \<and>
    (\<forall>j<length out. j < outpos \<or> endpos \<le> j \<longrightarrow> out ! j = out0 ! j) \<and>
    (\<forall>j. outpos \<le> j \<longrightarrow> j < endpos \<longrightarrow> out ! j = CRUSH_ITEM_NONE \<or> ia_good a (out ! j)) \<and>
    (\<forall>j k. outpos \<le> j \<longrightarrow> j < k \<longrightarrow> k < endpos \<longrightarrow> out ! j = out ! k \<longrightarrow> out ! j = CRUSH_ITEM_NONE)"

definition indep_leaves :: "indep_args \<Rightarrow> nat \<Rightarrow> nat \<Rightarrow> int list \<Rightarrow> int list \<Rightarrow> bool" where
  "indep_leaves a outpos endpos out o2 \<longleftrightarrow>
    (\<forall>j. outpos \<le> j \<longrightarrow> j < endpos \<longrightarrow>
       (if out ! j = CRUSH_ITEM_NONE then o2 ! j = CRUSH_ITEM_NONE else ia_usable a (o2 ! j)))"

lemma length_undef_to_none [simp]: "outpos \<le> endpos \<Longrightarrow> endpos \<le> length out \<Longrightarrow>
    length (undef_to_none outpos endpos out) = length out"
  by (simp add: undef_to_none_def)

lemma nth_undef_to_none:
  assumes "outpos \<le> endpos" "endpos \<le> length out" "j < length out"
  shows "undef_to_none outpos endpos out ! j =
    (if outpos \<le> j \<and> j < endpos \<and> out ! j = CRUSH_ITEM_UNDEF then CRUSH_ITEM_NONE else out ! j)"
  using assms by (auto simp: undef_to_none_def nth_append)

lemma nth_fill_range:
  "fill_range outpos endpos v out = Some out' \<Longrightarrow> outpos \<le> endpos \<Longrightarrow>
    length out' = length out \<and> endpos \<le> length out \<and>
    (\<forall>j<length out. out' ! j = (if outpos \<le> j \<and> j < endpos then v else out ! j))"
  by (auto simp: fill_range_def nth_append split: if_splits)

lemma nth_fill_in:
  "fill_range outpos endpos v out = Some out' \<Longrightarrow> outpos \<le> j \<Longrightarrow> j < endpos \<Longrightarrow> out' ! j = v"
  by (auto simp: fill_range_def nth_append split: if_splits)

lemma indep_done_final:
  assumes ok: "ia_ok a rank" and inv: "vector_inv a outpos endpos out0 out" and e: "outpos \<le> endpos" "endpos \<le> length out"
  shows "indep_done a outpos endpos out0 (undef_to_none outpos endpos out)"
proof -
  have nth: "undef_to_none outpos endpos out ! j = (if no_item (out ! j) then CRUSH_ITEM_NONE else out ! j)"
    if "outpos \<le> j" "j < endpos" for j
    using that nth_undef_to_none[OF e] e by auto
  show ?thesis
    unfolding indep_done_def
  proof (intro conjI allI impI)
    fix j k assume jk: "outpos \<le> j" "j < k" "k < endpos"
      and eq: "undef_to_none outpos endpos out ! j = undef_to_none outpos endpos out ! k"
    then show "undef_to_none outpos endpos out ! j = CRUSH_ITEM_NONE"
      using inv nth[of j] nth[of k] by (auto simp: vector_inv_def split: if_splits)
  qed (use inv e nth nth_undef_to_none[OF e] in \<open>auto simp: vector_inv_def\<close>)
qed

lemma indep_leaves_final:
  assumes ok: "ia_ok a rank" and inv: "vector_inv a outpos endpos out0 out" "leaf_inv a outpos endpos out o0 (Some o2)"
    and e: "outpos \<le> endpos" "endpos \<le> length out" "endpos \<le> length o2"
    and rec: "ia_recurse_to_leaf a" "ia_type a \<noteq> 0"
  shows "indep_leaves a outpos endpos (undef_to_none outpos endpos out) (undef_to_none outpos endpos o2)"
  unfolding indep_leaves_def
proof (intro allI impI)
  fix j assume j: "outpos \<le> j" "j < endpos"
  have "leaf_below a (out ! j) (o2 ! j)" "no_item (out ! j) \<or> ia_good a (out ! j)"
    using inv rec j by (simp_all add: leaf_inv_def vector_inv_def)
  then show "if undef_to_none outpos endpos out ! j = CRUSH_ITEM_NONE
      then undef_to_none outpos endpos o2 ! j = CRUSH_ITEM_NONE
      else ia_usable a (undef_to_none outpos endpos o2 ! j)"
    using nth_undef_to_none[OF e(1,2)] nth_undef_to_none[OF e(1,3)] j e ia_good_not_none[OF ok] ia_usable_not_none[OF ok]
    by (auto simp: leaf_below_def split: if_splits)
qed

lemma indep_nonneg_final:
  assumes "leaf_inv a outpos endpos out o0 (Some o2)" "outpos \<le> endpos" "endpos \<le> length o2" "outpos \<le> j" "j < endpos"
  shows "0 \<le> undef_to_none outpos endpos o2 ! j"
  using assms nth_undef_to_none[OF assms(2,3), of j] by (auto simp: leaf_inv_def CRUSH_ITEM_NONE_def)

lemma yields_choose_indep_with:
  assumes ok: "ia_ok a rank" "ia_recurse_to_leaf a \<longrightarrow> indep_leaf_good a leaf"
    and b: "crush_bucket_at (ia_map a) i = Some bucket"
    and room: "range_room a (outpos + n) out out2"
  shows "\<exists>out' out2'. yields (ia_map a) (choose_indep_with leaf a bucket n out outpos out2) (out', out2')
    \<and> indep_done a outpos (outpos + n) out out' \<and> map_option length out2' = map_option length out2
    \<and> (\<forall>o2 j. out2' = Some o2 \<longrightarrow> outpos \<le> j \<longrightarrow> j < outpos + n \<longrightarrow> 0 \<le> o2 ! j)
    \<and> (ia_recurse_to_leaf a \<and> ia_type a \<noteq> 0 \<longrightarrow>
        (\<exists>o2. out2' = Some o2 \<and> indep_leaves a outpos (outpos + n) out' o2))"
proof -
  let ?e = "outpos + n"
  obtain o1 where o1: "fill_range outpos ?e CRUSH_ITEM_UNDEF out = Some o1"
    using room by (simp add: range_room_def fill_range_def)
  obtain o2 where o2: "(case out2 of None \<Rightarrow> Some None
      | Some o2 \<Rightarrow> map_option Some (fill_range outpos ?e CRUSH_ITEM_UNDEF o2)) = Some o2"
    using room by (auto simp: range_room_def fill_range_def split: option.splits)
  have len: "length o1 = length out" "map_option length o2 = map_option length out2"
    using nth_fill_range[OF o1] o2 nth_fill_range[of outpos ?e CRUSH_ITEM_UNDEF]
    by (auto split: option.splits)
  have room': "range_room a ?e o1 o2" using range_room_cong[OF len] room by blast
  have inv: "vector_inv a outpos ?e out o1" using nth_fill_range[OF o1] by (auto simp: vector_inv_def)
  have "leaf_inv a outpos ?e o1 out2 o2"
    using o2 nth_fill_in[OF o1] nth_fill_range[of outpos ?e CRUSH_ITEM_UNDEF]
    by (auto simp: leaf_inv_def leaf_below_def nth_fill_in CRUSH_ITEM_UNDEF_def split: option.splits)
  from yields_indep_rounds[OF ok b room' inv this, of 0 n]
  obtain ft o3 o4 where r: "yields (ia_map a) (indep_rounds leaf a bucket outpos ?e 0 n o1 o2) (ft, o3, o4)"
      "range_room a ?e o3 o4" "vector_inv a outpos ?e out o3" "leaf_inv a outpos ?e o3 out2 o4"
    by blast
  have e: "outpos \<le> ?e" "?e \<le> length o3" using r(2) by (simp_all add: range_room_def)
  have "yields (ia_map a) (choose_indep_with leaf a bucket n out outpos out2)
      (undef_to_none outpos ?e o3, map_option (undef_to_none outpos ?e) o4)"
    using o1 o2
    by (intro yields_bind[OF r(1) _ yields_bind[OF yields_note_tries[of _ ft] _ yields_return]])
      (simp add: choose_indep_with_def Let_def, simp)
  moreover have "indep_done a outpos ?e out (undef_to_none outpos ?e o3)"
    by (rule indep_done_final[OF ok(1) r(3) e])
  moreover have "map_option length (map_option (undef_to_none outpos ?e) o4) = map_option length out2"
    using r(2,4) by (auto simp: leaf_inv_def range_room_def split: option.splits)
  moreover have "0 \<le> o2 ! j" if "map_option (undef_to_none outpos ?e) o4 = Some o2" "outpos \<le> j" "j < ?e" for o2 j
    using that r(2,4) indep_nonneg_final[of a outpos ?e o3 out2 _ j]
    by (auto simp: range_room_def split: option.splits)
  moreover have "\<exists>o2. map_option (undef_to_none outpos ?e) o4 = Some o2 \<and>
      indep_leaves a outpos ?e (undef_to_none outpos ?e o3) o2"
    if rec: "ia_recurse_to_leaf a" "ia_type a \<noteq> 0"
  proof -
    obtain o5 where o5: "o4 = Some o5" "?e \<le> length o5"
      using r(2) rec(1) by (auto simp: range_room_def split: option.splits)
    show ?thesis
      using indep_leaves_final[OF ok(1) r(3) r(4)[unfolded o5(1)] e o5(2) rec] o5(1) by simp
  qed
  ultimately show ?thesis by blast
qed

lemma indep_leaf_good_leaf:
  assumes "ia_ok a rank"
  shows "indep_leaf_good a (indep_leaf a)"
  unfolding indep_leaf_good_def
proof (intro allI impI)
  fix i b r rep and o2 :: "int list"
  assume b: "crush_bucket_at (ia_map a) i = Some b" and rep: "rep < length o2"
  define a' where "a' = a\<lparr>ia_type := 0, ia_tries := ia_recurse_tries a, ia_recurse_tries := 0,
      ia_recurse_to_leaf := False, ia_parent_r := r\<rparr>"
  have a': "ia_ok a' rank" "ia_map a' = ia_map a" "ia_weight a' = ia_weight a" "ia_x a' = ia_x a"
      "ia_type a' = 0" "\<not> ia_recurse_to_leaf a'" "range_room a' (rep + 1) o2 None"
    using assms rep by (simp_all add: a'_def ia_ok_def range_room_def)
  obtain out' o3 where y: "yields (ia_map a) (choose_indep_with (\<lambda>_ _ _ _ _. None) a' b 1 o2 rep None) (out', o3)"
      "indep_done a' rep (rep + 1) o2 out'"
    using yields_choose_indep_with[OF a'(1) _ _ a'(7)] a' b by metis
  have "out' = o2[rep := out' ! rep]"
  proof (rule nth_equalityI)
    show "length out' = length (o2[rep := out' ! rep])" using y(2) by (simp add: indep_done_def)
  next
    fix j assume j: "j < length out'"
    show "out' ! j = o2[rep := out' ! rep] ! j"
    proof (cases "j = rep")
      case False
      then have "j < rep \<or> rep + 1 \<le> j" by linarith
      then show ?thesis using y(2) j False by (auto simp: indep_done_def)
    qed (use rep in simp)
  qed
  moreover have "out' ! rep = CRUSH_ITEM_NONE \<or> ia_usable a (out' ! rep)"
    using y(2) a' by (auto simp: indep_done_def item_good_def)
  moreover have "yields (ia_map a) (indep_leaf a b r rep o2) out'"
    by (rule yields_bind[OF y(1) _ yields_return]) (simp add: indep_leaf_def flip: a'_def)
  ultimately show "\<exists>v. yields (ia_map a) (indep_leaf a b r rep o2) (o2[rep := v]) \<and>
      (v = CRUSH_ITEM_NONE \<or> ia_usable a v)"
    by metis
qed

lemma yields_choose_indep:
  assumes "ia_ok a rank" "crush_bucket_at (ia_map a) i = Some bucket"
    and "n \<le> length out" "ia_recurse_to_leaf a \<longrightarrow> out2 \<noteq> None" "\<And>o2. out2 = Some o2 \<Longrightarrow> n \<le> length o2"
  shows "\<exists>out' out2'. yields (ia_map a) (crush_choose_indep a bucket n out 0 out2) (out', out2')
    \<and> indep_done a 0 n out out' \<and> map_option length out2' = map_option length out2
    \<and> (\<forall>o2 j. out2' = Some o2 \<longrightarrow> j < n \<longrightarrow> 0 \<le> o2 ! j)
    \<and> (ia_recurse_to_leaf a \<and> ia_type a \<noteq> 0 \<longrightarrow> (\<exists>o2. out2' = Some o2 \<and> indep_leaves a 0 n out' o2))"
proof -
  have "range_room a (0 + n) out out2"
    using assms(3-5) by (auto simp: range_room_def split: option.splits)
  moreover have "crush_choose_indep a bucket n out 0 out2 = choose_indep_with (indep_leaf a) a bucket n out 0 out2"
    by (intro ext) (simp add: crush_choose_indep_def)
  ultimately show ?thesis
    using yields_choose_indep_with[OF assms(1) _ assms(2), of "indep_leaf a" 0 n out out2]
      indep_leaf_good_leaf[OF assms(1)] by simp
qed

section \<open>Properties\<close>

lemma all_new_take:
  "all_new P 0 n xs \<Longrightarrow> n \<le> length xs \<Longrightarrow> distinct (take n xs) \<and> (\<forall>v\<in>set (take n xs). P v)"
  using all_new_distinct[of P 0 n xs] by (auto simp: all_new_def in_set_conv_nth)

text \<open>
  Property C3.  On a map without cycles \<open>crush_choose_firstn\<close> always returns, whatever the caches
  in the workspace hold, and its result depends only on its arguments.  The items it places are
  pairwise distinct, of the wanted type, and when they are devices not marked out; with
  \<open>recurse_to_leaf\<close> the devices below them are pairwise distinct and not marked out.  It places at
  most \<open>numrep\<close> items and never overruns the output vectors.
\<close>

theorem crush_choose_firstn_correct:
  assumes "fa_ok a rank" "crush_bucket_at (fa_map a) i = Some bucket"
    and "out_size \<le> length out" "out_size \<le> length o2"
  shows "\<exists>n out' o2'. (\<forall>work. work_ok (fa_map a) work \<longrightarrow>
        (\<exists>work'. crush_choose_firstn a bucket out 0 out_size (Some o2) work = Some ((n, out', Some o2'), work')
           \<and> work_ok (fa_map a) work'))
    \<and> n \<le> out_size \<and> int n \<le> max 0 (fa_numrep a) \<and> distinct (take n out')
    \<and> (\<forall>v\<in>set (take n out'). item_good (fa_map a) (fa_weight a) (fa_x a) (fa_type a) v)
    \<and> (fa_recurse_to_leaf a \<longrightarrow>
        distinct (take n o2') \<and> (\<forall>v\<in>set (take n o2'). usable (fa_map a) (fa_weight a) (fa_x a) v))"
proof -
  obtain n out' out2' where y: "yields (fa_map a) (crush_choose_firstn a bucket out 0 out_size (Some o2)) (n, out', out2')"
      "loop_post a 0 out_size out (Some o2) n out' out2'" "int n \<le> max 0 (fa_numrep a)"
    using yields_choose_firstn[OF assms(1-3), of "Some o2"] assms(4) by auto
  obtain o2' where o2': "out2' = Some o2'" "length o2' = length o2"
    using y(2) by (auto simp: loop_post_def out2_step_def)
  have "n \<le> length out'" "n \<le> length o2'" "n \<le> out_size"
    using y(2) o2' assms(3,4) by (simp_all add: loop_post_def)
  then show ?thesis
    using y o2' all_new_take unfolding loop_post_def yields_def by (metis option.inject)
qed

definition demo_map :: crush_map where
  "demo_map =
    \<lparr>map_buckets =
       [Some \<lparr>bucket_id = - 1, bucket_type = 2, bucket_alg = CRUSH_BUCKET_STRAW2 [0x20000, 0x20000],
              bucket_hash = 0, bucket_weight = 0x40000, bucket_items = [- 2, - 3]\<rparr>,
        Some \<lparr>bucket_id = - 2, bucket_type = 1, bucket_alg = CRUSH_BUCKET_STRAW2 [0x10000, 0x10000],
              bucket_hash = 0, bucket_weight = 0x20000, bucket_items = [0, 1]\<rparr>,
        Some \<lparr>bucket_id = - 3, bucket_type = 1, bucket_alg = CRUSH_BUCKET_UNIFORM 0x10000,
              bucket_hash = 0, bucket_weight = 0x20000, bucket_items = [2, 3]\<rparr>],
     map_rules = [], max_devices = 4, choose_local_tries = 0, choose_local_fallback_tries = 0,
     choose_total_tries = 50, chooseleaf_descend_once = True, chooseleaf_vary_r = 1,
     chooseleaf_stable = 1, working_size = 104, straw_calc_version = 1, allowed_bucket_algs = 54\<rparr>"

lemma demo_map_ok: "map_ok demo_map [1, 0, 0]"
  by (simp add: map_ok_def bucket_ok_def demo_map_def crush_bucket_at_def alg_ok_def upt_rec)

lemma demo_map_max [simp]: "max_devices demo_map = 4"
  by (simp add: demo_map_def)

lemma demo_map_root: "crush_bucket_at demo_map (- 1) = Some (the (map_buckets demo_map ! 0))"
  by (simp add: crush_bucket_at_def demo_map_def)

definition demo_firstn :: firstn_args where
  "demo_firstn = \<lparr>fa_map = demo_map, fa_weight = replicate 4 0x10000, fa_x = 17, fa_numrep = 2,
     fa_type = 1, fa_tries = 51, fa_recurse_tries = 1, fa_local_retries = 0,
     fa_local_fallback_retries = 0, fa_recurse_to_leaf = True, fa_vary_r = 1, fa_stable = True,
     fa_parent_r = 0, fa_choose_args = None\<rparr>"

theorem crush_choose_firstn_correct_witness:
  "\<exists>n out' o2'. (\<forall>work. work_ok (fa_map demo_firstn) work \<longrightarrow>
        (\<exists>work'. crush_choose_firstn demo_firstn (the (map_buckets demo_map ! 0)) [0, 0, 0] 0 3
             (Some [0, 0, 0]) work = Some ((n, out', Some o2'), work')
           \<and> work_ok (fa_map demo_firstn) work'))
    \<and> n \<le> 3 \<and> int n \<le> max 0 (fa_numrep demo_firstn) \<and> distinct (take n out')
    \<and> (\<forall>v\<in>set (take n out'). item_good (fa_map demo_firstn) (fa_weight demo_firstn)
         (fa_x demo_firstn) (fa_type demo_firstn) v)
    \<and> (fa_recurse_to_leaf demo_firstn \<longrightarrow>
        distinct (take n o2') \<and>
        (\<forall>v\<in>set (take n o2'). usable (fa_map demo_firstn) (fa_weight demo_firstn) (fa_x demo_firstn) v))"
  by (rule crush_choose_firstn_correct[where rank = "[1, 0, 0]" and i = "- 1"])
    (simp_all add: demo_firstn_def fa_ok_def demo_map_ok[simplified] choose_args_ok_def demo_map_root)

text \<open>
  Property C4.  On a map without cycles \<open>crush_choose_indep\<close> always returns and its result depends
  only on its arguments.  Position for position the output holds either a hole
  (\<open>CRUSH_ITEM_NONE\<close>) or an item of the wanted type, no item twice, and never the internal
  \<open>CRUSH_ITEM_UNDEF\<close>; below an item there is a device that is not marked out, and no device below a
  hole (for a type other than devices).
\<close>

theorem crush_choose_indep_correct:
  assumes "ia_ok a rank" "crush_bucket_at (ia_map a) i = Some bucket"
    and "n \<le> length out" "n \<le> length o2"
  shows "\<exists>out' o2'. (\<forall>work. work_ok (ia_map a) work \<longrightarrow>
        (\<exists>work'. crush_choose_indep a bucket n out 0 (Some o2) work = Some ((out', Some o2'), work')
           \<and> work_ok (ia_map a) work'))
    \<and> length out' = length out
    \<and> (\<forall>j<n. out' ! j = CRUSH_ITEM_NONE \<or>
         item_good (ia_map a) (ia_weight a) (ia_x a) (ia_type a) (out' ! j) \<and> out' ! j \<noteq> CRUSH_ITEM_UNDEF)
    \<and> (\<forall>k<n. \<forall>j<k. out' ! j = out' ! k \<longrightarrow> out' ! j = CRUSH_ITEM_NONE)
    \<and> (ia_recurse_to_leaf a \<and> ia_type a \<noteq> 0 \<longrightarrow>
        (\<forall>j<n. if out' ! j = CRUSH_ITEM_NONE then o2' ! j = CRUSH_ITEM_NONE
               else usable (ia_map a) (ia_weight a) (ia_x a) (o2' ! j)))"
proof -
  obtain out' out2' where y: "yields (ia_map a) (crush_choose_indep a bucket n out 0 (Some o2)) (out', out2')"
      "indep_done a 0 n out out'" "map_option length out2' = map_option length (Some o2)"
      "ia_recurse_to_leaf a \<and> ia_type a \<noteq> 0 \<longrightarrow> (\<exists>o2. out2' = Some o2 \<and> indep_leaves a 0 n out' o2)"
    using yields_choose_indep[OF assms(1-3), of "Some o2"] assms(4) by auto
  obtain o2' where o2': "out2' = Some o2'" using y(3) by (cases out2') auto
  show ?thesis
    using y(1,2,4) ia_good_not_none[OF assms(1)] unfolding o2'
    by (intro exI[of _ out'] exI[of _ o2']) (auto simp: yields_def indep_done_def indep_leaves_def)
qed

definition demo_indep :: indep_args where
  "demo_indep = \<lparr>ia_map = demo_map, ia_weight = [0x10000, 0, 0x8000, 0x10000], ia_x = 17,
     ia_numrep = 3, ia_type = 1, ia_tries = 10, ia_recurse_tries = 1, ia_recurse_to_leaf = True,
     ia_parent_r = 0, ia_choose_args = None\<rparr>"

theorem crush_choose_indep_correct_witness:
  "\<exists>out' o2'. (\<forall>work. work_ok (ia_map demo_indep) work \<longrightarrow>
        (\<exists>work'. crush_choose_indep demo_indep (the (map_buckets demo_map ! 0)) 3 [0, 0, 0] 0
             (Some [0, 0, 0]) work = Some ((out', Some o2'), work')
           \<and> work_ok (ia_map demo_indep) work'))
    \<and> length out' = length [0, 0, 0 :: int]
    \<and> (\<forall>j<3. out' ! j = CRUSH_ITEM_NONE \<or>
         item_good (ia_map demo_indep) (ia_weight demo_indep) (ia_x demo_indep) (ia_type demo_indep) (out' ! j)
           \<and> out' ! j \<noteq> CRUSH_ITEM_UNDEF)
    \<and> (\<forall>k<3. \<forall>j<k. out' ! j = out' ! k \<longrightarrow> out' ! j = CRUSH_ITEM_NONE)
    \<and> (ia_recurse_to_leaf demo_indep \<and> ia_type demo_indep \<noteq> 0 \<longrightarrow>
        (\<forall>j<3. if out' ! j = CRUSH_ITEM_NONE then o2' ! j = CRUSH_ITEM_NONE
               else usable (ia_map demo_indep) (ia_weight demo_indep) (ia_x demo_indep) (o2' ! j)))"
  by (rule crush_choose_indep_correct[where rank = "[1, 0, 0]" and i = "- 1"])
    (simp_all add: demo_indep_def ia_ok_def demo_map_ok[simplified] choose_args_ok_def CRUSH_ITEM_UNDEF_def
      demo_map_root)

text \<open>
  Raising the reweight of a device never marks it out: an input that keeps a device
  keeps it under every higher weight, and a device with full weight (\<open>0x10000\<close>) is never out.
\<close>

lemma is_out_monotone:
  assumes "0 \<le> item" "nat item < length weight" "weight ! nat item \<le> w"
    and "is_out weight item x = Some False"
  shows "is_out (weight[nat item := w]) item x = Some False"
proof -
  have "weight ! nat item \<noteq> 0 \<Longrightarrow> w \<noteq> 0"
    using assms(3) by (metis word_le_0_iff)
  then show ?thesis
    using assms by (auto simp: is_out_def split: if_splits intro: less_le_trans order_trans)
qed

end
