(* ===== verification/Crush_Builder.thy ===== *)
theory Crush_Builder
  imports Crush_Mapper
begin

text \<open>
  The construction of CRUSH maps, \<open>crush/builder.c\<close>: rules, buckets of the map, the
  constructors of the five kinds of bucket, adding, removing and reweighting items, the
  reweighting of a hierarchy, weight sets and the finalisation that the mapper relies on.

  A weight that the code passes as an \<open>int\<close> is its 32-bit pattern.  The parameter \<open>size\<close> of a
  constructor is the length of \<open>items\<close>.  Memory is not exhausted; \<open>mem\<close> is what fresh memory
  holds.  \<open>past\<close> and \<open>pastw\<close> are what a removal finds behind the last cell of an array:
  \<^term>\<open>None\<close> when the block ends there, so that the read is out of range, and a value when an
  addition that failed with \<open>-ERANGE\<close> has left a spare cell.
\<close>

unbundle bit_operations_syntax

section \<open>Error codes and the allocator\<close>

abbreviation (input) ENOENT :: int where "ENOENT \<equiv> 2"
abbreviation (input) EEXIST :: int where "EEXIST \<equiv> 17"
abbreviation (input) EINVAL :: int where "EINVAL \<equiv> 22"
abbreviation (input) ENOSPC :: int where "ENOSPC \<equiv> 28"
abbreviation (input) ERANGE :: int where "ERANGE \<equiv> 34"

text \<open>
  \<open>realloc\<close> to \<open>n\<close> elements: a request for no bytes frees the block and gives NULL, any other
  request succeeds; cells that were not in the old block hold whatever the memory held.
\<close>

definition c_realloc :: "(nat \<Rightarrow> 'a) \<Rightarrow> nat \<Rightarrow> 'a list \<Rightarrow> 'a list option" where
  "c_realloc mem n xs = (if n = 0 then None else Some (take n xs @ map mem [length xs..<n]))"

section \<open>Safe arithmetic\<close>

definition crush_addition_is_unsafe :: "u32 \<Rightarrow> u32 \<Rightarrow> bool" where
  "crush_addition_is_unsafe a b \<longleftrightarrow> (- 1) - b < a"

definition crush_multiplication_is_unsafe :: "u32 \<Rightarrow> u32 \<Rightarrow> bool" where
  "crush_multiplication_is_unsafe a b =
    (if a = 0 then False else if b = 0 then True else (- 1) div b < a)"

section \<open>The map and its rules\<close>

definition set_legacy_crush_map :: "crush_map \<Rightarrow> crush_map" where
  "set_legacy_crush_map m =
    m\<lparr>choose_local_tries := 2, choose_local_fallback_tries := 5, choose_total_tries := 19,
      chooseleaf_descend_once := False, chooseleaf_vary_r := 0, chooseleaf_stable := 0,
      straw_calc_version := 0,
      allowed_bucket_algs := push_bit 1 1 OR push_bit 2 1 OR push_bit 4 1\<rparr>"

definition set_optimal_crush_map :: "crush_map \<Rightarrow> crush_map" where
  "set_optimal_crush_map m =
    m\<lparr>choose_local_tries := 0, choose_local_fallback_tries := 0, choose_total_tries := 50,
      chooseleaf_descend_once := True, chooseleaf_vary_r := 1, chooseleaf_stable := 1,
      allowed_bucket_algs := push_bit 1 1 OR push_bit 2 1 OR push_bit 4 1 OR push_bit 5 1\<rparr>"

definition crush_create :: crush_map where
  "crush_create = set_optimal_crush_map
    \<lparr>map_buckets = [], map_rules = [], max_devices = 0, choose_local_tries = 0,
     choose_local_fallback_tries = 0, choose_total_tries = 0, chooseleaf_descend_once = False,
     chooseleaf_vary_r = 0, chooseleaf_stable = 0, working_size = 0, straw_calc_version = 0,
     allowed_bucket_algs = 0\<rparr>"

definition finalize_item :: "int \<Rightarrow> int \<Rightarrow> int" where
  "finalize_item item md = (if md \<le> item then s32 (item + 1) else md)"

definition finalize_bucket :: "crush_bucket option \<Rightarrow> int \<times> nat \<Rightarrow> int \<times> nat" where
  "finalize_bucket ob st =
    (case ob of None \<Rightarrow> st
     | Some b \<Rightarrow> (fold finalize_item (bucket_items b) (fst st), snd st + 16 + bucket_size b * 4))"

definition crush_finalize :: "crush_map \<Rightarrow> crush_map" where
  "crush_finalize m =
    (let (md, ws) = fold finalize_bucket (map_buckets m) (0, 8 + max_buckets m * 8) in
     m\<lparr>max_devices := md, working_size := ws\<rparr>)"

text \<open>The first free slot of an array of pointers, or its length.\<close>

definition first_free :: "'a option list \<Rightarrow> nat" where
  "first_free xs = length (takeWhile (\<lambda>x. x \<noteq> None) xs)"

definition crush_add_rule :: "crush_map \<Rightarrow> crush_rule \<Rightarrow> int \<Rightarrow> (int \<times> crush_map) option" where
  "crush_add_rule m rule ruleno =
    do { r \<leftarrow> (if ruleno < 0
              then do { ceph_assert (first_free (map_rules m) < CRUSH_MAX_RULES);
                        Some (first_free (map_rules m)) }
              else Some (nat ruleno));
         if max_rules m \<le> r
         then if CRUSH_MAX_RULES < max_rules m + 1 then Some (- ENOSPC, m)
              else Some (int r, m\<lparr>map_rules :=
                     (map_rules m @ replicate (r + 1 - max_rules m) None)[r := Some rule]\<rparr>)
         else Some (int r, m\<lparr>map_rules := (map_rules m)[r := Some rule]\<rparr>) }"

definition crush_make_rule :: "(nat \<Rightarrow> crush_rule_step) \<Rightarrow> nat \<Rightarrow> nat \<Rightarrow> crush_rule" where
  "crush_make_rule mem len type = \<lparr>rule_type = type mod 256, rule_steps = map mem [0..<len]\<rparr>"

definition crush_rule_set_step ::
  "crush_rule \<Rightarrow> nat \<Rightarrow> crush_opcodes \<Rightarrow> int \<Rightarrow> int \<Rightarrow> crush_rule option"
where
  "crush_rule_set_step rule n opc arg1 arg2 =
    do { ceph_assert (n < length (rule_steps rule));
         Some (rule\<lparr>rule_steps := (rule_steps rule)
           [n := \<lparr>step_op = opc, step_arg1 = arg1, step_arg2 = arg2\<rparr>]\<rparr>) }"

section \<open>Buckets of the map\<close>

definition crush_get_next_bucket_id :: "crush_map \<Rightarrow> int" where
  "crush_get_next_bucket_id m = - 1 - int (first_free (map_buckets m))"

function expand_buckets :: "nat \<Rightarrow> crush_bucket option list \<Rightarrow> crush_bucket option list" where
  "expand_buckets pos bs =
    (if length bs \<le> pos
     then let n = (if bs \<noteq> [] then length bs * 2 else 8) in
          expand_buckets pos (bs @ replicate (n - length bs) None)
     else bs)"
  by auto
termination
proof (relation "measure (\<lambda>(pos, bs). Suc pos - length bs)")
  fix pos :: nat and bs :: "crush_bucket option list" and n
  assume "length bs \<le> pos" "n = (if bs \<noteq> [] then length bs * 2 else 8)"
  moreover from this have "length bs < n" by (cases bs) auto
  ultimately show "((pos, bs @ replicate (n - length bs) None), pos, bs)
      \<in> measure (\<lambda>(pos, bs). Suc pos - length bs)"
    by simp
qed simp

declare expand_buckets.simps [simp del]

definition crush_add_bucket ::
  "crush_map \<Rightarrow> int \<Rightarrow> crush_bucket \<Rightarrow> (int \<times> int option \<times> crush_map) option"
where
  "crush_add_bucket m i bucket =
    do { let i = (if i = 0 then crush_get_next_bucket_id m else i);
         let pos = - 1 - i;
         ceph_assert (0 \<le> pos);
         let bs = expand_buckets (nat pos) (map_buckets m);
         old \<leftarrow> arr_get bs (nat pos);
         if old \<noteq> None then Some (- EEXIST, None, m\<lparr>map_buckets := bs\<rparr>)
         else Some (0, Some i, m\<lparr>map_buckets := bs[nat pos := Some (bucket\<lparr>bucket_id := i\<rparr>)]\<rparr>) }"

definition crush_remove_bucket :: "crush_map \<Rightarrow> crush_bucket \<Rightarrow> (int \<times> crush_map) option" where
  "crush_remove_bucket m bucket =
    do { let pos = - 1 - bucket_id bucket;
         ceph_assert (0 \<le> pos \<and> pos < int (max_buckets m));
         Some (0, m\<lparr>map_buckets := (map_buckets m)[nat pos := None]\<rparr>) }"

section \<open>Making buckets\<close>

text \<open>
  The memory of a bucket that has been set to zero and given its header.  \<open>type\<close> is a 16-bit
  and \<open>hash\<close> an 8-bit field.  A constructor that returns NULL gives \<open>Some None\<close>.
\<close>

definition new_bucket :: "crush_algorithm \<Rightarrow> nat \<Rightarrow> int \<Rightarrow> u32 \<Rightarrow> int list \<Rightarrow> crush_bucket" where
  "new_bucket alg hash type weight items =
    \<lparr>bucket_id = 0, bucket_type = type mod 65536, bucket_alg = alg, bucket_hash = hash mod 256,
     bucket_weight = weight, bucket_items = items\<rparr>"

definition crush_make_uniform_bucket ::
  "nat \<Rightarrow> int \<Rightarrow> int list \<Rightarrow> u32 \<Rightarrow> crush_bucket option option"
where
  "crush_make_uniform_bucket hash type items item_weight =
    (let size = word_of_nat (length items) in
     if crush_multiplication_is_unsafe size item_weight then Some None
     else Some (Some (new_bucket (CRUSH_BUCKET_UNIFORM item_weight) hash type
                        (size * item_weight) items)))"

fun list_sums :: "u32 \<Rightarrow> u32 list \<Rightarrow> u32 list option" where
  "list_sums w [] = Some []"
| "list_sums w (x # xs) =
    (if crush_addition_is_unsafe w x then None
     else map_option ((#) (w + x)) (list_sums (w + x) xs))"

definition crush_make_list_bucket ::
  "nat \<Rightarrow> int \<Rightarrow> int list \<Rightarrow> u32 list \<Rightarrow> crush_bucket option option"
where
  "crush_make_list_bucket hash type items weights =
    do { ceph_assert (length items \<le> length weights);
         let ws = take (length items) weights;
         case list_sums 0 ws of
           None \<Rightarrow> Some None
         | Some sums \<Rightarrow>
             Some (Some (new_bucket (CRUSH_BUCKET_LIST ws sums) hash type
                           (if sums = [] then 0 else last sums) items)) }"

section \<open>Tree buckets\<close>

text \<open>\<open>height\<close> is the function of the same name in \<open>mapper.c\<close>.\<close>

definition on_right :: "nat \<Rightarrow> nat \<Rightarrow> bool" where
  "on_right n h \<longleftrightarrow> bit n (Suc h)"

definition parent :: "nat \<Rightarrow> nat option" where
  "parent n = do { h \<leftarrow> height n; Some (if on_right n h then n - 2 ^ h else n + 2 ^ h) }"

fun depth_loop :: "nat \<Rightarrow> nat \<Rightarrow> nat" where
  "depth_loop t depth = (if t = 0 then depth else depth_loop (t div 2) (Suc depth))"

declare depth_loop.simps [simp del]

definition calc_depth :: "nat \<Rightarrow> nat" where
  "calc_depth sz = (if sz = 0 then 0 else depth_loop (sz - 1) 1)"

text \<open>
  The loop that walks \<open>n\<close> ancestors of \<open>node\<close> and adds \<open>w\<close> to each; it stops with \<open>False\<close> at
  an ancestor whose weight would overflow.
\<close>

fun tree_add_up :: "nat \<Rightarrow> nat \<Rightarrow> u32 \<Rightarrow> u32 list \<Rightarrow> (bool \<times> u32 list) option" where
  "tree_add_up 0 node w nw = Some (True, nw)"
| "tree_add_up (Suc n) node w nw =
    do { node \<leftarrow> parent node;
         old \<leftarrow> arr_get nw node;
         if crush_addition_is_unsafe old w then Some (False, nw)
         else do { nw \<leftarrow> arr_set nw node (old + w);
                   tree_add_up n node w nw } }"

fun tree_fill :: "nat \<Rightarrow> nat \<Rightarrow> u32 list \<Rightarrow> u32 \<Rightarrow> u32 list \<Rightarrow> (u32 \<times> u32 list) option option" where
  "tree_fill depth i [] weight nw = Some (Some (weight, nw))"
| "tree_fill depth i (w # ws) weight nw =
    do { let node = crush_calc_tree_node i;
         nw \<leftarrow> arr_set nw node w;
         if crush_addition_is_unsafe weight w then Some None
         else do { (ok, nw) \<leftarrow> tree_add_up (depth - 1) node w nw;
                   if ok then tree_fill depth (Suc i) ws (weight + w) nw else Some None } }"

definition crush_make_tree_bucket ::
  "nat \<Rightarrow> int \<Rightarrow> int list \<Rightarrow> u32 list \<Rightarrow> crush_bucket option option"
where
  "crush_make_tree_bucket hash type items weights =
    (if items = [] then Some (Some (new_bucket (CRUSH_BUCKET_TREE 0 []) hash type 0 []))
     else do { ceph_assert (length items \<le> length weights);
               let depth = calc_depth (length items);
               let num_nodes = (word_of_nat (2 ^ depth) :: u8);
               res \<leftarrow> tree_fill depth 0 (take (length items) weights) 0
                        (replicate (unat num_nodes) 0);
               case res of None \<Rightarrow> Some None
               | Some (weight, nw) \<Rightarrow>
                   do { root \<leftarrow> arr_get nw (unat num_nodes div 2);
                        ceph_assert (root = weight);
                        Some (Some (new_bucket (CRUSH_BUCKET_TREE num_nodes nw) hash type
                                      weight items)) } })"
section \<open>Straw lengths\<close>

text \<open>
  \<open>crush_calc_straw\<close> computes with doubles and the library's \<open>pow\<close>.  The arithmetic is a
  parameter of the model: a record of the operations the code applies to doubles, over any
  type \<open>'d\<close>.  Everything else of the function, its insertion sort, its control flow and its
  integer arithmetic, is as in the code.
\<close>

record 'd double_ops =
  d_of_u32 :: "u32 \<Rightarrow> 'd"
  d_of_int :: "int \<Rightarrow> 'd"
  d_add :: "'d \<Rightarrow> 'd \<Rightarrow> 'd"
  d_sub :: "'d \<Rightarrow> 'd \<Rightarrow> 'd"
  d_mul :: "'d \<Rightarrow> 'd \<Rightarrow> 'd"
  d_div :: "'d \<Rightarrow> 'd \<Rightarrow> 'd"
  d_pow :: "'d \<Rightarrow> 'd \<Rightarrow> 'd"
  d_to_u32 :: "'d \<Rightarrow> u32"

fun straw_insert :: "u32 list \<Rightarrow> nat \<Rightarrow> nat list \<Rightarrow> nat list" where
  "straw_insert ws i [] = [i]"
| "straw_insert ws i (r # rest) = (if ws ! i < ws ! r then i # r # rest else r # straw_insert ws i rest)"

definition straw_order :: "u32 list \<Rightarrow> nat \<Rightarrow> nat list" where
  "straw_order ws n = fold (straw_insert ws) [0..<n] []"

record 'd straw_state =
  st_numleft :: int
  st_straw :: 'd
  st_wbelow :: 'd
  st_lastw :: 'd
  st_straws :: "u32 list"

text \<open>The lines that adjust the straw after an item of weight \<open>w\<close> when the next has weight \<open>wn\<close>.\<close>

definition straw_adjust ::
  "'d double_ops \<Rightarrow> u32 \<Rightarrow> u32 \<Rightarrow> int \<Rightarrow> 'd straw_state \<Rightarrow> 'd straw_state"
where
  "straw_adjust D w wn taken s =
    (let wbelow = d_add D (st_wbelow s)
                    (d_mul D (d_sub D (d_of_u32 D w) (st_lastw s)) (d_of_int D (st_numleft s)));
         numleft = st_numleft s - taken;
         wnext = d_of_u32 D (word_of_int numleft * (wn - w));
         pbelow = d_div D wbelow (d_add D wbelow wnext);
         straw = d_mul D (st_straw s)
                   (d_pow D (d_div D (d_of_int D 1) pbelow)
                      (d_div D (d_of_int D 1) (d_of_int D numleft)))
     in s\<lparr>st_numleft := numleft, st_straw := straw, st_wbelow := wbelow, st_lastw := d_of_u32 D w\<rparr>)"

definition straw_set :: "'d double_ops \<Rightarrow> nat \<Rightarrow> 'd straw_state \<Rightarrow> 'd straw_state" where
  "straw_set D r s =
    s\<lparr>st_straws := (st_straws s)[r := d_to_u32 D (d_mul D (st_straw s) (d_of_int D 0x10000))]\<rparr>"

fun straw_loop0 :: "'d double_ops \<Rightarrow> u32 list \<Rightarrow> nat list \<Rightarrow> 'd straw_state \<Rightarrow> 'd straw_state" where
  "straw_loop0 D ws [] s = s"
| "straw_loop0 D ws (r # rest) s =
    (if ws ! r = 0 then straw_loop0 D ws rest (s\<lparr>st_straws := (st_straws s)[r := 0]\<rparr>)
     else case rest of
       [] \<Rightarrow> straw_set D r s
     | q # _ \<Rightarrow>
         if ws ! q = ws ! r then straw_loop0 D ws rest (straw_set D r s)
         else straw_loop0 D ws rest
                (straw_adjust D (ws ! r) (ws ! q)
                   (int (length (takeWhile (\<lambda>j. ws ! j = ws ! q) rest))) (straw_set D r s)))"

fun straw_loop1 :: "'d double_ops \<Rightarrow> u32 list \<Rightarrow> nat list \<Rightarrow> 'd straw_state \<Rightarrow> 'd straw_state" where
  "straw_loop1 D ws [] s = s"
| "straw_loop1 D ws (r # rest) s =
    (if ws ! r = 0
     then straw_loop1 D ws rest (s\<lparr>st_straws := (st_straws s)[r := 0], st_numleft := st_numleft s - 1\<rparr>)
     else case rest of
       [] \<Rightarrow> straw_set D r s
     | q # _ \<Rightarrow> straw_loop1 D ws rest (straw_adjust D (ws ! r) (ws ! q) 1 (straw_set D r s)))"

definition crush_calc_straw ::
  "'d double_ops \<Rightarrow> crush_map \<Rightarrow> nat \<Rightarrow> u32 list \<Rightarrow> u32 list \<Rightarrow> u32 list option"
where
  "crush_calc_straw D m n ws straws =
    do { ceph_assert (n \<le> length ws \<and> n \<le> length straws);
         let s = \<lparr>st_numleft = int n, st_straw = d_of_int D 1, st_wbelow = d_of_int D 0,
                  st_lastw = d_of_int D 0, st_straws = straws\<rparr>;
         Some (st_straws ((if straw_calc_version m = 0 then straw_loop0 else straw_loop1)
                            D ws (straw_order ws n) s)) }"

definition crush_make_straw_bucket ::
  "'d double_ops \<Rightarrow> (nat \<Rightarrow> u32) \<Rightarrow> crush_map \<Rightarrow> nat \<Rightarrow> int \<Rightarrow> int list \<Rightarrow> u32 list \<Rightarrow>
    crush_bucket option option"
where
  "crush_make_straw_bucket D mem m hash type items weights =
    do { ceph_assert (length items \<le> length weights);
         let ws = take (length items) weights;
         straws \<leftarrow> crush_calc_straw D m (length items) ws (map mem [0..<length items]);
         Some (Some (new_bucket (CRUSH_BUCKET_STRAW ws straws) hash type (sum_list ws) items)) }"

definition crush_make_straw2_bucket ::
  "nat \<Rightarrow> int \<Rightarrow> int list \<Rightarrow> u32 list \<Rightarrow> crush_bucket option option"
where
  "crush_make_straw2_bucket hash type items weights =
    do { ceph_assert (length items \<le> length weights);
         let ws = take (length items) weights;
         Some (Some (new_bucket (CRUSH_BUCKET_STRAW2 ws) hash type (sum_list ws) items)) }"

text \<open>\<open>alg\<close> is the number of an algorithm and \<open>weights\<close> may be NULL.\<close>

definition crush_make_bucket ::
  "'d double_ops \<Rightarrow> (nat \<Rightarrow> u32) \<Rightarrow> crush_map \<Rightarrow> int \<Rightarrow> nat \<Rightarrow> int \<Rightarrow> int list \<Rightarrow>
    u32 list option \<Rightarrow> crush_bucket option option"
where
  "crush_make_bucket D mem m alg hash type items weights =
    (let ws = (case weights of None \<Rightarrow> [] | Some ws \<Rightarrow> ws) in
     if alg = 1
     then do { w \<leftarrow> (if items \<noteq> [] \<and> weights \<noteq> None then arr_get ws 0 else Some 0);
               crush_make_uniform_bucket hash type items w }
     else if alg = 2 then crush_make_list_bucket hash type items ws
     else if alg = 3 then crush_make_tree_bucket hash type items ws
     else if alg = 4 then crush_make_straw_bucket D mem m hash type items ws
     else if alg = 5 then crush_make_straw2_bucket hash type items ws
     else Some None)"

section \<open>Adding an item\<close>

text \<open>
  The operations on the items of a bucket return the C return value and the bucket.  Arrays
  are modelled up to \<open>size\<close>: a cell that was reallocated but is not yet counted is not shown.
\<close>

definition crush_add_uniform_bucket_item ::
  "crush_bucket \<Rightarrow> u32 \<Rightarrow> int \<Rightarrow> u32 \<Rightarrow> (int \<times> crush_bucket) option"
where
  "crush_add_uniform_bucket_item b iw item weight =
    (if iw \<noteq> weight then Some (- EINVAL, b)
     else if crush_addition_is_unsafe (bucket_weight b) weight then Some (- ERANGE, b)
     else Some (0, b\<lparr>bucket_items := bucket_items b @ [item],
                      bucket_weight := bucket_weight b + weight\<rparr>))"

definition crush_add_list_bucket_item ::
  "crush_bucket \<Rightarrow> u32 list \<Rightarrow> u32 list \<Rightarrow> int \<Rightarrow> u32 \<Rightarrow> (int \<times> crush_bucket) option"
where
  "crush_add_list_bucket_item b ws sums item weight =
    do { let newsize = bucket_size b + 1;
         prev \<leftarrow> (if 1 < newsize then arr_get sums (newsize - 2) else Some 0);
         if 1 < newsize \<and> crush_addition_is_unsafe prev weight then Some (- ERANGE, b)
         else Some (0, b\<lparr>bucket_items := bucket_items b @ [item],
                          bucket_alg := CRUSH_BUCKET_LIST (ws @ [weight]) (sums @ [prev + weight]),
                          bucket_weight := bucket_weight b + weight\<rparr>) }"

definition crush_add_tree_bucket_item ::
  "(nat \<Rightarrow> u32) \<Rightarrow> crush_bucket \<Rightarrow> u32 list \<Rightarrow> int \<Rightarrow> u32 \<Rightarrow> (int \<times> crush_bucket) option"
where
  "crush_add_tree_bucket_item mem b nw item weight =
    do { let newsize = bucket_size b + 1;
         let depth = calc_depth newsize;
         let num_nodes = (word_of_nat (2 ^ depth) :: u8);
         nw \<leftarrow> c_realloc mem (unat num_nodes) nw;
         let node = crush_calc_tree_node (newsize - 1);
         nw \<leftarrow> arr_set nw node weight;
         let root = unat num_nodes div 2;
         nw \<leftarrow> (if 2 \<le> depth \<and> node - 1 = root
               then do { l \<leftarrow> arr_get nw (root div 2); arr_set nw root l }
               else Some nw);
         (ok, nw) \<leftarrow> tree_add_up (depth - 1) node weight nw;
         let b = b\<lparr>bucket_alg := CRUSH_BUCKET_TREE num_nodes nw\<rparr>;
         if \<not> ok \<or> crush_addition_is_unsafe (bucket_weight b) weight then Some (- ERANGE, b)
         else Some (0, b\<lparr>bucket_items := bucket_items b @ [item],
                          bucket_weight := bucket_weight b + weight\<rparr>) }"

definition crush_add_straw_bucket_item ::
  "'d double_ops \<Rightarrow> (nat \<Rightarrow> u32) \<Rightarrow> crush_map \<Rightarrow> crush_bucket \<Rightarrow> u32 list \<Rightarrow> u32 list \<Rightarrow>
    int \<Rightarrow> u32 \<Rightarrow> (int \<times> crush_bucket) option"
where
  "crush_add_straw_bucket_item D mem m b ws straws item weight =
    (if crush_addition_is_unsafe (bucket_weight b) weight then Some (- ERANGE, b)
     else do { let newsize = bucket_size b + 1;
               let ws = ws @ [weight];
               straws \<leftarrow> crush_calc_straw D m newsize ws (straws @ [mem (bucket_size b)]);
               Some (0, b\<lparr>bucket_items := bucket_items b @ [item],
                           bucket_alg := CRUSH_BUCKET_STRAW ws straws,
                           bucket_weight := bucket_weight b + weight\<rparr>) })"

definition crush_add_straw2_bucket_item ::
  "crush_bucket \<Rightarrow> u32 list \<Rightarrow> int \<Rightarrow> u32 \<Rightarrow> (int \<times> crush_bucket) option"
where
  "crush_add_straw2_bucket_item b ws item weight =
    (if crush_addition_is_unsafe (bucket_weight b) weight then Some (- ERANGE, b)
     else Some (0, b\<lparr>bucket_items := bucket_items b @ [item],
                      bucket_alg := CRUSH_BUCKET_STRAW2 (ws @ [weight]),
                      bucket_weight := bucket_weight b + weight\<rparr>))"

definition crush_bucket_add_item ::
  "'d double_ops \<Rightarrow> (nat \<Rightarrow> u32) \<Rightarrow> crush_map \<Rightarrow> crush_bucket \<Rightarrow> int \<Rightarrow> u32 \<Rightarrow>
    (int \<times> crush_bucket) option"
where
  "crush_bucket_add_item D mem m b item weight =
    (case bucket_alg b of
       CRUSH_BUCKET_UNIFORM iw \<Rightarrow> crush_add_uniform_bucket_item b iw item weight
     | CRUSH_BUCKET_LIST ws sums \<Rightarrow> crush_add_list_bucket_item b ws sums item weight
     | CRUSH_BUCKET_TREE _ nw \<Rightarrow> crush_add_tree_bucket_item mem b nw item weight
     | CRUSH_BUCKET_STRAW ws straws \<Rightarrow> crush_add_straw_bucket_item D mem m b ws straws item weight
     | CRUSH_BUCKET_STRAW2 ws \<Rightarrow> crush_add_straw2_bucket_item b ws item weight
     | CRUSH_BUCKET_UNKNOWN _ \<Rightarrow> Some (- 1, b))"
section \<open>Removing an item\<close>

text \<open>
  The position of an item, and the loop that moves the cells after it down, for \<open>j\<close> below
  \<open>n\<close>, each through \<open>f\<close>.  The cell past the end of an array is \<open>past\<close>, if there is one.
\<close>

definition item_pos :: "int list \<Rightarrow> int \<Rightarrow> nat" where
  "item_pos items item = length (takeWhile (\<lambda>x. x \<noteq> item) items)"

function shift_loop :: "('a \<Rightarrow> 'a) \<Rightarrow> 'a option \<Rightarrow> nat \<Rightarrow> nat \<Rightarrow> 'a list \<Rightarrow> 'a list option" where
  "shift_loop f past n j xs =
    (if j < n
     then do { v \<leftarrow> (if Suc j < length xs then Some (xs ! Suc j) else past);
               ys \<leftarrow> arr_set xs j (f v);
               shift_loop f past n (Suc j) ys }
     else Some xs)"
  by auto
termination by (relation "measure (\<lambda>(f, past, n, j, xs). n - j)") auto

declare shift_loop.simps [simp del]

definition weight_minus :: "u32 \<Rightarrow> u32 \<Rightarrow> u32" where
  "weight_minus tot w = (if w < tot then tot - w else 0)"

text \<open>
  When the last item of a uniform or list bucket is removed, \<open>realloc\<close> frees the item array and gives
  NULL; the call reports \<open>-ENOMEM\<close> and leaves \<open>items\<close> dangling.  A bucket with a dangling array has no
  value in the model.
\<close>

definition crush_remove_uniform_bucket_item ::
  "int option \<Rightarrow> crush_bucket \<Rightarrow> u32 \<Rightarrow> int \<Rightarrow> (int \<times> crush_bucket) option"
where
  "crush_remove_uniform_bucket_item past b iw item =
    (let n = bucket_size b; i = item_pos (bucket_items b) item in
     if i = n then Some (- ENOENT, b)
     else do {
       items \<leftarrow> shift_loop (\<lambda>x. x) past n i (bucket_items b);
       let newsize = n - 1;
       let b = b\<lparr>bucket_weight := weight_minus (bucket_weight b) iw\<rparr>;
       items \<leftarrow> c_realloc (\<lambda>_. 0) newsize items;
       Some (0, b\<lparr>bucket_items := items\<rparr>) })"

definition crush_remove_list_bucket_item ::
  "int option \<Rightarrow> u32 option \<Rightarrow> crush_bucket \<Rightarrow> u32 list \<Rightarrow> u32 list \<Rightarrow> int \<Rightarrow> (int \<times> crush_bucket) option"
where
  "crush_remove_list_bucket_item past pastw b ws sums item =
    (let n = bucket_size b; i = item_pos (bucket_items b) item in
     if i = n then Some (- ENOENT, b)
     else do {
       weight \<leftarrow> arr_get ws i;
       items \<leftarrow> shift_loop (\<lambda>x. x) past n i (bucket_items b);
       ws \<leftarrow> shift_loop (\<lambda>x. x) pastw n i ws;
       sums \<leftarrow> shift_loop (\<lambda>x. x - weight) pastw n i sums;
       let b = b\<lparr>bucket_weight := weight_minus (bucket_weight b) weight\<rparr>;
       let newsize = n - 1;
       items \<leftarrow> c_realloc (\<lambda>_. 0) newsize items;
       ws \<leftarrow> c_realloc (\<lambda>_. 0) newsize ws;
       sums \<leftarrow> c_realloc (\<lambda>_. 0) newsize sums;
       Some (0, b\<lparr>bucket_items := items, bucket_alg := CRUSH_BUCKET_LIST ws sums\<rparr>) })"

fun tree_map_up :: "(u32 \<Rightarrow> u32) \<Rightarrow> nat \<Rightarrow> nat \<Rightarrow> u32 list \<Rightarrow> u32 list option" where
  "tree_map_up f 0 node nw = Some nw"
| "tree_map_up f (Suc n) node nw =
    do { node \<leftarrow> parent node;
         old \<leftarrow> arr_get nw node;
         nw \<leftarrow> arr_set nw node (f old);
         tree_map_up f n node nw }"

fun tree_newsize :: "u32 list \<Rightarrow> nat \<Rightarrow> nat option" where
  "tree_newsize nw 0 = Some 0"
| "tree_newsize nw (Suc n) =
    do { w \<leftarrow> arr_get nw (crush_calc_tree_node n);
         if w \<noteq> 0 then Some (Suc n) else tree_newsize nw n }"

text \<open>
  When no weighted item is left the item array is freed while \<open>size\<close> still counts it; such a
  bucket has no value in the model.
\<close>

definition crush_remove_tree_bucket_item ::
  "crush_bucket \<Rightarrow> u8 \<Rightarrow> u32 list \<Rightarrow> int \<Rightarrow> (int \<times> crush_bucket) option"
where
  "crush_remove_tree_bucket_item b num_nodes nw item =
    (let n = bucket_size b; i = item_pos (bucket_items b) item in
     if i = n then Some (- ENOENT, b)
     else do {
       let depth = calc_depth n;
       let items = (bucket_items b)[i := 0];
       let node = crush_calc_tree_node i;
       weight \<leftarrow> arr_get nw node;
       nw \<leftarrow> arr_set nw node 0;
       nw \<leftarrow> tree_map_up (\<lambda>w. w - weight) (depth - 1) node nw;
       let b = b\<lparr>bucket_weight := weight_minus (bucket_weight b) weight\<rparr>;
       newsize \<leftarrow> tree_newsize nw n;
       if newsize = n
       then Some (0, b\<lparr>bucket_items := items, bucket_alg := CRUSH_BUCKET_TREE num_nodes nw\<rparr>)
       else do {
         items \<leftarrow> c_realloc (\<lambda>_. 0) newsize items;
         let newdepth = calc_depth newsize;
         if depth = newdepth
         then Some (0, b\<lparr>bucket_items := items, bucket_alg := CRUSH_BUCKET_TREE num_nodes nw\<rparr>)
         else do {
           let num_nodes = (word_of_nat (2 ^ newdepth) :: u8);
           nw \<leftarrow> c_realloc (\<lambda>_. 0) (unat num_nodes) nw;
           Some (0, b\<lparr>bucket_items := items, bucket_alg := CRUSH_BUCKET_TREE num_nodes nw\<rparr>) } } })"

definition crush_remove_straw_bucket_item ::
  "'d double_ops \<Rightarrow> crush_map \<Rightarrow> crush_bucket \<Rightarrow> u32 list \<Rightarrow> u32 list \<Rightarrow> int \<Rightarrow>
    (int \<times> crush_bucket) option"
where
  "crush_remove_straw_bucket_item D m b ws straws item =
    (let n = bucket_size b; newsize = n - 1; i = item_pos (bucket_items b) item in
     if i = n then Some (- ENOENT, b)
     else do {
       w \<leftarrow> arr_get ws i;
       items \<leftarrow> shift_loop (\<lambda>x. x) None newsize i (bucket_items b);
       ws \<leftarrow> shift_loop (\<lambda>x. x) None newsize i ws;
       let items = take newsize items;
       let ws = take newsize ws;
       let straws = take newsize straws;
       straws \<leftarrow> (if newsize = 0 then Some straws else crush_calc_straw D m newsize ws straws);
       Some (0, b\<lparr>bucket_items := items, bucket_alg := CRUSH_BUCKET_STRAW ws straws,
                   bucket_weight := weight_minus (bucket_weight b) w\<rparr>) })"

definition crush_remove_straw2_bucket_item ::
  "crush_bucket \<Rightarrow> u32 list \<Rightarrow> int \<Rightarrow> (int \<times> crush_bucket) option"
where
  "crush_remove_straw2_bucket_item b ws item =
    (let n = bucket_size b; newsize = n - 1; i = item_pos (bucket_items b) item in
     if i = n then Some (- ENOENT, b)
     else do {
       w \<leftarrow> arr_get ws i;
       items \<leftarrow> shift_loop (\<lambda>x. x) None newsize i (bucket_items b);
       ws \<leftarrow> shift_loop (\<lambda>x. x) None newsize i ws;
       let items = take newsize items;
       let ws = take newsize ws;
       Some (0, b\<lparr>bucket_items := items, bucket_alg := CRUSH_BUCKET_STRAW2 ws,
                   bucket_weight := weight_minus (bucket_weight b) w\<rparr>) })"

definition crush_bucket_remove_item ::
  "'d double_ops \<Rightarrow> int option \<Rightarrow> u32 option \<Rightarrow> crush_map \<Rightarrow> crush_bucket \<Rightarrow> int \<Rightarrow> (int \<times> crush_bucket) option"
where
  "crush_bucket_remove_item D past pastw m b item =
    (case bucket_alg b of
       CRUSH_BUCKET_UNIFORM iw \<Rightarrow> crush_remove_uniform_bucket_item past b iw item
     | CRUSH_BUCKET_LIST ws sums \<Rightarrow> crush_remove_list_bucket_item past pastw b ws sums item
     | CRUSH_BUCKET_TREE num_nodes nw \<Rightarrow> crush_remove_tree_bucket_item b num_nodes nw item
     | CRUSH_BUCKET_STRAW ws straws \<Rightarrow> crush_remove_straw_bucket_item D m b ws straws item
     | CRUSH_BUCKET_STRAW2 ws \<Rightarrow> crush_remove_straw2_bucket_item b ws item
     | CRUSH_BUCKET_UNKNOWN _ \<Rightarrow> Some (- 1, b))"

section \<open>Changing the weight of an item\<close>

definition crush_adjust_uniform_bucket_item_weight ::
  "crush_bucket \<Rightarrow> u32 \<Rightarrow> u32 \<Rightarrow> (int \<times> crush_bucket) option"
where
  "crush_adjust_uniform_bucket_item_weight b iw weight =
    (let sz = word_of_nat (bucket_size b) in
     Some (sint ((weight - iw) * sz),
           b\<lparr>bucket_alg := CRUSH_BUCKET_UNIFORM weight, bucket_weight := weight * sz\<rparr>))"

definition crush_adjust_list_bucket_item_weight ::
  "crush_bucket \<Rightarrow> u32 list \<Rightarrow> u32 list \<Rightarrow> int \<Rightarrow> u32 \<Rightarrow> (int \<times> crush_bucket) option"
where
  "crush_adjust_list_bucket_item_weight b ws sums item weight =
    (let n = bucket_size b; i = item_pos (bucket_items b) item in
     if i = n then Some (0, b)
     else do {
       old \<leftarrow> arr_get ws i;
       let diff = weight - old;
       ceph_assert (n \<le> length sums);
       Some (sint diff,
             b\<lparr>bucket_alg := CRUSH_BUCKET_LIST (ws[i := weight])
                  (fold (\<lambda>j sums. sums[j := sums ! j + diff]) [i..<n] sums),
               bucket_weight := bucket_weight b + diff\<rparr>) })"

definition crush_adjust_tree_bucket_item_weight ::
  "crush_bucket \<Rightarrow> u8 \<Rightarrow> u32 list \<Rightarrow> int \<Rightarrow> u32 \<Rightarrow> (int \<times> crush_bucket) option"
where
  "crush_adjust_tree_bucket_item_weight b num_nodes nw item weight =
    (let n = bucket_size b; i = item_pos (bucket_items b) item in
     if i = n then Some (0, b)
     else do {
       let node = crush_calc_tree_node i;
       old \<leftarrow> arr_get nw node;
       let diff = weight - old;
       nw \<leftarrow> arr_set nw node weight;
       nw \<leftarrow> tree_map_up (\<lambda>w. w + diff) (calc_depth n - 1) node nw;
       Some (sint diff, b\<lparr>bucket_alg := CRUSH_BUCKET_TREE num_nodes nw,
                           bucket_weight := bucket_weight b + diff\<rparr>) })"

definition crush_adjust_straw_bucket_item_weight ::
  "'d double_ops \<Rightarrow> crush_map \<Rightarrow> crush_bucket \<Rightarrow> u32 list \<Rightarrow> u32 list \<Rightarrow> int \<Rightarrow> u32 \<Rightarrow>
    (int \<times> crush_bucket) option"
where
  "crush_adjust_straw_bucket_item_weight D m b ws straws item weight =
    (let n = bucket_size b; i = item_pos (bucket_items b) item in
     if i = n then Some (0, b)
     else do {
       old \<leftarrow> arr_get ws i;
       let diff = weight - old;
       let ws = ws[i := weight];
       straws \<leftarrow> crush_calc_straw D m n ws straws;
       Some (sint diff, b\<lparr>bucket_alg := CRUSH_BUCKET_STRAW ws straws,
                           bucket_weight := bucket_weight b + diff\<rparr>) })"

definition crush_adjust_straw2_bucket_item_weight ::
  "crush_bucket \<Rightarrow> u32 list \<Rightarrow> int \<Rightarrow> u32 \<Rightarrow> (int \<times> crush_bucket) option"
where
  "crush_adjust_straw2_bucket_item_weight b ws item weight =
    (let n = bucket_size b; i = item_pos (bucket_items b) item in
     if i = n then Some (0, b)
     else do {
       old \<leftarrow> arr_get ws i;
       let diff = weight - old;
       Some (sint diff, b\<lparr>bucket_alg := CRUSH_BUCKET_STRAW2 (ws[i := weight]),
                           bucket_weight := bucket_weight b + diff\<rparr>) })"

definition crush_bucket_adjust_item_weight ::
  "'d double_ops \<Rightarrow> crush_map \<Rightarrow> crush_bucket \<Rightarrow> int \<Rightarrow> u32 \<Rightarrow> (int \<times> crush_bucket) option"
where
  "crush_bucket_adjust_item_weight D m b item weight =
    (case bucket_alg b of
       CRUSH_BUCKET_UNIFORM iw \<Rightarrow> crush_adjust_uniform_bucket_item_weight b iw weight
     | CRUSH_BUCKET_LIST ws sums \<Rightarrow> crush_adjust_list_bucket_item_weight b ws sums item weight
     | CRUSH_BUCKET_TREE num_nodes nw \<Rightarrow> crush_adjust_tree_bucket_item_weight b num_nodes nw item weight
     | CRUSH_BUCKET_STRAW ws straws \<Rightarrow> crush_adjust_straw_bucket_item_weight D m b ws straws item weight
     | CRUSH_BUCKET_STRAW2 ws \<Rightarrow> crush_adjust_straw2_bucket_item_weight b ws item weight
     | CRUSH_BUCKET_UNKNOWN _ \<Rightarrow> Some (- 1, b))"
section \<open>Reweighting a hierarchy\<close>

text \<open>
  \<open>rec\<close> is the call on the child at an id; the loops read the weight the child then has.
  \<open>slot\<close> is the cell of the weight array that belongs to an item.  The flag of the result is
  \<open>False\<close> when the sum overflowed.
\<close>

definition child_weight ::
  "(int \<Rightarrow> crush_map \<Rightarrow> (int \<times> crush_map) option) \<Rightarrow> int \<Rightarrow> crush_map \<Rightarrow> (u32 \<times> crush_map) option"
where
  "child_weight rec i m =
    do { (_, m) \<leftarrow> rec i m; c \<leftarrow> crush_bucket_at m i; Some (bucket_weight c, m) }"

fun reweight_items ::
  "(int \<Rightarrow> crush_map \<Rightarrow> (int \<times> crush_map) option) \<Rightarrow> (nat \<Rightarrow> nat) \<Rightarrow> nat \<Rightarrow> int list \<Rightarrow>
    u32 list \<Rightarrow> u32 \<Rightarrow> crush_map \<Rightarrow> (bool \<times> u32 list \<times> u32 \<times> crush_map) option"
where
  "reweight_items rec slot i [] ws weight m = Some (True, ws, weight, m)"
| "reweight_items rec slot i (item # items) ws weight m =
    do { (ws, m) \<leftarrow> (if item < 0
                    then do { (w, m) \<leftarrow> child_weight rec item m;
                              ws \<leftarrow> arr_set ws (slot i) w;
                              Some (ws, m) }
                    else Some (ws, m));
         w \<leftarrow> arr_get ws (slot i);
         if crush_addition_is_unsafe weight w then Some (False, ws, weight, m)
         else reweight_items rec slot (Suc i) items ws (weight + w) m }"

fun reweight_uniform_items ::
  "(int \<Rightarrow> crush_map \<Rightarrow> (int \<times> crush_map) option) \<Rightarrow> int list \<Rightarrow> u32 \<Rightarrow> nat \<Rightarrow> nat \<Rightarrow> crush_map \<Rightarrow>
    (bool \<times> u32 \<times> nat \<times> nat \<times> crush_map) option"
where
  "reweight_uniform_items rec [] tot n leaves m = Some (True, tot, n, leaves, m)"
| "reweight_uniform_items rec (item # items) tot n leaves m =
    (if item < 0
     then do { (w, m) \<leftarrow> child_weight rec item m;
               if crush_addition_is_unsafe tot w then Some (False, tot, n, leaves, m)
               else reweight_uniform_items rec items (tot + w) (Suc n) leaves m }
     else reweight_uniform_items rec items tot n (Suc leaves) m)"

definition put_bucket :: "int \<Rightarrow> crush_bucket \<Rightarrow> crush_map \<Rightarrow> crush_map" where
  "put_bucket i b m = m\<lparr>map_buckets := (map_buckets m)[nat (- 1 - i) := Some b]\<rparr>"

definition crush_reweight_uniform_bucket ::
  "(int \<Rightarrow> crush_map \<Rightarrow> (int \<times> crush_map) option) \<Rightarrow> int \<Rightarrow> crush_bucket \<Rightarrow> u32 \<Rightarrow> crush_map \<Rightarrow>
    (int \<times> crush_map) option"
where
  "crush_reweight_uniform_bucket rec i b iw m =
    do { (ok, tot, n, leaves, m) \<leftarrow> reweight_uniform_items rec (bucket_items b) 0 0 0 m;
         if \<not> ok then Some (- ERANGE, m)
         else let iw = (if leaves < n then tot div word_of_nat n else iw) in
              Some (0, put_bucket i (b\<lparr>bucket_alg := CRUSH_BUCKET_UNIFORM iw,
                                       bucket_weight := iw * word_of_nat (bucket_size b)\<rparr>) m) }"

definition crush_reweight_list_bucket ::
  "(int \<Rightarrow> crush_map \<Rightarrow> (int \<times> crush_map) option) \<Rightarrow> int \<Rightarrow> crush_bucket \<Rightarrow> u32 list \<Rightarrow> u32 list \<Rightarrow>
    crush_map \<Rightarrow> (int \<times> crush_map) option"
where
  "crush_reweight_list_bucket rec i b ws sums m =
    do { (ok, ws, weight, m) \<leftarrow> reweight_items rec (\<lambda>i. i) 0 (bucket_items b) ws 0 m;
         Some (if ok then 0 else - ERANGE,
               put_bucket i (b\<lparr>bucket_alg := CRUSH_BUCKET_LIST ws sums, bucket_weight := weight\<rparr>) m) }"

definition crush_reweight_tree_bucket ::
  "(int \<Rightarrow> crush_map \<Rightarrow> (int \<times> crush_map) option) \<Rightarrow> int \<Rightarrow> crush_bucket \<Rightarrow> u8 \<Rightarrow> u32 list \<Rightarrow>
    crush_map \<Rightarrow> (int \<times> crush_map) option"
where
  "crush_reweight_tree_bucket rec i b num_nodes nw m =
    do { (ok, nw, weight, m) \<leftarrow> reweight_items rec crush_calc_tree_node 0 (bucket_items b) nw 0 m;
         Some (if ok then 0 else - ERANGE,
               put_bucket i (b\<lparr>bucket_alg := CRUSH_BUCKET_TREE num_nodes nw, bucket_weight := weight\<rparr>) m) }"

definition crush_reweight_straw_bucket ::
  "'d double_ops \<Rightarrow> (int \<Rightarrow> crush_map \<Rightarrow> (int \<times> crush_map) option) \<Rightarrow> int \<Rightarrow> crush_bucket \<Rightarrow>
    u32 list \<Rightarrow> u32 list \<Rightarrow> crush_map \<Rightarrow> (int \<times> crush_map) option"
where
  "crush_reweight_straw_bucket D rec i b ws straws m =
    do { (ok, ws, weight, m) \<leftarrow> reweight_items rec (\<lambda>i. i) 0 (bucket_items b) ws 0 m;
         straws \<leftarrow> (if ok then crush_calc_straw D m (bucket_size b) ws straws else Some straws);
         Some (if ok then 0 else - ERANGE,
               put_bucket i (b\<lparr>bucket_alg := CRUSH_BUCKET_STRAW ws straws, bucket_weight := weight\<rparr>) m) }"

definition crush_reweight_straw2_bucket ::
  "(int \<Rightarrow> crush_map \<Rightarrow> (int \<times> crush_map) option) \<Rightarrow> int \<Rightarrow> crush_bucket \<Rightarrow> u32 list \<Rightarrow>
    crush_map \<Rightarrow> (int \<times> crush_map) option"
where
  "crush_reweight_straw2_bucket rec i b ws m =
    do { (ok, ws, weight, m) \<leftarrow> reweight_items rec (\<lambda>i. i) 0 (bucket_items b) ws 0 m;
         Some (if ok then 0 else - ERANGE,
               put_bucket i (b\<lparr>bucket_alg := CRUSH_BUCKET_STRAW2 ws, bucket_weight := weight\<rparr>) m) }"

text \<open>
  The dispatcher recurses through the children.  \<open>depth\<close> bounds the nesting of calls; a call
  nested deeper than the number of buckets is on a cycle and would recurse forever.
\<close>

fun reweight_at :: "'d double_ops \<Rightarrow> nat \<Rightarrow> int \<Rightarrow> crush_map \<Rightarrow> (int \<times> crush_map) option" where
  "reweight_at D 0 i m = None"
| "reweight_at D (Suc depth) i m =
    do { b \<leftarrow> crush_bucket_at m i;
         case bucket_alg b of
           CRUSH_BUCKET_UNIFORM iw \<Rightarrow> crush_reweight_uniform_bucket (reweight_at D depth) i b iw m
         | CRUSH_BUCKET_LIST ws sums \<Rightarrow> crush_reweight_list_bucket (reweight_at D depth) i b ws sums m
         | CRUSH_BUCKET_TREE num_nodes nw \<Rightarrow>
             crush_reweight_tree_bucket (reweight_at D depth) i b num_nodes nw m
         | CRUSH_BUCKET_STRAW ws straws \<Rightarrow>
             crush_reweight_straw_bucket D (reweight_at D depth) i b ws straws m
         | CRUSH_BUCKET_STRAW2 ws \<Rightarrow> crush_reweight_straw2_bucket (reweight_at D depth) i b ws m
         | CRUSH_BUCKET_UNKNOWN _ \<Rightarrow> Some (- 1, m) }"

definition crush_reweight_bucket ::
  "'d double_ops \<Rightarrow> crush_map \<Rightarrow> int \<Rightarrow> (int \<times> crush_map) option"
where
  "crush_reweight_bucket D m i = reweight_at D (max_buckets m) i m"

section \<open>Weight sets\<close>

text \<open>
  \<open>crush_make_choose_args\<close> treats every bucket as a straw2 bucket.  The \<open>item_weights\<close> pointer
  of list and straw buckets is at the same place; for the others the pointer is not one.  The
  state counts the weight sets, weights and ids that have been handed out.
\<close>

definition as_straw2_weights :: "crush_bucket \<Rightarrow> u32 list option" where
  "as_straw2_weights b =
    (case bucket_alg b of
       CRUSH_BUCKET_LIST ws _ \<Rightarrow> Some ws
     | CRUSH_BUCKET_STRAW ws _ \<Rightarrow> Some ws
     | CRUSH_BUCKET_STRAW2 ws \<Rightarrow> Some ws
     | _ \<Rightarrow> None)"

fun choose_args_loop ::
  "nat \<Rightarrow> crush_bucket option list \<Rightarrow> nat \<times> nat \<times> nat \<Rightarrow>
    (crush_choose_arg list \<times> nat \<times> nat \<times> nat) option"
where
  "choose_args_loop np [] moved = Some ([], moved)"
| "choose_args_loop np (None # bs) moved =
    do { (args, moved) \<leftarrow> choose_args_loop np bs moved;
         Some (\<lparr>arg_ids = None, arg_weight_set = None\<rparr> # args, moved) }"
| "choose_args_loop np (Some b # bs) (sets, weights, ids) =
    do { ws \<leftarrow> (if np = 0 \<or> bucket_items b = [] then Some [] else as_straw2_weights b);
         ceph_assert (np = 0 \<or> bucket_size b \<le> length ws);
         (args, moved) \<leftarrow> choose_args_loop np bs
            (sets + np, weights + np * bucket_size b, ids + bucket_size b);
         Some (\<lparr>arg_ids = Some (bucket_items b),
                arg_weight_set = Some (replicate np (take (bucket_size b) ws))\<rparr> # args, moved) }"

definition crush_make_choose_args :: "crush_map \<Rightarrow> nat \<Rightarrow> crush_choose_arg list option" where
  "crush_make_choose_args m np =
    do { let bs = List.map_filter id (map_buckets m);
         let sum_bucket_size = sum_list (map bucket_size bs);
         (args, sets, weights, ids) \<leftarrow> choose_args_loop np (map_buckets m) (0, 0, 0);
         ceph_assert (sets = length bs * np);
         ceph_assert (weights = sum_bucket_size * np);
         ceph_assert (ids = sum_bucket_size);
         Some args }"

section \<open>Safe addition\<close>

lemma crush_addition_is_unsafe_iff: "crush_addition_is_unsafe a b \<longleftrightarrow> 2 ^ 32 \<le> uint a + uint b"
proof -
  have "0 \<le> uint b" "uint b < 4294967296" using uint_lt2p[of b] by simp_all
  then have "(4294967295 - uint b) mod 4294967296 = 4294967295 - uint b"
    by (intro mod_pos_pos_trivial) linarith+
  then have "uint (- 1 - b) = 2 ^ 32 - 1 - uint b" by (simp add: uint_word_ariths)
  then show ?thesis by (auto simp: crush_addition_is_unsafe_def word_less_def)
qed

lemma uint_add_safe: "uint a + uint b < 2 ^ 32 \<Longrightarrow> uint (a + b :: u32) = uint a + uint b"
  using uint_plus_simple_iff[of a b] by (simp add: uint_word_ariths)

section \<open>Finalisation\<close>

definition map_items :: "crush_map \<Rightarrow> int list" where
  "map_items m = concat (map (\<lambda>ob. case ob of None \<Rightarrow> [] | Some b \<Rightarrow> bucket_items b) (map_buckets m))"

lemma s32_small: "- (2 ^ 31) \<le> i \<Longrightarrow> i < 2 ^ 31 \<Longrightarrow> s32 i = i"
  by (simp add: s32_def signed_take_bit_int_eq_self)

lemma finalize_items:
  assumes "\<forall>it\<in>set items. it < 0x7fffffff" "0 \<le> md"
  shows "md \<le> fold finalize_item items md \<and> (\<forall>it\<in>set items. it < fold finalize_item items md) \<and>
    (fold finalize_item items md = md \<or> fold finalize_item items md - 1 \<in> set items)"
  using assms
proof (induction items arbitrary: md)
  case (Cons it items)
  have "0 \<le> finalize_item it md" "md \<le> finalize_item it md" "it < finalize_item it md"
    "finalize_item it md = md \<or> finalize_item it md = it + 1"
    using Cons.prems by (auto simp: finalize_item_def s32_small)
  then show ?case
    using Cons.IH[of "finalize_item it md"] Cons.prems by fastforce
qed simp

lemma finalize_buckets:
  "fold finalize_bucket bs (md, ws) =
    (fold finalize_item (concat (map (\<lambda>ob. case ob of None \<Rightarrow> [] | Some b \<Rightarrow> bucket_items b) bs)) md,
     ws + sum_list (map (\<lambda>b. case b of None \<Rightarrow> 0 | Some b \<Rightarrow> 16 + bucket_size b * 4) bs))"
  by (induction bs arbitrary: md ws) (auto simp: finalize_bucket_def split: option.splits)

lemma crush_finalize_eq:
  "crush_finalize m = m\<lparr>max_devices := fold finalize_item (map_items m) 0,
                        working_size := workspace_bytes (map_buckets m)\<rparr>"
  by (simp add: crush_finalize_def finalize_buckets map_items_def workspace_bytes_def)

text \<open>
  Property C34.  After \<open>crush_finalize\<close> the workspace size is the one that
  \<open>crush_init_workspace\<close> checks, so a workspace can always be set up whatever the memory held,
  and \<open>max_devices\<close> is one above the largest item of the map, or 0 when it holds no device.
\<close>

theorem crush_finalize_ready:
  assumes "\<forall>it\<in>set (map_items m). it < 0x7fffffff"
  shows "(\<exists>work. crush_init_workspace (crush_finalize m) mem tries = Some work) \<and>
    (\<forall>it\<in>set (map_items m). it < max_devices (crush_finalize m)) \<and>
    (max_devices (crush_finalize m) = 0 \<or> max_devices (crush_finalize m) - 1 \<in> set (map_items m))"
  using finalize_items[OF assms, of 0] by (auto simp: crush_finalize_eq crush_init_workspace_def)

text \<open>A map with a straw2 root of two devices and a free slot.\<close>

definition demo_build :: crush_map where
  "demo_build =
    crush_create\<lparr>map_buckets :=
      [Some (new_bucket (CRUSH_BUCKET_STRAW2 [0x10000, 0x20000]) 0 1 0x30000 [4, 9]), None]\<rparr>"

theorem crush_finalize_ready_witness:
  "map_items demo_build = [4, 9] \<and> 9 < max_devices (crush_finalize demo_build) \<and>
   max_devices (crush_finalize demo_build) = 10 \<and>
   (\<exists>work. crush_init_workspace (crush_finalize demo_build) (\<lambda>_. 0) None = Some work)"
proof -
  have items: "map_items demo_build = [4, 9]" by (simp add: map_items_def demo_build_def new_bucket_def)
  then show ?thesis
    using crush_finalize_ready[of demo_build "\<lambda>_. 0" None]
    by (auto simp: crush_finalize_eq finalize_item_def s32_small)
qed

section \<open>Buckets of the map\<close>

lemma first_free_le: "first_free xs \<le> length xs"
  by (simp add: first_free_def length_takeWhile_le)

lemma first_free_None: "first_free xs < length xs \<Longrightarrow> xs ! first_free xs = None"
  unfolding first_free_def using nth_length_takeWhile by fastforce

lemma expand_buckets_prefix:
  "\<exists>k. expand_buckets pos bs = bs @ replicate k None \<and> pos < length (expand_buckets pos bs)"
proof (induction pos bs rule: expand_buckets.induct)
  case (1 pos bs)
  show ?case
  proof (cases "length bs \<le> pos")
    case True
    let ?n = "if bs \<noteq> [] then length bs * 2 else 8"
    obtain k where k: "expand_buckets pos (bs @ replicate (?n - length bs) None) =
        (bs @ replicate (?n - length bs) None) @ replicate k None"
        "pos < length (expand_buckets pos (bs @ replicate (?n - length bs) None))"
      using 1[OF True refl] by blast
    show ?thesis
      using k True by (subst (1 2) expand_buckets.simps) (auto simp: Let_def replicate_add[symmetric])
  next
    case False
    then show ?thesis by (subst (1 2) expand_buckets.simps) auto
  qed
qed

lemma bucket_at_expanded [simp]:
  "crush_bucket_at (m\<lparr>map_buckets := expand_buckets pos (map_buckets m)\<rparr>) k = crush_bucket_at m k"
proof -
  obtain n where "expand_buckets pos (map_buckets m) = map_buckets m @ replicate n None"
    using expand_buckets_prefix by blast
  then show ?thesis by (auto simp: crush_bucket_at_def arr_get_def nth_append)
qed

lemma bucket_at_put:
  "nat (- 1 - i) < length bs \<Longrightarrow> i < 0 \<Longrightarrow>
   crush_bucket_at (m\<lparr>map_buckets := bs[nat (- 1 - i) := ob]\<rparr>) k =
   (if k = i then ob else crush_bucket_at (m\<lparr>map_buckets := bs\<rparr>) k)"
  by (auto simp: crush_bucket_at_def arr_get_def nth_list_update)

lemma next_id_free:
  "crush_get_next_bucket_id m < 0" "crush_bucket_at m (crush_get_next_bucket_id m) = None"
  using first_free_None[of "map_buckets m"]
  by (auto simp: crush_get_next_bucket_id_def crush_bucket_at_def arr_get_def)

definition wanted_id :: "crush_map \<Rightarrow> int \<Rightarrow> int" where
  "wanted_id m i = (if i = 0 then crush_get_next_bucket_id m else i)"

text \<open>
  \<open>crush_add_bucket\<close> always returns: it stores the bucket under the wanted id,
  the lowest free one for id 0, and leaves every other id as it was; an id that is taken gives
  \<open>-EEXIST\<close> and changes no bucket.
\<close>

lemma crush_add_bucket_correct:
  assumes "i \<le> 0"
  shows "\<exists>m'. crush_add_bucket m i b =
      (case crush_bucket_at m (wanted_id m i) of
         Some _ \<Rightarrow> Some (- EEXIST, None, m')
       | None \<Rightarrow> Some (0, Some (wanted_id m i), m')) \<and>
    (\<forall>k. crush_bucket_at m' k =
      (if k = wanted_id m i \<and> crush_bucket_at m k = None then Some (b\<lparr>bucket_id := wanted_id m i\<rparr>)
       else crush_bucket_at m k)) \<and>
    (i = 0 \<longrightarrow> crush_bucket_at m (wanted_id m i) = None)"
proof -
  define j where "j = wanted_id m i"
  define bs where "bs = expand_buckets (nat (- 1 - j)) (map_buckets m)"
  have j: "j < 0" using assms next_id_free by (auto simp: j_def wanted_id_def)
  have len: "nat (- 1 - j) < length bs"
    using expand_buckets_prefix[of "nat (- 1 - j)" "map_buckets m"] by (auto simp: bs_def)
  have same: "crush_bucket_at (m\<lparr>map_buckets := bs\<rparr>) k = crush_bucket_at m k" for k
    by (simp add: bs_def)
  have old: "bs ! nat (- 1 - j) = crush_bucket_at m j"
    using same[of j] j len by (auto simp: crush_bucket_at_def)
  have put: "crush_bucket_at (m\<lparr>map_buckets := bs[nat (- 1 - j) := Some b']\<rparr>) k =
      (if k = j then Some b' else crush_bucket_at m k)" for b' k
    using bucket_at_put[OF len j] same by simp
  have run: "crush_add_bucket m i b =
      (if crush_bucket_at m j \<noteq> None then Some (- EEXIST, None, m\<lparr>map_buckets := bs\<rparr>)
       else Some (0, Some j, m\<lparr>map_buckets := bs[nat (- 1 - j) := Some (b\<lparr>bucket_id := j\<rparr>)]\<rparr>))"
    using j len old
    by (simp add: crush_add_bucket_def Let_def wanted_id_def[symmetric] j_def[symmetric] bs_def[symmetric])
  show ?thesis
    unfolding run j_def[symmetric] using same put next_id_free(2)[of m]
    by (cases "crush_bucket_at m j") (auto simp: j_def wanted_id_def)
qed

section \<open>Buckets as lists of weighted items\<close>

definition del_at :: "nat \<Rightarrow> 'a list \<Rightarrow> 'a list" where
  "del_at i xs = take i xs @ drop (Suc i) xs"

lemma length_del_at [simp]: "i < length xs \<Longrightarrow> length (del_at i xs) = length xs - 1"
  by (simp add: del_at_def)

lemma nth_del_at: "i < length xs \<Longrightarrow> k < length xs - 1 \<Longrightarrow>
    del_at i xs ! k = (if k < i then xs ! k else xs ! Suc k)"
  by (auto simp: del_at_def nth_append min_def)

lemma map_del_at: "map f (del_at i xs) = del_at i (map f xs)"
  by (simp add: del_at_def take_map drop_map)

lemma zip_del_at: "length xs = length ys \<Longrightarrow> zip (del_at i xs) (del_at i ys) = del_at i (zip xs ys)"
  by (simp add: del_at_def take_zip drop_zip)

lemma sum_list_del_at: "i < length xs \<Longrightarrow> sum_list (del_at i xs) = sum_list xs - (xs ! i :: 'a::ab_group_add)"
proof -
  assume i: "i < length xs"
  have "sum_list xs = sum_list (take i xs @ xs ! i # drop (Suc i) xs)"
    using id_take_nth_drop[OF i] by simp
  then show ?thesis by (simp add: del_at_def)
qed

lemma sum_list_update_at:
  "i < length xs \<Longrightarrow> sum_list (xs[i := x]) = sum_list xs + (x - xs ! i :: 'a::ab_group_add)"
  by (induction xs arbitrary: i) (auto split: nat.split)

lemma shift_loop_Some:
  assumes "n < length xs \<or> n = length xs \<and> past = Some v"
  shows "\<exists>ys. shift_loop f past n j xs = Some ys \<and> length ys = length xs \<and>
    (\<forall>k<length xs. ys ! k = (if j \<le> k \<and> k < n then f (if Suc k < length xs then xs ! Suc k else v) else xs ! k))"
  using assms
proof (induction f past n j xs rule: shift_loop.induct)
  case (1 f past n j xs)
  show ?case
  proof (cases "j < n")
    case True
    let ?v = "if Suc j < length xs then xs ! Suc j else v"
    have v: "(if Suc j < length xs then Some (xs ! Suc j) else past) = Some ?v" "arr_set xs j (f ?v) = Some (xs[j := f ?v])"
      using True "1.prems" by auto
    obtain ys where ys: "shift_loop f past n (Suc j) (xs[j := f ?v]) = Some ys" "length ys = length xs"
        "\<And>k. k < length xs \<Longrightarrow> ys ! k = (if Suc j \<le> k \<and> k < n
          then f (if Suc k < length xs then xs[j := f ?v] ! Suc k else v) else xs[j := f ?v] ! k)"
      using "1.IH"[OF True v] "1.prems" by auto
    have "shift_loop f past n j xs = Some ys" using True v ys(1) by (subst shift_loop.simps) simp
    moreover have "ys ! k = (if j \<le> k \<and> k < n then f (if Suc k < length xs then xs ! Suc k else v) else xs ! k)"
      if "k < length xs" for k
      using ys(3)[OF that] that True "1.prems" by (cases "k = j") (auto simp: nth_list_update)
    ultimately show ?thesis using ys(2) by blast
  next
    case False
    then show ?thesis by (subst shift_loop.simps) auto
  qed
qed

text \<open>The loop over all cells of an array that ends with its block reads out of range.\<close>

lemma shift_loop_overrun: "n = length xs \<Longrightarrow> j < n \<Longrightarrow> shift_loop f None n j xs = None"
proof (induction f "None :: 'a option" n j xs rule: shift_loop.induct)
  case (1 f n j xs)
  show ?case
  proof (cases "Suc j < n")
    case True
    then show ?thesis using "1.hyps"[of "xs ! Suc j" "xs[j := f (xs ! Suc j)]"] "1.prems" by (subst shift_loop.simps) simp
  next
    case False
    then show ?thesis using "1.prems" by (subst shift_loop.simps) simp
  qed
qed

lemma shift_loop_id:
  assumes "i < length xs"
  shows "\<exists>ys. shift_loop (\<lambda>x. x) None (length xs - 1) i xs = Some ys \<and> take (length xs - 1) ys = del_at i xs"
proof -
  obtain ys where "shift_loop (\<lambda>x. x) None (length xs - 1) i xs = Some ys" "length ys = length xs"
      "\<forall>k<length xs. ys ! k = (if i \<le> k \<and> k < length xs - 1 then (if Suc k < length xs then xs ! Suc k else xs ! 0) else xs ! k)"
    using shift_loop_Some[of "length xs - 1" xs None "xs ! 0" "\<lambda>x. x" i] assms by fastforce
  then show ?thesis using assms by (auto intro!: nth_equalityI simp: nth_del_at)
qed

lemma item_pos_less: "item_pos items item < length items \<longleftrightarrow> item \<in> set items"
  unfolding item_pos_def
  by (induction items) auto

lemma item_pos_eq: "item_pos items item = length items \<longleftrightarrow> item \<notin> set items"
  using item_pos_less[of items item] length_takeWhile_le[of "\<lambda>x. x \<noteq> item" items]
  by (auto simp: item_pos_def)

lemma nth_item_pos: "item \<in> set items \<Longrightarrow> items ! item_pos items item = item"
  unfolding item_pos_def by (induction items) auto

text \<open>The running sums of a list bucket.\<close>

definition prefix_sums :: "u32 list \<Rightarrow> u32 list" where
  "prefix_sums ws = map (\<lambda>k. sum_list (take (Suc k) ws)) [0..<length ws]"

lemma length_prefix_sums [simp]: "length (prefix_sums ws) = length ws"
  by (simp add: prefix_sums_def)

lemma nth_prefix_sums: "k < length ws \<Longrightarrow> prefix_sums ws ! k = sum_list (take (Suc k) ws)"
  by (simp add: prefix_sums_def)

lemma prefix_sums_empty [simp]: "prefix_sums [] = []"
  by (simp add: prefix_sums_def)

lemma prefix_sums_snoc: "prefix_sums (ws @ [w]) = prefix_sums ws @ [sum_list ws + w]"
  by (auto simp: prefix_sums_def)

lemma length_adjust_sums [simp]:
  "length (fold (\<lambda>j sums. sums[j := sums ! j + d]) js sums) = length (sums :: u32 list)"
  by (induction js arbitrary: sums) auto

lemma nth_adjust_sums:
  "n \<le> length sums \<Longrightarrow> k < length sums \<Longrightarrow>
   fold (\<lambda>j sums. sums[j := sums ! j + d]) [i..<n] sums ! k =
   (if i \<le> k \<and> k < n then sums ! k + d else (sums ! k :: u32))"
proof (induction n)
  case (Suc n)
  then show ?case by (cases "i \<le> n") (auto simp: nth_list_update)
qed simp

lemma prefix_sums_update:
  assumes "i < length ws"
  shows "fold (\<lambda>j sums. sums[j := sums ! j + (w - ws ! i)]) [i..<length ws] (prefix_sums ws) =
    prefix_sums (ws[i := w])"
proof (rule nth_equalityI)
  fix k assume "k < length (fold (\<lambda>j sums. sums[j := sums ! j + (w - ws ! i)]) [i..<length ws] (prefix_sums ws))"
  then have k: "k < length ws" by simp
  show "fold (\<lambda>j sums. sums[j := sums ! j + (w - ws ! i)]) [i..<length ws] (prefix_sums ws) ! k =
      prefix_sums (ws[i := w]) ! k"
    using k assms nth_adjust_sums[of "length ws" "prefix_sums ws" k "w - ws ! i" i]
    by (auto simp: prefix_sums_def take_update_swap sum_list_update_at list_update_beyond simp del: take_Suc)
qed simp

text \<open>\<open>crush_calc_straw\<close> returns a straw for every item.\<close>

lemma straw_adjust_straws [simp]: "st_straws (straw_adjust D w wn n s) = st_straws s"
  by (simp add: straw_adjust_def Let_def)

lemma length_straw_set [simp]: "length (st_straws (straw_set D r s)) = length (st_straws s)"
  by (simp add: straw_set_def)

lemma length_straw_loop0: "length (st_straws (straw_loop0 D ws order s)) = length (st_straws s)"
  by (induction D ws order s rule: straw_loop0.induct) (auto split: list.splits)

lemma length_straw_loop1: "length (st_straws (straw_loop1 D ws order s)) = length (st_straws s)"
  by (induction D ws order s rule: straw_loop1.induct) (auto split: list.splits)

lemma crush_calc_straw_Some:
  assumes "n \<le> length ws" "n \<le> length straws"
  shows "\<exists>straws'. crush_calc_straw D m n ws straws = Some straws' \<and> length straws' = length straws"
  using assms by (simp add: crush_calc_straw_def length_straw_loop0 length_straw_loop1)

text \<open>The entries of a bucket whose items have weights of their own, and its invariant.\<close>

definition bucket_weights :: "crush_bucket \<Rightarrow> u32 list" where
  "bucket_weights b =
    (case bucket_alg b of
       CRUSH_BUCKET_LIST ws _ \<Rightarrow> ws
     | CRUSH_BUCKET_STRAW ws _ \<Rightarrow> ws
     | CRUSH_BUCKET_STRAW2 ws \<Rightarrow> ws
     | _ \<Rightarrow> [])"

definition is_list :: "crush_bucket \<Rightarrow> bool" where
  "is_list b \<longleftrightarrow> (case bucket_alg b of CRUSH_BUCKET_LIST _ _ \<Rightarrow> True | _ \<Rightarrow> False)"

definition entries :: "crush_bucket \<Rightarrow> bool \<times> (int \<times> u32) list" where
  "entries b = (is_list b, zip (bucket_items b) (bucket_weights b))"

definition weight_sum :: "u32 list \<Rightarrow> int" where
  "weight_sum ws = sum_list (map uint ws)"

definition bucket_wf :: "crush_bucket \<Rightarrow> bool" where
  "bucket_wf b \<longleftrightarrow>
    (case bucket_alg b of
       CRUSH_BUCKET_LIST ws sums \<Rightarrow> sums = prefix_sums ws
     | CRUSH_BUCKET_STRAW ws straws \<Rightarrow> length straws = length ws
     | CRUSH_BUCKET_STRAW2 ws \<Rightarrow> True
     | _ \<Rightarrow> False) \<and>
    length (bucket_weights b) = bucket_size b \<and> bucket_weight b = sum_list (bucket_weights b) \<and>
    weight_sum (bucket_weights b) < 2 ^ 32"

lemma weight_sum_nonneg [simp]: "0 \<le> weight_sum ws"
  by (auto simp: weight_sum_def intro: sum_list_nonneg)

lemma weight_sum_Cons [simp]: "weight_sum [] = 0" "weight_sum (w # ws) = uint w + weight_sum ws"
  by (simp_all add: weight_sum_def)

lemma uint_sum_list: "weight_sum ws < 2 ^ 32 \<Longrightarrow> uint (sum_list ws) = weight_sum ws"
proof (induction ws)
  case (Cons w ws)
  have "0 \<le> uint w" by simp
  with Cons.prems have "weight_sum ws < 2 ^ 32" unfolding weight_sum_Cons by linarith
  with Cons show ?case by (simp add: uint_add_safe)
qed (simp add: weight_sum_def)

lemma weight_sum_mem: "w \<in> set ws \<Longrightarrow> uint w \<le> weight_sum ws"
  by (induction ws) (auto intro: add_increasing)

lemma weight_sum_append [simp]: "weight_sum (ws @ vs) = weight_sum ws + weight_sum vs"
  by (simp add: weight_sum_def)

lemma weight_sum_update:
  "i < length ws \<Longrightarrow> weight_sum (ws[i := w]) = weight_sum ws + (uint w - uint (ws ! i))"
  unfolding weight_sum_def map_update by (subst sum_list_update_at) auto

lemma weight_sum_del: "i < length ws \<Longrightarrow> weight_sum (del_at i ws) = weight_sum ws - uint (ws ! i)"
  unfolding weight_sum_def map_del_at by (subst sum_list_del_at) auto

lemma unsafe_iff:
  "weight_sum ws < 2 ^ 32 \<Longrightarrow> crush_addition_is_unsafe (sum_list ws) w \<longleftrightarrow> 2 ^ 32 \<le> weight_sum (ws @ [w])"
  by (simp add: crush_addition_is_unsafe_iff uint_sum_list)

lemma weight_minus_sum:
  assumes "weight_sum ws < 2 ^ 32" "i < length ws"
  shows "weight_minus (sum_list ws) (ws ! i) = sum_list (del_at i ws)"
proof -
  have "uint (ws ! i) \<le> uint (sum_list ws)"
    using assms weight_sum_mem[of "ws ! i" ws] by (simp add: uint_sum_list)
  then have "ws ! i \<le> sum_list ws" by (simp add: word_le_def)
  then show ?thesis using assms(2) by (auto simp: weight_minus_def sum_list_del_at)
qed

section \<open>The operations refine operations on lists of entries\<close>

datatype item_op = Add_item int u32 | Remove_item int | Adjust_item int u32

text \<open>
  What the operations mean for the entries.  The first component tells a list bucket: the removal
  of one of its items reads behind the end of its arrays and has no meaning.  A change of weight that
  would make the total overflow is not checked by the code and has none either.
\<close>

fun entry_op :: "item_op \<Rightarrow> bool \<times> (int \<times> u32) list \<Rightarrow> (int \<times> bool \<times> (int \<times> u32) list) option" where
  "entry_op (Add_item item w) (l, es) =
    Some (if 2 ^ 32 \<le> weight_sum (map snd es @ [w]) then (- ERANGE, l, es) else (0, l, es @ [(item, w)]))"
| "entry_op (Remove_item item) (l, es) =
    (if item \<notin> fst ` set es then Some (- ENOENT, l, es)
     else if l then None
     else Some (0, l, del_at (item_pos (map fst es) item) es))"
| "entry_op (Adjust_item item w) (l, es) =
    (if item \<notin> fst ` set es then Some (0, l, es)
     else let i = item_pos (map fst es) item; es' = es[i := (item, w)] in
          if 2 ^ 32 \<le> weight_sum (map snd es') then None else Some (sint (w - snd (es ! i)), l, es'))"

fun bucket_op ::
  "'d double_ops \<Rightarrow> (nat \<Rightarrow> u32) \<Rightarrow> crush_map \<Rightarrow> item_op \<Rightarrow> crush_bucket \<Rightarrow> (int \<times> crush_bucket) option"
where
  "bucket_op D mem m (Add_item item w) b = crush_bucket_add_item D mem m b item w"
| "bucket_op D mem m (Remove_item item) b = crush_bucket_remove_item D None None m b item"
| "bucket_op D mem m (Adjust_item item w) b = crush_bucket_adjust_item_weight D m b item w"

lemma entries_simps:
  assumes "bucket_wf b" "entries b = (l, es)"
  shows "map fst es = bucket_items b" "map snd es = bucket_weights b" "length es = bucket_size b"
  using assms by (auto simp: entries_def bucket_wf_def)

lemma bucket_algE:
  assumes "bucket_wf b"
  obtains ws sums where "bucket_alg b = CRUSH_BUCKET_LIST ws sums"
  | ws straws where "bucket_alg b = CRUSH_BUCKET_STRAW ws straws"
  | ws where "bucket_alg b = CRUSH_BUCKET_STRAW2 ws"
  using assms by (cases "bucket_alg b") (auto simp: bucket_wf_def)

lemmas bucket_view_defs = bucket_wf_def entries_def bucket_weights_def is_list_def

lemma add_item_refines:
  assumes wf: "bucket_wf b"
  shows "\<exists>r b'. crush_bucket_add_item D mem m b item w = Some (r, b') \<and> bucket_wf b' \<and>
    entry_op (Add_item item w) (entries b) = Some (r, entries b')"
  using wf
proof (cases rule: bucket_algE)
  case (1 ws sums)
  have prev: "bucket_items b \<noteq> [] \<Longrightarrow> prefix_sums ws ! (length ws - 1) = sum_list ws"
    using wf 1 by (auto simp: bucket_view_defs prefix_sums_def)
  have one: "prefix_sums [] = []" "prefix_sums [w] = [w]" "\<not> 4294967296 \<le> uint w"
    using uint_lt2p[of w] by (simp_all add: prefix_sums_def)
  show ?thesis
    using wf 1 prev one
    by (cases "bucket_items b = []")
      (auto simp: bucket_view_defs crush_bucket_add_item_def crush_add_list_bucket_item_def
        unsafe_iff prefix_sums_snoc weight_sum_def zip_append Let_def)
next
  case (2 ws straws)
  obtain s' where "crush_calc_straw D m (Suc (length ws)) (ws @ [w]) (straws @ [mem (length ws)]) = Some s'"
      "length s' = Suc (length ws)"
    using crush_calc_straw_Some[of "Suc (length ws)" "ws @ [w]" "straws @ [mem (length ws)]" D m] wf 2
    by (auto simp: bucket_view_defs)
  then show ?thesis
    using wf 2 by (auto simp: bucket_view_defs crush_bucket_add_item_def crush_add_straw_bucket_item_def
        unsafe_iff)
next
  case (3 ws)
  then show ?thesis
    using wf by (auto simp: bucket_view_defs crush_bucket_add_item_def crush_add_straw2_bucket_item_def
        unsafe_iff)
qed

lemma entry_fst: "bucket_wf b \<Longrightarrow> fst ` set (zip (bucket_items b) (bucket_weights b)) = set (bucket_items b)"
  by (auto simp: bucket_wf_def set_zip image_def in_set_conv_nth)

text \<open>The item at a position \<open>i\<close> of a bucket: what the loops of a removal leave.\<close>

lemma shift_bucket:
  assumes wf: "bucket_wf b" and i: "i < bucket_size b"
  defines "ws \<equiv> bucket_weights b"
  shows "\<exists>ys. shift_loop (\<lambda>x. x) None (bucket_size b - 1) i (bucket_items b) = Some ys \<and>
      take (bucket_size b - 1) ys = del_at i (bucket_items b)"
    "\<exists>ys. shift_loop (\<lambda>x. x) None (bucket_size b - 1) i ws = Some ys \<and> take (bucket_size b - 1) ys = del_at i ws"
    "weight_minus (bucket_weight b) (ws ! i) = sum_list (del_at i ws)"
    "weight_sum (del_at i ws) < 2 ^ 32" "length (del_at i ws) = bucket_size b - 1" "arr_get ws i = Some (ws ! i)"
proof -
  have ws: "length ws = bucket_size b" "i < length ws" "weight_sum ws < 2 ^ 32" "bucket_weight b = sum_list ws"
    using wf i by (simp_all add: ws_def bucket_wf_def)
  show "\<exists>ys. shift_loop (\<lambda>x. x) None (bucket_size b - 1) i (bucket_items b) = Some ys \<and>
      take (bucket_size b - 1) ys = del_at i (bucket_items b)"
    by (rule shift_loop_id[OF i])
  show "\<exists>ys. shift_loop (\<lambda>x. x) None (bucket_size b - 1) i ws = Some ys \<and> take (bucket_size b - 1) ys = del_at i ws"
    using shift_loop_id[OF ws(2)] ws(1) by simp
  show "weight_minus (bucket_weight b) (ws ! i) = sum_list (del_at i ws)"
    using weight_minus_sum[OF ws(3,2)] ws(4) by simp
  show "weight_sum (del_at i ws) < 2 ^ 32"
    using weight_sum_del[OF ws(2)] ws(3) uint_ge_0[of "ws ! i"] by linarith
  show "length (del_at i ws) = bucket_size b - 1" "arr_get ws i = Some (ws ! i)"
    using ws by simp_all
qed

lemma remove_item_refines:
  assumes wf: "bucket_wf b" and spec: "entry_op (Remove_item item) (entries b) = Some (r, a')"
  shows "\<exists>b'. crush_bucket_remove_item D None None m b item = Some (r, b') \<and> bucket_wf b' \<and> entries b' = a'"
proof (cases "item \<in> set (bucket_items b)")
  case False
  then show ?thesis
    using wf spec entry_fst[OF wf] by (cases rule: bucket_algE[OF wf])
      (auto simp: entries_def crush_bucket_remove_item_def crush_remove_list_bucket_item_def
        crush_remove_straw_bucket_item_def crush_remove_straw2_bucket_item_def item_pos_eq Let_def)
next
  case True
  define i where "i = item_pos (bucket_items b) item"
  define ws where "ws = bucket_weights b"
  have i: "i < bucket_size b" "i \<noteq> bucket_size b"
    using True item_pos_less[of "bucket_items b" item] by (auto simp: i_def)
  note shift = shift_bucket[OF wf i(1), folded ws_def]
  obtain its ys where sh: "shift_loop (\<lambda>x. x) None (bucket_size b - 1) i (bucket_items b) = Some its"
      "take (bucket_size b - 1) its = del_at i (bucket_items b)"
      "shift_loop (\<lambda>x. x) None (bucket_size b - 1) i ws = Some ys" "take (bucket_size b - 1) ys = del_at i ws"
    using shift(1,2) by blast
  have r: "r = 0" "a' = (False, zip (del_at i (bucket_items b)) (del_at i ws))" "\<not> is_list b"
    using True wf spec entry_fst[OF wf]
    by (auto simp: entries_def ws_def i_def zip_del_at bucket_wf_def split: if_splits)
  show ?thesis
    using wf
  proof (cases rule: bucket_algE)
    case (1 ws' sums)
    then show ?thesis using r(3) by (simp add: is_list_def)
  next
    case (2 ws' straws)
    have s: "ws' = ws" "length straws = bucket_size b" using 2 wf by (auto simp: ws_def bucket_view_defs)
    obtain s' where "crush_calc_straw D m (bucket_size b - 1) (del_at i ws) (take (bucket_size b - 1) straws) = Some s'"
        "length s' = bucket_size b - 1"
      using crush_calc_straw_Some[of "bucket_size b - 1" "del_at i ws" "take (bucket_size b - 1) straws" D m] s shift(5)
      by auto
    with 2 s i sh shift(3-6) r show ?thesis
      by (simp add: crush_bucket_remove_item_def crush_remove_straw_bucket_item_def Let_def
          bucket_view_defs i_def[symmetric])
  next
    case (3 ws')
    have "ws' = ws" using 3 by (simp add: ws_def bucket_view_defs)
    with 3 i sh shift(3-6) r show ?thesis
      by (simp add: crush_bucket_remove_item_def crush_remove_straw2_bucket_item_def Let_def
          bucket_view_defs i_def[symmetric])
  qed
qed

text \<open>Removing an item of a uniform or list bucket whose arrays end with their blocks reads out of range.\<close>

lemma remove_item_overruns:
  assumes "item \<in> set (bucket_items b)"
    and "bucket_alg b = CRUSH_BUCKET_UNIFORM iw \<or> bucket_alg b = CRUSH_BUCKET_LIST ws sums"
  shows "crush_bucket_remove_item D None None m b item = None"
proof -
  have "item_pos (bucket_items b) item < bucket_size b" using assms(1) item_pos_less by blast
  then show ?thesis using assms(2) shift_loop_overrun[of "bucket_size b" "bucket_items b"]
    by (auto simp: crush_bucket_remove_item_def crush_remove_uniform_bucket_item_def
        crush_remove_list_bucket_item_def Let_def arr_get_def)
qed

lemma adjust_item_refines:
  assumes wf: "bucket_wf b" and spec: "entry_op (Adjust_item item w) (entries b) = Some (r, a')"
  shows "\<exists>b'. crush_bucket_adjust_item_weight D m b item w = Some (r, b') \<and> bucket_wf b' \<and> entries b' = a'"
proof (cases "item \<in> set (bucket_items b)")
  case False
  then show ?thesis
    using wf spec entry_fst[OF wf] by (cases rule: bucket_algE[OF wf])
      (auto simp: entries_def crush_bucket_adjust_item_weight_def crush_adjust_list_bucket_item_weight_def
        crush_adjust_straw_bucket_item_weight_def crush_adjust_straw2_bucket_item_weight_def item_pos_eq Let_def)
next
  case True
  define i where "i = item_pos (bucket_items b) item"
  define ws where "ws = bucket_weights b"
  have i: "i < bucket_size b" "i \<noteq> bucket_size b"
    using True item_pos_less[of "bucket_items b" item] by (auto simp: i_def)
  have ws: "length ws = bucket_size b" "bucket_weight b = sum_list ws" using wf by (simp_all add: ws_def bucket_wf_def)
  have zipu: "(zip (bucket_items b) ws)[i := (item, w)] = zip (bucket_items b) (ws[i := w])"
    using nth_item_pos[OF True] list_update_id[of "bucket_items b" i] by (simp add: i_def update_zip)
  have s: "weight_sum (ws[i := w]) < 2 ^ 32" "r = sint (w - ws ! i)" "a' = (is_list b, zip (bucket_items b) (ws[i := w]))"
    using spec True entry_fst[OF wf] ws zipu i
    by (auto simp: entries_def ws_def[symmetric] i_def[symmetric] Let_def not_le split: if_splits)
  have tot: "sum_list (ws[i := w]) = bucket_weight b + (w - ws ! i)"
    using ws i by (simp add: sum_list_update_at)
  show ?thesis
    using wf
  proof (cases rule: bucket_algE)
    case (1 ws' sums)
    have "ws' = ws" "sums = prefix_sums ws" using 1 wf by (auto simp: ws_def bucket_view_defs)
    with 1 i ws s tot prefix_sums_update[of i ws w] show ?thesis
      by (auto simp: crush_bucket_adjust_item_weight_def crush_adjust_list_bucket_item_weight_def Let_def
          bucket_view_defs i_def[symmetric])
  next
    case (2 ws' straws)
    have st: "ws' = ws" "length straws = bucket_size b" using 2 wf by (auto simp: ws_def bucket_view_defs)
    obtain s' where "crush_calc_straw D m (bucket_size b) (ws[i := w]) straws = Some s'" "length s' = bucket_size b"
      using crush_calc_straw_Some[of "bucket_size b" "ws[i := w]" straws D m] st ws by auto
    with 2 st i ws s tot show ?thesis
      by (auto simp: crush_bucket_adjust_item_weight_def crush_adjust_straw_bucket_item_weight_def Let_def
          bucket_view_defs i_def[symmetric])
  next
    case (3 ws')
    have "ws' = ws" using 3 by (simp add: ws_def bucket_view_defs)
    with 3 i ws s tot show ?thesis
      by (auto simp: crush_bucket_adjust_item_weight_def crush_adjust_straw2_bucket_item_weight_def Let_def
          bucket_view_defs i_def[symmetric])
  qed
qed

text \<open>
  A component whose operations simulate those of a specification does so for every sequence of
  operations, with the same return values.
\<close>

fun run_ops :: "('o \<Rightarrow> 's \<Rightarrow> ('r \<times> 's) option) \<Rightarrow> 'o list \<Rightarrow> 's \<Rightarrow> ('r list \<times> 's) option" where
  "run_ops step [] s = Some ([], s)"
| "run_ops step (p # ps) s =
    do { (r, s) \<leftarrow> step p s; (rs, s) \<leftarrow> run_ops step ps s; Some (r # rs, s) }"

locale simulation =
  fixes step :: "'o \<Rightarrow> 's \<Rightarrow> ('r \<times> 's) option"
    and spec :: "'o \<Rightarrow> 'a \<Rightarrow> ('r \<times> 'a) option"
    and abs :: "'s \<Rightarrow> 'a"
    and inv :: "'s \<Rightarrow> bool"
  assumes simulates:
    "inv s \<Longrightarrow> spec p (abs s) = Some (r, a) \<Longrightarrow> \<exists>s'. step p s = Some (r, s') \<and> inv s' \<and> abs s' = a"
begin

lemma run_simulates:
  "inv s \<Longrightarrow> run_ops spec ps (abs s) = Some (rs, a) \<Longrightarrow>
    \<exists>s'. run_ops step ps s = Some (rs, s') \<and> inv s' \<and> abs s' = a"
proof (induction ps arbitrary: s rs)
  case (Cons p ps)
  obtain r a1 rs' where p: "spec p (abs s) = Some (r, a1)" "run_ops spec ps a1 = Some (rs', a)" "rs = r # rs'"
    using Cons.prems(2) by (auto split: Option.bind_splits)
  obtain s1 where s1: "step p s = Some (r, s1)" "inv s1" "abs s1 = a1"
    using simulates[OF Cons.prems(1) p(1)] by blast
  obtain s' where "run_ops step ps s1 = Some (rs', s')" "inv s'" "abs s' = a"
    using Cons.IH[OF s1(2)] p(2) s1(3) by blast
  then show ?case using s1 p(3) by auto
qed simp

end

interpretation items: simulation "bucket_op D mem m" entry_op entries bucket_wf
  for D mem m
proof
  fix b p r a
  assume b: "bucket_wf b" "entry_op p (entries b) = Some (r, a)"
  show "\<exists>b'. bucket_op D mem m p b = Some (r, b') \<and> bucket_wf b' \<and> entries b' = a"
  proof (cases p)
    case (Add_item item w)
    then show ?thesis using add_item_refines[OF b(1), of D mem m item w] b(2) by auto
  next
    case (Remove_item item)
    then show ?thesis using remove_item_refines[OF b(1)] b(2) by simp
  next
    case (Adjust_item item w)
    then show ?thesis using adjust_item_refines[OF b(1)] b(2) by simp
  qed
qed

lemma list_sums_Some:
  "weight_sum (ps @ ws) < 2 ^ 32 \<Longrightarrow>
   list_sums (sum_list ps) ws = Some (drop (length ps) (prefix_sums (ps @ ws)))"
proof (induction ws arbitrary: ps)
  case (Cons w ws)
  have le: "weight_sum (ps @ [w]) \<le> weight_sum (ps @ w # ws)" "weight_sum ps \<le> weight_sum (ps @ [w])"
    by simp_all
  have "\<not> crush_addition_is_unsafe (sum_list ps) w"
    using Cons.prems le by (simp add: unsafe_iff del: weight_sum_append)
  moreover have "drop (length ps) (prefix_sums (ps @ w # ws)) =
      (sum_list ps + w) # drop (Suc (length ps)) (prefix_sums (ps @ w # ws))"
    by (subst Cons_nth_drop_Suc[symmetric]) (auto simp: nth_prefix_sums)
  ultimately show ?case using Cons.IH[of "ps @ [w]"] Cons.prems by simp
qed simp

lemma make_bucket_wf:
  assumes alg: "alg \<in> {2, 4, 5}" and len: "length ws = length items" and tot: "weight_sum ws < 2 ^ 32"
  shows "\<exists>b. crush_make_bucket D mem m alg hash type items (Some ws) = Some (Some b) \<and> bucket_wf b \<and>
    entries b = (alg = 2, zip items ws)"
proof -
  consider "alg = 2" | "alg = 4" | "alg = 5" using alg by auto
  then show ?thesis
  proof cases
    case 1
    have "last (prefix_sums ws) = sum_list ws" if "ws \<noteq> []"
      using that by (cases ws rule: rev_cases) (auto simp: prefix_sums_snoc)
    moreover have "prefix_sums ws = [] \<longleftrightarrow> ws = []" by (simp add: prefix_sums_def)
    ultimately show ?thesis
      using 1 len tot list_sums_Some[of "[]" ws]
      by (auto simp: crush_make_bucket_def crush_make_list_bucket_def new_bucket_def bucket_view_defs)
  next
    case 2
    obtain s' where "crush_calc_straw D m (length items) ws (map mem [0..<length items]) = Some s'"
        "length s' = length items"
      using crush_calc_straw_Some[of "length items" ws "map mem [0..<length items]" D m] len by auto
    then show ?thesis
      using 2 len tot
      by (simp add: crush_make_bucket_def crush_make_straw_bucket_def new_bucket_def bucket_view_defs)
  next
    case 3
    then show ?thesis
      using len tot
      by (simp add: crush_make_bucket_def crush_make_straw2_bucket_def new_bucket_def bucket_view_defs)
  qed
qed

text \<open>
  Property C24.  A list, straw or straw2 bucket, from its constructor on and through every
  sequence of adding, removing and reweighting items that the specification gives a meaning to, is a
  list of weighted items: every operation returns, with the return value of the specification, the
  entries change as it says, and the weight of the bucket stays the sum of the weights of its items,
  which do not overflow.  What lies in fresh memory has no influence.  Two kinds of call have no
  meaning: the removal of an item of a list bucket, which reads behind the end of the arrays, and a
  change of weight that makes the total overflow.
\<close>

theorem bucket_items_refine:
  assumes "alg \<in> {2, 4, 5}" "length ws = length items" "weight_sum ws < 2 ^ 32"
    and "run_ops entry_op ps (alg = 2, zip items ws) = Some (rs, a)"
  shows "\<exists>b b'. crush_make_bucket D mem m alg hash type items (Some ws) = Some (Some b) \<and>
    run_ops (bucket_op D mem m) ps b = Some (rs, b') \<and> entries b' = a \<and>
    uint (bucket_weight b') = weight_sum (bucket_weights b') \<and>
    length (bucket_weights b') = bucket_size b'"
proof -
  obtain b where b: "crush_make_bucket D mem m alg hash type items (Some ws) = Some (Some b)"
      "bucket_wf b" "entries b = (alg = 2, zip items ws)"
    using make_bucket_wf[OF assms(1-3)] by blast
  obtain b' where "run_ops (bucket_op D mem m) ps b = Some (rs, b')" "bucket_wf b'" "entries b' = a"
    using items.run_simulates[of b ps rs a D mem m] b assms(4) by auto
  then show ?thesis using b(1) by (auto simp: bucket_wf_def uint_sum_list)
qed

theorem bucket_items_refine_witness:
  "\<exists>b b'. crush_make_bucket (undefined :: nat double_ops) (\<lambda>_. 7) crush_create 5 0 1 [4, 9] (Some [10, 20]) = Some (Some b) \<and>
    run_ops (bucket_op (undefined :: nat double_ops) (\<lambda>_. 7) crush_create)
      [Add_item 5 30, Adjust_item 9 25, Remove_item 4] b = Some ([0, 5, 0], b') \<and>
    entries b' = (False, [(9, 25), (5, 30)]) \<and> uint (bucket_weight b') = weight_sum (bucket_weights b')"
proof -
  have "run_ops entry_op [Add_item 5 30, Adjust_item 9 25, Remove_item 4] ((5 :: int) = 2, zip [4, 9] [10, 20]) =
      Some ([0, 5, 0], (False, [(9, 25), (5, 30)]))"
    by (simp add: weight_sum_def item_pos_def del_at_def Let_def)
  then show ?thesis
    using bucket_items_refine[of 5 "[10, 20]" "[4, 9]" "[Add_item 5 30, Adjust_item 9 25, Remove_item 4]"
        "[0, 5, 0]" "(False, [(9, 25), (5, 30)])" "undefined :: nat double_ops" "\<lambda>_. 7" crush_create 0 1]
    by (auto simp: weight_sum_def)
qed

section \<open>Weight sets\<close>

definition arg_of :: "nat \<Rightarrow> crush_bucket option \<Rightarrow> crush_choose_arg" where
  "arg_of np ob =
    (case ob of None \<Rightarrow> \<lparr>arg_ids = None, arg_weight_set = None\<rparr>
     | Some b \<Rightarrow> \<lparr>arg_ids = Some (bucket_items b), arg_weight_set = Some (replicate np (bucket_weights b))\<rparr>)"

definition live :: "crush_bucket option list \<Rightarrow> crush_bucket list" where
  "live bs = List.map_filter id bs"

lemma live_simps [simp]: "live [] = []" "live (None # bs) = live bs" "live (Some b # bs) = b # live bs"
  by (simp_all add: live_def map_filter_simps)

lemma as_straw2_weights_wf:
  assumes "bucket_wf b" shows "as_straw2_weights b = Some (bucket_weights b)"
  using assms by (cases rule: bucket_algE) (auto simp: as_straw2_weights_def bucket_weights_def)

lemma choose_args_loop_ok:
  assumes "\<forall>b\<in>set (live bs). bucket_wf b"
  shows "choose_args_loop np bs (sets, weights, ids) =
    Some (map (arg_of np) bs, sets + length (live bs) * np,
          weights + sum_list (map bucket_size (live bs)) * np, ids + sum_list (map bucket_size (live bs)))"
  using assms
proof (induction bs arbitrary: sets weights ids)
  case (Cons ob bs)
  show ?case
  proof (cases ob)
    case None
    then show ?thesis using Cons by (simp add: arg_of_def)
  next
    case (Some b)
    have b: "as_straw2_weights b = Some (bucket_weights b)" "length (bucket_weights b) = bucket_size b"
      using Cons.prems Some as_straw2_weights_wf by (auto simp: bucket_wf_def)
    have "(if np = 0 \<or> bucket_items b = [] then Some [] else as_straw2_weights b) =
        Some (if np = 0 \<or> bucket_items b = [] then [] else bucket_weights b)" using b by simp
    moreover have "replicate np (take (bucket_size b) (if np = 0 \<or> bucket_items b = [] then [] else bucket_weights b)) =
        replicate np (bucket_weights b)" using b(2) by auto
    ultimately show ?thesis
      using Cons b Some by (simp add: arg_of_def algebra_simps)
  qed
qed simp

text \<open>
  For a map of list, straw and straw2 buckets \<open>crush_make_choose_args\<close> passes its
  own accounting checks, and the weight sets it makes change no choice: every bucket draws the
  same item with them as without them, in every position.
\<close>

lemma crush_make_choose_args_neutral:
  assumes "\<forall>b\<in>set (live (map_buckets m)). bucket_wf b" "0 < np"
  shows "\<exists>args. crush_make_choose_args m np = Some args \<and> length args = max_buckets m \<and>
    (\<forall>i b. i < max_buckets m \<longrightarrow> map_buckets m ! i = Some b \<longrightarrow>
       crush_bucket_choose b work x r (Some (args ! i)) pos = crush_bucket_choose b work x r None pos)"
proof -
  have run: "crush_make_choose_args m np = Some (map (arg_of np) (map_buckets m))"
    using choose_args_loop_ok[OF assms(1), of np 0 0 0]
    by (simp add: crush_make_choose_args_def live_def)
  have "crush_bucket_choose b work x r (Some (arg_of np (Some b))) pos = crush_bucket_choose b work x r None pos"
    for b
  proof (cases "bucket_alg b")
    case (CRUSH_BUCKET_STRAW2 ws)
    then have "get_choose_arg_weights ws (Some (arg_of np (Some b))) pos = get_choose_arg_weights ws None pos"
      using assms(2) by (auto simp: get_choose_arg_weights_def arg_of_def bucket_weights_def)
    then show ?thesis
      using CRUSH_BUCKET_STRAW2
      by (simp add: crush_bucket_choose_def bucket_straw2_choose_def get_choose_arg_ids_def arg_of_def)
  qed (simp_all add: crush_bucket_choose_def)
  with run show ?thesis by auto
qed

section \<open>Rules\<close>

text \<open>
  A rule number above \<open>CRUSH_MAX_RULES\<close> is refused only when the table is already full: the check
  looks at the old size of the table.
\<close>

lemma crush_add_rule_big_number:
  assumes "max_rules m < CRUSH_MAX_RULES" "int (max_rules m) \<le> ruleno"
  shows "\<exists>m'. crush_add_rule m rule ruleno = Some (ruleno, m') \<and> max_rules m' = nat ruleno + 1"
  using assms by (auto simp: crush_add_rule_def)

lemma crush_add_rule_next:
  assumes "first_free (map_rules m) < CRUSH_MAX_RULES"
  shows "\<exists>m'. crush_add_rule m rule (- 1) = Some (int (first_free (map_rules m)), m') \<and>
    map_rules m' ! first_free (map_rules m) = Some rule"
  using assms first_free_le[of "map_rules m"] by (auto simp: crush_add_rule_def nth_append)

section \<open>Reweighting\<close>

text \<open>
  Reweighting a list bucket updates its item weights and its weight but not its running sums:
  here the child of the root has grown from 1 to 5, the root reports 6, and its running sums are
  still those of the old weights.
\<close>

definition demo_list_map :: crush_map where
  "demo_list_map =
    crush_create\<lparr>map_buckets :=
      [Some (new_bucket (CRUSH_BUCKET_LIST [1, 1] [1, 2]) 0 2 2 [7, - 2]),
       Some (new_bucket (CRUSH_BUCKET_STRAW2 [5]) 0 1 5 [8])]\<rparr>"

lemma reweight_list_keeps_sums:
  "\<exists>m'. crush_reweight_bucket D demo_list_map (- 1) = Some (0, m') \<and>
    crush_bucket_at m' (- 1) = Some (new_bucket (CRUSH_BUCKET_LIST [1, 5] [1, 2]) 0 2 6 [7, - 2])"
  by (simp add: crush_reweight_bucket_def demo_list_map_def new_bucket_def crush_bucket_at_def child_weight_def
      crush_reweight_list_bucket_def crush_reweight_straw2_bucket_def put_bucket_def
      crush_addition_is_unsafe_def arr_get_def arr_set_def)

end
