(* ===== verification/Crush_Tree.thy ===== *)
theory Crush_Tree
  imports Crush_Builder
begin

text \<open>
  Tree buckets as \<open>crush/builder.c\<close> builds them and \<open>crush/mapper.c\<close> walks them: the numbering of
  the nodes, the weights that the constructor leaves in them, the limit that the 8-bit node
  count sets, and the nodes that adding an item leaves uninitialised.
\<close>

section \<open>The nodes of a tree bucket\<close>

text \<open>
  Node \<open>tree_node j q\<close> is the \<open>q\<close>-th node of height \<open>j\<close>; below it are the leaves of the items
  \<open>i\<close> with \<open>i div 2 ^ j = q\<close>.
\<close>

definition tree_node :: "nat \<Rightarrow> nat \<Rightarrow> nat" where
  "tree_node j q = 2 ^ j * (2 * q + 1)"

lemma height_tree_node: "height (tree_node j q) = Some j"
  unfolding tree_node_def by (rule height_pow) simp

lemma tree_node_inj: "tree_node j q = tree_node j' q' \<longleftrightarrow> j = j' \<and> q = q'"
proof
  assume eq: "tree_node j q = tree_node j' q'"
  then have "j = j'" using height_tree_node[of j q] height_tree_node[of j' q'] by simp
  with eq show "j = j' \<and> q = q'" by (simp add: tree_node_def)
qed simp

lemma tree_node_exists: "0 < n \<Longrightarrow> \<exists>j q. n = tree_node j q"
proof (induction n rule: less_induct)
  case (less n)
  show ?case
  proof (cases "even n")
    case True
    then obtain k where k: "n = 2 * k" by (auto elim: evenE)
    then obtain j q where "k = tree_node j q" using less.IH[of k] less.prems by auto
    then have "n = tree_node (Suc j) q" using k by (simp add: tree_node_def)
    then show ?thesis by blast
  next
    case False
    then obtain q where "n = 2 * q + 1" by (auto elim: oddE)
    then have "n = tree_node 0 q" by (simp add: tree_node_def)
    then show ?thesis by blast
  qed
qed

lemma calc_tree_node: "crush_calc_tree_node i = tree_node 0 i"
  by (simp add: crush_calc_tree_node_def tree_node_def)

lemma parent_tree_node: "parent (tree_node j (i div 2 ^ j)) = Some (tree_node (Suc j) (i div 2 ^ Suc j))"
proof -
  define q where "q = i div 2 ^ j"
  have q2: "i div 2 ^ Suc j = q div 2" by (simp add: q_def div_mult2_eq[symmetric] mult.commute)
  have "tree_node j q div 2 ^ Suc j = q" by (simp add: tree_node_def power_Suc2 div_mult2_eq del: power_Suc)
  then have right: "on_right (tree_node j q) j \<longleftrightarrow> odd q"
    by (simp add: on_right_def bit_iff_odd del: power_Suc)
  have "(if odd q then tree_node j q - 2 ^ j else tree_node j q + 2 ^ j) = tree_node (Suc j) (q div 2)"
    by (cases "odd q") (auto simp: tree_node_def algebra_simps elim!: oddE evenE)
  then show ?thesis
    unfolding parent_def q_def[symmetric] q2 height_tree_node by (simp add: right)
qed

lemma tree_node_less: "tree_node j q < 2 ^ d \<longleftrightarrow> j < d \<and> q < 2 ^ (d - 1 - j)"
proof (cases "j < d")
  case True
  then obtain e where e: "d = Suc (j + e)" using less_imp_Suc_add by blast
  have "2 ^ j * (2 * q + 1) < 2 ^ j * (2 ^ Suc e :: nat) \<longleftrightarrow> 2 * q + 1 < 2 ^ Suc e"
    by (rule mult_less_cancel1[THEN trans]) simp
  moreover have "2 * q + 1 < 2 ^ Suc e \<longleftrightarrow> q < 2 ^ e" by auto
  ultimately show ?thesis by (simp add: tree_node_def e power_add mult.left_commute)
next
  case False
  then have "(2::nat) ^ d \<le> 2 ^ j" by (simp add: power_increasing)
  also have "\<dots> \<le> tree_node j q" by (simp add: tree_node_def)
  finally show ?thesis using False by simp
qed

section \<open>Depth of a tree\<close>

lemma depth_loop_bounds: "t < 2 ^ (depth_loop t k - k) \<and> k \<le> depth_loop t k \<and>
    (0 < t \<longrightarrow> 2 ^ (depth_loop t k - k) \<le> 2 * t)"
proof (induction t k rule: depth_loop.induct)
  case (1 t k)
  show ?case
  proof (cases "t = 0")
    case False
    define e where "e = depth_loop (t div 2) (Suc k) - Suc k"
    have dl: "depth_loop t k = depth_loop (t div 2) (Suc k)" using False by (subst depth_loop.simps) simp
    have IH: "t div 2 < 2 ^ e" "Suc k \<le> depth_loop t k" "0 < t div 2 \<longrightarrow> 2 ^ e \<le> 2 * (t div 2)"
      using 1[OF False] unfolding dl e_def by blast+
    have e: "depth_loop t k - k = Suc e" using IH(2) unfolding dl e_def by simp
    have "2 ^ e \<le> t"
    proof (cases "t div 2 = 0")
      case True
      then have "depth_loop t k = Suc k" unfolding dl by (subst depth_loop.simps) simp
      then show ?thesis using e False by simp
    qed (use IH(3) in auto)
    then show ?thesis using IH unfolding e by auto
  qed (simp add: depth_loop.simps)
qed

lemma calc_depth_bounds:
  assumes "0 < n"
  shows "n \<le> 2 ^ (calc_depth n - 1)" "0 < calc_depth n" "1 < n \<Longrightarrow> 2 ^ (calc_depth n - 1) \<le> 2 * (n - 1)"
  using assms depth_loop_bounds[of "n - 1" 1] by (auto simp: calc_depth_def Suc_le_eq[symmetric] Suc_pred)

lemma calc_depth_le: "0 < n \<Longrightarrow> n \<le> 2 ^ d \<Longrightarrow> calc_depth n \<le> Suc d"
proof (cases "n = 1")
  case False
  assume n: "0 < n" "n \<le> 2 ^ d"
  then have "(2::nat) ^ (calc_depth n - 1) < 2 ^ Suc d"
    using calc_depth_bounds(3)[of n] False by auto
  then show ?thesis by (simp only: power_strict_increasing_iff)
qed (simp add: calc_depth_def depth_loop.simps)

section \<open>Node weights\<close>

definition below :: "nat \<Rightarrow> nat \<Rightarrow> 'a list \<Rightarrow> 'a list" where
  "below j q ws = take (2 ^ j) (drop (q * 2 ^ j) ws)"

definition tree_rep :: "nat \<Rightarrow> u32 list \<Rightarrow> u32 list \<Rightarrow> bool" where
  "tree_rep d ws nw \<longleftrightarrow>
    length nw = 2 ^ d \<and>
    (\<forall>j q. tree_node j q < 2 ^ d \<longrightarrow> nw ! tree_node j q = sum_list (below j q ws))"

lemma below_snoc: "below j q (ws @ [w]) = below j q ws @ (if length ws div 2 ^ j = q then [w] else [])"
proof -
  have "length ws div 2 ^ j = q \<longleftrightarrow> q * 2 ^ j \<le> length ws \<and> length ws < q * 2 ^ j + 2 ^ j"
    using div_times_less_eq_dividend[of "length ws" "2 ^ j"] dividend_less_div_times[of "2 ^ j" "length ws"]
    by (auto intro!: div_nat_eqI simp: algebra_simps)
  then show ?thesis by (auto simp: below_def)
qed

lemma below_Suc: "below (Suc j) q ws = below j (2 * q) ws @ below j (2 * q + 1) ws"
proof -
  have "take (2 ^ j + 2 ^ j) (drop (q * 2 ^ Suc j) ws) =
      take (2 ^ j) (drop (q * 2 ^ Suc j) ws) @ take (2 ^ j) (drop (2 ^ j) (drop (q * 2 ^ Suc j) ws))"
    by (rule take_add)
  then show ?thesis by (simp add: below_def algebra_simps mult_2[symmetric])
qed

lemma below_0: "below 0 q ws = (if q < length ws then [ws ! q] else [])"
  by (auto simp: below_def take_Suc_conv_app_nth hd_drop_conv_nth take_Suc)

lemma below_all: "length ws \<le> 2 ^ j \<Longrightarrow> below j 0 ws = ws"
  by (simp add: below_def)

lemma weight_sum_below: "weight_sum (below j q ws) \<le> weight_sum ws"
proof -
  have "weight_sum ws = weight_sum (take (q * 2 ^ j) ws) + weight_sum (below j q ws) +
      weight_sum (drop (2 ^ j) (drop (q * 2 ^ j) ws))"
    unfolding below_def weight_sum_append[symmetric] append.assoc append_take_drop_id by simp
  then show ?thesis using weight_sum_nonneg[of "take (q * 2 ^ j) ws"]
      weight_sum_nonneg[of "drop (2 ^ j) (drop (q * 2 ^ j) ws)"] by linarith
qed

lemma uint_below: "weight_sum ws < 2 ^ 32 \<Longrightarrow> uint (sum_list (below j q ws)) = weight_sum (below j q ws)"
  using weight_sum_below[of j q ws] by (intro uint_sum_list) linarith

text \<open>Adding a weight to the ancestors of a leaf.\<close>

lemma tree_add_up_ok:
  assumes "\<And>t. j < t \<Longrightarrow> t \<le> j + n \<Longrightarrow>
      tree_node t (i div 2 ^ t) < length nw \<and> uint (nw ! tree_node t (i div 2 ^ t)) + uint w < 2 ^ 32"
  shows "\<exists>nw'. tree_add_up n (tree_node j (i div 2 ^ j)) w nw = Some (True, nw') \<and> length nw' = length nw \<and>
    (\<forall>t q. tree_node t q < length nw \<longrightarrow> nw' ! tree_node t q =
      nw ! tree_node t q + (if j < t \<and> t \<le> j + n \<and> q = i div 2 ^ t then w else 0))"
  using assms
proof (induction n arbitrary: j nw)
  case (Suc n)
  let ?p = "tree_node (Suc j) (i div 2 ^ Suc j)"
  let ?nw = "nw[?p := nw ! ?p + w]"
  have p: "?p < length nw" "\<not> crush_addition_is_unsafe (nw ! ?p) w"
    using Suc.prems[of "Suc j"] by (simp_all add: crush_addition_is_unsafe_iff not_le del: power_Suc)
  have "\<exists>nw'. tree_add_up n ?p w ?nw = Some (True, nw') \<and> length nw' = length ?nw \<and>
    (\<forall>t q. tree_node t q < length ?nw \<longrightarrow> nw' ! tree_node t q =
      ?nw ! tree_node t q + (if Suc j < t \<and> t \<le> Suc j + n \<and> q = i div 2 ^ t then w else 0))"
    by (rule Suc.IH) (use Suc.prems in \<open>auto simp: nth_list_update tree_node_inj simp del: power_Suc\<close>)
  then obtain nw' where nw': "tree_add_up n ?p w ?nw = Some (True, nw')" "length nw' = length nw"
      "\<And>t q. tree_node t q < length nw \<Longrightarrow> nw' ! tree_node t q =
        ?nw ! tree_node t q + (if Suc j < t \<and> t \<le> Suc j + n \<and> q = i div 2 ^ t then w else 0)"
    by auto
  have run: "tree_add_up (Suc n) (tree_node j (i div 2 ^ j)) w nw = Some (True, nw')"
    using p nw'(1) by (simp add: parent_tree_node del: power_Suc)
  have "nw' ! tree_node t q = nw ! tree_node t q +
      (if j < t \<and> t \<le> j + Suc n \<and> q = i div 2 ^ t then w else 0)" if "tree_node t q < length nw" for t q
    using nw'(3)[OF that] p(1)
    by (cases "t = Suc j") (auto simp: nth_list_update tree_node_inj simp del: power_Suc)
  with run nw'(2) show ?case by blast
qed auto

lemma tree_rep_snoc:
  assumes rep: "tree_rep d ws nw" and d: "0 < d" and len: "length ws < 2 ^ (d - 1)"
    and tot: "weight_sum (ws @ [w]) < 2 ^ 32"
  shows "\<exists>nw'. arr_set nw (crush_calc_tree_node (length ws)) w \<bind>
      tree_add_up (d - 1) (crush_calc_tree_node (length ws)) w = Some (True, nw') \<and> tree_rep d (ws @ [w]) nw'"
proof -
  let ?i = "length ws"
  have anc: "tree_node t (?i div 2 ^ t) < 2 ^ d" if "t < d" for t
  proof -
    have "?i < 2 ^ (d - 1 - t) * 2 ^ t" using len that by (simp add: power_add[symmetric])
    then show ?thesis using that by (simp add: tree_node_less less_mult_imp_div_less)
  qed
  have nodes: "length nw = 2 ^ d" "\<And>j q. tree_node j q < 2 ^ d \<Longrightarrow> nw ! tree_node j q = sum_list (below j q ws)"
    using rep by (auto simp: tree_rep_def)
  let ?nw = "nw[tree_node 0 ?i := w]"
  have safe: "uint (nw ! tree_node t (?i div 2 ^ t)) + uint w < 2 ^ 32" if "t < d" for t
  proof -
    have "weight_sum ws \<le> weight_sum (ws @ [w])" by simp
    with tot have "weight_sum ws < 2 ^ 32" by linarith
    then have "uint (nw ! tree_node t (?i div 2 ^ t)) \<le> weight_sum ws"
      using nodes(2)[OF anc[OF that]] uint_below weight_sum_below by metis
    then show ?thesis using tot by simp
  qed
  have "\<exists>nw'. tree_add_up (d - 1) (tree_node 0 (?i div 2 ^ 0)) w ?nw = Some (True, nw') \<and> length nw' = length ?nw \<and>
    (\<forall>t q. tree_node t q < length ?nw \<longrightarrow> nw' ! tree_node t q =
      ?nw ! tree_node t q + (if 0 < t \<and> t \<le> 0 + (d - 1) \<and> q = ?i div 2 ^ t then w else 0))"
    by (rule tree_add_up_ok) (use anc safe nodes(1) d in \<open>auto simp: nth_list_update tree_node_inj\<close>)
  then obtain nw' where nw': "tree_add_up (d - 1) (tree_node 0 ?i) w ?nw = Some (True, nw')" "length nw' = 2 ^ d"
      "\<And>t q. tree_node t q < 2 ^ d \<Longrightarrow> nw' ! tree_node t q =
        ?nw ! tree_node t q + (if 0 < t \<and> t \<le> d - 1 \<and> q = ?i div 2 ^ t then w else 0)"
    using nodes(1) by auto
  have leaf: "tree_node 0 ?i < length nw" using anc[OF d] nodes(1) by simp
  have "nw' ! tree_node t q = sum_list (below t q (ws @ [w]))" if "tree_node t q < 2 ^ d" for t q
  proof (cases "t = 0")
    case True
    then show ?thesis
      using nw'(3)[OF that] nodes that leaf below_0[of ?i ws]
      by (auto simp: nth_list_update tree_node_inj below_snoc)
  next
    case False
    then show ?thesis
      using nw'(3)[OF that] nodes(2)[OF that] that
      by (auto simp: nth_list_update tree_node_inj below_snoc tree_node_less)
  qed
  with nw'(1,2) leaf show ?thesis by (simp add: calc_tree_node tree_rep_def)
qed

lemma tree_rep_empty: "tree_rep d [] (replicate (2 ^ d) 0)"
  by (auto simp: tree_rep_def below_def)

lemma tree_fill_ok:
  assumes "tree_rep d vs nw" "0 < d" "length (vs @ ws) \<le> 2 ^ (d - 1)" "weight_sum (vs @ ws) < 2 ^ 32"
  shows "\<exists>nw'. tree_fill d (length vs) ws (sum_list vs) nw = Some (Some (sum_list (vs @ ws), nw')) \<and>
    tree_rep d (vs @ ws) nw'"
  using assms
proof (induction ws arbitrary: vs nw)
  case (Cons w ws)
  have "weight_sum (vs @ [w]) \<le> weight_sum (vs @ w # ws)" "weight_sum vs \<le> weight_sum (vs @ [w])" by simp_all
  with Cons.prems(4) have tot: "weight_sum (vs @ [w]) < 2 ^ 32" "weight_sum vs < 2 ^ 32" by linarith+
  obtain nw' where nw': "arr_set nw (crush_calc_tree_node (length vs)) w \<bind>
      tree_add_up (d - 1) (crush_calc_tree_node (length vs)) w = Some (True, nw')" "tree_rep d (vs @ [w]) nw'"
    using tree_rep_snoc[OF Cons.prems(1,2) _ tot(1)] Cons.prems(3) by auto
  have safe: "\<not> crush_addition_is_unsafe (sum_list vs) w" using tot by (simp add: unsafe_iff)
  obtain nw1 where nw1: "arr_set nw (crush_calc_tree_node (length vs)) w = Some nw1"
      "tree_add_up (d - 1) (crush_calc_tree_node (length vs)) w nw1 = Some (True, nw')"
    using nw'(1) by (auto split: Option.bind_splits)
  show ?case
    using Cons.IH[OF nw'(2) Cons.prems(2)] Cons.prems(3,4) nw1 safe by simp
qed simp

lemma unat_nodes: "d \<le> 7 \<Longrightarrow> unat (word_of_nat (2 ^ d) :: u8) = 2 ^ d"
proof -
  assume d: "d \<le> 7"
  then have "(2::nat) ^ d < 2 ^ 8" by (intro power_strict_increasing) auto
  then show ?thesis using d unfolding unsigned_of_nat by (simp add: take_bit_nat_eq_self)
qed

lemma tree_rep_ok:
  assumes rep: "tree_rep (Suc d) ws nw" and d: "d \<le> 6" and len: "length ws = bucket_size b" "length ws \<le> 2 ^ d"
    and tot: "0 < weight_sum ws" "weight_sum ws < 2 ^ 32"
  shows "tree_ok b (word_of_nat (2 ^ Suc d)) nw"
proof -
  have nn: "unat (word_of_nat (2 ^ Suc d) :: u8) = 2 ^ Suc d" using d by (intro unat_nodes) simp
  have pow: "(2::nat) ^ Suc d \<in> {2, 4, 8, 16, 32, 64, 128}"
    using d by (auto simp: le_Suc_eq numeral_eq_Suc)
  have nodes: "length nw = 2 ^ Suc d" "\<And>j q. tree_node j q < 2 ^ Suc d \<Longrightarrow> nw ! tree_node j q = sum_list (below j q ws)"
    using rep by (auto simp: tree_rep_def)
  have root: "nw ! (2 ^ d) = sum_list ws"
    using nodes(2)[of d 0] below_all[OF len(2)] by (simp add: tree_node_def)
  have even: "uint (nw ! n) = uint (nw ! the (left n)) + uint (nw ! the (right n))"
    if n: "0 < n" "n < 2 ^ Suc d" "even n" for n
  proof -
    obtain j q where jq: "n = tree_node j q" using tree_node_exists n(1) by blast
    then obtain t where t: "j = Suc t" using n(3) by (cases j) (auto simp: tree_node_def)
    have nt: "n = 2 ^ Suc t * (2 * q + 1)" using jq t by (simp add: tree_node_def)
    note ch = tree_children[OF _ nt n(2)]
    have l: "left n = Some (tree_node t (2 * q))" "tree_node t (2 * q) < 2 ^ Suc d"
      using ch(1,3) by (simp_all add: tree_node_def)
    have r: "right n = Some (tree_node t (2 * q + 1))" "tree_node t (2 * q + 1) < 2 ^ Suc d"
      using ch(2,4) by (simp_all add: tree_node_def algebra_simps)
    have "uint (nw ! n) = weight_sum (below t (2 * q) ws) + weight_sum (below t (2 * q + 1) ws)"
      using nodes(2)[of j q] n(2) jq t uint_below[OF tot(2), of "Suc t" q] by (simp add: below_Suc)
    then show ?thesis
      using nodes(2)[OF l(2)] nodes(2)[OF r(2)] uint_below[OF tot(2)] l(1) r(1) by simp
  qed
  have odd: "nw ! n = 0 \<or> n div 2 < bucket_size b" if n: "n < 2 ^ Suc d" "odd n" for n
  proof -
    have "n = tree_node 0 (n div 2)" using n(2) by (auto simp: tree_node_def elim: oddE)
    then have "nw ! n = sum_list (below 0 (n div 2) ws)" using nodes(2)[of 0 "n div 2"] n(1) by metis
    then show ?thesis using len(1) by (auto simp: below_0 split: if_splits)
  qed
  show ?thesis
    unfolding tree_ok_def nn using pow nodes(1) root even odd tot by (auto simp: uint_sum_list)
qed

lemma tree_rep_leaf:
  assumes "tree_rep d ws nw" "0 < d" "length ws \<le> 2 ^ (d - 1)" "p < length ws"
  shows "nw ! crush_calc_tree_node p = ws ! p"
proof -
  have "tree_node 0 p < 2 ^ d" using assms by (simp add: tree_node_less)
  then show ?thesis using assms by (auto simp: tree_rep_def calc_tree_node below_0)
qed

lemma tree_rep_root:
  assumes "tree_rep (Suc d) ws nw" "length ws \<le> 2 ^ d"
  shows "nw ! (2 ^ d) = sum_list ws"
proof -
  have "tree_node d 0 < 2 ^ Suc d" by (simp add: tree_node_def)
  then have "nw ! tree_node d 0 = sum_list (below d 0 ws)" using assms(1) unfolding tree_rep_def by blast
  then show ?thesis using below_all[OF assms(2)] by (simp add: tree_node_def)
qed

lemma make_tree_ok:
  assumes size: "0 < length items" "length items \<le> 64" and len: "length ws = length items"
    and tot: "weight_sum ws < 2 ^ 32"
  shows "\<exists>nw. crush_make_tree_bucket hash type items ws =
      Some (Some (new_bucket (CRUSH_BUCKET_TREE (word_of_nat (2 ^ calc_depth (length items))) nw) hash type
        (sum_list ws) items)) \<and> tree_rep (calc_depth (length items)) ws nw"
proof -
  define d where "d = calc_depth (length items) - 1"
  have d: "calc_depth (length items) = Suc d" "length items \<le> 2 ^ d" "d \<le> 6"
    using calc_depth_bounds[OF size(1)] calc_depth_le[of "length items" 6] size by (auto simp: d_def)
  have nn: "unat (word_of_nat (2 ^ Suc d) :: u8) = 2 ^ Suc d" using d(3) by (intro unat_nodes) simp
  obtain nw where nw: "tree_fill (Suc d) 0 ws 0 (replicate (2 ^ Suc d) 0) = Some (Some (sum_list ws, nw))"
      "tree_rep (Suc d) ws nw"
    using tree_fill_ok[OF tree_rep_empty, of "Suc d" ws] d(2) len tot by auto
  have root: "length nw = 2 ^ Suc d" "nw ! (2 ^ d) = sum_list ws"
    using nw(2) tree_rep_root[OF nw(2)] len d(2) by (simp_all add: tree_rep_def)
  have "crush_make_tree_bucket hash type items ws =
      Some (Some (new_bucket (CRUSH_BUCKET_TREE (word_of_nat (2 ^ Suc d)) nw) hash type (sum_list ws) items))"
    using nw(1) root size(1) len
    unfolding crush_make_tree_bucket_def d(1) Let_def nn by (auto simp del: of_nat_power)
  with nw(2) show ?thesis unfolding d(1) by blast
qed

text \<open>
  Property C27.  A tree bucket of up to 64 items whose weights are not all 0 and do not overflow
  is built without error; its weight is the sum of the weights, every leaf carries the weight of
  its item, and for every input the walk of the mapper ends at an item of positive weight.
\<close>

theorem crush_make_tree_bucket_correct:
  assumes "length items \<le> 64" "length ws = length items" "0 < weight_sum ws" "weight_sum ws < 2 ^ 32"
  shows "\<exists>b nn nw. crush_make_tree_bucket hash type items ws = Some (Some b) \<and>
    bucket_alg b = CRUSH_BUCKET_TREE nn nw \<and> bucket_items b = items \<and>
    uint (bucket_weight b) = weight_sum ws \<and>
    (\<forall>p<length items. nw ! crush_calc_tree_node p = ws ! p) \<and>
    (\<forall>x r. \<exists>p<length items. bucket_tree_choose b nn nw x r = Some (items ! p) \<and> 0 < ws ! p)"
proof -
  define d where "d = calc_depth (length items) - 1"
  have ne: "0 < length items" using assms(2,3) by (cases ws) auto
  have d: "calc_depth (length items) = Suc d" "length items \<le> 2 ^ d" "d \<le> 6"
    using calc_depth_bounds[OF ne] calc_depth_le[of "length items" 6] assms(1) ne by (auto simp: d_def)
  define nn :: u8 where "nn = word_of_nat (2 ^ Suc d)"
  obtain nw where nw: "crush_make_tree_bucket hash type items ws =
      Some (Some (new_bucket (CRUSH_BUCKET_TREE nn nw) hash type (sum_list ws) items))" "tree_rep (Suc d) ws nw"
    using make_tree_ok[OF ne assms(1,2,4)] unfolding d(1) nn_def by blast
  let ?b = "new_bucket (CRUSH_BUCKET_TREE nn nw) hash type (sum_list ws) items"
  have ok: "tree_ok ?b nn nw"
    using tree_rep_ok[OF nw(2) d(3), of ?b] d(2) assms unfolding nn_def by (simp add: new_bucket_def)
  have leaf: "nw ! crush_calc_tree_node p = ws ! p" if "p < length items" for p
    using tree_rep_leaf[OF nw(2)] that d(2) assms(2) by simp
  have "\<exists>p<length items. bucket_tree_choose ?b nn nw x r = Some (items ! p) \<and> 0 < ws ! p" for x r
    using bucket_tree_choose_ok[OF ok, of x r] leaf
    by (auto simp: new_bucket_def word_less_def)
  with nw(1) leaf show ?thesis using uint_sum_list[OF assms(4)] by (auto simp: new_bucket_def)
qed

theorem crush_make_tree_bucket_correct_witness:
  "\<exists>b nn nw. crush_make_tree_bucket 0 1 [5, 6, 7] [10, 0, 20] = Some (Some b) \<and>
    bucket_alg b = CRUSH_BUCKET_TREE nn nw \<and> uint (bucket_weight b) = 30 \<and> nw ! crush_calc_tree_node 2 = 20 \<and>
    (\<exists>p<3. bucket_tree_choose b nn nw 1234 0 = Some ([5, 6, 7] ! p) \<and> 0 < [10, 0, 20 :: u32] ! p)"
proof -
  obtain b nn nw where b: "crush_make_tree_bucket 0 1 [5, 6, 7] [10, 0, 20] = Some (Some b)"
      "bucket_alg b = CRUSH_BUCKET_TREE nn nw" "uint (bucket_weight b) = weight_sum [10, 0, 20]"
      "\<forall>p<length [5 :: int, 6, 7]. nw ! crush_calc_tree_node p = [10, 0, 20] ! p"
      "\<forall>x r. \<exists>p<length [5 :: int, 6, 7]. bucket_tree_choose b nn nw x r = Some ([5, 6, 7] ! p) \<and> 0 < [10, 0, 20 :: u32] ! p"
    using crush_make_tree_bucket_correct[of "[5, 6, 7]" "[10, 0, 20]" 0 1] by auto
  have "nw ! crush_calc_tree_node 2 = 20" using spec[OF b(4), of 2] by simp
  moreover have "\<exists>p<3. bucket_tree_choose b nn nw 1234 0 = Some ([5, 6, 7] ! p) \<and> 0 < [10, 0, 20 :: u32] ! p"
    using spec[OF spec[OF b(5), of 1234], of 0] by (simp add: numeral_3_eq_3)
  ultimately show ?thesis using b(1-3) by auto
qed

text \<open>
  \<open>num_nodes\<close> has 8 bits: a tree for 65 to 128 items has 256 nodes, which is stored as 0, and the
  first weight is written outside the allocated block.
\<close>

lemma make_tree_too_big:
  assumes "64 < length items" "length items \<le> 128" "length ws = length items"
  shows "crush_make_tree_bucket hash type items ws = None"
proof -
  have ne: "0 < length items" using assms by linarith
  have "calc_depth (length items) = 8"
  proof -
    have "64 < (2::nat) ^ (calc_depth (length items) - 1)" "calc_depth (length items) \<le> 8"
      using calc_depth_bounds(1)[OF ne] calc_depth_le[OF ne, of 7] assms by simp_all
    moreover from this have "\<not> calc_depth (length items) - 1 \<le> 6"
      using power_increasing[of "calc_depth (length items) - 1" 6 "2::nat"] by auto
    ultimately show ?thesis by simp
  qed
  then show ?thesis
    using assms by (cases items; cases ws) (auto simp: crush_make_tree_bucket_def Let_def arr_set_def)
qed

text \<open>
  When an item is added to a full tree of \<open>2 ^ k\<close> leaves, the tree gets one level deeper and the
  nodes from \<open>2 ^ (k + 1)\<close> on are fresh memory.  The new leaf is set, and the new root takes the
  weight of the old one; every other ancestor of the new leaf is read as it is.
\<close>

lemma calc_depth_pow: "calc_depth (2 ^ k) = Suc k"
proof (cases k)
  case (Suc e)
  have "(2::nat) ^ k \<le> 2 ^ (calc_depth (2 ^ k) - 1)" by (rule calc_depth_bounds(1)) simp
  then have "k \<le> calc_depth (2 ^ k) - 1" by (simp only: power_increasing_iff)
  moreover have "calc_depth (2 ^ k) \<le> Suc k" by (rule calc_depth_le) auto
  ultimately show ?thesis using Suc by simp
qed (simp add: calc_depth_def depth_loop.simps)

lemma weight_sum_init: "weight_sum (ws @ [w]) < 2 ^ 32 \<Longrightarrow> weight_sum ws < 2 ^ 32"
  using weight_sum_nonneg[of "[w]"] weight_sum_append[of ws "[w]"] by linarith

lemma calc_depth_full: "0 < k \<Longrightarrow> calc_depth (2 ^ k + 1) = Suc (Suc k)"
proof -
  assume k: "0 < k"
  have "(2::nat) ^ k < 2 ^ (calc_depth (2 ^ k + 1) - 1)"
    by (rule less_le_trans[OF _ calc_depth_bounds(1)]) simp_all
  then have "k < calc_depth (2 ^ k + 1) - 1" by (simp only: power_strict_increasing_iff)
  moreover have "calc_depth (2 ^ k + 1) \<le> Suc (Suc k)" by (rule calc_depth_le) (auto simp: mult_2)
  ultimately show ?thesis by simp
qed

lemma ancestor_new_leaf: "t \<le> k \<Longrightarrow> tree_node t (2 ^ k div 2 ^ t) = 2 ^ Suc k + 2 ^ t"
  by (simp add: tree_node_def power_diff[symmetric] distrib_left mult.left_commute[of _ 2]
      power_add[symmetric])

lemma tree_deepen:
  assumes k: "0 < k" "k \<le> 5" and rep: "tree_rep (Suc k) ws nw" "length ws = 2 ^ k"
    and tot: "weight_sum (ws @ [w]) < 2 ^ 32"
    and fresh: "\<And>t. 0 < t \<Longrightarrow> t \<le> k \<Longrightarrow> uint (mem (2 ^ Suc k + 2 ^ t)) + uint w < 2 ^ 32"
  defines "nw2 \<equiv> (nw @ map mem [2 ^ Suc k..<2 ^ Suc (Suc k)])[2 ^ Suc k + 1 := w, 2 ^ Suc k := sum_list ws]"
  shows "\<exists>nw'. tree_add_up (Suc k) (2 ^ Suc k + 1) w nw2 = Some (True, nw') \<and>
    (\<forall>t. 0 < t \<and> t \<le> k \<longrightarrow> nw' ! (2 ^ Suc k + 2 ^ t) = mem (2 ^ Suc k + 2 ^ t) + w) \<and>
    nw' ! (2 ^ Suc k) = sum_list (ws @ [w])"
proof -
  have len: "length nw = 2 ^ Suc k" using rep(1) by (simp add: tree_rep_def)
  then have len2: "length nw2 = 2 ^ Suc (Suc k)" by (simp add: nw2_def)
  have node: "nw2 ! (2 ^ Suc k + 2 ^ t) = mem (2 ^ Suc k + 2 ^ t)" if "0 < t" "t \<le> k" for t
  proof -
    define e where "e = (2::nat) ^ t"
    have "2 ^ 1 \<le> e" "e \<le> 2 ^ k" unfolding e_def by (rule power_increasing; use that in simp)+
    then show "nw2 ! (2 ^ Suc k + 2 ^ t) = mem (2 ^ Suc k + 2 ^ t)"
      unfolding e_def[symmetric] using len by (simp add: nw2_def nth_append nth_list_update)
  qed
  have root: "nw2 ! (2 ^ Suc k) = sum_list ws" "tree_node (Suc k) (2 ^ k div 2 ^ Suc k) = 2 ^ Suc k"
    using len by (simp_all add: nw2_def tree_node_def)
  have "weight_sum ws < 2 ^ 32" by (rule weight_sum_init[OF tot])
  then have tot': "uint (sum_list ws) + uint w < 2 ^ 32" using tot by (simp add: uint_sum_list)
  have anc: "tree_node t (2 ^ k div 2 ^ t) < length nw2 \<and> uint (nw2 ! tree_node t (2 ^ k div 2 ^ t)) + uint w < 2 ^ 32"
    if t: "0 < t" "t \<le> 0 + Suc k" for t
  proof (cases "t = Suc k")
    case True
    then show ?thesis using root tot' len2 by (simp del: power_Suc)
  next
    case False
    then have "t \<le> k" using t by simp
    moreover from this have "2 ^ Suc k + 2 ^ t < length nw2"
      using power_strict_increasing[of t "Suc k" "2::nat"] len2 by simp
    ultimately show ?thesis using ancestor_new_leaf[of t k] node[of t] fresh[of t] t(1) by metis
  qed
  have leaf: "tree_node 0 (2 ^ k div 2 ^ 0) = 2 ^ Suc k + 1" using ancestor_new_leaf[of 0 k] by simp
  obtain nw' where nw': "tree_add_up (Suc k) (2 ^ Suc k + 1) w nw2 = Some (True, nw')"
      "\<And>t q. tree_node t q < length nw2 \<Longrightarrow> nw' ! tree_node t q =
        nw2 ! tree_node t q + (if 0 < t \<and> t \<le> 0 + Suc k \<and> q = 2 ^ k div 2 ^ t then w else 0)"
    using tree_add_up_ok[of 0 "Suc k" "2 ^ k" nw2 w, OF anc] unfolding leaf by blast
  have up: "nw' ! tree_node t (2 ^ k div 2 ^ t) = nw2 ! tree_node t (2 ^ k div 2 ^ t) + w" if "0 < t" "t \<le> Suc k" for t
    using nw'(2) anc that by simp
  have "nw' ! (2 ^ Suc k + 2 ^ t) = mem (2 ^ Suc k + 2 ^ t) + w" if "0 < t" "t \<le> k" for t
    using up[of t] that ancestor_new_leaf[of t k] node[of t] by (metis le_SucI)
  moreover have "nw' ! (2 ^ Suc k) = sum_list (ws @ [w])"
    using up[of "Suc k"] unfolding root by simp
  ultimately show ?thesis using nw'(1) by blast
qed

text \<open>
  Property C39.  Let a tree bucket of 2, 4, 8, 16 or 32 items be built, with weights that do not
  overflow together with the weight \<open>w\<close> of one more item, which is then added; let fresh memory hold
  values that do not overflow with \<open>w\<close> either.  The addition reports success, but the inner nodes
  between the new leaf and the new root are not initialised: each of them carries what the
  memory held plus \<open>w\<close>, where the item alone lies below it.
\<close>

theorem tree_add_item_reads_fresh_memory:
  assumes "length items = 2 ^ k" "0 < k" "k \<le> 5" "length ws = length items" "weight_sum (ws @ [w]) < 2 ^ 32"
    and "\<forall>t. 0 < t \<and> t \<le> k \<longrightarrow> uint (mem (2 ^ Suc k + 2 ^ t)) + uint w < 2 ^ 32"
  shows "\<exists>b nn nw b' nn' nw'. crush_make_tree_bucket hash type items ws = Some (Some b) \<and>
    bucket_alg b = CRUSH_BUCKET_TREE nn nw \<and> length nw = 2 ^ Suc k \<and>
    crush_add_tree_bucket_item mem b nw item w = Some (0, b') \<and>
    bucket_alg b' = CRUSH_BUCKET_TREE nn' nw' \<and> bucket_items b' = items @ [item] \<and>
    bucket_weight b' = sum_list (ws @ [w]) \<and> nw' ! (2 ^ Suc k) = sum_list (ws @ [w]) \<and>
    (\<forall>t. 0 < t \<and> t \<le> k \<longrightarrow> nw' ! (2 ^ Suc k + 2 ^ t) = mem (2 ^ Suc k + 2 ^ t) + w)"
proof -
  have tot: "weight_sum ws < 2 ^ 32" by (rule weight_sum_init[OF assms(5)])
  have size: "0 < length items" "length items \<le> 64" "(2::nat) ^ Suc k \<noteq> 0"
    using assms(1,3) power_increasing[of k 6 "2::nat"] by simp_all
  obtain nw where nw: "crush_make_tree_bucket hash type items ws = Some (Some (new_bucket
        (CRUSH_BUCKET_TREE (word_of_nat (2 ^ Suc k)) nw) hash type (sum_list ws) items))" "tree_rep (Suc k) ws nw"
    using make_tree_ok[OF size(1,2) assms(4) tot] calc_depth_pow[of k] assms(1) by metis
  let ?b = "new_bucket (CRUSH_BUCKET_TREE (word_of_nat (2 ^ Suc k)) nw) hash type (sum_list ws) items"
  have len: "length nw = 2 ^ Suc k" "nw ! (2 ^ k) = sum_list ws" "k \<noteq> 0"
    using nw(2) tree_rep_root[OF nw(2)] assms(1,2,4) by (simp_all add: tree_rep_def)
  let ?nw = "nw @ map mem [2 ^ Suc k..<2 ^ Suc (Suc k)]"
  obtain nw' where nw': "tree_add_up (Suc k) (2 ^ Suc k + 1) w
        (?nw[2 ^ Suc k + 1 := w, 2 ^ Suc k := sum_list ws]) = Some (True, nw')"
      "\<forall>t. 0 < t \<and> t \<le> k \<longrightarrow> nw' ! (2 ^ Suc k + 2 ^ t) = mem (2 ^ Suc k + 2 ^ t) + w"
      "nw' ! (2 ^ Suc k) = sum_list (ws @ [w])"
    using tree_deepen[OF assms(2,3) nw(2) _ assms(5)] assms(1,4,6) by metis
  have size': "bucket_size ?b + 1 = 2 ^ k + 1" "bucket_weight ?b = sum_list ws" "bucket_items ?b = items"
    using assms(1) by (simp_all add: new_bucket_def)
  have nn: "unat (word_of_nat (2 ^ Suc (Suc k)) :: u8) = 2 ^ Suc (Suc k)" using assms(3) by (intro unat_nodes) simp
  have "c_realloc mem (2 ^ Suc (Suc k)) nw = Some ?nw" "crush_calc_tree_node (2 ^ k + 1 - 1) = 2 ^ Suc k + 1"
      "arr_set ?nw (2 ^ Suc k + 1) w = Some (?nw[2 ^ Suc k + 1 := w])"
      "arr_get (?nw[2 ^ Suc k + 1 := w]) (2 ^ Suc (Suc k) div 2 div 2) = Some (sum_list ws)"
      "arr_set (?nw[2 ^ Suc k + 1 := w]) (2 ^ Suc (Suc k) div 2) (sum_list ws) =
        Some (?nw[2 ^ Suc k + 1 := w, 2 ^ Suc k := sum_list ws])"
      "2 \<le> Suc (Suc k) \<and> 2 ^ Suc k + 1 - 1 = (2::nat) ^ Suc (Suc k) div 2" "Suc (Suc k) - 1 = Suc k"
      "\<not> crush_addition_is_unsafe (sum_list ws) w"
    using len assms(5) tot one_less_power[of "2 :: nat" "Suc k"]
    by (simp_all add: c_realloc_def crush_calc_tree_node_def nth_append unsafe_iff)
  note step = this
  have "crush_add_tree_bucket_item mem ?b nw item w = Some (0, ?b\<lparr>bucket_alg := CRUSH_BUCKET_TREE
      (word_of_nat (2 ^ Suc (Suc k))) nw', bucket_items := items @ [item], bucket_weight := sum_list (ws @ [w])\<rparr>)"
    unfolding crush_add_tree_bucket_item_def Let_def size'(1) calc_depth_full[OF assms(2)] nn step(1,2) Option.bind_lunit
      step(3) if_P[OF step(6)] step(4,5,7) nw'(1) by (simp add: new_bucket_def step(8))
  with nw(1) nw'(2,3) len(1) show ?thesis by (auto simp: new_bucket_def)
qed

theorem tree_add_item_reads_fresh_memory_witness:
  "\<exists>b nn nw b' nn' nw'. crush_make_tree_bucket 0 1 [5, 6] [10, 20] = Some (Some b) \<and>
    bucket_alg b = CRUSH_BUCKET_TREE nn nw \<and> crush_add_tree_bucket_item (\<lambda>_. 1000) b nw 7 30 = Some (0, b') \<and>
    bucket_alg b' = CRUSH_BUCKET_TREE nn' nw' \<and> bucket_items b' = [5, 6, 7] \<and> nw' ! 4 = 60 \<and> nw' ! 6 = 1030"
proof -
  obtain b nn nw b' nn' nw' where "crush_make_tree_bucket 0 1 [5, 6] [10, 20] = Some (Some b)"
      "bucket_alg b = CRUSH_BUCKET_TREE nn nw" "crush_add_tree_bucket_item (\<lambda>_. 1000) b nw 7 30 = Some (0, b')"
      "bucket_alg b' = CRUSH_BUCKET_TREE nn' nw'" "bucket_items b' = [5, 6] @ [7]"
      "nw' ! (2 ^ Suc 1) = sum_list ([10, 20] @ [30])"
      and t: "\<forall>t. 0 < t \<and> t \<le> 1 \<longrightarrow> nw' ! (2 ^ Suc 1 + 2 ^ t) = 1000 + 30"
    using tree_add_item_reads_fresh_memory[of "[5, 6]" 1 "[10, 20]" 30 "\<lambda>_. 1000" 0 1 7] by auto
  then show ?thesis using spec[OF t, of 1] by auto
qed

end
