(* ===== verification/Crush_Rule.thy ===== *)
theory Crush_Rule
  imports Crush_Mapper
begin

text \<open>
  \<open>crush_do_rule\<close> of \<open>crush/mapper.c\<close>: the interpreter of placement rules.  The lemmas show
  that it always returns on a map without cycles and what the two standard forms of a rule
  produce: the replicated rule (\<open>take\<close>, \<open>chooseleaf firstn\<close>, \<open>emit\<close>) and the erasure-coded rule
  (\<open>chooseleaf indep\<close>).
\<close>

section \<open>crush\_do\_rule\<close>

record rule_state =
  rs_w :: "int list"
  rs_o :: "int list"
  rs_c :: "int list"
  rs_wsize :: nat
  rs_result :: "int list"
  rs_result_len :: nat
  rs_choose_tries :: nat
  rs_choose_leaf_tries :: nat
  rs_local_retries :: nat
  rs_local_fallback_retries :: nat
  rs_vary_r :: nat
  rs_stable :: nat

record rule_env =
  re_map :: crush_map
  re_x :: int
  re_result_max :: nat
  re_weight :: "u32 list"
  re_choose_args :: "crush_choose_arg list option"

definition rule_numrep :: "rule_env \<Rightarrow> int \<Rightarrow> int" where
  "rule_numrep e arg1 = (if arg1 \<le> 0 then arg1 + int (re_result_max e) else arg1)"

text \<open>One iteration of the loop over the working vector: the vectors \<open>o\<close> and \<open>c\<close> from \<open>osize\<close> on.\<close>

definition rule_choose_one ::
  "rule_env \<Rightarrow> rule_state \<Rightarrow> crush_rule_step \<Rightarrow> bool \<Rightarrow> bool \<Rightarrow> int \<Rightarrow>
    nat \<times> int list \<times> int list \<Rightarrow> crush_work \<Rightarrow> ((nat \<times> int list \<times> int list) \<times> crush_work) option"
where
  "rule_choose_one e s step firstn recurse_to_leaf wi st work =
    (let (osize, ov, c) = st; m = re_map e; numrep = rule_numrep e (step_arg1 step);
         bno = - 1 - wi; room = re_result_max e - osize
     in if numrep \<le> 0 then Some (st, work)
        else if bno < 0 \<or> int (max_buckets m) \<le> bno then Some (st, work)
        else do {
          bucket \<leftarrow> crush_bucket_at m wi;
          if firstn then
            do { let recurse_tries =
                   (if rs_choose_leaf_tries s \<noteq> 0 then rs_choose_leaf_tries s
                    else if chooseleaf_descend_once m then 1 else rs_choose_tries s);
                 ((n, o1, c1), work) \<leftarrow>
                   crush_choose_firstn
                     \<lparr>fa_map = m, fa_weight = re_weight e, fa_x = re_x e, fa_numrep = numrep,
                      fa_type = step_arg2 step, fa_tries = rs_choose_tries s,
                      fa_recurse_tries = recurse_tries, fa_local_retries = rs_local_retries s,
                      fa_local_fallback_retries = rs_local_fallback_retries s,
                      fa_recurse_to_leaf = recurse_to_leaf, fa_vary_r = rs_vary_r s,
                      fa_stable = (rs_stable s \<noteq> 0), fa_parent_r = 0,
                      fa_choose_args = re_choose_args e\<rparr>
                     bucket (drop osize ov) 0 room (Some (drop osize c)) work;
                 c1 \<leftarrow> c1;
                 Some ((osize + n, take osize ov @ o1, take osize c @ c1), work) }
          else
            do { let out_size = nat (min numrep (int room));
                 ((o1, c1), work) \<leftarrow>
                   crush_choose_indep
                     \<lparr>ia_map = m, ia_weight = re_weight e, ia_x = re_x e, ia_numrep = numrep,
                      ia_type = step_arg2 step, ia_tries = rs_choose_tries s,
                      ia_recurse_tries =
                        (if rs_choose_leaf_tries s \<noteq> 0 then rs_choose_leaf_tries s else 1),
                      ia_recurse_to_leaf = recurse_to_leaf, ia_parent_r = 0,
                      ia_choose_args = re_choose_args e\<rparr>
                     bucket out_size (drop osize ov) 0 (Some (drop osize c)) work;
                 c1 \<leftarrow> c1;
                 Some ((osize + out_size, take osize ov @ o1, take osize c @ c1), work) } })"

fun rule_choose_loop ::
  "rule_env \<Rightarrow> rule_state \<Rightarrow> crush_rule_step \<Rightarrow> bool \<Rightarrow> bool \<Rightarrow> int list \<Rightarrow>
    nat \<times> int list \<times> int list \<Rightarrow> crush_work \<Rightarrow> ((nat \<times> int list \<times> int list) \<times> crush_work) option"
where
  "rule_choose_loop e s step firstn rtl [] st work = Some (st, work)"
| "rule_choose_loop e s step firstn rtl (wi # ws) st work =
    do { (st, work) \<leftarrow> rule_choose_one e s step firstn rtl wi st work;
         rule_choose_loop e s step firstn rtl ws st work }"

definition rule_choose ::
  "rule_env \<Rightarrow> crush_rule_step \<Rightarrow> bool \<Rightarrow> bool \<Rightarrow> rule_state \<Rightarrow> crush_work \<Rightarrow>
    (rule_state \<times> crush_work) option"
where
  "rule_choose e step firstn recurse_to_leaf s work =
    (if rs_wsize s = 0 then Some (s, work)
     else do {
       ceph_assert (rs_wsize s \<le> length (rs_w s));
       ((osize, ov, c), work) \<leftarrow>
         rule_choose_loop e s step firstn recurse_to_leaf (take (rs_wsize s) (rs_w s))
           (0, rs_o s, rs_c s) work;
       ov \<leftarrow> (if recurse_to_leaf then
               do { ceph_assert (osize \<le> length c \<and> osize \<le> length ov);
                    Some (take osize c @ drop osize ov) }
             else Some ov);
       Some (s\<lparr>rs_w := ov, rs_o := rs_w s, rs_c := c, rs_wsize := osize\<rparr>, work) })"

definition rule_take :: "rule_env \<Rightarrow> int \<Rightarrow> rule_state \<Rightarrow> rule_state option" where
  "rule_take e arg1 s =
    (if 0 \<le> arg1 \<and> arg1 < max_devices (re_map e)
        \<or> arg1 < 0 \<and> - 1 - arg1 < int (max_buckets (re_map e)) \<and> crush_bucket_at (re_map e) arg1 \<noteq> None
     then do { w \<leftarrow> arr_set (rs_w s) 0 arg1; Some (s\<lparr>rs_w := w, rs_wsize := 1\<rparr>) }
     else Some s)"

definition rule_emit :: "rule_env \<Rightarrow> rule_state \<Rightarrow> rule_state option" where
  "rule_emit e s =
    do { let n = min (rs_wsize s) (re_result_max e - rs_result_len s);
         ceph_assert (n \<le> length (rs_w s) \<and> rs_result_len s + n \<le> length (rs_result s));
         Some (s\<lparr>rs_result := take (rs_result_len s) (rs_result s) @ take n (rs_w s)
                               @ drop (rs_result_len s + n) (rs_result s),
                 rs_result_len := rs_result_len s + n, rs_wsize := 0\<rparr>) }"

definition rule_step ::
  "rule_env \<Rightarrow> crush_rule_step \<Rightarrow> rule_state \<Rightarrow> crush_work \<Rightarrow> (rule_state \<times> crush_work) option"
where
  "rule_step e step s work =
    (let arg1 = step_arg1 step in
     case step_op step of
       CRUSH_RULE_TAKE \<Rightarrow> map_option (\<lambda>s. (s, work)) (rule_take e arg1 s)
     | CRUSH_RULE_SET_CHOOSE_TRIES \<Rightarrow>
         Some (if 0 < arg1 then s\<lparr>rs_choose_tries := nat arg1\<rparr> else s, work)
     | CRUSH_RULE_SET_CHOOSELEAF_TRIES \<Rightarrow>
         Some (if 0 < arg1 then s\<lparr>rs_choose_leaf_tries := nat arg1\<rparr> else s, work)
     | CRUSH_RULE_SET_CHOOSE_LOCAL_TRIES \<Rightarrow>
         Some (if 0 \<le> arg1 then s\<lparr>rs_local_retries := nat arg1\<rparr> else s, work)
     | CRUSH_RULE_SET_CHOOSE_LOCAL_FALLBACK_TRIES \<Rightarrow>
         Some (if 0 \<le> arg1 then s\<lparr>rs_local_fallback_retries := nat arg1\<rparr> else s, work)
     | CRUSH_RULE_SET_CHOOSELEAF_VARY_R \<Rightarrow>
         Some (if 0 \<le> arg1 then s\<lparr>rs_vary_r := nat arg1\<rparr> else s, work)
     | CRUSH_RULE_SET_CHOOSELEAF_STABLE \<Rightarrow>
         Some (if 0 \<le> arg1 then s\<lparr>rs_stable := nat arg1\<rparr> else s, work)
     | CRUSH_RULE_CHOOSELEAF_FIRSTN \<Rightarrow> rule_choose e step True True s work
     | CRUSH_RULE_CHOOSE_FIRSTN \<Rightarrow> rule_choose e step True False s work
     | CRUSH_RULE_CHOOSELEAF_INDEP \<Rightarrow> rule_choose e step False True s work
     | CRUSH_RULE_CHOOSE_INDEP \<Rightarrow> rule_choose e step False False s work
     | CRUSH_RULE_EMIT \<Rightarrow> map_option (\<lambda>s. (s, work)) (rule_emit e s)
     | _ \<Rightarrow> Some (s, work))"

fun rule_steps_loop ::
  "rule_env \<Rightarrow> crush_rule_step list \<Rightarrow> rule_state \<Rightarrow> crush_work \<Rightarrow> (rule_state \<times> crush_work) option"
where
  "rule_steps_loop e [] s work = Some (s, work)"
| "rule_steps_loop e (step # steps) s work =
    do { (s, work) \<leftarrow> rule_step e step s work; rule_steps_loop e steps s work }"

text \<open>
  \<open>scratch\<close> gives the former content of the three vectors that follow the workspace.  The
  result is the part of the result vector that was filled.
\<close>

definition crush_do_rule ::
  "crush_map \<Rightarrow> nat \<Rightarrow> int \<Rightarrow> nat \<Rightarrow> u32 list \<Rightarrow> crush_choose_arg list option \<Rightarrow>
    int list \<times> int list \<times> int list \<times> int list \<Rightarrow> crush_work \<Rightarrow> (int list \<times> crush_work) option"
where
  "crush_do_rule m ruleno x result_max weight choose_args scratch work =
    (if max_rules m \<le> ruleno then Some ([], work)
     else do {
       rule \<leftarrow> arr_get (map_rules m) ruleno;
       rule \<leftarrow> rule;
       let (a, b, c, result) = scratch;
       (s, work) \<leftarrow>
         rule_steps_loop
           \<lparr>re_map = m, re_x = x, re_result_max = result_max, re_weight = weight,
            re_choose_args = choose_args\<rparr>
           (rule_steps rule)
           \<lparr>rs_w = a, rs_o = b, rs_c = c, rs_wsize = 0, rs_result = result, rs_result_len = 0,
            rs_choose_tries = choose_total_tries m + 1, rs_choose_leaf_tries = 0,
            rs_local_retries = choose_local_tries m,
            rs_local_fallback_retries = choose_local_fallback_tries m,
            rs_vary_r = chooseleaf_vary_r m, rs_stable = chooseleaf_stable m\<rparr>
           work;
       Some (take (rs_result_len s) (rs_result s), work) })"

section \<open>Every rule returns\<close>

definition env_ok :: "rule_env \<Rightarrow> nat list \<Rightarrow> bool" where
  "env_ok e rank \<longleftrightarrow>
    map_ok (re_map e) rank \<and> choose_args_ok (re_map e) (re_choose_args e) \<and>
    max_devices (re_map e) \<le> CRUSH_ITEM_UNDEF \<and> 0 < re_result_max e"

text \<open>An entry of the working vector: if it is a bucket id, the bucket exists.\<close>

definition entry_ok :: "crush_map \<Rightarrow> int \<Rightarrow> bool" where
  "entry_ok m v \<longleftrightarrow> (v < 0 \<longrightarrow> crush_bucket_at m v \<noteq> None)"

definition state_ok :: "rule_env \<Rightarrow> rule_state \<Rightarrow> bool" where
  "state_ok e s \<longleftrightarrow>
    length (rs_w s) = re_result_max e \<and> length (rs_o s) = re_result_max e \<and>
    length (rs_c s) = re_result_max e \<and> rs_wsize s \<le> re_result_max e \<and>
    rs_result_len s \<le> re_result_max e \<and> re_result_max e \<le> length (rs_result s) \<and>
    rs_vary_r s \<le> 32 \<and> (\<forall>v\<in>set (take (rs_wsize s) (rs_w s)). entry_ok (re_map e) v)"

text \<open>The vectors of a choose step: room for the rest, and valid entries so far.\<close>

definition vecs_ok :: "rule_env \<Rightarrow> nat \<times> int list \<times> int list \<Rightarrow> bool" where
  "vecs_ok e st \<longleftrightarrow>
    (case st of (osize, ov, c) \<Rightarrow>
      osize \<le> re_result_max e \<and> length ov = re_result_max e \<and> length c = re_result_max e \<and>
      (\<forall>v\<in>set (take osize ov). entry_ok (re_map e) v))"

definition leaves_ok :: "rule_env \<Rightarrow> nat \<times> int list \<times> int list \<Rightarrow> bool" where
  "leaves_ok e st \<longleftrightarrow> (case st of (osize, ov, c) \<Rightarrow> \<forall>v\<in>set (take osize c). 0 \<le> v)"

lemma item_good_entry: "item_good m w x ty v \<Longrightarrow> entry_ok m v"
  by (auto simp: item_good_def item_type_def entry_ok_def split: if_splits)

lemma take_append_drop_prefix:
  "osize \<le> length ov \<Longrightarrow> length o1 = length (drop osize ov) \<Longrightarrow>
    take (osize + n) (take osize ov @ o1) = take osize ov @ take n o1 \<and> length (take osize ov @ o1) = length ov"
  by simp

text \<open>The arguments that \<open>crush_do_rule\<close> passes on.\<close>

definition firstn_args_of :: "rule_env \<Rightarrow> rule_state \<Rightarrow> crush_rule_step \<Rightarrow> bool \<Rightarrow> firstn_args" where
  "firstn_args_of e s step rtl =
    \<lparr>fa_map = re_map e, fa_weight = re_weight e, fa_x = re_x e,
     fa_numrep = rule_numrep e (step_arg1 step), fa_type = step_arg2 step,
     fa_tries = rs_choose_tries s,
     fa_recurse_tries =
       (if rs_choose_leaf_tries s \<noteq> 0 then rs_choose_leaf_tries s
        else if chooseleaf_descend_once (re_map e) then 1 else rs_choose_tries s),
     fa_local_retries = rs_local_retries s,
     fa_local_fallback_retries = rs_local_fallback_retries s,
     fa_recurse_to_leaf = rtl, fa_vary_r = rs_vary_r s, fa_stable = (rs_stable s \<noteq> 0),
     fa_parent_r = 0, fa_choose_args = re_choose_args e\<rparr>"

definition indep_args_of :: "rule_env \<Rightarrow> rule_state \<Rightarrow> crush_rule_step \<Rightarrow> bool \<Rightarrow> indep_args" where
  "indep_args_of e s step rtl =
    \<lparr>ia_map = re_map e, ia_weight = re_weight e, ia_x = re_x e,
     ia_numrep = rule_numrep e (step_arg1 step), ia_type = step_arg2 step,
     ia_tries = rs_choose_tries s,
     ia_recurse_tries = (if rs_choose_leaf_tries s \<noteq> 0 then rs_choose_leaf_tries s else 1),
     ia_recurse_to_leaf = rtl, ia_parent_r = 0, ia_choose_args = re_choose_args e\<rparr>"

lemma args_of_simps [simp]:
  "fa_map (firstn_args_of e s step rtl) = re_map e" "fa_weight (firstn_args_of e s step rtl) = re_weight e"
  "fa_x (firstn_args_of e s step rtl) = re_x e" "fa_type (firstn_args_of e s step rtl) = step_arg2 step"
  "fa_recurse_to_leaf (firstn_args_of e s step rtl) = rtl"
  "ia_map (indep_args_of e s step rtl) = re_map e" "ia_weight (indep_args_of e s step rtl) = re_weight e"
  "ia_x (indep_args_of e s step rtl) = re_x e" "ia_type (indep_args_of e s step rtl) = step_arg2 step"
  "ia_recurse_to_leaf (indep_args_of e s step rtl) = rtl"
  by (simp_all add: firstn_args_of_def indep_args_of_def)

lemma firstn_args_ok: "env_ok e rank \<Longrightarrow> state_ok e s \<Longrightarrow> fa_ok (firstn_args_of e s step rtl) rank"
  by (simp add: env_ok_def state_ok_def fa_ok_def firstn_args_of_def)

lemma indep_args_ok:
  "env_ok e rank \<Longrightarrow> 0 < rule_numrep e (step_arg1 step) \<Longrightarrow> ia_ok (indep_args_of e s step rtl) rank"
  by (simp add: env_ok_def ia_ok_def indep_args_of_def)

text \<open>One bucket of a \<open>firstn\<close> step: what is appended to the vectors.\<close>

lemma yields_rule_firstn:
  assumes "env_ok e rank" "state_ok e s" and st: "vecs_ok e (osize, ov, c)"
    and b: "crush_bucket_at (re_map e) wi = Some bucket" and n: "0 < rule_numrep e (step_arg1 step)"
  shows "\<exists>n o1 c1. yields (re_map e) (rule_choose_one e s step True rtl wi (osize, ov, c))
      (osize + n, take osize ov @ o1, take osize c @ c1)
    \<and> loop_post (firstn_args_of e s step rtl) 0 (re_result_max e - osize) (drop osize ov) (Some (drop osize c)) n o1 (Some c1)
    \<and> length c1 = length (drop osize c) \<and> int n \<le> rule_numrep e (step_arg1 step)"
proof -
  let ?a = "firstn_args_of e s step rtl"
  have len: "length ov = re_result_max e" "length c = re_result_max e" "osize \<le> re_result_max e"
    using st by (simp_all add: vecs_ok_def)
  have bno: "\<not> (- 1 - wi < 0 \<or> int (max_buckets (re_map e)) \<le> - 1 - wi)"
    using b by (auto simp: crush_bucket_at_Some)
  obtain n o1 c2 where y: "yields (re_map e) (crush_choose_firstn ?a bucket (drop osize ov) 0
        (re_result_max e - osize) (Some (drop osize c))) (n, o1, c2)"
      "loop_post ?a 0 (re_result_max e - osize) (drop osize ov) (Some (drop osize c)) n o1 c2"
      "int n \<le> max 0 (fa_numrep ?a)"
    using yields_choose_firstn[OF firstn_args_ok[OF assms(1,2), of step rtl], of wi bucket "re_result_max e - osize"
        "drop osize ov" "Some (drop osize c)"] b len by auto
  obtain c1 where c1: "c2 = Some c1" "length c1 = length (drop osize c)"
    using y(2) by (auto simp: loop_post_def out2_step_def)
  have "yields (re_map e) (rule_choose_one e s step True rtl wi (osize, ov, c))
      (osize + n, take osize ov @ o1, take osize c @ c1)"
    using n bno b c1(1)
    by (intro yields_bind[OF y(1) _ yields_return])
      (simp add: rule_choose_one_def Let_def firstn_args_of_def)
  moreover have "int n \<le> rule_numrep e (step_arg1 step)" using y(3) n by (simp add: firstn_args_of_def)
  ultimately show ?thesis using y(2) c1 by blast
qed

lemma yields_rule_indep:
  assumes "env_ok e rank" and st: "vecs_ok e (osize, ov, c)"
    and b: "crush_bucket_at (re_map e) wi = Some bucket" and n: "0 < rule_numrep e (step_arg1 step)"
    and out_size: "out_size = nat (min (rule_numrep e (step_arg1 step)) (int (re_result_max e - osize)))"
  shows "\<exists>o1 c1. yields (re_map e) (rule_choose_one e s step False rtl wi (osize, ov, c))
      (osize + out_size, take osize ov @ o1, take osize c @ c1)
    \<and> indep_done (indep_args_of e s step rtl) 0 out_size (drop osize ov) o1
    \<and> length c1 = length (drop osize c) \<and> (\<forall>j<out_size. 0 \<le> c1 ! j)
    \<and> (rtl \<and> step_arg2 step \<noteq> 0 \<longrightarrow> indep_leaves (indep_args_of e s step rtl) 0 out_size o1 c1)"
proof -
  let ?a = "indep_args_of e s step rtl"
  have len: "out_size \<le> length (drop osize ov)" "out_size \<le> length (drop osize c)"
    using st out_size by (auto simp: vecs_ok_def)
  have bno: "\<not> (- 1 - wi < 0 \<or> int (max_buckets (re_map e)) \<le> - 1 - wi)"
    using b by (auto simp: crush_bucket_at_Some)
  obtain o1 c2 where y: "yields (re_map e) (crush_choose_indep ?a bucket out_size (drop osize ov) 0 (Some (drop osize c))) (o1, c2)"
      "indep_done ?a 0 out_size (drop osize ov) o1" "map_option length c2 = map_option length (Some (drop osize c))"
      "\<forall>o2 j. c2 = Some o2 \<longrightarrow> j < out_size \<longrightarrow> 0 \<le> o2 ! j"
      "rtl \<and> step_arg2 step \<noteq> 0 \<longrightarrow> (\<exists>o2. c2 = Some o2 \<and> indep_leaves ?a 0 out_size o1 o2)"
    using yields_choose_indep[OF indep_args_ok[OF assms(1) n], of s rtl wi bucket out_size "drop osize ov"
        "Some (drop osize c)"] b len by auto
  obtain c1 where c1: "c2 = Some c1" "length c1 = length (drop osize c)" using y(3) by (cases c2) auto
  have "yields (re_map e) (rule_choose_one e s step False rtl wi (osize, ov, c))
      (osize + out_size, take osize ov @ o1, take osize c @ c1)"
    using n bno b c1(1) out_size
    by (intro yields_bind[OF y(1) _ yields_return])
      (simp add: rule_choose_one_def Let_def indep_args_of_def)
  then show ?thesis using y(2,4,5) c1 by blast
qed

lemma indep_done_entries:
  assumes "indep_done a 0 n o0 o1" "v \<in> set (take n o1)"
  shows "entry_ok (ia_map a) v"
proof -
  obtain j where j: "j < n" "j < length o1" "v = o1 ! j" using assms(2) by (auto simp: in_set_conv_nth)
  then have "v = CRUSH_ITEM_NONE \<or> item_good (ia_map a) (ia_weight a) (ia_x a) (ia_type a) v"
    using assms(1) by (auto simp: indep_done_def)
  then show ?thesis using item_good_entry by (auto simp: entry_ok_def CRUSH_ITEM_NONE_def)
qed

lemma yields_rule_choose_one:
  assumes ok: "env_ok e rank" "state_ok e s" "vecs_ok e st" "rtl \<longrightarrow> leaves_ok e st" "entry_ok (re_map e) wi"
  shows "\<exists>st'. yields (re_map e) (rule_choose_one e s step fn rtl wi st) st' \<and> vecs_ok e st' \<and> (rtl \<longrightarrow> leaves_ok e st')"
proof -
  obtain osize ov c where st: "st = (osize, ov, c)" by (cases st) auto
  have len: "osize \<le> length ov" "osize \<le> length c" "osize \<le> re_result_max e"
      "length ov = re_result_max e" "length c = re_result_max e"
    using ok(3) by (simp_all add: st vecs_ok_def)
  consider (skip) "rule_numrep e (step_arg1 step) \<le> 0 \<or> 0 \<le> wi"
    | (bucket) b where "0 < rule_numrep e (step_arg1 step)" "crush_bucket_at (re_map e) wi = Some b"
    using ok(5) by (force simp: entry_ok_def)
  then show ?thesis
  proof cases
    case skip
    then show ?thesis
      using ok(3,4) by (intro exI[of _ st] conjI yields_cong[OF yields_return]) (auto simp: st rule_choose_one_def Let_def)
  next
    case bucket
    show ?thesis
    proof (cases fn)
      case True
      obtain n o1 c1 where y: "yields (re_map e) (rule_choose_one e s step True rtl wi st)
            (osize + n, take osize ov @ o1, take osize c @ c1)"
          "loop_post (firstn_args_of e s step rtl) 0 (re_result_max e - osize) (drop osize ov) (Some (drop osize c)) n o1 (Some c1)"
          "length c1 = length (drop osize c)"
        using yields_rule_firstn[OF ok(1,2) ok(3)[unfolded st] bucket(2,1)] unfolding st by blast
      have n: "n \<le> length o1" "n \<le> length c1" "n \<le> re_result_max e - osize" "length o1 = length (drop osize ov)"
        using y(2,3) len by (simp_all add: loop_post_def)
      have "\<forall>v\<in>set (take n o1). entry_ok (re_map e) v"
        using y(2) all_new_take[OF _ n(1)] item_good_entry unfolding loop_post_def args_of_simps by meson
      moreover have "rtl \<longrightarrow> (\<forall>v\<in>set (take n c1). 0 \<le> v)"
        using y(2) all_new_take[OF _ n(2)] unfolding loop_post_def args_of_simps usable_def
        by (metis (no_types, lifting) option.inject)
      ultimately show ?thesis
        using y(1,3) n ok(3,4) len True
        by (intro exI[of _ "(osize + n, take osize ov @ o1, take osize c @ c1)"])
          (auto simp: st vecs_ok_def leaves_ok_def)
    next
      case False
      define n where "n = nat (min (rule_numrep e (step_arg1 step)) (int (re_result_max e - osize)))"
      obtain o1 c1 where y: "yields (re_map e) (rule_choose_one e s step False rtl wi st)
            (osize + n, take osize ov @ o1, take osize c @ c1)"
          "indep_done (indep_args_of e s step rtl) 0 n (drop osize ov) o1"
          "length c1 = length (drop osize c)" "\<forall>j<n. 0 \<le> c1 ! j"
        using yields_rule_indep[OF ok(1) ok(3)[unfolded st] bucket(2,1) n_def] unfolding st by blast
      have n: "n \<le> re_result_max e - osize" "length o1 = length (drop osize ov)"
        using y(2) by (simp_all add: n_def indep_done_def)
      have "\<forall>v\<in>set (take n o1). entry_ok (re_map e) v" using indep_done_entries[OF y(2)] by simp
      moreover have "\<forall>v\<in>set (take n c1). 0 \<le> v" using y(4) by (auto simp: in_set_conv_nth)
      ultimately show ?thesis
        using y(1,3) n ok(3,4) len False
        by (intro exI[of _ "(osize + n, take osize ov @ o1, take osize c @ c1)"])
          (auto simp: st vecs_ok_def leaves_ok_def)
    qed
  qed
qed

lemma yields_rule_choose_loop:
  assumes ok: "env_ok e rank" "state_ok e s"
    and "\<forall>v\<in>set ws. entry_ok (re_map e) v" "vecs_ok e st" "rtl \<longrightarrow> leaves_ok e st"
  shows "\<exists>st'. yields (re_map e) (rule_choose_loop e s step fn rtl ws st) st' \<and> vecs_ok e st' \<and> (rtl \<longrightarrow> leaves_ok e st')"
  using assms(3-)
proof (induction ws arbitrary: st)
  case Nil
  then show ?case by (intro exI[of _ st] conjI yields_cong[OF yields_return]) simp_all
next
  case (Cons wi ws)
  obtain st1 where y: "yields (re_map e) (rule_choose_one e s step fn rtl wi st) st1" "vecs_ok e st1" "rtl \<longrightarrow> leaves_ok e st1"
    using yields_rule_choose_one[OF ok Cons(3,4), of wi step fn] Cons(2) by auto
  obtain st2 where z: "yields (re_map e) (rule_choose_loop e s step fn rtl ws st1) st2" "vecs_ok e st2" "rtl \<longrightarrow> leaves_ok e st2"
    using Cons(1)[OF _ y(2,3)] Cons(2) by auto
  show ?case
    using z(2,3) by (intro exI[of _ st2] conjI yields_bind[OF y(1) _ z(1)]) simp_all
qed

lemma yields_rule_choose:
  assumes ok: "env_ok e rank" "state_ok e s"
  shows "\<exists>s'. yields (re_map e) (rule_choose e step fn rtl s) s' \<and> state_ok e s'"
proof (cases "rs_wsize s = 0")
  case True
  then show ?thesis
    using ok(2) by (intro exI[of _ s] conjI yields_cong[OF yields_return]) (simp_all add: rule_choose_def)
next
  case False
  have st0: "vecs_ok e (0, rs_o s, rs_c s)" "leaves_ok e (0, rs_o s, rs_c s)"
    using ok(2) by (simp_all add: vecs_ok_def leaves_ok_def state_ok_def)
  obtain st' where y: "yields (re_map e) (rule_choose_loop e s step fn rtl (take (rs_wsize s) (rs_w s)) (0, rs_o s, rs_c s)) st'"
      "vecs_ok e st'" "rtl \<longrightarrow> leaves_ok e st'"
    using yields_rule_choose_loop[OF ok _ st0(1), of "take (rs_wsize s) (rs_w s)" rtl step fn] st0(2) ok(2)
    by (auto simp: state_ok_def)
  obtain osize ov c where st': "st' = (osize, ov, c)" by (cases st') auto
  define w where "w = (if rtl then take osize c @ drop osize ov else ov)"
  have w: "length w = re_result_max e" "\<forall>v\<in>set (take osize w). entry_ok (re_map e) v"
    using y(2,3) by (auto simp: st' w_def vecs_ok_def leaves_ok_def entry_ok_def)
  show ?thesis
    using False y(2) ok(2) w
    by (intro exI[of _ "s\<lparr>rs_w := w, rs_o := rs_w s, rs_c := c, rs_wsize := osize\<rparr>"] conjI
        yields_bind[OF y(1) _ yields_return])
      (auto simp: rule_choose_def st' w_def vecs_ok_def state_ok_def)
qed

lemma rule_take_ok:
  assumes "env_ok e rank" "state_ok e s"
  shows "\<exists>s'. rule_take e arg1 s = Some s' \<and> state_ok e s'"
proof (cases "0 \<le> arg1 \<and> arg1 < max_devices (re_map e)
    \<or> arg1 < 0 \<and> - 1 - arg1 < int (max_buckets (re_map e)) \<and> crush_bucket_at (re_map e) arg1 \<noteq> None")
  case True
  have "0 < length (rs_w s)" using assms by (simp add: env_ok_def state_ok_def)
  then have "rule_take e arg1 s = Some (s\<lparr>rs_w := (rs_w s)[0 := arg1], rs_wsize := 1\<rparr>)"
    using True by (simp add: rule_take_def)
  moreover have "take 1 ((rs_w s)[0 := arg1]) = [arg1]"
    using \<open>0 < length (rs_w s)\<close> by (cases "rs_w s") simp_all
  moreover have "entry_ok (re_map e) arg1" using True by (auto simp: entry_ok_def)
  ultimately show ?thesis using assms by (simp add: env_ok_def state_ok_def)
next
  case False
  then show ?thesis using assms(2) by (auto simp: rule_take_def)
qed

lemma rule_emit_ok:
  assumes "state_ok e s"
  shows "\<exists>s'. rule_emit e s = Some s' \<and> state_ok e s'"
  using assms by (auto simp: rule_emit_def Let_def state_ok_def)

definition step_ok :: "crush_rule_step \<Rightarrow> bool" where
  "step_ok step \<longleftrightarrow> step_op step = CRUSH_RULE_SET_CHOOSELEAF_VARY_R \<longrightarrow> step_arg1 step \<le> 32"

lemma yields_rule_step:
  assumes ok: "env_ok e rank" "state_ok e s" "step_ok step"
  shows "\<exists>s'. yields (re_map e) (rule_step e step s) s' \<and> state_ok e s'"
proof -
  have choose: ?thesis if "rule_step e step s = rule_choose e step fn rtl s" for fn rtl
    using yields_rule_choose[OF ok(1,2)] that by simp
  have set: ?thesis if "\<And>work. rule_step e step s work = Some (s', work)" "state_ok e s'" for s'
    by (intro exI[of _ s'] conjI yields_cong[OF yields_return that(1)] that(2))
  have upd: "state_ok e (s\<lparr>rs_choose_tries := n\<rparr>)" "state_ok e (s\<lparr>rs_choose_leaf_tries := n\<rparr>)"
      "state_ok e (s\<lparr>rs_local_retries := n\<rparr>)" "state_ok e (s\<lparr>rs_local_fallback_retries := n\<rparr>)"
      "state_ok e (s\<lparr>rs_stable := n\<rparr>)" "state_ok e s"
      "step_op step = CRUSH_RULE_SET_CHOOSELEAF_VARY_R \<Longrightarrow> state_ok e (s\<lparr>rs_vary_r := nat (step_arg1 step)\<rparr>)" for n
    using ok(2,3) by (simp_all add: state_ok_def step_ok_def)
  show ?thesis
  proof (cases "step_op step")
    case CRUSH_RULE_TAKE
    obtain s' where "rule_take e (step_arg1 step) s = Some s'" "state_ok e s'"
      using rule_take_ok[OF ok(1,2)] by blast
    then show ?thesis using CRUSH_RULE_TAKE by (intro set[of s']) (simp_all add: rule_step_def)
  next
    case CRUSH_RULE_EMIT
    obtain s' where "rule_emit e s = Some s'" "state_ok e s'" using rule_emit_ok[OF ok(2)] by blast
    then show ?thesis using CRUSH_RULE_EMIT by (intro set[of s']) (simp_all add: rule_step_def)
  next
    case CRUSH_RULE_CHOOSE_FIRSTN
    then show ?thesis by (intro choose ext) (simp add: rule_step_def)
  next
    case CRUSH_RULE_CHOOSE_INDEP
    then show ?thesis by (intro choose ext) (simp add: rule_step_def)
  next
    case CRUSH_RULE_CHOOSELEAF_FIRSTN
    then show ?thesis by (intro choose ext) (simp add: rule_step_def)
  next
    case CRUSH_RULE_CHOOSELEAF_INDEP
    then show ?thesis by (intro choose ext) (simp add: rule_step_def)
  next
    case CRUSH_RULE_SET_CHOOSE_TRIES
    then show ?thesis
      by (intro set[of "if 0 < step_arg1 step then s\<lparr>rs_choose_tries := nat (step_arg1 step)\<rparr> else s"]) (simp_all add: upd rule_step_def)
  next
    case CRUSH_RULE_SET_CHOOSELEAF_TRIES
    then show ?thesis
      by (intro set[of "if 0 < step_arg1 step then s\<lparr>rs_choose_leaf_tries := nat (step_arg1 step)\<rparr> else s"]) (simp_all add: upd rule_step_def)
  next
    case CRUSH_RULE_SET_CHOOSE_LOCAL_TRIES
    then show ?thesis
      by (intro set[of "if 0 \<le> step_arg1 step then s\<lparr>rs_local_retries := nat (step_arg1 step)\<rparr> else s"]) (simp_all add: upd rule_step_def)
  next
    case CRUSH_RULE_SET_CHOOSE_LOCAL_FALLBACK_TRIES
    then show ?thesis
      by (intro set[of "if 0 \<le> step_arg1 step then s\<lparr>rs_local_fallback_retries := nat (step_arg1 step)\<rparr> else s"]) (simp_all add: upd rule_step_def)
  next
    case CRUSH_RULE_SET_CHOOSELEAF_VARY_R
    then show ?thesis
      by (intro set[of "if 0 \<le> step_arg1 step then s\<lparr>rs_vary_r := nat (step_arg1 step)\<rparr> else s"]) (simp_all add: upd rule_step_def)
  next
    case CRUSH_RULE_SET_CHOOSELEAF_STABLE
    then show ?thesis
      by (intro set[of "if 0 \<le> step_arg1 step then s\<lparr>rs_stable := nat (step_arg1 step)\<rparr> else s"]) (simp_all add: upd rule_step_def)
  qed (intro set[of s]; simp add: ok(2) rule_step_def)+
qed

lemma yields_rule_steps:
  assumes "env_ok e rank" "state_ok e s" "\<forall>step\<in>set steps. step_ok step"
  shows "\<exists>s'. yields (re_map e) (rule_steps_loop e steps s) s' \<and> state_ok e s'"
  using assms(2,3)
proof (induction steps arbitrary: s)
  case Nil
  then show ?case by (intro exI[of _ s] conjI yields_cong[OF yields_return]) simp_all
next
  case (Cons step steps)
  obtain s1 where y: "yields (re_map e) (rule_step e step s) s1" "state_ok e s1"
    using yields_rule_step[OF assms(1) Cons(2)] Cons(3) by auto
  obtain s2 where z: "yields (re_map e) (rule_steps_loop e steps s1) s2" "state_ok e s2"
    using Cons(1)[OF y(2)] Cons(3) by auto
  show ?case using z(2) by (intro exI[of _ s2] conjI yields_bind[OF y(1) _ z(1)]) simp_all
qed

text \<open>The three scratch vectors and the result vector have room for \<open>result_max\<close> entries.\<close>

definition scratch_ok :: "nat \<Rightarrow> int list \<times> int list \<times> int list \<times> int list \<Rightarrow> bool" where
  "scratch_ok n scratch \<longleftrightarrow>
    (case scratch of (a, b, c, result) \<Rightarrow> length a = n \<and> length b = n \<and> length c = n \<and> n \<le> length result)"

definition init_state :: "crush_map \<Rightarrow> int list \<times> int list \<times> int list \<times> int list \<Rightarrow> rule_state" where
  "init_state m scratch =
    (case scratch of (a, b, c, result) \<Rightarrow>
      \<lparr>rs_w = a, rs_o = b, rs_c = c, rs_wsize = 0, rs_result = result, rs_result_len = 0,
       rs_choose_tries = choose_total_tries m + 1, rs_choose_leaf_tries = 0,
       rs_local_retries = choose_local_tries m,
       rs_local_fallback_retries = choose_local_fallback_tries m,
       rs_vary_r = chooseleaf_vary_r m, rs_stable = chooseleaf_stable m\<rparr>)"

lemma init_state_ok:
  "scratch_ok (re_result_max e) scratch \<Longrightarrow> chooseleaf_vary_r (re_map e) \<le> 32 \<Longrightarrow>
    state_ok e (init_state (re_map e) scratch)"
  by (auto simp: scratch_ok_def init_state_def state_ok_def)

lemma init_state_len [simp]: "rs_result_len (init_state m scratch) = 0"
  by (cases scratch) (simp add: init_state_def)

lemma crush_do_rule_eq:
  assumes "ruleno < max_rules m" "map_rules m ! ruleno = Some rule"
    and "e = \<lparr>re_map = m, re_x = x, re_result_max = result_max, re_weight = weight, re_choose_args = args\<rparr>"
  shows "crush_do_rule m ruleno x result_max weight args scratch work =
    do { (s, work) \<leftarrow> rule_steps_loop e (rule_steps rule) (init_state m scratch) work;
         Some (take (rs_result_len s) (rs_result s), work) }"
  using assms by (cases scratch) (simp add: crush_do_rule_def init_state_def)

lemma yields_do_rule:
  assumes "map_ok m rank" "choose_args_ok m args" "max_devices m \<le> CRUSH_ITEM_UNDEF"
    and "chooseleaf_vary_r m \<le> 32" "0 < result_max" "scratch_ok result_max scratch"
    and "ruleno < max_rules m" "map_rules m ! ruleno = Some rule" "\<forall>step\<in>set (rule_steps rule). step_ok step"
  shows "\<exists>res. length res \<le> result_max \<and> yields m (crush_do_rule m ruleno x result_max weight args scratch) res"
proof -
  define e where "e = \<lparr>re_map = m, re_x = x, re_result_max = result_max, re_weight = weight, re_choose_args = args\<rparr>"
  have e: "env_ok e rank" "state_ok e (init_state m scratch)" "re_map e = m" "re_result_max e = result_max"
    using assms(1-6) init_state_ok[of e scratch] by (simp_all add: e_def env_ok_def)
  obtain s where y: "yields m (rule_steps_loop e (rule_steps rule) (init_state m scratch)) s" "state_ok e s"
    using yields_rule_steps[OF e(1,2) assms(9)] e(3) by auto
  have "yields m (crush_do_rule m ruleno x result_max weight args scratch) (take (rs_result_len s) (rs_result s))"
    by (rule yields_bind[OF y(1) _ yields_return]) (simp add: crush_do_rule_eq[OF assms(7,8) e_def])
  moreover have "length (take (rs_result_len s) (rs_result s)) \<le> result_max"
    using y(2) e(4) by (simp add: state_ok_def)
  ultimately show ?thesis by blast
qed

text \<open>
  Property C1.  Every rule returns, whatever its steps are: on a map without cycles, for every
  input, weight vector and workspace left by earlier calls, \<open>crush_do_rule\<close> reaches the end of the
  rule without an out-of-range access or a null bucket, its result depends only on its arguments
  (not on the workspace), has at most \<open>result_max\<close> entries, and the workspace stays usable.
\<close>

theorem crush_do_rule_total:
  assumes "map_ok m rank" "choose_args_ok m args" "max_devices m \<le> CRUSH_ITEM_UNDEF"
    and "chooseleaf_vary_r m \<le> 32" "0 < result_max" "scratch_ok result_max scratch"
    and "ruleno < max_rules m" "map_rules m ! ruleno = Some rule" "\<forall>step\<in>set (rule_steps rule). step_ok step"
  shows "\<exists>res. length res \<le> result_max \<and>
    (\<forall>work. work_ok m work \<longrightarrow>
      (\<exists>work'. crush_do_rule m ruleno x result_max weight args scratch work = Some (res, work') \<and> work_ok m work'))"
  using yields_do_rule[OF assms] unfolding yields_def by blast

section \<open>The two standard rules\<close>

definition replicated_rule :: "int \<Rightarrow> int \<Rightarrow> int \<Rightarrow> crush_rule_step list" where
  "replicated_rule root n ty =
    [\<lparr>step_op = CRUSH_RULE_TAKE, step_arg1 = root, step_arg2 = 0\<rparr>,
     \<lparr>step_op = CRUSH_RULE_CHOOSELEAF_FIRSTN, step_arg1 = n, step_arg2 = ty\<rparr>,
     \<lparr>step_op = CRUSH_RULE_EMIT, step_arg1 = 0, step_arg2 = 0\<rparr>]"

definition erasure_rule :: "int \<Rightarrow> int \<Rightarrow> int \<Rightarrow> crush_rule_step list" where
  "erasure_rule root n ty =
    [\<lparr>step_op = CRUSH_RULE_SET_CHOOSELEAF_TRIES, step_arg1 = 5, step_arg2 = 0\<rparr>,
     \<lparr>step_op = CRUSH_RULE_SET_CHOOSE_TRIES, step_arg1 = 100, step_arg2 = 0\<rparr>,
     \<lparr>step_op = CRUSH_RULE_TAKE, step_arg1 = root, step_arg2 = 0\<rparr>,
     \<lparr>step_op = CRUSH_RULE_CHOOSELEAF_INDEP, step_arg1 = n, step_arg2 = ty\<rparr>,
     \<lparr>step_op = CRUSH_RULE_EMIT, step_arg1 = 0, step_arg2 = 0\<rparr>]"

definition demo_rules :: crush_map where
  "demo_rules = demo_map\<lparr>map_rules :=
     [Some \<lparr>rule_type = 1, rule_steps = replicated_rule (- 1) 0 1\<rparr>,
      Some \<lparr>rule_type = 3, rule_steps = erasure_rule (- 1) 3 1\<rparr>]\<rparr>"

lemma demo_rules_ok:
  "map_ok demo_rules [1, 0, 0]" "choose_args_ok demo_rules None" "max_devices demo_rules = 4"
  "chooseleaf_vary_r demo_rules = 1" "max_rules demo_rules = 2"
  "map_rules demo_rules ! 0 = Some \<lparr>rule_type = 1, rule_steps = replicated_rule (- 1) 0 1\<rparr>"
  "map_rules demo_rules ! 1 = Some \<lparr>rule_type = 3, rule_steps = erasure_rule (- 1) 3 1\<rparr>"
  "crush_bucket_at demo_rules (- 1) = Some (the (map_buckets demo_map ! 0))"
  by (simp_all add: map_ok_def bucket_ok_def demo_rules_def demo_map_def crush_bucket_at_def alg_ok_def
      upt_rec choose_args_ok_def)

theorem crush_do_rule_total_witness:
  "\<exists>res. length res \<le> 3 \<and>
    (\<forall>work. work_ok demo_rules work \<longrightarrow>
      (\<exists>work'. crush_do_rule demo_rules 1 7 3 [0x10000, 0, 0x10000, 0x10000] None
         ([0, 0, 0], [0, 0, 0], [0, 0, 0], [0, 0, 0]) work = Some (res, work') \<and> work_ok demo_rules work'))"
  by (rule crush_do_rule_total[OF demo_rules_ok(1,2) _ _ _ _ _ demo_rules_ok(7)])
    (simp_all add: demo_rules_ok CRUSH_ITEM_UNDEF_def scratch_ok_def erasure_rule_def step_ok_def)

text \<open>After \<open>take\<close>, one choose step works on one bucket.\<close>

lemma yields_take_choose_emit:
  assumes ok: "env_ok e rank" "state_ok e s" "rs_result_len s = 0"
    and b: "crush_bucket_at (re_map e) root = Some bucket"
    and one: "\<And>s' ov c. state_ok e s' \<Longrightarrow> vecs_ok e (0, ov, c) \<Longrightarrow>
      \<exists>n o1 c1. yields (re_map e) (rule_choose_one e s' step fn True root (0, ov, c)) (n, o1, c1)
        \<and> n \<le> re_result_max e \<and> length o1 = re_result_max e \<and> length c1 = re_result_max e \<and> P (take n c1)"
    and op: "step_op step = (if fn then CRUSH_RULE_CHOOSELEAF_FIRSTN else CRUSH_RULE_CHOOSELEAF_INDEP)"
  shows "\<exists>s'. yields (re_map e) (rule_steps_loop e
      [\<lparr>step_op = CRUSH_RULE_TAKE, step_arg1 = root, step_arg2 = 0\<rparr>, step,
       \<lparr>step_op = CRUSH_RULE_EMIT, step_arg1 = 0, step_arg2 = 0\<rparr>] s) s'
    \<and> P (take (rs_result_len s') (rs_result s'))"
proof -
  have R: "0 < re_result_max e" "length (rs_w s) = re_result_max e" "length (rs_o s) = re_result_max e"
      "length (rs_c s) = re_result_max e" "re_result_max e \<le> length (rs_result s)"
    using ok by (simp_all add: env_ok_def state_ok_def)
  define s1 where "s1 = s\<lparr>rs_w := (rs_w s)[0 := root], rs_wsize := 1\<rparr>"
  have root: "root < 0" "- 1 - root < int (max_buckets (re_map e))" using b by (auto simp: crush_bucket_at_Some)
  have t: "rule_take e root s = Some s1" using root b R by (auto simp: rule_take_def s1_def)
  have s1: "state_ok e s1" using rule_take_ok[OF ok(1,2), of root] t by simp
  have w1: "take 1 (rs_w s1) = [root]" "rs_wsize s1 = 1" "length (rs_w s1) = re_result_max e"
    using R by (cases "rs_w s"; simp add: s1_def)+
  have "vecs_ok e (0, rs_o s1, rs_c s1)" using R by (simp add: vecs_ok_def s1_def)
  then obtain n o1 c1 where y: "yields (re_map e) (rule_choose_one e s1 step fn True root (0, rs_o s1, rs_c s1)) (n, o1, c1)"
      "n \<le> re_result_max e" "length o1 = re_result_max e" "length c1 = re_result_max e" "P (take n c1)"
    using one[OF s1] by blast
  define s2 where "s2 = s1\<lparr>rs_w := take n c1 @ drop n o1, rs_o := rs_w s1, rs_c := c1, rs_wsize := n\<rparr>"
  define s3 where "s3 = s2\<lparr>rs_result := take n c1 @ drop n (rs_result s), rs_result_len := n, rs_wsize := 0\<rparr>"
  have "yields (re_map e) (rule_choose e step fn True s1) s2"
    using w1 y(2-4) R(1)
    by (intro yields_bind[OF y(1) _ yields_return]) (simp add: rule_choose_def s2_def)
  then have c: "yields (re_map e) (rule_step e step s1) s2"
    using op by (cases fn) (auto simp: rule_step_def[abs_def] intro: yields_cong)
  have "rule_emit e s2 = Some s3"
    using y(2-4) R ok(3) by (auto simp: rule_emit_def s2_def s3_def s1_def min_def)
  then have "yields (re_map e) (rule_steps_loop e
      [\<lparr>step_op = CRUSH_RULE_TAKE, step_arg1 = root, step_arg2 = 0\<rparr>, step,
       \<lparr>step_op = CRUSH_RULE_EMIT, step_arg1 = 0, step_arg2 = 0\<rparr>] s) s3"
    using t by (intro yields_bind[OF c _ yields_return]) (simp add: rule_step_def)
  moreover have "take (rs_result_len s3) (rs_result s3) = take n c1" using y(2,4) by (simp add: s3_def)
  ultimately show ?thesis using y(5) by metis
qed

lemma yields_replicated_rule:
  assumes "map_ok m rank" "choose_args_ok m args" "max_devices m \<le> CRUSH_ITEM_UNDEF"
    and "chooseleaf_vary_r m \<le> 32" "0 < result_max" "scratch_ok result_max scratch"
    and "ruleno < max_rules m" "map_rules m ! ruleno = Some rule" "rule_steps rule = replicated_rule root n ty"
    and "crush_bucket_at m root = Some bucket" "0 < (if n \<le> 0 then n + int result_max else n)"
  shows "\<exists>res. distinct res \<and> (\<forall>d\<in>set res. usable m weight x d)
    \<and> int (length res) \<le> (if n \<le> 0 then n + int result_max else n) \<and> length res \<le> result_max
    \<and> yields m (crush_do_rule m ruleno x result_max weight args scratch) res"
proof -
  define e where "e = \<lparr>re_map = m, re_x = x, re_result_max = result_max, re_weight = weight, re_choose_args = args\<rparr>"
  have e: "env_ok e rank" "state_ok e (init_state m scratch)" "re_map e = m" "re_result_max e = result_max"
      "re_weight e = weight" "re_x e = x"
    using assms(1-6) init_state_ok[of e scratch] by (simp_all add: e_def env_ok_def)
  define step where "step = \<lparr>step_op = CRUSH_RULE_CHOOSELEAF_FIRSTN, step_arg1 = n, step_arg2 = ty\<rparr>"
  define P where "P res \<longleftrightarrow> distinct res \<and> (\<forall>d\<in>set res. usable m weight x d)
      \<and> int (length res) \<le> (if n \<le> 0 then n + int result_max else n) \<and> length res \<le> result_max" for res
  have numrep: "rule_numrep e (step_arg1 step) = (if n \<le> 0 then n + int result_max else n)"
    by (simp add: rule_numrep_def step_def e(4))
  have one: "\<exists>k o1 c1. yields (re_map e) (rule_choose_one e s' step True True root (0, ov, c)) (k, o1, c1)
      \<and> k \<le> re_result_max e \<and> length o1 = re_result_max e \<and> length c1 = re_result_max e \<and> P (take k c1)"
    if s': "state_ok e s'" "vecs_ok e (0, ov, c)" for s' ov c
  proof -
    obtain k o1 c1 where y: "yields (re_map e) (rule_choose_one e s' step True True root (0, ov, c)) (k, o1, c1)"
        "loop_post (firstn_args_of e s' step True) 0 (re_result_max e) ov (Some c) k o1 (Some c1)"
        "length c1 = length c" "int k \<le> rule_numrep e (step_arg1 step)"
      using yields_rule_firstn[OF e(1) s', of root bucket step True] assms(10,11) numrep e(3) by auto
    have k: "k \<le> result_max" "length o1 = length ov" "length c = result_max" "length ov = result_max"
      using y(2) s'(2) by (simp_all add: loop_post_def vecs_ok_def e(4))
    have "all_new (usable m weight x) 0 k c1" using y(2) by (simp add: loop_post_def e)
    then have "P (take k c1)" using all_new_take[of _ k c1] k y(3,4) numrep by (auto simp: P_def)
    then show ?thesis using y k e(4) by auto
  qed
  obtain s where y: "yields m (rule_steps_loop e (rule_steps rule) (init_state m scratch)) s"
      "P (take (rs_result_len s) (rs_result s))"
    using yields_take_choose_emit[OF e(1,2) _ _ one, of bucket] assms(9,10) e(3)
    by (auto simp: replicated_rule_def step_def)
  have "yields m (crush_do_rule m ruleno x result_max weight args scratch) (take (rs_result_len s) (rs_result s))"
    by (rule yields_bind[OF y(1) _ yields_return]) (simp add: crush_do_rule_eq[OF assms(7,8) e_def])
  then show ?thesis using y(2) unfolding P_def by blast
qed

text \<open>
  Property C2.  The replicated rule \<open>take root; chooseleaf firstn n type; emit\<close> maps every input to
  pairwise distinct devices that exist and are not marked out, at most \<open>n\<close> of them (\<open>n\<close> counted from
  \<open>result_max\<close> when it is not positive), independently of the workspace.
\<close>

theorem replicated_rule_correct:
  assumes "map_ok m rank" "choose_args_ok m args" "max_devices m \<le> CRUSH_ITEM_UNDEF"
    and "chooseleaf_vary_r m \<le> 32" "0 < result_max" "scratch_ok result_max scratch"
    and "ruleno < max_rules m" "map_rules m ! ruleno = Some rule" "rule_steps rule = replicated_rule root n ty"
    and "crush_bucket_at m root = Some bucket" "0 < (if n \<le> 0 then n + int result_max else n)"
  shows "\<exists>res. distinct res \<and> (\<forall>d\<in>set res. usable m weight x d)
    \<and> int (length res) \<le> (if n \<le> 0 then n + int result_max else n) \<and> length res \<le> result_max
    \<and> (\<forall>work. work_ok m work \<longrightarrow>
        (\<exists>work'. crush_do_rule m ruleno x result_max weight args scratch work = Some (res, work') \<and> work_ok m work'))"
  using yields_replicated_rule[OF assms] unfolding yields_def .

theorem replicated_rule_correct_witness:
  "\<exists>res. distinct res \<and> (\<forall>d\<in>set res. usable demo_rules [0x10000, 0, 0x10000, 0x10000] 7 d)
    \<and> int (length res) \<le> (if (0::int) \<le> 0 then 0 + int 3 else 0) \<and> length res \<le> 3
    \<and> (\<forall>work. work_ok demo_rules work \<longrightarrow>
        (\<exists>work'. crush_do_rule demo_rules 0 7 3 [0x10000, 0, 0x10000, 0x10000] None
           ([0, 0, 0], [0, 0, 0], [0, 0, 0], [0, 0, 0]) work = Some (res, work') \<and> work_ok demo_rules work'))"
  by (rule replicated_rule_correct[OF demo_rules_ok(1,2) _ _ _ _ _ demo_rules_ok(6) _ demo_rules_ok(8)])
    (simp_all add: demo_rules_ok CRUSH_ITEM_UNDEF_def scratch_ok_def)

lemma yields_erasure_rule:
  assumes "map_ok m rank" "choose_args_ok m args" "max_devices m \<le> CRUSH_ITEM_UNDEF"
    and "chooseleaf_vary_r m \<le> 32" "0 < result_max" "scratch_ok result_max scratch"
    and "ruleno < max_rules m" "map_rules m ! ruleno = Some rule" "rule_steps rule = erasure_rule root n ty"
    and "crush_bucket_at m root = Some bucket" "0 < (if n \<le> 0 then n + int result_max else n)" "ty \<noteq> 0"
  shows "\<exists>res. int (length res) = min (if n \<le> 0 then n + int result_max else n) (int result_max)
    \<and> (\<forall>d\<in>set res. d = CRUSH_ITEM_NONE \<or> usable m weight x d)
    \<and> yields m (crush_do_rule m ruleno x result_max weight args scratch) res"
proof -
  define e where "e = \<lparr>re_map = m, re_x = x, re_result_max = result_max, re_weight = weight, re_choose_args = args\<rparr>"
  have e: "env_ok e rank" "state_ok e (init_state m scratch)" "re_map e = m" "re_result_max e = result_max"
      "re_weight e = weight" "re_x e = x"
    using assms(1-6) init_state_ok[of e scratch] by (simp_all add: e_def env_ok_def)
  define step where "step = \<lparr>step_op = CRUSH_RULE_CHOOSELEAF_INDEP, step_arg1 = n, step_arg2 = ty\<rparr>"
  define s0 where "s0 = (init_state m scratch)\<lparr>rs_choose_leaf_tries := 5, rs_choose_tries := 100\<rparr>"
  define numrep where "numrep = (if n \<le> 0 then n + int result_max else n)"
  define P where "P res \<longleftrightarrow> int (length res) = min numrep (int result_max)
      \<and> (\<forall>d\<in>set res. d = CRUSH_ITEM_NONE \<or> usable m weight x d)" for res
  have nr: "rule_numrep e (step_arg1 step) = numrep" "0 < numrep"
    using assms(11) by (simp_all add: rule_numrep_def step_def e(4) numrep_def)
  have one: "\<exists>k o1 c1. yields (re_map e) (rule_choose_one e s' step False True root (0, ov, c)) (k, o1, c1)
      \<and> k \<le> re_result_max e \<and> length o1 = re_result_max e \<and> length c1 = re_result_max e \<and> P (take k c1)"
    if s': "state_ok e s'" "vecs_ok e (0, ov, c)" for s' ov c
  proof -
    define k where "k = nat (min numrep (int result_max))"
    obtain o1 c1 where y: "yields (re_map e) (rule_choose_one e s' step False True root (0, ov, c)) (k, o1, c1)"
        "indep_done (indep_args_of e s' step True) 0 k ov o1" "length c1 = length c"
        "indep_leaves (indep_args_of e s' step True) 0 k o1 c1"
      using yields_rule_indep[OF e(1) s'(2), of root bucket step k s' True] assms(10,12) nr e(3,4)
      by (auto simp: k_def step_def)
    have k: "k \<le> result_max" "length o1 = result_max" "length c1 = result_max" "int k = min numrep (int result_max)"
      using y(2,3) s'(2) nr(2) by (simp_all add: indep_done_def vecs_ok_def e(4) k_def)
    have "d = CRUSH_ITEM_NONE \<or> usable m weight x d" if "d \<in> set (take k c1)" for d
      using that y(4) by (auto simp: indep_leaves_def in_set_conv_nth e split: if_splits)
    then have "P (take k c1)" using k by (simp add: P_def)
    then show ?thesis using y k e(4) by auto
  qed
  have s0: "state_ok e s0" "rs_result_len s0 = 0"
    using e(2) by (auto simp: s0_def state_ok_def init_state_def split: prod.splits)
  obtain s where y: "yields m (rule_steps_loop e [\<lparr>step_op = CRUSH_RULE_TAKE, step_arg1 = root, step_arg2 = 0\<rparr>, step,
       \<lparr>step_op = CRUSH_RULE_EMIT, step_arg1 = 0, step_arg2 = 0\<rparr>] s0) s"
      "P (take (rs_result_len s) (rs_result s))"
    using yields_take_choose_emit[OF e(1) s0 _ one, of bucket] assms(10) e(3) by (auto simp: step_def)
  have "rule_steps_loop e (rule_steps rule) (init_state m scratch) work = rule_steps_loop e
      [\<lparr>step_op = CRUSH_RULE_TAKE, step_arg1 = root, step_arg2 = 0\<rparr>, step,
       \<lparr>step_op = CRUSH_RULE_EMIT, step_arg1 = 0, step_arg2 = 0\<rparr>] s0 work" for work
    unfolding assms(9) erasure_rule_def step_def s0_def by (simp add: rule_step_def)
  then have "yields m (crush_do_rule m ruleno x result_max weight args scratch) (take (rs_result_len s) (rs_result s))"
    by (intro yields_bind[OF y(1) _ yields_return]) (simp add: crush_do_rule_eq[OF assms(7,8) e_def])
  then show ?thesis using y(2) unfolding P_def numrep_def by blast
qed

text \<open>
  Property C5.  The erasure-coded rule \<open>set_chooseleaf_tries 5; set_choose_tries 100; take root;
  chooseleaf indep n type; emit\<close> (for a type other than devices) yields exactly as many positions as
  asked for, up to \<open>result_max\<close>, and each holds either a hole or a device that exists and is not
  marked out, independently of the workspace.
\<close>

theorem erasure_rule_correct:
  assumes "map_ok m rank" "choose_args_ok m args" "max_devices m \<le> CRUSH_ITEM_UNDEF"
    and "chooseleaf_vary_r m \<le> 32" "0 < result_max" "scratch_ok result_max scratch"
    and "ruleno < max_rules m" "map_rules m ! ruleno = Some rule" "rule_steps rule = erasure_rule root n ty"
    and "crush_bucket_at m root = Some bucket" "0 < (if n \<le> 0 then n + int result_max else n)" "ty \<noteq> 0"
  shows "\<exists>res. int (length res) = min (if n \<le> 0 then n + int result_max else n) (int result_max)
    \<and> (\<forall>d\<in>set res. d = CRUSH_ITEM_NONE \<or> usable m weight x d)
    \<and> (\<forall>work. work_ok m work \<longrightarrow>
        (\<exists>work'. crush_do_rule m ruleno x result_max weight args scratch work = Some (res, work') \<and> work_ok m work'))"
  using yields_erasure_rule[OF assms] unfolding yields_def .

theorem erasure_rule_correct_witness:
  "\<exists>res. int (length res) = min (if (3::int) \<le> 0 then 3 + int 3 else 3) (int 3)
    \<and> (\<forall>d\<in>set res. d = CRUSH_ITEM_NONE \<or> usable demo_rules [0x10000, 0, 0x10000, 0x10000] 7 d)
    \<and> (\<forall>work. work_ok demo_rules work \<longrightarrow>
        (\<exists>work'. crush_do_rule demo_rules 1 7 3 [0x10000, 0, 0x10000, 0x10000] None
           ([0, 0, 0], [0, 0, 0], [0, 0, 0], [0, 0, 0]) work = Some (res, work') \<and> work_ok demo_rules work'))"
  by (rule erasure_rule_correct[OF demo_rules_ok(1,2) _ _ _ _ _ demo_rules_ok(7) _ demo_rules_ok(8),
        where ty = 1])
    (simp_all add: demo_rules_ok CRUSH_ITEM_UNDEF_def scratch_ok_def)

text \<open>
  A freshly initialised workspace is valid for its map: \<open>crush_init_workspace\<close>
  does not trip its own size check when \<open>working_size\<close> is the size of the layout, whatever the
  memory held before, and it establishes what \<open>crush_do_rule\<close> needs.
\<close>

lemma crush_init_workspace_ok:
  assumes "working_size m = workspace_bytes (map_buckets m)"
    and "\<forall>h. tries = Some h \<longrightarrow> choose_total_tries m < length h"
  shows "\<exists>work. crush_init_workspace m mem tries = Some work \<and> work_ok m work"
  using assms by (simp add: crush_init_workspace_def work_ok_def work_bucket_ok_def)

definition demo_out :: crush_map where
  "demo_out = demo_map\<lparr>map_buckets :=
     [Some \<lparr>bucket_id = - 1, bucket_type = 1, bucket_alg = CRUSH_BUCKET_LIST [0x10000] [0x10000],
            bucket_hash = 0, bucket_weight = 0x10000, bucket_items = [0]\<rparr>],
     map_rules := [Some \<lparr>rule_type = 3, rule_steps =
       [\<lparr>step_op = CRUSH_RULE_TAKE, step_arg1 = - 1, step_arg2 = 0\<rparr>,
        \<lparr>step_op = CRUSH_RULE_CHOOSELEAF_INDEP, step_arg1 = 1, step_arg2 = 0\<rparr>,
        \<lparr>step_op = CRUSH_RULE_EMIT, step_arg1 = 0, step_arg2 = 0\<rparr>]\<rparr>],
     max_devices := 1, choose_total_tries := 0, working_size := 36\<rparr>"

definition demo_out_work :: crush_work where
  "demo_out_work = \<lparr>work_buckets = [Some \<lparr>perm_x = 0, perm_n = 0, perm = [0]\<rparr>], work_choose_tries = None\<rparr>"

lemma demo_out_pick:
  "work_choose (the (map_buckets demo_out ! 0))
     (\<lambda>wb. crush_bucket_choose (the (map_buckets demo_out ! 0)) wb x r None 0) demo_out_work = Some (0, demo_out_work)"
  by (simp add: work_choose_def demo_out_def demo_map_def demo_out_work_def crush_bucket_choose_def
      bucket_list_choose_def Let_def)

lemma demo_out_try:
  assumes "ia_map a = demo_out" "ia_weight a = [0]" "ia_type a = 0" "ia_recurse_to_leaf a"
    "ia_choose_args a = None" "ia_numrep a = 1"
  shows "indep_try leaf a 0 1 0 ft (the (map_buckets demo_out ! 0)) [CRUSH_ITEM_UNDEF] (Some [CRUSH_ITEM_UNDEF]) demo_out_work
    = Some ((False, [CRUSH_ITEM_UNDEF], Some [0]), demo_out_work)"
proof -
  let ?b = "the (map_buckets demo_out ! 0)"
  have b: "bucket_items ?b \<noteq> []" by (simp add: demo_out_def)
  obtain r where r: "indep_r a ?b 0 ft = Some r" using indep_r_Some assms(6) by fastforce
  have arg: "choose_arg_of (ia_choose_args a) ?b = Some None" using assms(5) by (simp add: choose_arg_of_def)
  have d: "max_devices demo_out = 1" by (simp add: demo_out_def)
  show ?thesis
    unfolding indep_try_pick[OF r b arg demo_out_pick]
    using assms d by (simp add: item_type_def indep_leaf_step_def set_opt_def is_out_def CRUSH_ITEM_UNDEF_def)
qed

lemma demo_out_indep:
  assumes "ia_map a = demo_out" "ia_weight a = [0]" "ia_type a = 0" "ia_recurse_to_leaf a"
    "ia_choose_args a = None" "ia_numrep a = 1" "ia_tries a = 1"
  shows "crush_choose_indep a (the (map_buckets demo_out ! 0)) 1 [0] 0 (Some [0]) demo_out_work
    = Some (([CRUSH_ITEM_NONE], Some [0]), demo_out_work)"
proof -
  have "indep_rounds leaf a b 0 1 1 n out out2 w = Some ((1, out, out2), w)" for leaf b n out out2 w
    using assms(7) by (subst indep_rounds.simps) simp
  then have "indep_rounds (indep_leaf a) a (the (map_buckets demo_out ! 0)) 0 1 0 1 [CRUSH_ITEM_UNDEF]
      (Some [CRUSH_ITEM_UNDEF]) demo_out_work = Some ((1, [CRUSH_ITEM_UNDEF], Some [0]), demo_out_work)"
    using demo_out_try[OF assms(1-6)] assms(7) by (subst indep_rounds.simps) simp
  then show ?thesis
    by (simp add: crush_choose_indep_def choose_indep_with_def fill_range_def Let_def note_tries_def
        demo_out_work_def undef_to_none_def CRUSH_ITEM_UNDEF_def)
qed

text \<open>
  Property C38.  \<open>chooseleaf indep\<close> on devices hands out a device that is marked out: the leaf
  vector is written before the weight is checked and is not taken back, so when the tries are used
  up the hole in the output is overwritten by the rejected device.  Here the map has one device,
  of weight 0, and the rule returns it for every input.
\<close>

theorem chooseleaf_indep_keeps_out_device:
  "is_out [0] 0 x = Some True \<and>
   crush_do_rule demo_out 0 x 1 [0] None ([0], [0], [0], [0]) demo_out_work = Some ([0], demo_out_work)"
proof
  show "is_out [0] 0 x = Some True" by (simp add: is_out_def)
  have m: "crush_bucket_at demo_out (- 1) = Some (the (map_buckets demo_out ! 0))" "max_buckets demo_out = 1"
    "choose_total_tries demo_out = 0" "map_buckets demo_out \<noteq> []"
    by (simp_all add: crush_bucket_at_def demo_out_def)
  have "map_rules demo_out = [Some \<lparr>rule_type = 3, rule_steps =
       [\<lparr>step_op = CRUSH_RULE_TAKE, step_arg1 = - 1, step_arg2 = 0\<rparr>,
        \<lparr>step_op = CRUSH_RULE_CHOOSELEAF_INDEP, step_arg1 = 1, step_arg2 = 0\<rparr>,
        \<lparr>step_op = CRUSH_RULE_EMIT, step_arg1 = 0, step_arg2 = 0\<rparr>]\<rparr>]"
    by (simp add: demo_out_def)
  then show "crush_do_rule demo_out 0 x 1 [0] None ([0], [0], [0], [0]) demo_out_work = Some ([0], demo_out_work)"
    using m by (simp add: crush_do_rule_def rule_step_def rule_take_def rule_choose_def rule_choose_one_def
        rule_numrep_def rule_emit_def demo_out_indep[unfolded One_nat_def] Let_def)
qed

end
