(* ===== verification/Hobject.thy ===== *)
theory Hobject
  imports Crush_Hash "HOL-Library.List_Lexorder" "HOL-Library.Char_ord" "HOL-Library.Product_Lexorder"
begin

text \<open>
  Names of objects in the object store, \<open>common/hobject.h\<close> and \<open>common/hobject.cc\<close>: the total order
  by the bit-reversed hash (\<open>common/reverse.c\<close>), and the textual form with its parser.  Strings are
  lists of 8-bit characters compared as unsigned bytes; a C string ends where the list ends.
\<close>

unbundle bit_operations_syntax

section \<open>common/reverse.c\<close>

definition reverse_bits :: "u32 \<Rightarrow> u32" where
  "reverse_bits v =
    (if v = 0 then v
     else let v = (drop_bit 1 v AND 0x55555555) OR push_bit 1 (v AND 0x55555555);
              v = (drop_bit 2 v AND 0x33333333) OR push_bit 2 (v AND 0x33333333);
              v = (drop_bit 4 v AND 0x0F0F0F0F) OR push_bit 4 (v AND 0x0F0F0F0F);
              v = (drop_bit 8 v AND 0x00FF00FF) OR push_bit 8 (v AND 0x00FF00FF)
          in drop_bit 16 v OR push_bit 16 v)"

definition reverse_nibbles :: "u32 \<Rightarrow> u32" where
  "reverse_nibbles v =
    (let v = push_bit 4 (v AND 0x0f0f0f0f) OR drop_bit 4 (v AND 0xf0f0f0f0);
         v = push_bit 8 (v AND 0x00ff00ff) OR drop_bit 8 (v AND 0xff00ff00)
     in push_bit 16 (v AND 0x0000ffff) OR drop_bit 16 (v AND 0xffff0000))"

text \<open>
  One exchange of neighbouring groups of \<open>k\<close> bits: the mask \<open>c\<close> has the bits at the positions
  whose group is even, and bit \<open>n\<close> of the result is bit \<open>partner k n\<close> of the argument.
\<close>

definition partner :: "nat \<Rightarrow> nat \<Rightarrow> nat" where
  "partner k n = (if even (n div k) then n + k else n - k)"

definition swap_groups :: "nat \<Rightarrow> u32 \<Rightarrow> u32 \<Rightarrow> u32" where
  "swap_groups k c v = (drop_bit k v AND c) OR push_bit k (v AND c)"

lemma all_below: "list_all P [0..<m] \<Longrightarrow> n < m \<Longrightarrow> P n"
  by (simp add: list_all_iff)

lemma bit_beyond: "32 \<le> n \<Longrightarrow> \<not> bit (v :: u32) n"
  using bit_imp_le_length[of v n] by auto

lemma swap_groups_bit:
  assumes c: "list_all (\<lambda>n. bit c n = even (n div k)) [0..<32]" and k: "0 < k" and n: "n < 32"
  shows "bit (swap_groups k c v) n = bit v (partner k n)"
proof -
  have bits: "bit (swap_groups k c v) n \<longleftrightarrow> bit v (k + n) \<and> bit c n \<or> k \<le> n \<and> bit v (n - k) \<and> bit c (n - k)"
    using n by (auto simp: swap_groups_def bit_simps)
  have c': "bit c n = even (n div k)" "bit c (n - k) = even ((n - k) div k)"
    using all_below[OF c] n by simp_all
  show ?thesis
  proof (cases "k \<le> n")
    case True
    then have "(n - k) div k = n div k - 1" "0 < n div k" using k by (simp_all add: le_div_geq div_greater_zero_iff)
    then show ?thesis using bits c' True by (auto simp: partner_def add.commute)
  next
    case False
    then show ?thesis using bits c' by (auto simp: partner_def add.commute)
  qed
qed

lemma swap_halves_bit: "n < 32 \<Longrightarrow> bit (drop_bit 16 v OR push_bit 16 v :: u32) n = bit v (partner 16 n)"
proof -
  assume n: "n < 32"
  then have "n div 16 = (if n < 16 then 0 else 1)" by (auto intro: div_nat_eqI)
  then show ?thesis using n by (auto simp: partner_def bit_simps bit_beyond add.commute)
qed

lemma swap_masks:
  "list_all (\<lambda>n. bit (0x55555555 :: u32) n = even (n div 1)) [0..<32]"
  "list_all (\<lambda>n. bit (0x33333333 :: u32) n = even (n div 2)) [0..<32]"
  "list_all (\<lambda>n. bit (0x0F0F0F0F :: u32) n = even (n div 4)) [0..<32]"
  "list_all (\<lambda>n. bit (0x00FF00FF :: u32) n = even (n div 8)) [0..<32]"
  by code_simp+

lemma partner_less: "list_all (\<lambda>n. partner 16 n < 32 \<and> partner 8 (partner 16 n) < 32 \<and>
    partner 4 (partner 8 (partner 16 n)) < 32 \<and> partner 2 (partner 4 (partner 8 (partner 16 n))) < 32 \<and>
    partner 1 (partner 2 (partner 4 (partner 8 (partner 16 n)))) = 31 - n) [0..<32]"
  by code_simp

lemma reverse_bits_bit: "n < 32 \<Longrightarrow> bit (reverse_bits v) n = bit v (31 - n)"
proof (cases "v = 0")
  case False
  assume n: "n < 32"
  note p = all_below[OF partner_less n]
  have "reverse_bits v = (let w = swap_groups 8 0x00FF00FF (swap_groups 4 0x0F0F0F0F
      (swap_groups 2 0x33333333 (swap_groups 1 0x55555555 v))) in drop_bit 16 w OR push_bit 16 w)"
    using False by (simp only: reverse_bits_def swap_groups_def Let_def if_False)
  then show ?thesis
    using n p by (simp only: Let_def swap_halves_bit swap_groups_bit swap_masks zero_less_numeral zero_less_one)
qed (simp add: reverse_bits_def)

lemma reverse_bits_reverse [simp]: "reverse_bits (reverse_bits v) = v"
  by (rule bit_word_eqI) (simp add: reverse_bits_bit)

section \<open>common/hobject.h\<close>

definition INT64_MIN :: int where "INT64_MIN = - 0x8000000000000000"

definition CEPH_NOSNAP :: nat where "CEPH_NOSNAP = 0xfffffffffffffffe"

definition CEPH_SNAPDIR :: nat where "CEPH_SNAPDIR = 0xffffffffffffffff"

text \<open>
  The caches \<open>nibblewise_key_cache\<close> and \<open>hash_reverse_bits\<close> are functions of \<open>hash\<close>, which is what
  \<open>build_hash_cache\<close> and \<open>set_bitwise_key_u32\<close> maintain.
\<close>

record hobject_t =
  ho_oid :: string
  ho_snap :: nat
  ho_hash :: u32
  ho_max :: bool
  ho_pool :: int
  ho_nspace :: string
  ho_key :: string

definition hobject_min :: hobject_t where
  "hobject_min = \<lparr>ho_oid = [], ho_snap = 0, ho_hash = 0, ho_max = False, ho_pool = INT64_MIN,
                  ho_nspace = [], ho_key = []\<rparr>"

definition hobject_get_max :: hobject_t where
  "hobject_get_max = hobject_min\<lparr>ho_max := True\<rparr>"

definition make_hobject :: "string \<Rightarrow> string \<Rightarrow> nat \<Rightarrow> u32 \<Rightarrow> int \<Rightarrow> string \<Rightarrow> hobject_t" where
  "make_hobject oid key snap hash pool nspace =
    \<lparr>ho_oid = oid, ho_snap = snap, ho_hash = hash, ho_max = False, ho_pool = pool,
     ho_nspace = nspace, ho_key = (if oid = key then [] else key)\<rparr>"

definition set_key :: "string \<Rightarrow> hobject_t \<Rightarrow> hobject_t" where
  "set_key k h = h\<lparr>ho_key := (if k = ho_oid h then [] else k)\<rparr>"

definition match_hash :: "u32 \<Rightarrow> nat \<Rightarrow> u32 \<Rightarrow> bool" where
  "match_hash to_check bits match =
    (match AND NOT (push_bit bits (- 1)) = to_check AND NOT (push_bit bits (- 1)))"

definition get_temp_pool :: "int \<Rightarrow> int" where
  "get_temp_pool pool = - 2 - pool"

definition get_logical_pool :: "hobject_t \<Rightarrow> int" where
  "get_logical_pool h = (if ho_pool h \<le> - 2 then get_temp_pool (ho_pool h) else ho_pool h)"

definition get_bitwise_key :: "hobject_t \<Rightarrow> int" where
  "get_bitwise_key h = (if ho_max h then 0x100000000 else uint (reverse_bits (ho_hash h)))"

definition get_effective_key :: "hobject_t \<Rightarrow> string" where
  "get_effective_key h = (if length (ho_key h) \<noteq> 0 then ho_key h else ho_oid h)"

section \<open>The order of objects\<close>

definition hobject_cmp :: "hobject_t \<Rightarrow> hobject_t \<Rightarrow> int" where
  "hobject_cmp l r =
    (if ho_max l < ho_max r then - 1 else if ho_max r < ho_max l then 1
     else if ho_pool l < ho_pool r then - 1 else if ho_pool r < ho_pool l then 1
     else if get_bitwise_key l < get_bitwise_key r then - 1
     else if get_bitwise_key r < get_bitwise_key l then 1
     else if ho_nspace l < ho_nspace r then - 1 else if ho_nspace r < ho_nspace l then 1
     else if \<not> (ho_key l = [] \<and> ho_key r = []) \<and> get_effective_key l < get_effective_key r then - 1
     else if \<not> (ho_key l = [] \<and> ho_key r = []) \<and> get_effective_key r < get_effective_key l then 1
     else if ho_oid l < ho_oid r then - 1 else if ho_oid r < ho_oid l then 1
     else if ho_snap l < ho_snap r then - 1 else if ho_snap r < ho_snap l then 1
     else 0)"

definition is_min :: "hobject_t \<Rightarrow> bool" where
  "is_min h \<longleftrightarrow> ho_snap h = 0 \<and> ho_hash h = 0 \<and> \<not> ho_max h \<and> ho_pool h = INT64_MIN"

definition is_max :: "hobject_t \<Rightarrow> bool option" where
  "is_max h = do { ceph_assert (\<not> ho_max h \<or> hobject_cmp h hobject_get_max = 0); Some (ho_max h) }"

definition sort_key :: "hobject_t \<Rightarrow> bool \<times> int \<times> int \<times> string \<times> string \<times> string \<times> nat" where
  "sort_key h = (ho_max h, ho_pool h, get_bitwise_key h, ho_nspace h, get_effective_key h, ho_oid h, ho_snap h)"

lemma hobject_cmp_sort_key:
  "hobject_cmp l r = (if sort_key l < sort_key r then - 1 else if sort_key r < sort_key l then 1 else 0)"
  by (auto simp: hobject_cmp_def sort_key_def get_effective_key_def less_prod_def)

text \<open>What the constructors establish: no key equal to the name, and one maximal object.\<close>

definition hobject_ok :: "hobject_t \<Rightarrow> bool" where
  "hobject_ok h \<longleftrightarrow> ho_key h \<noteq> ho_oid h \<or> ho_key h = []"

lemma hobject_ok_make: "hobject_ok (make_hobject oid key snap hash pool nspace)"
  by (auto simp: hobject_ok_def make_hobject_def)

lemma sort_key_inj:
  assumes "sort_key l = sort_key r" "hobject_ok l" "hobject_ok r" "\<not> ho_max l"
  shows "l = r"
proof -
  have "reverse_bits (ho_hash l) = reverse_bits (ho_hash r)"
    using assms(1,4) by (auto simp: sort_key_def get_bitwise_key_def word_uint_eq_iff)
  then have "ho_hash l = ho_hash r" by (metis reverse_bits_reverse)
  with assms show ?thesis
    by (auto simp: sort_key_def get_effective_key_def hobject_ok_def split: if_splits intro!: hobject_t.equality)
qed

section \<open>Numbers in text\<close>

text \<open>
  The parts of the C and C++ library that printing and parsing use: digits of a number in a
  base as \<open>operator<<\<close> and \<open>std::to_chars\<close> write them, and the scan of a number by \<open>strtol\<close> and
  \<open>sscanf\<close> (leading white space, a sign, a \<open>0x\<close> prefix in base 16, at least one digit).
\<close>

definition digit_char :: "nat \<Rightarrow> char" where
  "digit_char d = char_of (if d < 10 then 48 + d else 87 + d)"

definition digit_val :: "nat \<Rightarrow> char \<Rightarrow> nat option" where
  "digit_val b c =
    (let i = (of_char c :: nat);
         d = (if 48 \<le> i \<and> i \<le> 57 then i - 48
              else if 97 \<le> i \<and> i \<le> 102 then i - 87
              else if 65 \<le> i \<and> i \<le> 70 then i - 55 else b)
     in if d < b then Some d else None)"

definition is_digit :: "nat \<Rightarrow> char \<Rightarrow> bool" where
  "is_digit b c \<longleftrightarrow> digit_val b c \<noteq> None"

function to_base :: "nat \<Rightarrow> nat \<Rightarrow> string" where
  "to_base b n = (if b < 2 \<or> n < b then [digit_char n] else to_base b (n div b) @ [digit_char (n mod b)])"
  by auto
termination by (relation "measure snd") (auto intro!: div_less_dividend)

declare to_base.simps [simp del]

definition num_val :: "nat \<Rightarrow> string \<Rightarrow> nat" where
  "num_val b s = foldl (\<lambda>a c. a * b + the (digit_val b c)) 0 s"

definition is_space :: "char \<Rightarrow> bool" where
  "is_space c \<longleftrightarrow> c = CHR '' '' \<or> 9 \<le> (of_char c :: nat) \<and> (of_char c :: nat) \<le> 13"

definition scan_sign :: "string \<Rightarrow> bool \<times> string" where
  "scan_sign s =
    (case s of [] \<Rightarrow> (False, s)
     | c # t \<Rightarrow> if c = CHR ''-'' then (True, t) else if c = CHR ''+'' then (False, t) else (False, s))"

definition skip_0x :: "nat \<Rightarrow> string \<Rightarrow> string" where
  "skip_0x b s =
    (if b = 16 \<and> 3 \<le> length s \<and> s ! 0 = CHR ''0'' \<and> (s ! 1 = CHR ''x'' \<or> s ! 1 = CHR ''X'') \<and> is_digit b (s ! 2)
     then drop 2 s else s)"

definition scan_num :: "nat \<Rightarrow> string \<Rightarrow> (int \<times> string) option" where
  "scan_num b s =
    (let (neg, s) = scan_sign (dropWhile is_space s);
         s = skip_0x b s;
         ds = takeWhile (is_digit b) s
     in if ds = [] then None
        else Some (if neg then - int (num_val b ds) else int (num_val b ds), dropWhile (is_digit b) s))"

text \<open>Conversion to the target type: clamped for \<open>%lld\<close>, through \<open>unsigned long long\<close> for \<open>%x\<close> and \<open>%llx\<close>.\<close>

definition as_lld :: "int \<Rightarrow> int" where
  "as_lld v = max (- (2 ^ 63)) (min (2 ^ 63 - 1) v)"

definition as_ull :: "int \<Rightarrow> nat" where
  "as_ull v = nat (if 0 \<le> v then min (2 ^ 64 - 1) v else - (min (2 ^ 64 - 1) (- v)) mod 2 ^ 64)"

section \<open>common/hobject.cc\<close>

definition escape_char :: "char \<Rightarrow> string" where
  "escape_char c =
    (let i = (of_char c :: nat) in
     if i \<le> 15 then CHR ''%'' # CHR ''0'' # to_base 16 i
     else if i < 32 \<or> 127 \<le> i \<or> c = CHR ''%'' \<or> c = CHR '':'' \<or> c = CHR ''/'' then CHR ''%'' # to_base 16 i
     else [c])"

definition append_out_escaped :: "string \<Rightarrow> string" where
  "append_out_escaped s = concat (map escape_char s)"

definition strtol_hex :: "string \<Rightarrow> int" where
  "strtol_hex s = (case scan_num 16 s of None \<Rightarrow> 0 | Some (v, _) \<Rightarrow> v)"

text \<open>
  The rest of the input starts at a colon or is empty.  A percent sign with fewer than two
  characters behind it makes the loop read past the end of the string.
\<close>

fun decode_out_escaped :: "string \<Rightarrow> (string \<times> string) option" where
  "decode_out_escaped [] = Some ([], [])"
| "decode_out_escaped (c # cs) =
    (if c = CHR '':'' then Some ([], c # cs)
     else if c = CHR ''%''
     then (case cs of
             a # b # rest \<Rightarrow>
               do { (out, p) \<leftarrow> decode_out_escaped rest;
                    Some (char_of (strtol_hex [a, b] mod 256) # out, p) }
           | _ \<Rightarrow> None)
     else do { (out, p) \<leftarrow> decode_out_escaped cs; Some (c # out, p) })"

definition print_snap :: "nat \<Rightarrow> string" where
  "print_snap s =
    (if s = CEPH_NOSNAP then ''head'' else if s = CEPH_SNAPDIR then ''snapdir'' else to_base 16 s)"

definition print_int :: "int \<Rightarrow> string" where
  "print_int i = (if i < 0 then CHR ''-'' # to_base 10 (nat (- i)) else to_base 10 (nat i))"

definition pad8 :: "string \<Rightarrow> string" where
  "pad8 s = replicate (8 - length s) (CHR ''0'') @ s"

definition hobject_print :: "hobject_t \<Rightarrow> string option" where
  "hobject_print h =
    (if hobject_cmp h hobject_min = 0 then Some ''MIN''
     else do { mx \<leftarrow> is_max h;
               if mx then Some ''MAX''
               else Some (print_int (ho_pool h) @ '':'' @ pad8 (to_base 16 (unat (reverse_bits (ho_hash h)))) @ '':''
                 @ append_out_escaped (ho_nspace h) @ '':'' @ append_out_escaped (ho_key h) @ '':''
                 @ append_out_escaped (ho_oid h) @ '':'' @ print_snap (ho_snap h)) })"

text \<open>\<open>sscanf(start, "%lld:%x:", &po, &h)\<close>, when it converts both numbers.\<close>

definition scan_pool_hash :: "string \<Rightarrow> (int \<times> u32) option" where
  "scan_pool_hash s =
    do { (po, r) \<leftarrow> scan_num 10 s;
         case r of [] \<Rightarrow> None
         | c # r \<Rightarrow> if c = CHR '':''
                    then do { (h, _) \<leftarrow> scan_num 16 r; Some (as_lld po, word_of_nat (as_ull h)) }
                    else None }"

definition scan_snap :: "string \<Rightarrow> nat option" where
  "scan_snap s =
    (if take 4 s = ''head'' then (if drop 4 s = [] then Some CEPH_NOSNAP else None)
     else do { (v, _) \<leftarrow> scan_num 16 s;
               if dropWhile (is_digit 16) (tl s) = [] then Some (as_ull v) else None })"

text \<open>
  \<open>parse\<close> returns false, here \<open>Some None\<close>, and leaves the object alone when the text is not one of
  an object.
\<close>

definition expect_colon :: "string \<Rightarrow> string option" where
  "expect_colon s = (case s of [] \<Rightarrow> None | c # t \<Rightarrow> if c = CHR '':'' then Some t else None)"

definition parse_names :: "string \<Rightarrow> (string \<times> string \<times> string \<times> string) option option" where
  "parse_names s =
    do { (ns, p) \<leftarrow> decode_out_escaped s;
         case expect_colon p of None \<Rightarrow> Some None
         | Some p \<Rightarrow> do {
             (k, p) \<leftarrow> decode_out_escaped p;
             case expect_colon p of None \<Rightarrow> Some None
             | Some p \<Rightarrow> do {
                 (name, p) \<leftarrow> decode_out_escaped p;
                 case expect_colon p of None \<Rightarrow> Some None
                 | Some p \<Rightarrow> Some (Some (ns, k, name, p)) } } }"

definition hobject_parse :: "string \<Rightarrow> hobject_t option option" where
  "hobject_parse str =
    (if str = ''MIN'' then Some (Some hobject_min)
     else if str = ''MAX'' then Some (Some hobject_get_max)
     else let s = takeWhile (\<lambda>c. of_char c \<noteq> (0 :: nat)) str in
       case scan_pool_hash s of None \<Rightarrow> Some None
       | Some (po, h) \<Rightarrow>
           (case expect_colon (dropWhile (is_digit 16) (tl (dropWhile (\<lambda>c. c \<noteq> CHR '':'') s))) of
              None \<Rightarrow> Some None
            | Some p \<Rightarrow>
                do { r \<leftarrow> parse_names p;
                     case r of None \<Rightarrow> Some None
                     | Some (ns, k, name, p) \<Rightarrow>
                         (case scan_snap p of None \<Rightarrow> Some None
                          | Some sn \<Rightarrow>
                              Some (Some (set_key k
                                \<lparr>ho_oid = name, ho_snap = sn, ho_hash = reverse_bits h, ho_max = False,
                                 ho_pool = po, ho_nspace = ns, ho_key = []\<rparr>))) }))"

section \<open>Printing and parsing are inverse\<close>

lemma of_digit_char: "d < 16 \<Longrightarrow> of_char (digit_char d) = (if d < 10 then 48 + d else 87 + d :: nat)"
  by (simp add: digit_char_def)

lemma digit_val_char: "d < b \<Longrightarrow> b \<le> 16 \<Longrightarrow> digit_val b (digit_char d) = Some d"
  by (simp add: digit_val_def of_digit_char Let_def)

lemma is_digit_char [simp]: "d < b \<Longrightarrow> b \<le> 16 \<Longrightarrow> is_digit b (digit_char d)"
  by (simp add: is_digit_def digit_val_char)

lemma num_val_snoc: "num_val b (s @ [c]) = num_val b s * b + the (digit_val b c)"
  by (simp add: num_val_def)

lemma to_base_digits:
  assumes "2 \<le> b" "b \<le> 16"
  shows "to_base b n \<noteq> [] \<and> list_all (is_digit b) (to_base b n) \<and> num_val b (to_base b n) = n"
proof (induction n rule: less_induct)
  case (less n)
  show ?case
  proof (cases "n < b")
    case True
    then show ?thesis using assms by (subst (1 2 3) to_base.simps) (simp add: num_val_def digit_val_char)
  next
    case False
    then have "n div b < n" using assms by (intro div_less_dividend) auto
    then show ?thesis
      using less.IH[of "n div b"] False assms
      by (subst (1 2 3) to_base.simps) (auto simp: num_val_snoc digit_val_char)
  qed
qed

lemma to_base_small: "n < 256 \<Longrightarrow> 16 \<le> n \<Longrightarrow> to_base 16 n = [digit_char (n div 16), digit_char (n mod 16)]"
  by (simp add: to_base.simps)

text \<open>A character that cannot continue or start a number.\<close>

lemma digit_no_space: "is_digit b c \<Longrightarrow> b \<le> 16 \<Longrightarrow> \<not> is_space c \<and> c \<noteq> CHR ''-'' \<and> c \<noteq> CHR ''+'' \<and> c \<noteq> CHR ''x'' \<and> c \<noteq> CHR ''X''"
  by (auto simp: is_digit_def digit_val_def is_space_def Let_def split: if_splits)

lemma takeWhile_digits:
  assumes "list_all P ds" "rest = [] \<or> \<not> P (hd rest)"
  shows "takeWhile P (ds @ rest) = ds" "dropWhile P (ds @ rest) = rest"
  using assms by (induction ds) (auto; cases rest; auto)+

lemma skip_0x_digits:
  assumes "ds \<noteq> []" "list_all (is_digit b) ds" "rest = [] \<or> hd rest \<noteq> CHR ''x'' \<and> hd rest \<noteq> CHR ''X''" "b \<le> 16"
  shows "skip_0x b (ds @ rest) = ds @ rest"
proof -
  have "(ds @ rest) ! 1 \<noteq> CHR ''x'' \<and> (ds @ rest) ! 1 \<noteq> CHR ''X''" if "3 \<le> length (ds @ rest)"
  proof (cases "length ds = 1")
    case True
    then have "(ds @ rest) ! 1 = hd rest" using that by (cases rest) (auto simp: nth_append)
    then show ?thesis using assms(3) True that by auto
  next
    case False
    then have "1 < length ds" using assms(1) by (cases ds) auto
    then have "is_digit b ((ds @ rest) ! 1)" using assms(2) by (simp add: nth_append list_all_length)
    then show ?thesis using digit_no_space[OF _ assms(4)] by blast
  qed
  then show ?thesis by (auto simp: skip_0x_def)
qed

lemma scan_num_digits:
  assumes "ds \<noteq> []" "list_all (is_digit b) ds" "rest = [] \<or> \<not> is_digit b (hd rest) \<and> hd rest \<noteq> CHR ''x'' \<and> hd rest \<noteq> CHR ''X''"
    and "b \<le> 16"
  shows "scan_num b (ds @ rest) = Some (int (num_val b ds), rest)"
    and "scan_num b (CHR ''-'' # ds @ rest) = Some (- int (num_val b ds), rest)"
proof -
  obtain d ds' where d: "ds = d # ds'" "is_digit b d" using assms(1,2) by (cases ds) auto
  note nd = digit_no_space[OF d(2) assms(4)]
  have dash: "\<not> is_space (CHR ''-'')" by (simp add: is_space_def)
  have start: "dropWhile is_space (ds @ rest) = ds @ rest" "scan_sign (ds @ rest) = (False, ds @ rest)"
    "dropWhile is_space (CHR ''-'' # ds @ rest) = CHR ''-'' # ds @ rest"
    "scan_sign (CHR ''-'' # ds @ rest) = (True, ds @ rest)"
    using nd d(1) by (auto simp: scan_sign_def is_space_def)
  have rest: "rest = [] \<or> \<not> is_digit b (hd rest)" "rest = [] \<or> hd rest \<noteq> CHR ''x'' \<and> hd rest \<noteq> CHR ''X''"
    using assms(3) by auto
  note parts = skip_0x_digits[OF assms(1,2) rest(2) assms(4)] takeWhile_digits[OF assms(2) rest(1)]
  show "scan_num b (ds @ rest) = Some (int (num_val b ds), rest)"
    and "scan_num b (CHR ''-'' # ds @ rest) = Some (- int (num_val b ds), rest)"
    using assms(1) dash by (simp_all add: scan_num_def start parts del: append.simps)
qed

lemma num_val_zeros: "b \<le> 16 \<Longrightarrow> 0 < b \<Longrightarrow> num_val b (replicate k (CHR ''0'') @ s) = num_val b s"
  by (induction k) (auto simp: num_val_def digit_val_def)

lemma is_digit_zero: "0 < b \<Longrightarrow> is_digit b (CHR ''0'')"
  by (simp add: is_digit_def digit_val_def)

lemma pad8_digits:
  "pad8 (to_base 16 n) \<noteq> [] \<and> list_all (is_digit 16) (pad8 (to_base 16 n)) \<and> num_val 16 (pad8 (to_base 16 n)) = n"
  using to_base_digits[of 16 n] by (auto simp: pad8_def num_val_zeros is_digit_zero list_all_iff)

lemma colon_rest: "\<not> is_digit b (CHR '':'')" "CHR '':'' \<noteq> CHR ''x''" "CHR '':'' \<noteq> CHR ''X''"
  by (auto simp: is_digit_def digit_val_def)

section \<open>Escaping\<close>

lemma strtol_hex_two: "i < 256 \<Longrightarrow> strtol_hex [digit_char (i div 16), digit_char (i mod 16)] = int i"
proof -
  assume i: "i < 256"
  have d: "i div 16 < 16" "i mod 16 < 16" using i by auto
  then have "scan_num 16 ([digit_char (i div 16), digit_char (i mod 16)] @ []) =
      Some (int (num_val 16 [digit_char (i div 16), digit_char (i mod 16)]), [])"
    by (intro scan_num_digits) auto
  then show ?thesis using d by (simp add: strtol_hex_def num_val_def digit_val_char)
qed

lemma escape_char_decode:
  "decode_out_escaped (escape_char c @ t) = do { (out, p) \<leftarrow> decode_out_escaped t; Some (c # out, p) }"
proof -
  define i where "i = (of_char c :: nat)"
  have i: "i < 256" by (simp add: i_def)
  have v: "char_of (int i mod 256) = c" by (simp add: i_def)
  have two: "decode_out_escaped (CHR ''%'' # digit_char (i div 16) # digit_char (i mod 16) # t) =
      do { (out, p) \<leftarrow> decode_out_escaped t; Some (c # out, p) }"
    using strtol_hex_two[OF i] v by simp
  show ?thesis
  proof (cases "i \<le> 15")
    case True
    have "digit_char 0 = CHR ''0''" by code_simp
    then have "escape_char c = [CHR ''%'', digit_char (i div 16), digit_char (i mod 16)]"
      using True by (simp add: escape_char_def i_def[symmetric] to_base.simps)
    then show ?thesis using two by simp
  next
    case False
    show ?thesis
    proof (cases "i < 32 \<or> 127 \<le> i \<or> c = CHR ''%'' \<or> c = CHR '':'' \<or> c = CHR ''/''")
      case True
      then have "escape_char c = [CHR ''%'', digit_char (i div 16), digit_char (i mod 16)]"
        using False to_base_small[OF i] by (simp add: escape_char_def i_def[symmetric] Let_def)
      then show ?thesis using two by simp
    next
      case plain: False
      then have "escape_char c = [c]" using False by (simp add: escape_char_def i_def[symmetric] Let_def)
      then show ?thesis using plain by simp
    qed
  qed
qed

lemma decode_escaped: "decode_out_escaped (append_out_escaped s @ CHR '':'' # rest) = Some (s, CHR '':'' # rest)"
proof (induction s)
  case (Cons c s)
  have "append_out_escaped (c # s) @ CHR '':'' # rest = escape_char c @ append_out_escaped s @ CHR '':'' # rest"
    by (simp add: append_out_escaped_def)
  then show ?case using Cons by (simp add: escape_char_decode)
qed (simp add: append_out_escaped_def)

lemma parse_names_escaped:
  "parse_names (append_out_escaped ns @ CHR '':'' # append_out_escaped k @ CHR '':'' # append_out_escaped name @ CHR '':'' # rest) =
    Some (Some (ns, k, name, rest))"
  by (simp add: parse_names_def decode_escaped expect_colon_def)

section \<open>The round trip\<close>

definition no_nul :: "string \<Rightarrow> bool" where
  "no_nul s \<longleftrightarrow> list_all (\<lambda>c. of_char c \<noteq> (0 :: nat)) s"

lemma no_nul_simps [simp]: "no_nul []" "no_nul (c # s) \<longleftrightarrow> of_char c \<noteq> (0 :: nat) \<and> no_nul s"
  "no_nul (s @ t) \<longleftrightarrow> no_nul s \<and> no_nul t"
  by (simp_all add: no_nul_def)

lemma digits_no_nul: "list_all (is_digit b) s \<Longrightarrow> b \<le> 16 \<Longrightarrow> no_nul s"
  by (induction s) (auto simp: is_digit_def digit_val_def Let_def split: if_splits)

lemma to_base_no_nul: "2 \<le> b \<Longrightarrow> b \<le> 16 \<Longrightarrow> no_nul (to_base b n)"
  using to_base_digits[of b n] digits_no_nul by blast

lemma escaped_no_nul: "no_nul (append_out_escaped s)"
proof (induction s)
  case (Cons c s)
  have "no_nul (escape_char c)"
    using to_base_no_nul[of 16 "of_char c"] by (auto simp: escape_char_def Let_def)
  then show ?case using Cons by (simp add: append_out_escaped_def)
qed (simp add: append_out_escaped_def)

lemma digits_no_colon: "list_all (is_digit b) s \<Longrightarrow> b \<le> 16 \<Longrightarrow> CHR '':'' \<notin> set s"
  using colon_rest(1)[of b] by (auto simp: list_all_iff)

lemma print_int_facts:
  shows "no_nul (print_int i)" "CHR '':'' \<notin> set (print_int i)" "print_int i \<noteq> []" "hd (print_int i) \<noteq> CHR ''M''"
    and "scan_num 10 (print_int i @ CHR '':'' # rest) = Some (i, CHR '':'' # rest)"
proof -
  note ds = to_base_digits[of 10 "nat i", simplified] to_base_digits[of 10 "nat (- i)", simplified]
  show "no_nul (print_int i)"
    using to_base_no_nul[of 10] by (simp add: print_int_def)
  show "CHR '':'' \<notin> set (print_int i)"
    using ds digits_no_colon[of 10] by (auto simp: print_int_def)
  show "print_int i \<noteq> []" using ds by (simp add: print_int_def)
  have "\<not> is_digit 10 (CHR ''M'')" by (simp add: is_digit_def digit_val_def)
  then show "hd (print_int i) \<noteq> CHR ''M''"
    using ds by (auto simp: print_int_def list_all_iff dest: hd_in_set)
  show "scan_num 10 (print_int i @ CHR '':'' # rest) = Some (i, CHR '':'' # rest)"
    using scan_num_digits[of "to_base 10 (nat i)" 10 "CHR '':'' # rest"]
      scan_num_digits[of "to_base 10 (nat (- i))" 10 "CHR '':'' # rest"] ds colon_rest
    by (auto simp: print_int_def)
qed

lemma scan_snap_print:
  assumes "sn < 2 ^ 64"
  shows "scan_snap (print_snap sn) = (if sn = CEPH_SNAPDIR then None else Some sn)" "no_nul (print_snap sn)"
proof -
  have dir: "scan_snap ''snapdir'' = None"
    by (simp add: scan_snap_def scan_num_def scan_sign_def skip_0x_def is_space_def is_digit_def digit_val_def)
  have hex: "scan_snap (to_base 16 sn) = Some sn"
  proof -
    note ds = to_base_digits[of 16 sn, simplified]
    have "take 4 (to_base 16 sn) \<noteq> ''head''"
    proof
      assume "take 4 (to_base 16 sn) = ''head''"
      then have "CHR ''h'' \<in> set (take 4 (to_base 16 sn))" by simp
      then have "is_digit 16 (CHR ''h'')" using ds by (meson in_set_takeD list_all_iff)
      then show False by (simp add: is_digit_def digit_val_def)
    qed
    moreover have "dropWhile (is_digit 16) (tl (to_base 16 sn)) = []"
      using ds by (cases "to_base 16 sn") (auto simp: list_all_iff dropWhile_eq_Nil_conv)
    ultimately show ?thesis
      using scan_num_digits(1)[of "to_base 16 sn" 16 "[]"] ds assms by (simp add: scan_snap_def as_ull_def)
  qed
  show "scan_snap (print_snap sn) = (if sn = CEPH_SNAPDIR then None else Some sn)"
  proof (cases "sn = CEPH_NOSNAP")
    case True
    then show ?thesis by (simp add: print_snap_def scan_snap_def CEPH_NOSNAP_def CEPH_SNAPDIR_def)
  next
    case False
    then show ?thesis using dir hex by (simp add: print_snap_def)
  qed
  show "no_nul (print_snap sn)" using to_base_no_nul[of 16 sn] by (simp add: print_snap_def)
qed

lemma scan_pool_hash_print:
  assumes "- (2 ^ 63) \<le> po" "po < 2 ^ 63"
  shows "scan_pool_hash (print_int po @ CHR '':'' # pad8 (to_base 16 (unat h)) @ CHR '':'' # rest) = Some (po, h)"
proof -
  have "scan_num 16 (pad8 (to_base 16 (unat h)) @ CHR '':'' # rest) = Some (int (unat h), CHR '':'' # rest)"
    using scan_num_digits(1)[of "pad8 (to_base 16 (unat h))" 16 "CHR '':'' # rest"] pad8_digits[of "unat h"] colon_rest
    by auto
  moreover have "as_lld po = po" using assms by (simp add: as_lld_def)
  moreover have "as_ull (int (unat h)) = unat h" using uint_lt2p[of h] by (simp add: as_ull_def min_def)
  ultimately show ?thesis by (simp add: scan_pool_hash_def print_int_facts(5))
qed

lemma hobject_cmp_eq: "hobject_cmp l r = 0 \<longleftrightarrow> sort_key l = sort_key r"
  by (auto simp: hobject_cmp_sort_key)

lemma hobject_parse_print:
  assumes "\<not> ho_max h" "hobject_ok h" "- (2 ^ 63) \<le> ho_pool h" "ho_pool h < 2 ^ 63" "ho_snap h < 2 ^ 64"
    and s: "s = print_int (ho_pool h) @ CHR '':'' # pad8 (to_base 16 (unat (reverse_bits (ho_hash h)))) @ CHR '':''
       # append_out_escaped (ho_nspace h) @ CHR '':'' # append_out_escaped (ho_key h) @ CHR '':''
       # append_out_escaped (ho_oid h) @ CHR '':'' # print_snap (ho_snap h)"
  shows "hobject_parse s = Some (if ho_snap h = CEPH_SNAPDIR then None else Some h)"
proof -
  have "no_nul s"
    using print_int_facts(1) digits_no_nul[of 16 "pad8 (to_base 16 (unat (reverse_bits (ho_hash h))))"]
      pad8_digits escaped_no_nul scan_snap_print(2)[OF assms(5)] by (simp add: s)
  then have whole: "takeWhile (\<lambda>c. of_char c \<noteq> (0 :: nat)) s = s" by (auto simp: no_nul_def list_all_iff)
  have "hd s \<noteq> CHR ''M''" using print_int_facts(3,4)[of "ho_pool h"] by (simp add: s)
  then have named: "s \<noteq> ''MIN''" "s \<noteq> ''MAX''" by auto
  have "dropWhile (\<lambda>c. c \<noteq> CHR '':'') s = drop (length (print_int (ho_pool h))) s"
    using print_int_facts(2)[of "ho_pool h"] by (auto simp: s dropWhile_append)
  then have names: "expect_colon (dropWhile (is_digit 16) (tl (dropWhile (\<lambda>c. c \<noteq> CHR '':'') s))) =
      Some (append_out_escaped (ho_nspace h) @ CHR '':'' # append_out_escaped (ho_key h) @ CHR '':''
       # append_out_escaped (ho_oid h) @ CHR '':'' # print_snap (ho_snap h))"
    using takeWhile_digits(2)[of "is_digit 16" "pad8 (to_base 16 (unat (reverse_bits (ho_hash h))))"] pad8_digits colon_rest
    by (simp add: s expect_colon_def)
  have same: "set_key (ho_key h) \<lparr>ho_oid = ho_oid h, ho_snap = ho_snap h, ho_hash = ho_hash h, ho_max = False,
      ho_pool = ho_pool h, ho_nspace = ho_nspace h, ho_key = []\<rparr> = h"
    using assms(1,2) by (auto simp: set_key_def hobject_ok_def)
  show ?thesis
    unfolding hobject_parse_def Let_def whole if_not_P[OF named(1)] if_not_P[OF named(2)] names
    using scan_pool_hash_print[OF assms(3,4)] scan_snap_print(1)[OF assms(5)] same
    by (simp add: s parse_names_escaped)
qed

text \<open>
  Property C32.  Parsing the text that \<open>operator<<\<close> prints for an object gives the object back, for
  every name, key, namespace, pool, hash and snapshot, whatever bytes the strings hold; only a
  snapshot equal to \<open>CEPH_SNAPDIR\<close> is printed as a word that \<open>parse\<close> rejects.
\<close>

theorem hobject_print_parse_roundtrip:
  assumes "hobject_ok h" "ho_max h \<Longrightarrow> h = hobject_get_max"
    and "- (2 ^ 63) \<le> ho_pool h" "ho_pool h < 2 ^ 63" "ho_snap h < 2 ^ 64"
  shows "hobject_print h \<bind> hobject_parse = Some (if ho_snap h = CEPH_SNAPDIR then None else Some h)"
proof (cases "ho_max h")
  case True
  then have "h = hobject_get_max" using assms(2) by blast
  then show ?thesis
    by (auto simp: hobject_print_def hobject_get_max_def hobject_min_def is_max_def hobject_cmp_def
        hobject_parse_def CEPH_SNAPDIR_def)
next
  case False
  show ?thesis
  proof (cases "hobject_cmp h hobject_min = 0")
    case True
    then have "sort_key h = sort_key hobject_min" by (simp add: hobject_cmp_eq)
    then have "h = hobject_min"
      using sort_key_inj[OF _ assms(1) _ False] by (simp add: hobject_ok_def hobject_min_def)
    then show ?thesis
      by (simp add: hobject_print_def hobject_cmp_def hobject_parse_def hobject_min_def CEPH_SNAPDIR_def)
  next
    case other: False
    then show ?thesis
      using hobject_parse_print[OF False assms(1,3-5) refl] False
      by (simp add: hobject_print_def is_max_def)
  qed
qed

theorem hobject_print_parse_roundtrip_witness:
  "hobject_print (make_hobject ''a:b%'' ''k'' 5 0xdeadbeef (- 3) [CHR 0x00]) \<bind> hobject_parse =
    Some (Some (make_hobject ''a:b%'' ''k'' 5 0xdeadbeef (- 3) [CHR 0x00]))"
  using hobject_print_parse_roundtrip[of "make_hobject ''a:b%'' ''k'' 5 0xdeadbeef (- 3) [CHR 0x00]"]
  by (simp add: hobject_ok_make) (simp add: make_hobject_def CEPH_SNAPDIR_def)

text \<open>
  Property C33.  \<open>cmp\<close> is a total order on the objects the constructors make: it is antisymmetric,
  transitive, and 0 only for equal objects.
\<close>

theorem hobject_cmp_total_order:
  "hobject_cmp l r = - hobject_cmp r l \<and>
   (hobject_cmp a b \<le> 0 \<longrightarrow> hobject_cmp b c \<le> 0 \<longrightarrow> hobject_cmp a c \<le> 0) \<and>
   (hobject_ok l \<longrightarrow> hobject_ok r \<longrightarrow> (ho_max l \<longrightarrow> l = hobject_get_max) \<longrightarrow> (ho_max r \<longrightarrow> r = hobject_get_max) \<longrightarrow>
     (hobject_cmp l r = 0 \<longleftrightarrow> l = r))"
proof (intro conjI impI)
  show "hobject_cmp l r = - hobject_cmp r l" by (auto simp: hobject_cmp_sort_key)
  show "hobject_cmp a c \<le> 0" if "hobject_cmp a b \<le> 0" "hobject_cmp b c \<le> 0"
    using that by (auto simp: hobject_cmp_sort_key split: if_splits)
  assume ok: "hobject_ok l" "hobject_ok r" and mx: "ho_max l \<longrightarrow> l = hobject_get_max" "ho_max r \<longrightarrow> r = hobject_get_max"
  show "hobject_cmp l r = 0 \<longleftrightarrow> l = r"
  proof
    assume "hobject_cmp l r = 0"
    then have "sort_key l = sort_key r" by (simp add: hobject_cmp_eq)
    then show "l = r" using sort_key_inj[OF _ ok] mx by (cases "ho_max l") (auto simp: sort_key_def)
  qed (simp add: hobject_cmp_eq)
qed

theorem hobject_cmp_total_order_witness:
  "hobject_cmp (make_hobject ''a'' [] 0 1 0 []) (make_hobject ''a'' [] 0 2 0 []) =
     - hobject_cmp (make_hobject ''a'' [] 0 2 0 []) (make_hobject ''a'' [] 0 1 0 []) \<and>
   hobject_cmp (make_hobject ''a'' [] 0 1 0 []) (make_hobject ''a'' [] 0 2 0 []) \<noteq> 0"
  using hobject_cmp_total_order[of "make_hobject ''a'' [] 0 1 0 []" "make_hobject ''a'' [] 0 2 0 []"
      hobject_min hobject_min hobject_min]
  by (simp add: hobject_ok_make) (simp add: make_hobject_def)

text \<open>A percent sign at the end of a name makes the decoder read past the end of the string.\<close>

lemma decode_out_escaped_overrun: "decode_out_escaped ''a%'' = None" "decode_out_escaped ''a%4'' = None"
  by simp_all

end
