(* ===== verification/Osd_Pg.thy ===== *)
theory Osd_Pg
  imports Hobject
begin

text \<open>
  Placement groups: how a hash position is rounded to a placement group (\<open>ceph_stable_mod\<close> of
  \<open>include/rados.h\<close>), how groups split and merge when their number changes, and the ranges of
  objects they hold (\<open>pg_t\<close> and \<open>pg_pool_t\<close> of \<open>osd/osd_types.h\<close> and \<open>osd/osd_types.cc\<close>).  Seeds and
  numbers of groups are unsigned 32-bit values, modelled as naturals; where the code shifts one
  left the result is reduced modulo \<open>2 ^ 32\<close>.
\<close>

unbundle bit_operations_syntax

section \<open>Rounding a hash position\<close>

fun cbits :: "nat \<Rightarrow> nat" where
  "cbits v = (if v = 0 then 0 else Suc (cbits (v div 2)))"

declare cbits.simps [simp del]

definition ceph_stable_mod :: "nat \<Rightarrow> nat \<Rightarrow> nat \<Rightarrow> nat" where
  "ceph_stable_mod x b bmask = (if x AND bmask < b then x AND bmask else x AND (bmask div 2))"

record pg_t =
  m_pool :: int
  m_seed :: nat

datatype pool_type = TYPE_REPLICATED | TYPE_ERASURE | TYPE_OTHER nat

record pg_pool_t =
  pool_kind :: pool_type
  pool_size :: nat
  crush_rule_no :: int
  object_hash :: nat
  hashpspool :: bool
  pg_num :: nat
  pgp_num :: nat
  pg_num_mask :: nat
  pgp_num_mask :: nat
  pg_num_pending :: nat
  last_change :: nat

definition calc_pg_masks :: "pg_pool_t \<Rightarrow> pg_pool_t" where
  "calc_pg_masks p = p\<lparr>pg_num_mask := 2 ^ cbits (pg_num p - 1) - 1, pgp_num_mask := 2 ^ cbits (pgp_num p - 1) - 1\<rparr>"

definition set_pg_num :: "nat \<Rightarrow> pg_pool_t \<Rightarrow> pg_pool_t" where
  "set_pg_num n p = calc_pg_masks (p\<lparr>pg_num := n, pg_num_pending := n\<rparr>)"

definition set_pgp_num :: "nat \<Rightarrow> pg_pool_t \<Rightarrow> pg_pool_t" where
  "set_pgp_num n p = calc_pg_masks (p\<lparr>pgp_num := n\<rparr>)"

definition can_shift_osds :: "pg_pool_t \<Rightarrow> bool option" where
  "can_shift_osds p =
    (case pool_kind p of TYPE_REPLICATED \<Rightarrow> Some True | TYPE_ERASURE \<Rightarrow> Some False | TYPE_OTHER _ \<Rightarrow> None)"

definition hash_key :: "pg_pool_t \<Rightarrow> string \<Rightarrow> string \<Rightarrow> u32 option" where
  "hash_key p key ns =
    (let bytes = (\<lambda>s. map (\<lambda>c. word_of_nat (of_char c)) s :: u8 list) in
     if ns = [] then ceph_str_hash (object_hash p) (bytes key) (length key)
     else ceph_str_hash (object_hash p) (bytes ns @ 0x1f # bytes key) (length key + length ns + 1))"

definition raw_hash_to_pg :: "pg_pool_t \<Rightarrow> nat \<Rightarrow> nat" where
  "raw_hash_to_pg p v = ceph_stable_mod v (pg_num p) (pg_num_mask p)"

definition raw_pg_to_pg :: "pg_pool_t \<Rightarrow> pg_t \<Rightarrow> pg_t" where
  "raw_pg_to_pg p pg = pg\<lparr>m_seed := ceph_stable_mod (m_seed pg) (pg_num p) (pg_num_mask p)\<rparr>"

definition raw_pg_to_pps :: "pg_pool_t \<Rightarrow> pg_t \<Rightarrow> u32" where
  "raw_pg_to_pps p pg =
    (let ps = word_of_nat (ceph_stable_mod (m_seed pg) (pgp_num p) (pgp_num_mask p)) in
     if hashpspool p then crush_hash32_2 CRUSH_HASH_RJENKINS1 ps (word_of_int (m_pool pg))
     else ps + word_of_int (m_pool pg))"

definition get_pg_num_divisor :: "pg_pool_t \<Rightarrow> pg_t \<Rightarrow> nat" where
  "get_pg_num_divisor p pg =
    (if pg_num p = pg_num_mask p + 1 then pg_num p
     else let mask = pg_num_mask p div 2 in
          if m_seed pg AND mask < pg_num p AND mask then pg_num_mask p + 1
          else (pg_num_mask p + 1) div 2)"

definition get_random_pg_position :: "pg_pool_t \<Rightarrow> pg_t \<Rightarrow> u32 \<Rightarrow> u32" where
  "get_random_pg_position p pg seed =
    (let r = crush_hash32_2 CRUSH_HASH_RJENKINS1 seed 123;
         r = (if pg_num p = pg_num_mask p + 1 then r AND NOT (word_of_nat (pg_num_mask p))
              else let smaller_mask = pg_num_mask p div 2 in
                   if m_seed pg AND smaller_mask < pg_num p AND smaller_mask
                   then r AND NOT (word_of_nat (pg_num_mask p))
                   else r AND NOT (word_of_nat smaller_mask))
     in r OR word_of_nat (m_seed pg))"

section \<open>Splitting and merging\<close>

definition get_ancestor :: "nat \<Rightarrow> pg_t \<Rightarrow> pg_t" where
  "get_ancestor old_pg_num pg =
    (let old_bits = cbits old_pg_num; old_mask = 2 ^ old_bits - 1 in
     pg\<lparr>m_seed := ceph_stable_mod (m_seed pg) old_pg_num old_mask\<rparr>)"

text \<open>The loop over \<open>n\<close>; \<open>children\<close> are the seeds found so far.\<close>

partial_function (option) split_loop ::
  "nat \<Rightarrow> nat \<Rightarrow> nat \<Rightarrow> nat \<Rightarrow> nat \<Rightarrow> nat list \<Rightarrow> nat list option"
where
  "split_loop seed old_pg_num new_pg_num old_bits n children =
    (let next_bit = (n * 2 ^ (old_bits - 1)) mod 2 ^ 32;
         s = next_bit OR seed
     in if s < old_pg_num \<or> s = seed
        then split_loop seed old_pg_num new_pg_num old_bits ((n + 1) mod 2 ^ 32) children
        else if new_pg_num \<le> s then Some children
        else if ceph_stable_mod s old_pg_num (2 ^ old_bits - 1) = seed
        then split_loop seed old_pg_num new_pg_num old_bits ((n + 1) mod 2 ^ 32) (s # children)
        else split_loop seed old_pg_num new_pg_num old_bits ((n + 1) mod 2 ^ 32) children)"

definition is_split :: "nat \<Rightarrow> nat \<Rightarrow> pg_t \<Rightarrow> (bool \<times> pg_t set) option" where
  "is_split old_pg_num new_pg_num pg =
    (if old_pg_num \<le> m_seed pg then Some (False, {})
     else if new_pg_num \<le> old_pg_num then Some (False, {})
     else do { cs \<leftarrow> split_loop (m_seed pg) old_pg_num new_pg_num (cbits old_pg_num) 1 [];
               Some (cs \<noteq> [], set (map (\<lambda>s. \<lparr>m_pool = m_pool pg, m_seed = s\<rparr>) cs)) })"

definition get_split_bits :: "nat \<Rightarrow> pg_t \<Rightarrow> nat option" where
  "get_split_bits n pg =
    (if n = 1 then Some 0
     else do { ceph_assert (1 < n);
               let p = cbits n;
               ceph_assert (p \<noteq> 0);
               if m_seed pg mod 2 ^ (p - 1) < n mod 2 ^ (p - 1) then Some p else Some (p - 1) })"

definition get_parent :: "pg_t \<Rightarrow> pg_t option" where
  "get_parent pg =
    do { let bits = cbits (m_seed pg);
         ceph_assert (bits \<noteq> 0);
         Some (pg\<lparr>m_seed := m_seed pg AND (2 ^ (bits - 1) - 1)\<rparr>) }"

partial_function (option) parent_loop :: "nat \<Rightarrow> pg_t \<Rightarrow> pg_t option" where
  "parent_loop new_pg_num t =
    (if new_pg_num \<le> m_seed t then do { t \<leftarrow> get_parent t; parent_loop new_pg_num t } else Some t)"

definition is_merge_source :: "nat \<Rightarrow> nat \<Rightarrow> pg_t \<Rightarrow> pg_t option option" where
  "is_merge_source old_pg_num new_pg_num pg =
    (if m_seed pg < old_pg_num \<and> new_pg_num \<le> m_seed pg
     then do { t \<leftarrow> parent_loop new_pg_num pg; Some (Some t) }
     else Some None)"

definition is_merge_target :: "nat \<Rightarrow> nat \<Rightarrow> pg_t \<Rightarrow> bool option" where
  "is_merge_target old_pg_num new_pg_num pg =
    (if m_seed pg < new_pg_num then map_option fst (is_split new_pg_num old_pg_num pg) else Some False)"

fun any_parent :: "pg_t \<Rightarrow> nat list \<Rightarrow> bool option" where
  "any_parent pg [] = Some False"
| "any_parent pg (ps # rest) =
    do { q \<leftarrow> get_parent \<lparr>m_pool = m_pool pg, m_seed = ps\<rparr>;
         if q = pg then Some True else any_parent pg rest }"

text \<open>The result and, for a group that takes part in a merge, whether it is the target.\<close>

definition is_pending_merge :: "pg_pool_t \<Rightarrow> pg_t \<Rightarrow> bool option option" where
  "is_pending_merge p pg =
    (if pg_num p \<le> pg_num_pending p then Some None
     else if pg_num_pending p \<le> m_seed pg \<and> m_seed pg < pg_num p then Some (Some False)
     else do { found \<leftarrow> any_parent pg [pg_num_pending p..<pg_num p];
               Some (if found then Some True else None) })"

section \<open>The range of objects of a group\<close>

definition pg_contains :: "nat \<Rightarrow> pg_t \<Rightarrow> hobject_t \<Rightarrow> bool" where
  "pg_contains bits pg h \<longleftrightarrow>
    m_pool pg = get_logical_pool h \<and> match_hash (ho_hash h) bits (word_of_nat (m_seed pg))"

definition get_hobj_start :: "pg_t \<Rightarrow> hobject_t" where
  "get_hobj_start pg = make_hobject [] [] 0 (word_of_nat (m_seed pg)) (m_pool pg) []"

definition get_hobj_end :: "nat \<Rightarrow> pg_t \<Rightarrow> hobject_t option" where
  "get_hobj_end n pg =
    do { bits \<leftarrow> get_split_bits n pg;
         let rev_start = uint (reverse_bits (word_of_nat (m_seed pg)));
         let rev_end = (rev_start OR drop_bit bits 0xffffffff) + 1;
         if 0x100000000 \<le> rev_end
         then do { ceph_assert (rev_end = 0x100000000); Some hobject_get_max }
         else Some (make_hobject [] [] CEPH_NOSNAP (reverse_bits (word_of_int rev_end)) (m_pool pg) []) }"

section \<open>Rounding\<close>

lemma cbits_bounds: "v < 2 ^ cbits v \<and> (0 < v \<longrightarrow> 0 < cbits v \<and> 2 ^ (cbits v - 1) \<le> v)"
proof (induction v rule: cbits.induct)
  case (1 v)
  show ?case
  proof (cases "v = 0")
    case False
    have c: "cbits v = Suc (cbits (v div 2))" using False by (subst cbits.simps) simp
    have IH: "v div 2 < 2 ^ cbits (v div 2)" "0 < v div 2 \<longrightarrow> 0 < cbits (v div 2) \<and> 2 ^ (cbits (v div 2) - 1) \<le> v div 2"
      using 1[OF False] by auto
    have "2 ^ cbits (v div 2) \<le> v"
    proof (cases "v div 2 = 0")
      case True
      then have "cbits (v div 2) = 0" by (simp add: cbits.simps)
      then show ?thesis using False by simp
    next
      case pos: False
      then obtain c where "cbits (v div 2) = Suc c" "2 ^ c \<le> v div 2" using IH(2) by (cases "cbits (v div 2)") auto
      then show ?thesis by auto
    qed
    then show ?thesis using IH(1) by (auto simp: c)
  qed (simp add: cbits.simps)
qed

lemma cbits_unique: "2 ^ k \<le> v \<Longrightarrow> v < 2 ^ Suc k \<Longrightarrow> cbits v = Suc k"
proof -
  assume v: "2 ^ k \<le> v" "v < 2 ^ Suc k"
  have "0 < v" using v(1) by (metis gr0I le_zero_eq power_not_zero zero_neq_numeral)
  then have c: "v < 2 ^ cbits v" "0 < cbits v" "2 ^ (cbits v - 1) \<le> v" using cbits_bounds by auto
  have "(2::nat) ^ k < 2 ^ cbits v" using v c by linarith
  moreover have "(2::nat) ^ (cbits v - 1) < 2 ^ Suc k" using v c by linarith
  ultimately have "k < cbits v" "cbits v - 1 < Suc k" by (simp_all only: power_strict_increasing_iff[OF one_less_numeral_iff[THEN iffD2]] semiring_norm)
  then show ?thesis using c(2) by linarith
qed

lemma and_low_mask: "(x::nat) AND (2 ^ k - 1) = x mod 2 ^ k"
  by (metis mask_eq_exp_minus_1 take_bit_eq_mask take_bit_eq_mod)

lemma half_mask: "(2 ^ k - 1) div 2 = (2 ^ (k - 1) - 1 :: nat)"
  by (cases k) simp_all

lemma stable_mod_mod: "ceph_stable_mod x b (2 ^ k - 1) = (if x mod 2 ^ k < b then x mod 2 ^ k else x mod 2 ^ (k - 1))"
  by (simp only: ceph_stable_mod_def half_mask and_low_mask)

text \<open>The group of a position when there are \<open>b\<close> groups.\<close>

definition group_of :: "nat \<Rightarrow> nat \<Rightarrow> nat" where
  "group_of b x = ceph_stable_mod x b (2 ^ cbits b - 1)"

lemma group_of_mod: "group_of b x = (if x mod 2 ^ cbits b < b then x mod 2 ^ cbits b else x mod 2 ^ (cbits b - 1))"
  unfolding group_of_def by (rule stable_mod_mod)

lemma group_of_less: "0 < b \<Longrightarrow> group_of b x < b"
proof -
  assume "0 < b"
  then have "2 ^ (cbits b - 1) \<le> b" using cbits_bounds by blast
  moreover have "x mod 2 ^ (cbits b - 1) < 2 ^ (cbits b - 1)" by simp
  ultimately have "x mod 2 ^ (cbits b - 1) < b" by linarith
  then show ?thesis by (simp add: group_of_mod)
qed

text \<open>\<open>calc_pg_masks\<close> and \<open>get_ancestor\<close> use different masks for a power of two; they round alike.\<close>

lemma masks_agree: "0 < b \<Longrightarrow> ceph_stable_mod x b (2 ^ cbits (b - 1) - 1) = group_of b x"
proof (cases "b = 2 ^ cbits (b - 1)")
  case True
  define p where "p = cbits (b - 1)"
  have b: "b = 2 ^ p" using True by (simp add: p_def)
  have "cbits b = Suc p" by (rule cbits_unique) (simp_all add: b)
  moreover have "x mod 2 ^ Suc p < 2 ^ p \<Longrightarrow> x mod 2 ^ Suc p = x mod 2 ^ p"
    by (metis mod_less mod_mod_cancel le_imp_power_dvd lessI less_imp_le)
  ultimately show ?thesis unfolding p_def[symmetric] group_of_mod stable_mod_mod by (auto simp: b)
next
  case False
  assume b: "0 < b"
  have lt: "b < 2 ^ cbits (b - 1)" using False cbits_bounds[of "b - 1"] b by linarith
  then obtain k where k: "cbits (b - 1) = Suc k" using b by (cases "cbits (b - 1)") auto
  have "b \<noteq> 1" using lt by (auto simp: cbits.simps)
  then have "2 ^ k \<le> b" using cbits_bounds[of "b - 1"] b k by auto
  then have "cbits b = cbits (b - 1)" using cbits_unique[of k b] lt k by simp
  then show ?thesis by (simp add: group_of_def)
qed

lemma mod_pow_le: "k \<le> l \<Longrightarrow> (x mod 2 ^ l) mod 2 ^ k = x mod (2 ^ k :: nat)"
  by (simp add: mod_mod_cancel le_imp_power_dvd)

lemma cbits_mono: "0 < a \<Longrightarrow> a \<le> b \<Longrightarrow> cbits a \<le> cbits b"
proof -
  assume "0 < a" "a \<le> b"
  then have c: "2 ^ (cbits a - 1) \<le> a" "0 < cbits a" "b < 2 ^ cbits b" using cbits_bounds by blast+
  then have "(2::nat) ^ (cbits a - 1) < 2 ^ cbits b" using \<open>a \<le> b\<close> by linarith
  then have "cbits a - 1 < cbits b" by (metis power_less_imp_less_exp one_less_numeral_iff semiring_norm(76))
  then show ?thesis using c(2) by linarith
qed

lemma group_of_split: "0 < old \<Longrightarrow> old \<le> new \<Longrightarrow> group_of old (group_of new x) = group_of old x"
proof -
  assume o: "0 < old" "old \<le> new"
  define k where "k = cbits old"
  define l where "l = cbits new"
  have kl: "k \<le> l" using cbits_mono[OF o] by (simp add: k_def l_def)
  have low: "2 ^ (k - 1) \<le> old" "0 < k" using cbits_bounds[of old] o by (auto simp: k_def)
  show ?thesis
  proof (cases "k = l")
    case False
    then have "k \<le> l - 1" "k - 1 \<le> l - 1" using kl by linarith+
    then show ?thesis using kl
      by (simp add: group_of_mod k_def[symmetric] l_def[symmetric] mod_pow_le)
  next
    case True
    show ?thesis
    proof (cases "x mod 2 ^ k < new")
      case True
      then show ?thesis using \<open>k = l\<close> by (simp add: group_of_mod k_def[symmetric] l_def[symmetric] mod_pow_le)
    next
      case False
      define y where "y = x mod 2 ^ (k - 1)"
      have y: "y < 2 ^ (k - 1)" by (simp add: y_def)
      have "(2::nat) ^ (k - 1) \<le> 2 ^ k" by (rule power_increasing) auto
      then have "y < 2 ^ k" using y by linarith
      then have "y mod 2 ^ k = y" "y < old" using y low(1) by auto
      moreover have "group_of new x = y" "group_of old x = y"
        using False \<open>k = l\<close> o(2) by (simp_all add: group_of_mod k_def[symmetric] l_def[symmetric] y_def)
      ultimately show ?thesis by (simp add: group_of_mod k_def[symmetric])
    qed
  qed
qed

definition pool_ok :: "pg_pool_t \<Rightarrow> bool" where
  "pool_ok p \<longleftrightarrow> 0 < pg_num p \<and> pg_num_mask p = 2 ^ cbits (pg_num p - 1) - 1"

lemma raw_pg_to_pg_group: "pool_ok p \<Longrightarrow> raw_pg_to_pg p pg = pg\<lparr>m_seed := group_of (pg_num p) (m_seed pg)\<rparr>"
  using masks_agree[of "pg_num p"] by (simp add: raw_pg_to_pg_def pool_ok_def)

lemma get_ancestor_group: "get_ancestor n pg = pg\<lparr>m_seed := group_of n (m_seed pg)\<rparr>"
  by (simp add: get_ancestor_def group_of_def Let_def)

lemma pool_ok_set_pg_num: "0 < n \<Longrightarrow> pool_ok (set_pg_num n p)" "pg_num (set_pg_num n p) = n"
  by (simp_all add: pool_ok_def set_pg_num_def calc_pg_masks_def)

text \<open>
  Property C16.  Raising the number of placement groups of a pool from \<open>old\<close> to \<open>new\<close> only splits
  groups: every position maps to a group below \<open>new\<close> whose ancestor, as \<open>get_ancestor\<close> computes it,
  is the group the position had before.
\<close>

theorem pg_split_consistent:
  assumes "0 < old" "old \<le> new"
  shows "get_ancestor old (raw_pg_to_pg (set_pg_num new p) pg) = raw_pg_to_pg (set_pg_num old p) pg \<and>
    m_seed (raw_pg_to_pg (set_pg_num new p) pg) < new"
  using assms group_of_split[OF assms] group_of_less[of new]
  by (simp add: raw_pg_to_pg_group pool_ok_set_pg_num get_ancestor_group)

definition demo_pool :: pg_pool_t where
  "demo_pool = set_pgp_num 12 (set_pg_num 12
    \<lparr>pool_kind = TYPE_REPLICATED, pool_size = 3, crush_rule_no = 0, object_hash = 2, hashpspool = True,
     pg_num = 0, pgp_num = 0, pg_num_mask = 0, pgp_num_mask = 0, pg_num_pending = 0, last_change = 0\<rparr>)"

theorem pg_split_consistent_witness:
  "get_ancestor 12 (raw_pg_to_pg (set_pg_num 20 demo_pool) \<lparr>m_pool = 1, m_seed = 0xabcd\<rparr>) =
    raw_pg_to_pg (set_pg_num 12 demo_pool) \<lparr>m_pool = 1, m_seed = 0xabcd\<rparr> \<and>
   m_seed (raw_pg_to_pg (set_pg_num 20 demo_pool) \<lparr>m_pool = 1, m_seed = 0xabcd\<rparr>) < 20"
  by (rule pg_split_consistent) simp_all

section \<open>Splits\<close>

text \<open>
  The loop of \<open>is_split\<close> visits the seeds that agree with \<open>seed\<close> below bit \<open>old_bits - 1\<close>, in
  increasing order.
\<close>

lemma or_shifted: "(n * 2 ^ d) OR x = (n OR x div 2 ^ d) * 2 ^ d + x mod (2 ^ d :: nat)"
proof -
  have "drop_bit d ((n * 2 ^ d) OR x) = n OR x div 2 ^ d"
    by (simp only: drop_bit_or) (simp add: drop_bit_eq_div)
  moreover have "take_bit d ((n * 2 ^ d) OR x) = x mod 2 ^ d"
    by (simp add: take_bit_or) (simp add: take_bit_eq_mod)
  ultimately show ?thesis using bits_ident[of d "(n * 2 ^ d) OR x"] by (simp add: push_bit_eq_mult)
qed

lemma or_small: "h < 2 \<Longrightarrow> (n :: nat) OR h = (if h = 0 then n else n + of_bool (even n))"
  using or_one_eq[of n] by (auto simp: less_2_cases_iff)

lemma or_shifted_mono:
  assumes "x < 2 * 2 ^ d" "n \<le> m"
  shows "(n * 2 ^ d) OR x \<le> (m * 2 ^ d) OR (x :: nat)" "n * 2 ^ d \<le> (n * 2 ^ d) OR x"
proof -
  have h: "x div 2 ^ d < 2" using assms(1) by (simp add: less_mult_imp_div_less)
  have "n OR x div 2 ^ d \<le> m OR x div 2 ^ d" "n \<le> n OR x div 2 ^ d" using assms(2) h
    by (auto simp: or_small elim!: le_neq_implies_less[THEN Suc_leI])
  then show "(n * 2 ^ d) OR x \<le> (m * 2 ^ d) OR x" "n * 2 ^ d \<le> (n * 2 ^ d) OR x"
    unfolding or_shifted by (simp_all add: trans_le_add1)
qed

definition split_children :: "nat \<Rightarrow> nat \<Rightarrow> nat \<Rightarrow> nat set" where
  "split_children old_pg_num new_pg_num seed =
    {s. old_pg_num \<le> s \<and> s < new_pg_num \<and> group_of old_pg_num s = seed}"

lemma child_visited:
  assumes s: "s \<in> split_children old new seed" and d: "cbits old = Suc d" and o: "0 < old"
  shows "(s div 2 ^ d * 2 ^ d) OR seed = s" "0 < s div 2 ^ d"
proof -
  have le: "2 ^ d \<le> old" using cbits_bounds[of old] d o by simp
  have s': "old \<le> s" "group_of old s = seed" using s by (auto simp: split_children_def)
  show "0 < s div 2 ^ d" using le s'(1) by (simp add: div_greater_zero_iff)
  show "(s div 2 ^ d * 2 ^ d) OR seed = s"
  proof (cases "s mod 2 ^ Suc d < old")
    case True
    then have seed: "seed = s mod 2 ^ Suc d" using s'(2) d by (simp add: group_of_mod)
    have "seed mod 2 ^ d = s mod 2 ^ d" "seed div 2 ^ d = s div 2 ^ d mod 2"
      unfolding seed by (simp_all add: mod_mult2_eq mod_pow_le[of d "Suc d", simplified] mult.commute[of 2])
    moreover have "s div 2 ^ d OR (s div 2 ^ d mod 2) = s div 2 ^ d"
      by (simp add: or_small) (simp add: even_iff_mod_2_eq_zero)
    ultimately show ?thesis unfolding or_shifted by (simp only: div_mult_mod_eq)
  next
    case False
    then have "seed = s mod 2 ^ d" using s'(2) d by (simp add: group_of_mod)
    then show ?thesis unfolding or_shifted by (simp, simp only: div_mult_mod_eq)
  qed
qed

lemma split_loop_step:
  assumes "s = (n * 2 ^ d) OR seed" "n * 2 ^ d < 2 ^ 32" "n + 1 < 2 ^ 32" "cbits old = Suc d"
  shows "split_loop seed old new (Suc d) n cs =
    (if s < old \<or> s = seed then split_loop seed old new (Suc d) (Suc n) cs
     else if new \<le> s then Some cs
     else split_loop seed old new (Suc d) (Suc n) (if group_of old s = seed then s # cs else cs))"
  using assms by (subst split_loop.simps) (simp add: Let_def group_of_def)

lemma split_loop_complete:
  assumes "cbits old = Suc d" "seed < old" "old < new" "new \<le> N * 2 ^ d" "N * 2 ^ d < 2 ^ 32" "N + 1 < 2 ^ 32"
    "n \<le> N" "set cs \<subseteq> split_children old new seed"
    "{s \<in> split_children old new seed. s div 2 ^ d < n} \<subseteq> set cs"
  shows "\<exists>r. split_loop seed old new (Suc d) n cs = Some r \<and> set r = split_children old new seed"
  using assms(7,8,9)
proof (induction "N - n" arbitrary: n cs)
  case 0
  let ?s = "(N * 2 ^ d) OR seed"
  have d: "seed < 2 * 2 ^ d" using assms(1,2) cbits_bounds[of old] by simp
  have n: "n = N" using 0 by simp
  have "new \<le> ?s" using or_shifted_mono(2)[OF d, of N N] assms(4) by simp
  then have "split_loop seed old new (Suc d) n cs = Some cs"
    using assms(2,3) unfolding n split_loop_step[OF refl assms(5,6,1)] by simp
  moreover have "s div 2 ^ d < n" if "s \<in> split_children old new seed" for s
    using that assms(4) n by (auto simp: split_children_def less_mult_imp_div_less)
  ultimately show ?case using 0 by blast
next
  case (Suc m)
  let ?s = "(n * 2 ^ d) OR seed" and ?C = "split_children old new seed"
  have d: "seed < 2 * 2 ^ d" using assms(1,2) cbits_bounds[of old] by simp
  have n: "n < N" "n + 1 < 2 ^ 32" using Suc(2) assms(6) by simp_all
  then have "n * 2 ^ d \<le> N * 2 ^ d" by simp
  then have n': "n * 2 ^ d < 2 ^ 32" using assms(5) by linarith
  have o: "0 < old" using assms(2) by simp
  have key: "{s \<in> ?C. s div 2 ^ d < Suc n} \<subseteq> insert ?s (set cs)"
    using child_visited(1)[OF _ assms(1) o] Suc.prems(3) by (force simp: less_Suc_eq)
  have IH: "\<exists>r. split_loop seed old new (Suc d) (Suc n) cs' = Some r \<and> set r = ?C"
    if "set cs' \<subseteq> ?C" "{s \<in> ?C. s div 2 ^ d < Suc n} \<subseteq> set cs'" for cs'
    using Suc(1)[of "Suc n" cs'] Suc(2) n(1) that by simp
  have stop: "?C \<subseteq> set cs" if "new \<le> ?s"
  proof
    fix s assume s: "s \<in> ?C"
    have "?s \<le> s" if "n \<le> s div 2 ^ d" using or_shifted_mono(1)[OF d that] child_visited(1)[OF s assms(1) o] by simp
    then have "s div 2 ^ d < n" using s \<open>new \<le> ?s\<close> by (fastforce simp: split_children_def)
    then show "s \<in> set cs" using s Suc.prems(3) by blast
  qed
  have out: "?s \<notin> ?C" if "?s < old \<or> ?s = seed \<or> group_of old ?s \<noteq> seed"
    using that assms(2) by (auto simp: split_children_def)
  show ?case
  proof (cases "?s < old \<or> ?s = seed")
    case True
    then show ?thesis using IH[of cs] key out Suc.prems(2) unfolding split_loop_step[OF refl n' n(2) assms(1)] by auto
  next
    case False
    then have "?s \<in> ?C" if "?s < new" "group_of old ?s = seed" using that by (simp add: split_children_def)
    then show ?thesis
      using False stop key out IH[of cs] IH[of "?s # cs"] Suc.prems(2)
      unfolding split_loop_step[OF refl n' n(2) assms(1)] by auto
  qed
qed

lemma is_split_children:
  assumes "m_seed pg < old" "old < new" "new \<le> 2 ^ 31"
  shows "is_split old new pg =
    Some (split_children old new (m_seed pg) \<noteq> {}, (\<lambda>s. \<lparr>m_pool = m_pool pg, m_seed = s\<rparr>) ` split_children old new (m_seed pg))"
proof -
  obtain d where d: "cbits old = Suc d" using cbits_bounds[of old] assms by (cases "cbits old") auto
  have le: "2 ^ d \<le> old" using cbits_bounds[of old] d assms(1) by simp
  define N where "N = new div 2 ^ d + 1"
  have "new div 2 ^ d * 2 ^ d + new mod 2 ^ d = new" by (rule div_mult_mod_eq)
  moreover have "new mod 2 ^ d < 2 ^ d" by simp
  ultimately have N: "new \<le> N * 2 ^ d" "N * 2 ^ d \<le> new + 2 ^ d" unfolding N_def add_mult_distrib by linarith+
  have "(2::nat) ^ d < 2 ^ 31" using le assms by linarith
  then have "N * 2 ^ d < 2 ^ 32" using N(2) assms(3) by simp
  moreover have "N \<le> new + 1" "1 \<le> N" by (simp_all add: N_def)
  moreover then have "N + 1 < 2 ^ 32" using assms(3) by simp
  moreover have "{s \<in> split_children old new (m_seed pg). s div 2 ^ d < 1} \<subseteq> set []"
    using child_visited(2)[OF _ d] assms(1) by fastforce
  ultimately obtain r where "split_loop (m_seed pg) old new (Suc d) 1 [] = Some r" "set r = split_children old new (m_seed pg)"
    using split_loop_complete[OF d assms(1,2) N(1), of 1 "[]"] by auto
  moreover have "r \<noteq> [] \<longleftrightarrow> set r \<noteq> {}" by simp
  ultimately show ?thesis using assms(1,2) d by (simp add: is_split_def)
qed

text \<open>
  Property C17.  The loop of \<open>is_split\<close>, which counts upwards over the bits above the old mask and has
  no bound of its own, ends and finds what the brute force search beside it would find: the
  children are the new seeds whose ancestor is this group, and the flag says whether there is one.
\<close>

theorem is_split_brute_force:
  assumes "m_seed pg < old" "old < new" "new \<le> 2 ^ 31"
  shows "is_split old new pg =
    (let children = filter (\<lambda>c. get_ancestor old c = pg) (map (\<lambda>x. \<lparr>m_pool = m_pool pg, m_seed = x\<rparr>) [old..<new])
     in Some (children \<noteq> [], set children))"
proof -
  have "get_ancestor old \<lparr>m_pool = m_pool pg, m_seed = x\<rparr> = pg \<longleftrightarrow> group_of old x = m_seed pg" for x
    by (cases pg) (simp add: get_ancestor_group)
  then have "filter (\<lambda>c. get_ancestor old c = pg) (map (\<lambda>x. \<lparr>m_pool = m_pool pg, m_seed = x\<rparr>) [old..<new]) =
      map (\<lambda>x. \<lparr>m_pool = m_pool pg, m_seed = x\<rparr>) (filter (\<lambda>x. group_of old x = m_seed pg) [old..<new])"
    by (simp add: filter_map o_def)
  moreover have "split_children old new (m_seed pg) = set (filter (\<lambda>x. group_of old x = m_seed pg) [old..<new])"
    by (auto simp: split_children_def)
  moreover have "xs \<noteq> [] \<longleftrightarrow> set xs \<noteq> {}" for xs :: "nat list" by simp
  ultimately show ?thesis
    by (simp only: is_split_children[OF assms] Let_def set_map map_is_Nil_conv)
qed

theorem is_split_brute_force_witness:
  "is_split 5 12 \<lparr>m_pool = 1, m_seed = 1\<rparr> = Some (True, {\<lparr>m_pool = 1, m_seed = 5\<rparr>, \<lparr>m_pool = 1, m_seed = 9\<rparr>})"
proof -
  have "filter (\<lambda>c. get_ancestor 5 c = \<lparr>m_pool = 1, m_seed = 1\<rparr>) (map (\<lambda>x. \<lparr>m_pool = 1, m_seed = x\<rparr>) [5..<12]) =
      [\<lparr>m_pool = 1, m_seed = 5\<rparr>, \<lparr>m_pool = 1, m_seed = 9\<rparr>]" by code_simp
  then show ?thesis using is_split_brute_force[of "\<lparr>m_pool = 1, m_seed = 1\<rparr>" 5 12] by simp
qed

section \<open>Merges\<close>

lemma group_of_self: "y < b \<Longrightarrow> group_of b y = y"
  using cbits_bounds[of b] by (simp add: group_of_mod)

lemma group_of_parent: "0 < b \<Longrightarrow> b \<le> y \<Longrightarrow> group_of b (y mod 2 ^ (cbits y - 1)) = group_of b y"
proof (cases "cbits b = cbits y")
  case True
  assume b: "0 < b" "b \<le> y"
  then have "y mod 2 ^ cbits y = y" "2 ^ (cbits y - 1) \<le> b" using cbits_bounds[of y] cbits_bounds[of b] True by simp_all
  moreover have "y mod 2 ^ (cbits y - 1) < 2 ^ (cbits y - 1)" by simp
  ultimately have "y mod 2 ^ (cbits y - 1) < b" by linarith
  then show ?thesis using group_of_self \<open>y mod 2 ^ cbits y = y\<close> b(2) True by (simp add: group_of_mod[of b y])
next
  case False
  assume b: "0 < b" "b \<le> y"
  then have "cbits b \<le> cbits y - 1" using cbits_mono[OF b] False by linarith
  then show ?thesis by (simp add: group_of_mod mod_pow_le)
qed

lemma get_parent_mod: "0 < m_seed pg \<Longrightarrow> get_parent pg = Some (pg\<lparr>m_seed := m_seed pg mod 2 ^ (cbits (m_seed pg) - 1)\<rparr>)"
  using cbits_bounds[of "m_seed pg"] and_low_mask[of "m_seed pg" "cbits (m_seed pg) - 1"] by (simp add: get_parent_def)

lemma parent_less: "0 < y \<Longrightarrow> y mod 2 ^ (cbits y - 1) < y"
proof -
  assume "0 < y"
  then have "2 ^ (cbits y - 1) \<le> y" using cbits_bounds by blast
  moreover have "y mod 2 ^ (cbits y - 1) < 2 ^ (cbits y - 1)" by simp
  ultimately show ?thesis by linarith
qed

lemma parent_loop_ancestor: "0 < new \<Longrightarrow> parent_loop new pg = Some (get_ancestor new pg)"
proof (induction "m_seed pg" arbitrary: pg rule: less_induct)
  case less
  show ?case
  proof (cases "new \<le> m_seed pg")
    case True
    let ?q = "pg\<lparr>m_seed := m_seed pg mod 2 ^ (cbits (m_seed pg) - 1)\<rparr>"
    have "parent_loop new ?q = Some (get_ancestor new ?q)" using less True parent_less[of "m_seed pg"] by simp
    then show ?thesis using True less(2) group_of_parent[of new "m_seed pg"]
      by (subst parent_loop.simps) (simp add: get_parent_mod get_ancestor_group)
  next
    case False
    then show ?thesis by (subst parent_loop.simps) (simp add: get_ancestor_group group_of_self)
  qed
qed

text \<open>
  Property C21.  Merging undoes splitting.  When \<open>pg_num\<close> shrinks from \<open>old\<close> to \<open>new\<close>, the walk over
  parents in \<open>is_merge_source\<close> ends for every group that disappears, at its ancestor; that group is
  a merge target, and splitting it from \<open>new\<close> to \<open>old\<close> gives the merged group back.
\<close>

theorem merge_undoes_split:
  assumes "0 < new" "new \<le> m_seed pg" "m_seed pg < old" "old \<le> 2 ^ 31"
  shows "\<exists>parent children. is_merge_source old new pg = Some (Some parent) \<and> parent = get_ancestor new pg \<and>
    m_seed parent < new \<and> is_merge_target old new parent = Some True \<and>
    is_split new old parent = Some (True, children) \<and> pg \<in> children"
proof -
  let ?p = "get_ancestor new pg"
  have p: "m_seed ?p < new" "m_pool ?p = m_pool pg" using assms(1) by (simp_all add: get_ancestor_group group_of_less)
  have "m_seed pg \<in> split_children new old (m_seed ?p)"
    using assms by (simp add: split_children_def get_ancestor_group)
  moreover have "\<lparr>m_pool = m_pool pg, m_seed = m_seed pg\<rparr> = pg" by (cases pg) simp
  ultimately have "is_split new old ?p = Some (True, (\<lambda>s. \<lparr>m_pool = m_pool pg, m_seed = s\<rparr>) ` split_children new old (m_seed ?p))"
    "pg \<in> (\<lambda>s. \<lparr>m_pool = m_pool pg, m_seed = s\<rparr>) ` split_children new old (m_seed ?p)"
    using is_split_children[of ?p new old] p assms by force+
  then show ?thesis using assms p
    by (auto simp: is_merge_source_def parent_loop_ancestor is_merge_target_def)
qed

theorem merge_undoes_split_witness:
  "\<exists>parent children. is_merge_source 12 5 \<lparr>m_pool = 1, m_seed = 11\<rparr> = Some (Some parent) \<and> parent = get_ancestor 5 \<lparr>m_pool = 1, m_seed = 11\<rparr> \<and>
    m_seed parent < 5 \<and> is_merge_target 12 5 parent = Some True \<and>
    is_split 5 12 parent = Some (True, children) \<and> \<lparr>m_pool = 1, m_seed = 11\<rparr> \<in> children"
  by (rule merge_undoes_split) simp_all

section \<open>The bits that decide membership\<close>

lemma demo_pool_ok: "pool_ok demo_pool" "pg_num demo_pool = 12"
  by code_simp+

lemma mod_double: "h mod 2 ^ Suc d = h mod 2 ^ d \<or> h mod 2 ^ Suc d = h mod 2 ^ d + (2 ^ d :: nat)"
  using mod_mult2_eq[of h "2 ^ d" 2] by (cases "h div 2 ^ d mod 2 = 0") (auto simp: mult.commute)

lemma get_split_bits_exact:
  assumes "0 < n" "m_seed pg < n"
  shows "\<exists>b. get_split_bits n pg = Some b \<and> b \<le> cbits n \<and> m_seed pg < 2 ^ b \<and>
    (\<forall>h. group_of n h = m_seed pg \<longleftrightarrow> h mod 2 ^ b = m_seed pg)"
proof (cases "n = 1")
  case True
  then show ?thesis using assms group_of_less[of n] by (simp add: get_split_bits_def)
next
  case False
  then obtain d where d: "cbits n = Suc d" using cbits_bounds[of n] assms by (cases "cbits n") auto
  let ?s = "m_seed pg" and ?r = "n mod 2 ^ d"
  have n: "2 ^ d \<le> n" "n < 2 * 2 ^ d" using cbits_bounds[of n] d assms by auto
  then have r: "n = 2 ^ d + ?r" by (simp add: mod_if[of n] le_mod_geq)
  have b: "get_split_bits n pg = Some (if ?s mod 2 ^ d < ?r then Suc d else d)"
    using False assms(1) d by (simp add: get_split_bits_def)
  show ?thesis
  proof (cases "?s mod 2 ^ d < ?r")
    case True
    have "h mod 2 ^ Suc d < n" if "group_of n h = ?s" for h
    proof (rule ccontr)
      assume h: "\<not> h mod 2 ^ Suc d < n"
      then have "h mod 2 ^ d = ?s" using that d by (simp add: group_of_mod)
      moreover from this have "?s mod 2 ^ d = ?s" by (metis mod_mod_trivial)
      ultimately show False using h r True mod_double[of h d] by linarith
    qed
    then have "group_of n h = ?s \<longleftrightarrow> h mod 2 ^ Suc d = ?s" for h
      using assms(2) group_of_mod[of n h] unfolding d diff_Suc_1 by metis
    then show ?thesis using True b d n assms(2) by (intro exI[of _ "Suc d"]) simp
  next
    case False
    have s: "?s < 2 ^ d"
    proof (rule ccontr)
      assume *: "\<not> ?s < 2 ^ d"
      then have "?s mod 2 ^ d = ?s - 2 ^ d" using n assms(2) by (simp add: le_mod_geq)
      then show False using * False r assms(2) by linarith
    qed
    then have rs: "?r \<le> ?s" using False by simp
    have "h mod 2 ^ d = ?s" if "group_of n h = ?s" for h
      using that d s mod_double[of h d] by (auto simp: group_of_mod split: if_splits)
    moreover have "group_of n h = ?s" if "h mod 2 ^ d = ?s" for h
      using that d mod_double[of h d] r rs by (auto simp: group_of_mod)
    ultimately show ?thesis using False b d s by (intro exI[of _ d]) auto
  qed
qed

section \<open>The range of objects of a group\<close>

lemma bit_reverse: "bit (uint (reverse_bits h)) i \<longleftrightarrow> i < 32 \<and> bit h (31 - i)"
  by (auto simp: bit_uint_iff reverse_bits_bit)

lemma reverse_prefix:
  assumes "b \<le> 32"
  shows "uint (reverse_bits h) div 2 ^ (32 - b) = uint (reverse_bits s) div 2 ^ (32 - b) \<longleftrightarrow> take_bit b h = take_bit b s"
proof -
  have "uint (reverse_bits h) div 2 ^ (32 - b) = uint (reverse_bits s) div 2 ^ (32 - b) \<longleftrightarrow>
      (\<forall>i. 32 - b + i < 32 \<longrightarrow> bit h (31 - (32 - b + i)) = bit s (31 - (32 - b + i)))"
    unfolding drop_bit_eq_div[symmetric] bit_eq_iff bit_drop_bit_eq o_def bit_reverse by auto
  also have "\<dots> \<longleftrightarrow> (\<forall>j < b. bit h j = bit s j)" (is "?A \<longleftrightarrow> ?B")
  proof
    have "31 - (32 - b + (b - 1 - j)) = j" "32 - b + (b - 1 - j) < 32" if "j < b" for j
      using assms that by linarith+
    then show ?B if ?A using that by metis
  qed (use assms in auto)
  also have "\<dots> \<longleftrightarrow> take_bit b h = take_bit b s"
    using assms by (simp add: bit_eq_iff bit_take_bit_iff) (metis order_less_le_trans)
  finally show ?thesis .
qed

lemma reverse_start:
  assumes "b \<le> 32" "s < 2 ^ b"
  shows "uint (reverse_bits (word_of_nat s)) mod 2 ^ (32 - b) = 0"
    "uint (reverse_bits (word_of_nat s)) OR drop_bit b 0xffffffff = uint (reverse_bits (word_of_nat s)) + 2 ^ (32 - b) - 1"
proof -
  let ?R = "uint (reverse_bits (word_of_nat s))"
  have nb: "\<not> bit s j" if "b \<le> j" for j
    using assms(2) that by (metis bit_take_bit_iff take_bit_nat_eq_self_iff not_less)
  show 0: "?R mod 2 ^ (32 - b) = 0"
    unfolding take_bit_eq_mod[symmetric] using nb
    by (auto simp: bit_eq_iff bit_take_bit_iff bit_reverse bit_of_nat_iff)
  have m: "drop_bit b (0xffffffff :: int) = mask (32 - b)"
    using drop_bit_mask_eq[of b 32, where 'a = int] by (simp add: mask_eq_exp_minus_1)
  have "?R AND mask (32 - b) = 0" using 0 by (simp add: take_bit_eq_mod flip: take_bit_eq_mask)
  then show "?R OR drop_bit b 0xffffffff = ?R + 2 ^ (32 - b) - 1"
    unfolding m by (simp add: disjunctive_add_eq_or[symmetric] mask_eq_exp_minus_1)
qed

lemma div_range: "0 < k \<Longrightarrow> s mod k = 0 \<Longrightarrow> s \<le> r \<and> r < s + k \<longleftrightarrow> r div k = s div (k :: int)"
proof -
  assume k: "0 < k" "s mod k = 0"
  define q where "q = s div k"
  have s: "s = q * k" using k(2) div_mult_mod_eq[of s k] by (simp add: q_def)
  have r: "r = r div k * k + r mod k" "0 \<le> r mod k" "r mod k < k" using k(1) by simp_all
  have "r div k = q" if "s \<le> r" "r < s + k"
    using int_div_pos_eq[of r k q "r - s"] that k(1) by (simp add: s mult.commute)
  moreover have "s \<le> r \<and> r < s + k" if "r div k = q" using r unfolding that s by linarith
  ultimately show ?thesis unfolding q_def by blast
qed

lemma match_hash_take_bit: "match_hash h b s \<longleftrightarrow> take_bit b h = take_bit b s"
  by (auto simp: match_hash_def take_bit_eq_mask push_bit_minus_one_eq_not_mask)

lemma take_bit_mod:
  assumes "s < 2 ^ b" "b \<le> 32"
  shows "take_bit b (h :: u32) = take_bit b (word_of_nat s) \<longleftrightarrow> unat h mod 2 ^ b = s"
proof -
  have "(2::nat) ^ b \<le> 2 ^ 32" using assms(2) by (rule power_increasing) simp
  then have "take_bit b s = s" "take_bit 32 s = s" using assms(1) by (simp_all add: take_bit_nat_eq_self_iff)
  then show ?thesis
    by (simp add: word_unat_eq_iff unsigned_take_bit_eq unsigned_of_nat) (simp add: take_bit_eq_mod)
qed

lemma get_hobj_end_value:
  assumes "get_split_bits n pg = Some b" "b \<le> 32" "m_seed pg < 2 ^ b"
  shows "let R = uint (reverse_bits (word_of_nat (m_seed pg))) + 2 ^ (32 - b) in
    R \<le> 2 ^ 32 \<and>
    get_hobj_end n pg = Some (if R = 2 ^ 32 then hobject_get_max
      else make_hobject [] [] CEPH_NOSNAP (reverse_bits (word_of_int R)) (m_pool pg) [])"
proof -
  define R where "R = uint (reverse_bits (word_of_nat (m_seed pg)))"
  have R: "0 \<le> R" "R < 2 ^ 32" using uint_lt2p[of "reverse_bits (word_of_nat (m_seed pg))"] by (simp_all add: R_def)
  have m: "R mod 2 ^ (32 - b) = 0" using reverse_start(1)[OF assms(2,3)] by (simp add: R_def)
  have "R + 2 ^ (32 - b) \<le> 2 ^ 32"
  proof -
    define k :: int where "k = 2 ^ (32 - b)"
    have k: "0 < k" "2 ^ 32 = 2 ^ b * k" using assms(2) by (simp_all add: k_def flip: power_add)
    obtain q where q: "R = q * k" using m by (metis k_def mod_0_imp_dvd dvd_def mult.commute)
    have "q * k < 2 ^ b * k" using R(2) unfolding q k(2) .
    then have "q < 2 ^ b" using k(1) by simp
    then have "(q + 1) * k \<le> 2 ^ b * k" using k(1) by (intro mult_right_mono) auto
    then show ?thesis unfolding q k(2) k_def[symmetric] by (simp add: distrib_right)
  qed
  then show ?thesis
    using reverse_start(2)[OF assms(2,3)] by (simp add: get_hobj_end_def assms(1) R_def[symmetric])
qed

text \<open>
  Property C22.  The objects of a placement group are one contiguous range of the object order.  An
  object with a name lies between \<open>get_hobj_start\<close> and \<open>get_hobj_end\<close> exactly when \<open>contains\<close> with
  the bits of \<open>get_split_bits\<close> accepts it, which is exactly when its hash is rounded to the group.
  (The end is itself an object without a name; it would compare above objects without a name and
  with the same hash, which the next group holds.)
\<close>

theorem pg_object_range:
  assumes "pool_ok p" "pg_num p < 2 ^ 31" "m_seed pg < pg_num p" "0 \<le> m_pool pg"
    "\<not> ho_max obj" "ho_pool obj = m_pool pg" "ho_oid obj \<noteq> []"
  shows "\<exists>b last. get_split_bits (pg_num p) pg = Some b \<and> get_hobj_end (pg_num p) pg = Some last \<and>
    (hobject_cmp (get_hobj_start pg) obj \<le> 0 \<and> hobject_cmp obj last < 0 \<longleftrightarrow> pg_contains b pg obj) \<and>
    (pg_contains b pg obj \<longleftrightarrow> raw_pg_to_pg p \<lparr>m_pool = ho_pool obj, m_seed = unat (ho_hash obj)\<rparr> = pg)"
proof -
  have n: "0 < pg_num p" using assms(1) by (simp add: pool_ok_def)
  obtain b where b: "get_split_bits (pg_num p) pg = Some b" "b \<le> cbits (pg_num p)" "m_seed pg < 2 ^ b"
      "\<And>h. group_of (pg_num p) h = m_seed pg \<longleftrightarrow> h mod 2 ^ b = m_seed pg"
    using get_split_bits_exact[OF n assms(3)] by blast
  have "(2::nat) ^ (cbits (pg_num p) - 1) < 2 ^ 31" using cbits_bounds[of "pg_num p"] n assms(2) by linarith
  then have "cbits (pg_num p) - 1 < 31" by (rule power_less_imp_less_exp[rotated]) simp
  then have b32: "b \<le> 32" using b(2) by linarith
  define R where "R = uint (reverse_bits (word_of_nat (m_seed pg)))"
  define H where "H = uint (reverse_bits (ho_hash obj))"
  define E where "E = R + 2 ^ (32 - b)"
  define last where "last = (if E = 2 ^ 32 then hobject_get_max else make_hobject [] [] CEPH_NOSNAP (reverse_bits (word_of_int E)) (m_pool pg) [])"
  have e: "E \<le> 2 ^ 32" "get_hobj_end (pg_num p) pg = Some last"
    using get_hobj_end_value[OF b(1) b32 b(3)] by (simp_all add: Let_def last_def E_def R_def)
  have H: "0 \<le> H" "H < 2 ^ 32" using uint_lt2p[of "reverse_bits (ho_hash obj)"] by (simp_all add: H_def)
  have 1: "pg_contains b pg obj \<longleftrightarrow> unat (ho_hash obj) mod 2 ^ b = m_seed pg"
    using assms(4,6) take_bit_mod[OF b(3) b32]
    by (auto simp: pg_contains_def match_hash_take_bit get_logical_pool_def get_temp_pool_def)
  have 2: "hobject_cmp (get_hobj_start pg) obj \<le> 0 \<longleftrightarrow> R \<le> H"
    using assms(5,6) by (auto simp: hobject_cmp_def get_hobj_start_def make_hobject_def get_bitwise_key_def
      get_effective_key_def R_def H_def not_less_Nil)
  have 3: "hobject_cmp obj last < 0 \<longleftrightarrow> H < E"
  proof (cases "E = 2 ^ 32")
    case True
    then show ?thesis using assms(5) H by (simp add: last_def hobject_cmp_def hobject_get_max_def)
  next
    case False
    have "0 \<le> R" by (simp add: R_def)
    then have "0 \<le> E" "E < 2 ^ 32" using e(1) False by (simp_all add: E_def)
    then have "uint (word_of_int E :: u32) = E" by (simp add: word_of_int_inverse unsigned_of_int take_bit_int_eq_self)
    then show ?thesis using False assms(5-7)
      by (auto simp: last_def hobject_cmp_def make_hobject_def get_bitwise_key_def get_effective_key_def H_def not_less_Nil neq_Nil_conv)
  qed
  have "R \<le> H \<and> H < E \<longleftrightarrow> unat (ho_hash obj) mod 2 ^ b = m_seed pg"
    unfolding E_def R_def H_def take_bit_mod[OF b(3) b32, symmetric] reverse_prefix[OF b32, symmetric]
    by (rule div_range) (simp_all add: reverse_start(1)[OF b32 b(3)])
  moreover have "raw_pg_to_pg p \<lparr>m_pool = ho_pool obj, m_seed = unat (ho_hash obj)\<rparr> = pg \<longleftrightarrow> unat (ho_hash obj) mod 2 ^ b = m_seed pg"
    using assms(6) b(4) by (cases pg) (simp add: raw_pg_to_pg_group[OF assms(1)])
  ultimately show ?thesis using b(1) e(2) 1 2 3 by blast
qed

theorem pg_object_range_witness:
  "\<exists>b last. get_split_bits (pg_num demo_pool) \<lparr>m_pool = 1, m_seed = 3\<rparr> = Some b \<and>
    get_hobj_end (pg_num demo_pool) \<lparr>m_pool = 1, m_seed = 3\<rparr> = Some last \<and>
    (hobject_cmp (get_hobj_start \<lparr>m_pool = 1, m_seed = 3\<rparr>) (make_hobject ''obj'' [] 0 0x1b 1 []) \<le> 0 \<and>
      hobject_cmp (make_hobject ''obj'' [] 0 0x1b 1 []) last < 0 \<longleftrightarrow>
      pg_contains b \<lparr>m_pool = 1, m_seed = 3\<rparr> (make_hobject ''obj'' [] 0 0x1b 1 [])) \<and>
    (pg_contains b \<lparr>m_pool = 1, m_seed = 3\<rparr> (make_hobject ''obj'' [] 0 0x1b 1 []) \<longleftrightarrow>
      raw_pg_to_pg demo_pool \<lparr>m_pool = ho_pool (make_hobject ''obj'' [] 0 0x1b 1 []),
        m_seed = unat (ho_hash (make_hobject ''obj'' [] 0 0x1b 1 []))\<rparr> = \<lparr>m_pool = 1, m_seed = 3\<rparr>)"
  by (rule pg_object_range) (simp_all add: demo_pool_ok make_hobject_def)

lemma pool_mask_cases:
  assumes "pool_ok p"
  shows "pg_num p = pg_num_mask p + 1 \<and> (\<exists>d. pg_num p = 2 ^ d \<and> cbits (pg_num p) = Suc d \<and> pg_num_mask p = 2 ^ d - 1) \<or>
    pg_num p \<noteq> pg_num_mask p + 1 \<and> pg_num p \<noteq> 1 \<and> pg_num_mask p = 2 ^ cbits (pg_num p) - 1"
proof -
  define c where "c = cbits (pg_num p - 1)"
  have m: "0 < pg_num p" "pg_num_mask p = 2 ^ c - 1" using assms by (simp_all add: pool_ok_def c_def)
  have c: "pg_num p - 1 < 2 ^ c" "pg_num p \<noteq> 1 \<Longrightarrow> 0 < c \<and> 2 ^ (c - 1) \<le> pg_num p - 1"
    using cbits_bounds[of "pg_num p - 1"] m(1) by (auto simp: c_def)
  show ?thesis
  proof (cases "pg_num p = 2 ^ c")
    case True
    then have "cbits (pg_num p) = Suc c" by (intro cbits_unique) simp_all
    then show ?thesis using True m(2) by simp
  next
    case False
    then have lt: "pg_num p < 2 ^ c" using c(1) m(1) by linarith
    then have "pg_num p \<noteq> 1" using m(1) by (auto simp: c_def cbits.simps)
    then have "0 < c" "2 ^ (c - 1) \<le> pg_num p" using c(2) by auto
    then have "cbits (pg_num p) = c" using lt cbits_unique[of "c - 1" "pg_num p"] by simp
    then show ?thesis using m lt \<open>pg_num p \<noteq> 1\<close> by simp
  qed
qed

lemma get_pg_num_divisor_bits:
  assumes "pool_ok p" "get_split_bits (pg_num p) pg = Some b"
  shows "get_pg_num_divisor p pg = 2 ^ b"
  using pool_mask_cases[OF assms(1)]
proof (elim disjE conjE exE)
  fix d assume d: "pg_num p = 2 ^ d" "cbits (pg_num p) = Suc d" "pg_num p = pg_num_mask p + 1"
  then show ?thesis using assms(2) by (auto simp: get_split_bits_def get_pg_num_divisor_def split: if_splits)
next
  assume m: "pg_num p \<noteq> pg_num_mask p + 1" "pg_num p \<noteq> 1" "pg_num_mask p = 2 ^ cbits (pg_num p) - 1"
  have "0 < pg_num p" using assms(1) by (simp add: pool_ok_def)
  then obtain d where d: "cbits (pg_num p) = Suc d" using cbits_bounds[of "pg_num p"] by (cases "cbits (pg_num p)") auto
  have "pg_num_mask p div 2 = 2 ^ d - 1" "Suc (pg_num_mask p) = 2 ^ Suc d" using m(3) half_mask[of "Suc d"] by (simp_all add: d)
  moreover have "b = (if m_seed pg mod 2 ^ d < pg_num p mod 2 ^ d then Suc d else d)"
    using assms(2) m(2) \<open>0 < pg_num p\<close> d by (auto simp: get_split_bits_def split: if_splits)
  ultimately show ?thesis using m(1) and_low_mask[of _ d] by (simp add: get_pg_num_divisor_def Let_def)
qed

lemma get_random_pg_position_bits:
  "get_random_pg_position p pg seed =
    (crush_hash32_2 CRUSH_HASH_RJENKINS1 seed 123 AND NOT (word_of_nat (get_pg_num_divisor p pg - 1))) OR word_of_nat (m_seed pg)"
  if "pool_ok p"
  using pool_mask_cases[OF that]
proof (elim disjE conjE exE)
  assume m: "pg_num p \<noteq> pg_num_mask p + 1" "pg_num p \<noteq> 1" "pg_num_mask p = 2 ^ cbits (pg_num p) - 1"
  have "0 < pg_num p" using that by (simp add: pool_ok_def)
  then obtain d where d: "cbits (pg_num p) = Suc d" using cbits_bounds[of "pg_num p"] by (cases "cbits (pg_num p)") auto
  have "pg_num_mask p div 2 = 2 ^ d - 1" "Suc (pg_num_mask p) div 2 = 2 ^ d" using m(3) half_mask[of "Suc d"] by (simp_all add: d)
  then show ?thesis using m(1) by (simp add: get_random_pg_position_def get_pg_num_divisor_def Let_def)
qed (simp add: get_random_pg_position_def get_pg_num_divisor_def)

text \<open>
  A random position drawn for a group (\<open>get_random_pg_position\<close>, where the
  tiering agent starts) belongs to that group: rounding it gives the group back.
\<close>

lemma random_position_in_group:
  assumes "pool_ok p" "pg_num p < 2 ^ 31" "m_seed pg < pg_num p"
  shows "raw_pg_to_pg p \<lparr>m_pool = m_pool pg, m_seed = unat (get_random_pg_position p pg seed)\<rparr> = pg"
proof -
  have n: "0 < pg_num p" using assms(1) by (simp add: pool_ok_def)
  obtain b where b: "get_split_bits (pg_num p) pg = Some b" "b \<le> cbits (pg_num p)" "m_seed pg < 2 ^ b"
      "\<And>h. group_of (pg_num p) h = m_seed pg \<longleftrightarrow> h mod 2 ^ b = m_seed pg"
    using get_split_bits_exact[OF n assms(3)] by blast
  have "(2::nat) ^ (cbits (pg_num p) - 1) < 2 ^ 31" using cbits_bounds[of "pg_num p"] n assms(2) by linarith
  then have "cbits (pg_num p) - 1 < 31" by (rule power_less_imp_less_exp[rotated]) simp
  then have b32: "b \<le> 32" using b(2) by linarith
  let ?r = "get_random_pg_position p pg seed"
  have "word_of_nat (2 ^ b - 1) = (mask b :: u32)" by (simp add: mask_eq_exp_minus_1 of_nat_diff)
  then have "take_bit b ?r = take_bit b (word_of_nat (m_seed pg))"
    unfolding get_random_pg_position_bits[OF assms(1)] get_pg_num_divisor_bits[OF assms(1) b(1)]
    by (simp add: take_bit_or take_bit_and) (simp add: take_bit_eq_mask and.assoc)
  then have "unat ?r mod 2 ^ b = m_seed pg" using take_bit_mod[OF b(3) b32] by blast
  then show ?thesis using b(4) by (cases pg) (simp add: raw_pg_to_pg_group[OF assms(1)])
qed

lemma any_parent_correct:
  "(\<forall>ps \<in> set xs. 0 < ps) \<Longrightarrow>
   any_parent pg xs = Some (\<exists>ps \<in> set xs. ps mod 2 ^ (cbits ps - 1) = m_seed pg)"
proof (induction xs)
  case (Cons ps xs)
  then show ?case by (cases pg) (auto simp: get_parent_mod)
qed simp

text \<open>While the last group is being merged, the groups that take part are it and its ancestor.\<close>

lemma is_pending_merge_last:
  assumes "pg_num p = Suc n" "pg_num_pending p = n" "0 < n"
  shows "is_pending_merge p pg =
    Some (if m_seed pg = n then Some False
          else if m_seed pg = m_seed (get_ancestor n \<lparr>m_pool = m_pool pg, m_seed = n\<rparr>) then Some True else None)"
proof -
  have "group_of n n = n mod 2 ^ (cbits n - 1)"
    using cbits_bounds[of n] assms(3) by (simp add: group_of_mod)
  then show ?thesis using assms any_parent_correct[of "[n..<Suc n]" pg]
    by (auto simp: is_pending_merge_def get_ancestor_group simp del: any_parent.simps)
qed

end
