(* ===== verification/Osd_Map.thy ===== *)
theory Osd_Map
  imports Crush_Rule Osd_Pg
begin

text \<open>
  The map of the storage daemons (\<open>osd/OSDMap.h\<close>, \<open>osd/OSDMap.cc\<close>): which daemons exist and are up,
  and the pipeline that maps a placement group to the daemons that serve it.  A placement seed goes
  through the CRUSH rule of the pool, through the exception tables (\<open>pg_upmap\<close>, \<open>pg_upmap_items\<close>),
  the filter for daemons that are down, the primary affinity, and finally the temporary mappings
  (\<open>pg_temp\<close>, \<open>primary_temp\<close>).  An access outside one of the vectors is \<^term>\<open>None\<close>.
\<close>

unbundle bit_operations_syntax

section \<open>State\<close>

definition CEPH_OSD_EXISTS :: nat where "CEPH_OSD_EXISTS = 1"
definition CEPH_OSD_UP :: nat where "CEPH_OSD_UP = 2"
definition CEPH_OSD_AUTOOUT :: nat where "CEPH_OSD_AUTOOUT = 4"
definition CEPH_OSD_NEW :: nat where "CEPH_OSD_NEW = 8"
definition CEPH_OSD_STOP :: nat where "CEPH_OSD_STOP = 4096"
definition CEPH_OSD_OUT :: u32 where "CEPH_OSD_OUT = 0"
definition CEPH_OSD_MAX_PRIMARY_AFFINITY :: nat where "CEPH_OSD_MAX_PRIMARY_AFFINITY = 0x10000"
definition CEPH_OSD_DEFAULT_PRIMARY_AFFINITY :: nat where "CEPH_OSD_DEFAULT_PRIMARY_AFFINITY = 0x10000"

text \<open>The wrapper of the CRUSH map with its weight sets; index \<open>-1\<close> is the default one.\<close>

record crush_wrapper =
  cw_crush :: crush_map
  cw_choose_args :: "int \<rightharpoonup> crush_choose_arg list"

record osd_map =
  max_osd :: nat
  osd_state :: "nat list"
  osd_weight :: "u32 list"
  osd_primary_affinity :: "nat list option"
  osd_pools :: "int \<rightharpoonup> pg_pool_t"
  pg_upmap :: "pg_t \<rightharpoonup> int list"
  pg_upmap_items :: "pg_t \<rightharpoonup> (int \<times> int) list"
  pg_temp :: "pg_t \<rightharpoonup> int list"
  primary_temp :: "pg_t \<rightharpoonup> int"
  osd_crush :: crush_wrapper

section \<open>Daemons\<close>

definition osd_has :: "osd_map \<Rightarrow> int \<Rightarrow> nat \<Rightarrow> bool option" where
  "osd_has m osd flag = map_option (\<lambda>s. s AND flag \<noteq> 0) (arr_get (osd_state m) (nat osd))"

definition osd_exists :: "osd_map \<Rightarrow> int \<Rightarrow> bool option" where
  "osd_exists m osd = (if 0 \<le> osd \<and> osd < int (max_osd m) then osd_has m osd CEPH_OSD_EXISTS else Some False)"

definition is_up :: "osd_map \<Rightarrow> int \<Rightarrow> bool option" where
  "is_up m osd = do { e \<leftarrow> osd_exists m osd; if e then osd_has m osd CEPH_OSD_UP else Some False }"

definition is_down :: "osd_map \<Rightarrow> int \<Rightarrow> bool option" where
  "is_down m osd = map_option Not (is_up m osd)"

definition get_weight :: "osd_map \<Rightarrow> int \<Rightarrow> u32 option" where
  "get_weight m osd = do { ceph_assert (osd < int (max_osd m)); arr_get (osd_weight m) (nat osd) }"

definition osd_is_out :: "osd_map \<Rightarrow> int \<Rightarrow> bool option" where
  "osd_is_out m osd =
    do { e \<leftarrow> osd_exists m osd;
         if \<not> e then Some True else map_option (\<lambda>w. w = CEPH_OSD_OUT) (get_weight m osd) }"

section \<open>From an object to a position\<close>

record object_locator_t =
  loc_pool :: int
  loc_key :: string
  loc_nspace :: string
  loc_hash :: int

abbreviation (input) ENOENT :: int where "ENOENT \<equiv> 2"

definition map_to_pg :: "osd_map \<Rightarrow> int \<Rightarrow> string \<Rightarrow> string \<Rightarrow> string \<Rightarrow> (int + pg_t) option" where
  "map_to_pg m poolid name key nspace =
    (case osd_pools m poolid of
       None \<Rightarrow> Some (Inl (- ENOENT))
     | Some pool \<Rightarrow>
         do { ps \<leftarrow> (if key \<noteq> [] then hash_key pool key nspace else hash_key pool name nspace);
              Some (Inr \<lparr>m_pool = poolid, m_seed = unat ps\<rparr>) })"

definition object_locator_to_pg :: "osd_map \<Rightarrow> string \<Rightarrow> object_locator_t \<Rightarrow> (int + pg_t) option" where
  "object_locator_to_pg m oid loc =
    (if 0 \<le> loc_hash loc
     then (if osd_pools m (loc_pool loc) = None then Some (Inl (- ENOENT))
           else Some (Inr \<lparr>m_pool = loc_pool loc, m_seed = nat (loc_hash loc) mod 2 ^ 32\<rparr>))
     else map_to_pg m (loc_pool loc) oid (loc_key loc) (loc_nspace loc))"

section \<open>The raw mapping\<close>

definition choose_args_get_with_fallback :: "crush_wrapper \<Rightarrow> int \<Rightarrow> crush_choose_arg list option" where
  "choose_args_get_with_fallback w i =
    (case cw_choose_args w i of Some args \<Rightarrow> Some args | None \<Rightarrow> cw_choose_args w (- 1))"

text \<open>
  \<open>CrushWrapper::do_rule\<close>.  \<open>junk\<close> is the content of the stack memory that the vectors \<open>rawout\<close>
  and \<open>work\<close> occupy.
\<close>

definition stack_vectors :: "(nat \<Rightarrow> int) \<Rightarrow> nat \<Rightarrow> int list \<times> int list \<times> int list \<times> int list" where
  "stack_vectors junk n =
    (map junk [0..<n], map junk [n..<2 * n], map junk [2 * n..<3 * n], map junk [3 * n..<4 * n])"

definition do_rule ::
  "(nat \<Rightarrow> int) \<Rightarrow> crush_wrapper \<Rightarrow> nat \<Rightarrow> int \<Rightarrow> nat \<Rightarrow> u32 list \<Rightarrow> int \<Rightarrow> int list option"
where
  "do_rule junk w rule x maxout weight choose_args_index =
    do { work \<leftarrow> crush_init_workspace (cw_crush w) (\<lambda>i. nat (junk i)) None;
         (out, work) \<leftarrow> crush_do_rule (cw_crush w) rule x maxout weight
           (choose_args_get_with_fallback w choose_args_index) (stack_vectors junk maxout) work;
         Some out }"

text \<open>The loop that closes the gaps in place, and the one that marks them.\<close>

fun close_gaps_loop :: "osd_map \<Rightarrow> nat list \<Rightarrow> int list \<Rightarrow> nat \<Rightarrow> (int list \<times> nat) option" where
  "close_gaps_loop m [] osds removed = Some (osds, removed)"
| "close_gaps_loop m (i # is) osds removed =
    do { osd \<leftarrow> arr_get osds i;
         e \<leftarrow> osd_exists m osd;
         if \<not> e then close_gaps_loop m is osds (removed + 1)
         else if removed \<noteq> 0
         then do { osds \<leftarrow> arr_set osds (i - removed) osd; close_gaps_loop m is osds removed }
         else close_gaps_loop m is osds removed }"

fun mark_gaps :: "(int \<Rightarrow> bool option) \<Rightarrow> int list \<Rightarrow> int list option" where
  "mark_gaps live [] = Some []"
| "mark_gaps live (osd # osds) =
    do { l \<leftarrow> live osd; rest \<leftarrow> mark_gaps live osds; Some ((if l then osd else CRUSH_ITEM_NONE) # rest) }"

definition remove_nonexistent_osds :: "osd_map \<Rightarrow> pg_pool_t \<Rightarrow> int list \<Rightarrow> int list option" where
  "remove_nonexistent_osds m pool osds =
    do { shift \<leftarrow> can_shift_osds pool;
         if shift
         then do { (osds, removed) \<leftarrow> close_gaps_loop m [0..<length osds] osds 0;
                   Some (if removed \<noteq> 0 then take (length osds - removed) osds else osds) }
         else mark_gaps (osd_exists m) osds }"

definition pg_to_raw_osds_of :: "(nat \<Rightarrow> int) \<Rightarrow> osd_map \<Rightarrow> pg_pool_t \<Rightarrow> pg_t \<Rightarrow> (int list \<times> u32) option" where
  "pg_to_raw_osds_of junk m pool pg =
    do { let pps = raw_pg_to_pps pool pg;
         osds \<leftarrow> (if 0 \<le> crush_rule_no pool
                  then do_rule junk (osd_crush m) (nat (crush_rule_no pool)) (sint pps) (pool_size pool)
                         (osd_weight m) (m_pool pg)
                  else Some []);
         osds \<leftarrow> remove_nonexistent_osds m pool osds;
         Some (osds, pps) }"

fun pick_primary :: "int list \<Rightarrow> int" where
  "pick_primary [] = - 1"
| "pick_primary (osd # osds) = (if osd \<noteq> CRUSH_ITEM_NONE then osd else pick_primary osds)"

section \<open>The exception tables\<close>

text \<open>A target that is a valid daemon but has weight 0.\<close>

definition marked_out :: "osd_map \<Rightarrow> int \<Rightarrow> bool option" where
  "marked_out m osd =
    (if osd \<noteq> CRUSH_ITEM_NONE \<and> osd < int (max_osd m) \<and> 0 \<le> osd
     then map_option (\<lambda>w. w = 0) (arr_get (osd_weight m) (nat osd)) else Some False)"

fun any_marked_out :: "osd_map \<Rightarrow> int list \<Rightarrow> bool option" where
  "any_marked_out m [] = Some False"
| "any_marked_out m (osd # osds) = do { b \<leftarrow> marked_out m osd; if b then Some True else any_marked_out m osds }"

text \<open>The search for one pair of \<open>pg_upmap_items\<close>: whether the target is there, and the position.\<close>

fun upmap_item_search ::
  "osd_map \<Rightarrow> int \<times> int \<Rightarrow> int list \<Rightarrow> nat \<Rightarrow> nat option \<Rightarrow> (bool \<times> nat option) option"
where
  "upmap_item_search m r [] i pos = Some (False, pos)"
| "upmap_item_search m r (osd # raw) i pos =
    (if osd = snd r then Some (True, pos)
     else if osd = fst r \<and> pos = None
     then do { b \<leftarrow> marked_out m (snd r);
               upmap_item_search m r raw (i + 1) (if b then pos else Some i) }
     else upmap_item_search m r raw (i + 1) pos)"

fun apply_upmap_items :: "osd_map \<Rightarrow> (int \<times> int) list \<Rightarrow> int list \<Rightarrow> int list option" where
  "apply_upmap_items m [] raw = Some raw"
| "apply_upmap_items m (r # rs) raw =
    do { (there, pos) \<leftarrow> upmap_item_search m r raw 0 None;
         raw \<leftarrow> (case pos of Some p \<Rightarrow> if \<not> there then arr_set raw p (snd r) else Some raw | None \<Rightarrow> Some raw);
         apply_upmap_items m rs raw }"

definition apply_upmap :: "osd_map \<Rightarrow> pg_pool_t \<Rightarrow> pg_t \<Rightarrow> int list \<Rightarrow> int list option" where
  "apply_upmap m pool raw_pg raw =
    do { let pg = raw_pg_to_pg pool raw_pg;
         let items = (\<lambda>raw. case pg_upmap_items m pg of None \<Rightarrow> Some raw | Some rs \<Rightarrow> apply_upmap_items m rs raw);
         case pg_upmap m pg of
           None \<Rightarrow> items raw
         | Some targets \<Rightarrow> do { b \<leftarrow> any_marked_out m targets; if b then Some raw else items targets } }"

section \<open>Up and acting sets\<close>

definition is_live :: "osd_map \<Rightarrow> int \<Rightarrow> bool option" where
  "is_live m osd = do { e \<leftarrow> osd_exists m osd; if \<not> e then Some False else map_option Not (is_down m osd) }"

fun keep_live :: "osd_map \<Rightarrow> int list \<Rightarrow> int list option" where
  "keep_live m [] = Some []"
| "keep_live m (osd # raw) =
    do { l \<leftarrow> is_live m osd; up \<leftarrow> keep_live m raw; Some (if l then osd # up else up) }"

definition raw_to_up_osds :: "osd_map \<Rightarrow> pg_pool_t \<Rightarrow> int list \<Rightarrow> int list option" where
  "raw_to_up_osds m pool raw =
    do { shift \<leftarrow> can_shift_osds pool; if shift then keep_live m raw else mark_gaps (is_live m) raw }"

fun any_affinity :: "nat list \<Rightarrow> int list \<Rightarrow> bool option" where
  "any_affinity aff [] = Some False"
| "any_affinity aff (osd # osds) =
    (if osd \<noteq> CRUSH_ITEM_NONE
     then do { ceph_assert (0 \<le> osd);
               a \<leftarrow> arr_get aff (nat osd);
               if a \<noteq> CEPH_OSD_DEFAULT_PRIMARY_AFFINITY then Some True else any_affinity aff osds }
     else any_affinity aff osds)"

fun affinity_pos :: "nat list \<Rightarrow> u32 \<Rightarrow> int list \<Rightarrow> nat \<Rightarrow> nat option \<Rightarrow> nat option option" where
  "affinity_pos aff seed [] i pos = Some pos"
| "affinity_pos aff seed (osd # osds) i pos =
    (if osd = CRUSH_ITEM_NONE then affinity_pos aff seed osds (i + 1) pos
     else do { ceph_assert (0 \<le> osd);
               a \<leftarrow> arr_get aff (nat osd);
               if a < CEPH_OSD_MAX_PRIMARY_AFFINITY
                  \<and> a \<le> unat (drop_bit 16 (crush_hash32_2 CRUSH_HASH_RJENKINS1 seed (word_of_int osd)))
               then affinity_pos aff seed osds (i + 1) (if pos = None then Some i else pos)
               else Some (Some i) })"

text \<open>The loop that moves the entries before \<open>pos\<close> one place to the right.\<close>

fun shift_right :: "int list \<Rightarrow> nat \<Rightarrow> int list" where
  "shift_right osds 0 = osds"
| "shift_right osds (Suc i) = shift_right (osds[Suc i := osds ! i]) i"

definition apply_primary_affinity ::
  "osd_map \<Rightarrow> u32 \<Rightarrow> pg_pool_t \<Rightarrow> int list \<Rightarrow> int \<Rightarrow> (int list \<times> int) option"
where
  "apply_primary_affinity m seed pool osds primary =
    (case osd_primary_affinity m of
       None \<Rightarrow> Some (osds, primary)
     | Some aff \<Rightarrow>
         do { nondefault \<leftarrow> any_affinity aff osds;
              if \<not> nondefault then Some (osds, primary)
              else do { pos \<leftarrow> affinity_pos aff seed osds 0 None;
                        case pos of
                          None \<Rightarrow> Some (osds, primary)
                        | Some p \<Rightarrow>
                            do { primary \<leftarrow> arr_get osds p;
                                 shift \<leftarrow> can_shift_osds pool;
                                 Some (if shift \<and> 0 < p then (shift_right osds p)[0 := primary] else osds, primary) } } })"

fun temp_osds_loop :: "osd_map \<Rightarrow> pg_pool_t \<Rightarrow> int list \<Rightarrow> int list option" where
  "temp_osds_loop m pool [] = Some []"
| "temp_osds_loop m pool (osd # osds) =
    do { l \<leftarrow> is_live m osd;
         if l then map_option (Cons osd) (temp_osds_loop m pool osds)
         else do { shift \<leftarrow> can_shift_osds pool;
                   map_option (if shift then (\<lambda>rest. rest) else Cons CRUSH_ITEM_NONE) (temp_osds_loop m pool osds) } }"

definition get_temp_osds :: "osd_map \<Rightarrow> pg_pool_t \<Rightarrow> pg_t \<Rightarrow> (int list \<times> int) option" where
  "get_temp_osds m pool pg =
    do { let pg = raw_pg_to_pg pool pg;
         temp_pg \<leftarrow> (case pg_temp m pg of None \<Rightarrow> Some [] | Some osds \<Rightarrow> temp_osds_loop m pool osds);
         Some (temp_pg, case primary_temp m pg of Some p \<Rightarrow> p | None \<Rightarrow> pick_primary temp_pg) }"

definition pg_to_raw_osds :: "(nat \<Rightarrow> int) \<Rightarrow> osd_map \<Rightarrow> pg_t \<Rightarrow> (int list \<times> int) option" where
  "pg_to_raw_osds junk m pg =
    (case osd_pools m (m_pool pg) of
       None \<Rightarrow> Some ([], - 1)
     | Some pool \<Rightarrow> do { (raw, pps) \<leftarrow> pg_to_raw_osds_of junk m pool pg; Some (raw, pick_primary raw) })"

definition pg_to_raw_upmap :: "(nat \<Rightarrow> int) \<Rightarrow> osd_map \<Rightarrow> pg_t \<Rightarrow> (int list \<times> int list) option" where
  "pg_to_raw_upmap junk m pg =
    (case osd_pools m (m_pool pg) of
       None \<Rightarrow> Some ([], [])
     | Some pool \<Rightarrow>
         do { (raw, pps) \<leftarrow> pg_to_raw_osds_of junk m pool pg;
              raw_upmap \<leftarrow> apply_upmap m pool pg raw;
              Some (raw, raw_upmap) })"

definition pg_to_raw_up :: "(nat \<Rightarrow> int) \<Rightarrow> osd_map \<Rightarrow> pg_t \<Rightarrow> (int list \<times> int) option" where
  "pg_to_raw_up junk m pg =
    (case osd_pools m (m_pool pg) of
       None \<Rightarrow> Some ([], - 1)
     | Some pool \<Rightarrow>
         do { (raw, pps) \<leftarrow> pg_to_raw_osds_of junk m pool pg;
              raw \<leftarrow> apply_upmap m pool pg raw;
              up \<leftarrow> raw_to_up_osds m pool raw;
              apply_primary_affinity m pps pool up (pick_primary raw) })"

text \<open>\<open>_pg_to_up_acting_osds\<close> when the caller asks for all four results.\<close>

record up_acting =
  up_set :: "int list"
  up_primary :: int
  acting_set :: "int list"
  acting_primary :: int

definition pg_to_up_acting_osds :: "(nat \<Rightarrow> int) \<Rightarrow> osd_map \<Rightarrow> pg_t \<Rightarrow> bool \<Rightarrow> up_acting option" where
  "pg_to_up_acting_osds junk m pg raw_to_pg =
    (case osd_pools m (m_pool pg) of
       None \<Rightarrow> Some \<lparr>up_set = [], up_primary = - 1, acting_set = [], acting_primary = - 1\<rparr>
     | Some pool \<Rightarrow>
         if \<not> raw_to_pg \<and> pg_num pool \<le> m_seed pg
         then Some \<lparr>up_set = [], up_primary = - 1, acting_set = [], acting_primary = - 1\<rparr>
         else do {
           (acting, acting_p) \<leftarrow> get_temp_osds m pool pg;
           (raw, pps) \<leftarrow> pg_to_raw_osds_of junk m pool pg;
           raw \<leftarrow> apply_upmap m pool pg raw;
           up \<leftarrow> raw_to_up_osds m pool raw;
           (up, up_p) \<leftarrow> apply_primary_affinity m pps pool up (pick_primary up);
           Some \<lparr>up_set = up, up_primary = up_p,
                 acting_set = (if acting = [] then up else acting),
                 acting_primary = (if acting = [] \<and> acting_p = - 1 then up_p else acting_p)\<rparr> })"

section \<open>Roles\<close>

fun index_of :: "int \<Rightarrow> int list \<Rightarrow> int \<Rightarrow> int" where
  "index_of osd [] i = - 1"
| "index_of osd (a # acting) i = (if a = osd then i else index_of osd acting (i + 1))"

definition calc_pg_role_broken :: "int \<Rightarrow> int list \<Rightarrow> int" where
  "calc_pg_role_broken osd acting = index_of osd acting 0"

text \<open>A shard of a placement group; \<open>NO_SHARD\<close> is \<open>-1\<close>.\<close>

record pg_shard_t =
  shard_osd :: int
  shard_no :: int

definition calc_pg_role :: "pg_shard_t \<Rightarrow> int list \<Rightarrow> int option" where
  "calc_pg_role who acting =
    (if shard_no who = - 1 then Some (index_of (shard_osd who) acting 0)
     else if shard_no who < int (length acting)
     then do { ceph_assert (0 \<le> shard_no who);
               a \<leftarrow> arr_get acting (nat (shard_no who));
               Some (if a = shard_osd who then shard_no who else - 1) }
     else Some (- 1))"

definition primary_changed_broken :: "int \<Rightarrow> int list \<Rightarrow> int \<Rightarrow> int list \<Rightarrow> bool" where
  "primary_changed_broken oldprimary oldacting newprimary newacting =
    (if oldacting = [] \<and> newacting = [] then False
     else if (oldacting = []) \<noteq> (newacting = []) then True
     else if oldprimary \<noteq> newprimary then True
     else calc_pg_role_broken oldprimary oldacting \<noteq> calc_pg_role_broken newprimary newacting)"

section \<open>Well-formed maps\<close>

definition osdmap_ok :: "osd_map \<Rightarrow> bool" where
  "osdmap_ok m \<longleftrightarrow>
    length (osd_state m) = max_osd m \<and> length (osd_weight m) = max_osd m \<and>
    (\<forall>aff. osd_primary_affinity m = Some aff \<longrightarrow> length aff = max_osd m) \<and> int (max_osd m) \<le> CRUSH_ITEM_NONE"

definition known :: "osd_map \<Rightarrow> int \<Rightarrow> bool" where
  "known m osd \<longleftrightarrow> 0 \<le> osd \<and> osd < int (max_osd m) \<and> osd_state m ! nat osd AND CEPH_OSD_EXISTS \<noteq> 0"

definition live :: "osd_map \<Rightarrow> int \<Rightarrow> bool" where
  "live m osd \<longleftrightarrow> known m osd \<and> osd_state m ! nat osd AND CEPH_OSD_UP \<noteq> 0"

definition outed :: "osd_map \<Rightarrow> int \<Rightarrow> bool" where
  "outed m osd \<longleftrightarrow> osd \<noteq> CRUSH_ITEM_NONE \<and> osd < int (max_osd m) \<and> 0 \<le> osd \<and> osd_weight m ! nat osd = 0"

lemma osd_queries_ok:
  assumes "osdmap_ok m"
  shows "osd_exists m = (\<lambda>osd. Some (known m osd))" "is_live m = (\<lambda>osd. Some (live m osd))"
    "is_up m = (\<lambda>osd. Some (live m osd))" "marked_out m = (\<lambda>osd. Some (outed m osd))"
  using assms
  by (auto simp: fun_eq_iff osdmap_ok_def osd_exists_def osd_has_def known_def live_def is_live_def
      is_down_def is_up_def marked_out_def outed_def)

lemma live_not_none: "osdmap_ok m \<Longrightarrow> live m osd \<Longrightarrow> osd \<noteq> CRUSH_ITEM_NONE"
  by (auto simp: osdmap_ok_def live_def known_def)

section \<open>The loops\<close>

lemma mark_gaps_ok: "mark_gaps (\<lambda>osd. Some (P osd)) osds = Some (map (\<lambda>osd. if P osd then osd else CRUSH_ITEM_NONE) osds)"
  by (induction osds) simp_all

lemma keep_live_ok: "osdmap_ok m \<Longrightarrow> keep_live m raw = Some (filter (live m) raw)"
  by (induction raw) (simp_all add: osd_queries_ok)

lemma close_gaps_loop_ok:
  assumes "osdmap_ok m" "osds = kept @ gone @ rest" "removed = length gone"
  shows "\<exists>gone'. close_gaps_loop m [length kept + length gone..<length osds] osds removed =
      Some (kept @ filter (known m) rest @ gone', length gone') \<and>
    length kept + length (filter (known m) rest) + length gone' = length osds"
  using assms(2,3)
proof (induction rest arbitrary: osds kept gone removed)
  case (Cons x rest)
  let ?i = "length kept + length gone"
  have lt: "?i < length osds" using Cons.prems by simp
  have i: "[?i..<length osds] = ?i # [Suc ?i..<length osds]" "osds ! ?i = x" "?i < length osds"
    using Cons.prems lt by (simp_all only: upt_conv_Cons) (simp_all add: nth_append)
  show ?case
  proof (cases "known m x")
    case False
    then show ?thesis using Cons.IH[of osds kept "gone @ [x]" "Suc removed"] Cons.prems i assms(1)
      by (simp add: osd_queries_ok)
  next
    case True
    show ?thesis
    proof (cases gone)
      case Nil
      then show ?thesis using Cons.IH[of osds "kept @ [x]" "[]" 0] Cons.prems i True assms(1)
        by (simp add: osd_queries_ok)
    next
      case (Cons g gs)
      have "osds[length kept := x] = (kept @ [x]) @ (gs @ [x]) @ rest" "?i - removed = length kept" "length kept < length osds"
        using Cons.prems Cons by (simp_all add: list_update_append)
      then show ?thesis
        using Cons.IH[of "osds[length kept := x]" "kept @ [x]" "gs @ [x]" removed] Cons.prems i True assms(1) Cons
        by (simp add: osd_queries_ok)
    qed
  qed
qed simp

text \<open>What the in-place loop of \<open>_remove_nonexistent_osds\<close> computes.\<close>

lemma remove_nonexistent_osds_ok:
  assumes "osdmap_ok m" "can_shift_osds pool = Some shift"
  shows "remove_nonexistent_osds m pool osds =
    Some (if shift then filter (known m) osds else map (\<lambda>osd. if known m osd then osd else CRUSH_ITEM_NONE) osds)"
proof (cases shift)
  case True
  obtain gone where "close_gaps_loop m [0..<length osds] osds 0 = Some (filter (known m) osds @ gone, length gone)"
    using close_gaps_loop_ok[OF assms(1), of osds "[]" "[]" osds 0] by auto
  then show ?thesis using True assms(2) by (simp add: remove_nonexistent_osds_def)
qed (use assms in \<open>simp add: remove_nonexistent_osds_def osd_queries_ok mark_gaps_ok\<close>)

lemma raw_to_up_osds_ok:
  assumes "osdmap_ok m" "can_shift_osds pool = Some shift"
  shows "raw_to_up_osds m pool osds =
    Some (if shift then filter (live m) osds else map (\<lambda>osd. if live m osd then osd else CRUSH_ITEM_NONE) osds)"
  using assms by (simp add: raw_to_up_osds_def keep_live_ok osd_queries_ok mark_gaps_ok)

lemma temp_osds_loop_ok:
  assumes "osdmap_ok m" "can_shift_osds pool = Some shift"
  shows "temp_osds_loop m pool osds =
    Some (if shift then filter (live m) osds else map (\<lambda>osd. if live m osd then osd else CRUSH_ITEM_NONE) osds)"
  using assms by (induction osds) (simp_all add: osd_queries_ok)

lemma pick_primary_in: "pick_primary osds \<noteq> - 1 \<Longrightarrow> pick_primary osds \<in> set osds \<and> pick_primary osds \<noteq> CRUSH_ITEM_NONE"
  by (induction osds) auto

lemma pick_primary_hd: "\<forall>osd\<in>set osds. osd \<noteq> CRUSH_ITEM_NONE \<Longrightarrow> pick_primary osds = (if osds = [] then - 1 else hd osds)"
  by (cases osds) auto

section \<open>Exceptions\<close>

lemma any_marked_out_ok: "osdmap_ok m \<Longrightarrow> any_marked_out m osds = Some (\<exists>osd\<in>set osds. outed m osd)"
  by (induction osds) (auto simp: osd_queries_ok)

lemma upmap_item_search_ok:
  assumes "osdmap_ok m"
  shows "\<exists>pos'. upmap_item_search m r raw i pos = Some (snd r \<in> set raw, pos') \<and>
    (pos' = pos \<or> (\<exists>p. pos' = Some p \<and> i \<le> p \<and> p < i + length raw \<and> raw ! (p - i) = fst r \<and> \<not> outed m (snd r)))"
proof (induction raw arbitrary: i pos)
  case (Cons osd raw)
  show ?case
  proof (cases "osd = snd r")
    case False
    define pos1 where "pos1 = (if osd = fst r \<and> pos = None \<and> \<not> outed m (snd r) then Some i else pos)"
    obtain pos' where s: "upmap_item_search m r raw (Suc i) pos1 = Some (snd r \<in> set raw, pos')"
        and p: "pos' = pos1 \<or> (\<exists>p. pos' = Some p \<and> Suc i \<le> p \<and> p < Suc i + length raw \<and> raw ! (p - Suc i) = fst r \<and> \<not> outed m (snd r))"
      using Cons.IH[of "Suc i" pos1] by blast
    have "upmap_item_search m r (osd # raw) i pos = Some (snd r \<in> set (osd # raw), pos')"
      using s False assms by (auto simp: osd_queries_ok pos1_def)
    moreover have "pos1 = pos \<or> pos1 = Some i \<and> osd = fst r \<and> \<not> outed m (snd r)" by (auto simp: pos1_def)
    moreover have "(osd # raw) ! (p - i) = raw ! (p - Suc i)" if "Suc i \<le> p" for p using that by (simp add: Suc_diff_le)
    ultimately show ?thesis using p by (intro exI[of _ pos']) (auto simp: Suc_diff_le)
  qed simp
qed simp

lemma apply_upmap_items_ok:
  assumes "osdmap_ok m"
  shows "\<exists>raw'. apply_upmap_items m rs raw = Some raw' \<and> length raw' = length raw \<and> (distinct raw \<longrightarrow> distinct raw') \<and>
    (\<forall>osd\<in>set raw'. osd \<in> set raw \<or> \<not> outed m osd)"
proof (induction rs arbitrary: raw)
  case (Cons r rs)
  obtain pos where s: "upmap_item_search m r raw 0 None = Some (snd r \<in> set raw, pos)"
      and p: "\<And>p. pos = Some p \<Longrightarrow> p < length raw \<and> \<not> outed m (snd r)"
    using upmap_item_search_ok[OF assms, of r raw 0 None] by auto
  define raw1 where "raw1 = (case pos of Some p \<Rightarrow> if snd r \<in> set raw then raw else raw[p := snd r] | None \<Rightarrow> raw)"
  have "length raw1 = length raw" "distinct raw \<longrightarrow> distinct raw1" "\<forall>osd\<in>set raw1. osd \<in> set raw \<or> \<not> outed m osd"
    using p by (auto simp: raw1_def distinct_list_update dest!: set_update_subset_insert[THEN subsetD] split: option.splits)
  moreover have "apply_upmap_items m (r # rs) raw = apply_upmap_items m rs raw1"
    using s p by (auto simp: raw1_def split: option.splits)
  ultimately show ?case using Cons.IH[of raw1] by auto
qed simp

lemma apply_upmap_ok:
  assumes "osdmap_ok m"
  shows "\<exists>raw'. apply_upmap m pool pg raw = Some raw' \<and> (\<forall>osd\<in>set raw'. osd \<in> set raw \<or> \<not> outed m osd) \<and>
    (distinct raw \<and> (\<forall>ts. pg_upmap m (raw_pg_to_pg pool pg) = Some ts \<longrightarrow> distinct ts) \<longrightarrow> distinct raw') \<and>
    (pg_upmap m (raw_pg_to_pg pool pg) = None \<longrightarrow> length raw' = length raw)"
proof -
  let ?pg = "raw_pg_to_pg pool pg"
  have items: "\<exists>raw'. (case pg_upmap_items m ?pg of None \<Rightarrow> Some xs | Some rs \<Rightarrow> apply_upmap_items m rs xs) = Some raw' \<and> length raw' = length xs \<and>
      (distinct xs \<longrightarrow> distinct raw') \<and> (\<forall>osd\<in>set raw'. osd \<in> set xs \<or> \<not> outed m osd)" for xs
    using apply_upmap_items_ok[OF assms, of "the (pg_upmap_items m ?pg)" xs] by (cases "pg_upmap_items m ?pg") auto
  show ?thesis
  proof (cases "pg_upmap m ?pg")
    case None
    then show ?thesis using items[of raw] by (auto simp: apply_upmap_def)
  next
    case (Some ts)
    show ?thesis
    proof (cases "\<exists>osd\<in>set ts. outed m osd")
      case True
      then show ?thesis using Some by (simp add: apply_upmap_def any_marked_out_ok[OF assms])
    next
      case False
      then show ?thesis using Some items[of ts] by (auto simp: apply_upmap_def any_marked_out_ok[OF assms])
    qed
  qed
qed

section \<open>Primary affinity\<close>

definition entries_ok :: "nat \<Rightarrow> int list \<Rightarrow> bool" where
  "entries_ok n osds \<longleftrightarrow> (\<forall>osd\<in>set osds. osd = CRUSH_ITEM_NONE \<or> 0 \<le> osd \<and> osd < int n)"

lemma any_affinity_ok: "entries_ok (length aff) osds \<Longrightarrow> \<exists>b. any_affinity aff osds = Some b"
  by (induction osds) (auto simp: entries_ok_def)

lemma affinity_pos_ok:
  "entries_ok (length aff) osds \<Longrightarrow> \<exists>pos'. affinity_pos aff seed osds i pos = Some pos' \<and>
    (pos' = pos \<or> (\<exists>p. pos' = Some p \<and> i \<le> p \<and> p < i + length osds \<and> osds ! (p - i) \<noteq> CRUSH_ITEM_NONE))"
proof (induction osds arbitrary: i pos)
  case (Cons osd osds)
  have IH: "\<exists>pos'. affinity_pos aff seed osds (Suc i) pos1 = Some pos' \<and>
      (pos' = pos1 \<or> (\<exists>p. pos' = Some p \<and> i \<le> p \<and> p < i + length (osd # osds) \<and> (osd # osds) ! (p - i) \<noteq> CRUSH_ITEM_NONE))" for pos1
    using Cons.IH[of "Suc i" pos1] Cons.prems by (fastforce simp: entries_ok_def Suc_diff_le)
  show ?case
  proof (cases "osd = CRUSH_ITEM_NONE")
    case True
    then show ?thesis using IH[of pos] by simp
  next
    case False
    then have "0 \<le> osd" "nat osd < length aff" using Cons.prems by (auto simp: entries_ok_def)
    then show ?thesis using IH[of "if pos = None then Some i else pos"] False by (cases "pos = None") auto
  qed
qed simp

lemma shift_right_eq: "p < length osds \<Longrightarrow> shift_right osds p = take 1 osds @ take p osds @ drop (Suc p) osds"
proof (induction p arbitrary: osds)
  case 0
  then show ?case by (cases osds) simp_all
next
  case (Suc i)
  have "drop (Suc i) (osds[Suc i := osds ! i]) = osds ! i # drop (Suc (Suc i)) osds"
    using Suc.prems by (simp add: Cons_nth_drop_Suc[symmetric] drop_update_cancel)
  then show ?case using Suc.IH[of "osds[Suc i := osds ! i]"] Suc.prems
    by (simp add: take_Suc_conv_app_nth take_update_cancel)
qed

lemma move_to_front:
  assumes "p < length osds"
  shows "(shift_right osds p)[0 := osds ! p] = osds ! p # take p osds @ drop (Suc p) osds"
    "mset (osds ! p # take p osds @ drop (Suc p) osds) = mset osds"
proof -
  show "(shift_right osds p)[0 := osds ! p] = osds ! p # take p osds @ drop (Suc p) osds"
    using assms by (cases osds) (simp_all add: shift_right_eq)
  have "mset osds = mset (take p osds @ osds ! p # drop (Suc p) osds)" using assms by (simp flip: id_take_nth_drop)
  then show "mset (osds ! p # take p osds @ drop (Suc p) osds) = mset osds" by simp
qed

text \<open>For a pool whose sets are lists without holes, the primary is always the first entry.\<close>

lemma apply_primary_affinity_shift:
  assumes "osdmap_ok m" "can_shift_osds pool = Some True" "entries_ok (max_osd m) osds" "CRUSH_ITEM_NONE \<notin> set osds"
  shows "\<exists>osds'. apply_primary_affinity m seed pool osds (if osds = [] then - 1 else hd osds) =
    Some (osds', if osds' = [] then - 1 else hd osds') \<and> mset osds' = mset osds"
proof (cases "osd_primary_affinity m")
  case (Some aff)
  then have ok: "entries_ok (length aff) osds" using assms(1,3) by (simp add: osdmap_ok_def)
  obtain b pos where b: "any_affinity aff osds = Some b" and pos: "affinity_pos aff seed osds 0 None = Some pos"
      "\<And>p. pos = Some p \<Longrightarrow> p < length osds"
    using any_affinity_ok[OF ok] affinity_pos_ok[OF ok, of seed 0 None] by auto
  show ?thesis
  proof (cases "\<exists>p > 0. b \<and> pos = Some p")
    case True
    then obtain p where p: "0 < p" "b" "pos = Some p" "p < length osds" using pos(2) by blast
    then show ?thesis using Some b pos(1) assms(2) move_to_front[OF p(4)] by (simp add: apply_primary_affinity_def)
  next
    case False
    then have "\<not> b \<or> pos = None \<or> pos = Some 0" by (cases pos) auto
    moreover have "osds ! 0 = hd osds \<and> osds \<noteq> []" if "pos = Some 0" using pos(2)[OF that] by (cases osds) auto
    ultimately show ?thesis using Some b pos assms(2) by (auto simp: apply_primary_affinity_def)
  qed
qed (simp add: apply_primary_affinity_def)

text \<open>For a pool with positions, the set is untouched and the primary is one of its entries.\<close>

lemma apply_primary_affinity_fixed:
  assumes "osdmap_ok m" "can_shift_osds pool = Some False" "entries_ok (max_osd m) osds"
  shows "\<exists>p. apply_primary_affinity m seed pool osds (pick_primary osds) = Some (osds, p) \<and>
    (p \<noteq> - 1 \<longrightarrow> p \<in> set osds \<and> p \<noteq> CRUSH_ITEM_NONE)"
proof (cases "osd_primary_affinity m")
  case (Some aff)
  then have ok: "entries_ok (length aff) osds" using assms(1,3) by (simp add: osdmap_ok_def)
  obtain b pos where b: "any_affinity aff osds = Some b" and pos: "affinity_pos aff seed osds 0 None = Some pos"
      "\<And>p. pos = Some p \<Longrightarrow> p < length osds \<and> osds ! p \<noteq> CRUSH_ITEM_NONE"
    using any_affinity_ok[OF ok] affinity_pos_ok[OF ok, of seed 0 None] by auto
  then show ?thesis using Some assms(2) pick_primary_in[of osds]
    by (cases pos) (auto simp: apply_primary_affinity_def)
qed (use pick_primary_in in \<open>auto simp: apply_primary_affinity_def\<close>)

section \<open>The CRUSH call\<close>

definition crush_ok :: "crush_wrapper \<Rightarrow> nat list \<Rightarrow> bool" where
  "crush_ok w rank \<longleftrightarrow>
    map_ok (cw_crush w) rank \<and> (\<forall>i args. cw_choose_args w i = Some args \<longrightarrow> choose_args_ok (cw_crush w) (Some args)) \<and>
    max_devices (cw_crush w) \<le> CRUSH_ITEM_UNDEF \<and> chooseleaf_vary_r (cw_crush w) \<le> 32 \<and>
    working_size (cw_crush w) = workspace_bytes (map_buckets (cw_crush w))"

definition rule_ok :: "crush_map \<Rightarrow> int \<Rightarrow> bool" where
  "rule_ok m ruleno \<longleftrightarrow> (0 \<le> ruleno \<and> nat ruleno < max_rules m \<longrightarrow>
    (\<exists>rule. map_rules m ! nat ruleno = Some rule \<and> (\<forall>step\<in>set (rule_steps rule). step_ok step)))"

lemma scratch_ok_stack: "scratch_ok n (stack_vectors junk n)"
  by (simp add: scratch_ok_def stack_vectors_def)

lemma choose_args_fallback_ok: "crush_ok w rank \<Longrightarrow> choose_args_ok (cw_crush w) (choose_args_get_with_fallback w i)"
  by (auto simp: crush_ok_def choose_args_get_with_fallback_def choose_args_ok_def split: option.splits)

lemma do_rule_yields:
  assumes "crush_ok w rank"
    "yields (cw_crush w) (crush_do_rule (cw_crush w) rule x n weight (choose_args_get_with_fallback w i) (stack_vectors junk n)) res"
  shows "do_rule junk w rule x n weight i = Some res"
proof -
  obtain work where "crush_init_workspace (cw_crush w) (\<lambda>i. nat (junk i)) None = Some work" "work_ok (cw_crush w) work"
    using assms(1) by (auto simp: crush_ok_def crush_init_workspace_def work_ok_def work_bucket_ok_def)
  then show ?thesis using assms(2) by (auto simp: do_rule_def yields_def)
qed

lemma do_rule_total:
  assumes "crush_ok w rank" "rule_ok (cw_crush w) (int rule)" "0 < n"
  shows "\<exists>res. do_rule junk w rule x n weight i = Some res"
proof (cases "rule < max_rules (cw_crush w)")
  case True
  then obtain r where r: "map_rules (cw_crush w) ! rule = Some r" "\<forall>step\<in>set (rule_steps r). step_ok step"
    using assms(2) by (auto simp: rule_ok_def)
  show ?thesis
    using yields_do_rule[OF _ choose_args_fallback_ok[OF assms(1)] _ _ assms(3) scratch_ok_stack True r] assms(1)
      do_rule_yields[OF assms(1)] by (fastforce simp: crush_ok_def)
next
  case False
  then have "yields (cw_crush w) (crush_do_rule (cw_crush w) rule x n weight (choose_args_get_with_fallback w i) (stack_vectors junk n)) []"
    by (simp add: crush_do_rule_def yields_def)
  then show ?thesis using do_rule_yields[OF assms(1)] by blast
qed

section \<open>The pipeline\<close>

definition crush_result :: "(nat \<Rightarrow> int) \<Rightarrow> osd_map \<Rightarrow> pg_pool_t \<Rightarrow> pg_t \<Rightarrow> int list option" where
  "crush_result junk m pool pg =
    (if 0 \<le> crush_rule_no pool
     then do_rule junk (osd_crush m) (nat (crush_rule_no pool)) (sint (raw_pg_to_pps pool pg)) (pool_size pool)
            (osd_weight m) (m_pool pg)
     else Some [])"

text \<open>What the filters leave of a list: for a replicated pool the holes close, otherwise they stay.\<close>

definition cut_to :: "bool \<Rightarrow> (int \<Rightarrow> bool) \<Rightarrow> int list \<Rightarrow> int list" where
  "cut_to shift P osds = (if shift then filter P osds else map (\<lambda>osd. if P osd then osd else CRUSH_ITEM_NONE) osds)"

lemma cut_to_entries: "osd \<in> set (cut_to shift P osds) \<Longrightarrow> P osd \<or> \<not> shift \<and> osd = CRUSH_ITEM_NONE"
  by (auto simp: cut_to_def split: if_splits)

lemma cut_to_subset: "osd \<in> set (cut_to shift P osds) \<Longrightarrow> osd \<in> set osds \<or> osd = CRUSH_ITEM_NONE"
  by (auto simp: cut_to_def split: if_splits)

lemma entries_ok_live: "entries_ok (max_osd m) (cut_to shift (live m) osds)"
  by (auto simp: entries_ok_def live_def known_def dest: cut_to_entries)

lemma raw_osds_cut_to:
  assumes "osdmap_ok m" "can_shift_osds pool = Some shift" "crush_result junk m pool pg = Some res"
  shows "pg_to_raw_osds_of junk m pool pg = Some (cut_to shift (known m) res, raw_pg_to_pps pool pg)"
  using assms by (simp add: pg_to_raw_osds_of_def crush_result_def remove_nonexistent_osds_ok cut_to_def)

definition temp_osds :: "osd_map \<Rightarrow> pg_pool_t \<Rightarrow> bool \<Rightarrow> pg_t \<Rightarrow> int list" where
  "temp_osds m pool shift pg =
    (case pg_temp m (raw_pg_to_pg pool pg) of None \<Rightarrow> [] | Some osds \<Rightarrow> cut_to shift (live m) osds)"

lemma get_temp_osds_ok:
  assumes "osdmap_ok m" "can_shift_osds pool = Some shift"
  shows "\<exists>p. get_temp_osds m pool pg = Some (temp_osds m pool shift pg, p)"
  using assms by (auto simp: get_temp_osds_def temp_osds_def temp_osds_loop_ok cut_to_def split: option.splits)

text \<open>The result of the pipeline up to the primary affinity, for both kinds of pool.\<close>

lemma pipeline:
  assumes "osdmap_ok m" "can_shift_osds pool = Some shift" "crush_result junk m pool pg = Some res"
    and "osd_pools m (m_pool pg) = Some pool" "b \<or> m_seed pg < pg_num pool"
    and "apply_upmap m pool pg (cut_to shift (known m) res) = Some raw"
  shows "\<exists>r. pg_to_up_acting_osds junk m pg b = Some r \<and>
    mset (up_set r) = mset (cut_to shift (live m) raw) \<and> (\<not> shift \<longrightarrow> up_set r = cut_to shift (live m) raw) \<and>
    (shift \<longrightarrow> up_primary r = (if up_set r = [] then - 1 else hd (up_set r))) \<and>
    (up_primary r \<noteq> - 1 \<longrightarrow> up_primary r \<in> set (up_set r) \<and> live m (up_primary r)) \<and>
    acting_set r = (if temp_osds m pool shift pg = [] then up_set r else temp_osds m pool shift pg)"
proof -
  let ?up = "cut_to shift (live m) raw"
  obtain tp where t: "get_temp_osds m pool pg = Some (temp_osds m pool shift pg, tp)"
    using get_temp_osds_ok[OF assms(1,2)] by blast
  have u: "raw_to_up_osds m pool raw = Some ?up" using raw_to_up_osds_ok[OF assms(1,2)] by (simp add: cut_to_def)
  have "\<exists>up p. apply_primary_affinity m (raw_pg_to_pps pool pg) pool ?up (pick_primary ?up) = Some (up, p) \<and>
      mset up = mset ?up \<and> (\<not> shift \<longrightarrow> up = ?up) \<and> (shift \<longrightarrow> p = (if up = [] then - 1 else hd up)) \<and>
      (p \<noteq> - 1 \<longrightarrow> p \<in> set up \<and> live m p)"
  proof (cases shift)
    case True
    have none: "CRUSH_ITEM_NONE \<notin> set ?up" using cut_to_entries[of CRUSH_ITEM_NONE shift "live m" raw] live_not_none[OF assms(1)] True by auto
    then have "pick_primary ?up = (if ?up = [] then - 1 else hd ?up)" by (intro pick_primary_hd) auto
    then obtain up where up: "apply_primary_affinity m (raw_pg_to_pps pool pg) pool ?up (pick_primary ?up) =
        Some (up, if up = [] then - 1 else hd up)" "mset up = mset ?up"
      using apply_primary_affinity_shift[OF assms(1) _ entries_ok_live none] assms(2) True by auto
    moreover have "live m (hd up)" if "up \<noteq> []"
      using that mset_eq_setD[OF up(2)] True by (cases up) (auto simp: cut_to_def)
    ultimately show ?thesis using True by auto
  next
    case False
    then obtain p where p: "apply_primary_affinity m (raw_pg_to_pps pool pg) pool ?up (pick_primary ?up) = Some (?up, p)"
        "p \<noteq> - 1 \<longrightarrow> p \<in> set ?up \<and> p \<noteq> CRUSH_ITEM_NONE"
      using apply_primary_affinity_fixed[OF assms(1) _ entries_ok_live[of m shift raw], of pool] assms(2) by auto
    then show ?thesis using False cut_to_entries[of p shift "live m" raw] by auto
  qed
  then show ?thesis using t u raw_osds_cut_to[OF assms(1-3)] assms(4-6) by (auto simp: pg_to_up_acting_osds_def)
qed

definition pools_ok :: "osd_map \<Rightarrow> bool" where
  "pools_ok m \<longleftrightarrow> (\<forall>i pool. osd_pools m i = Some pool \<longrightarrow>
    can_shift_osds pool \<noteq> None \<and> 0 < pool_size pool \<and> rule_ok (cw_crush (osd_crush m)) (crush_rule_no pool))"

lemma crush_result_total:
  assumes "crush_ok (osd_crush m) rank" "pools_ok m" "osd_pools m (m_pool pg) = Some pool"
  shows "\<exists>res. crush_result junk m pool pg = Some res"
  using assms do_rule_total[OF assms(1), of "nat (crush_rule_no pool)" "pool_size pool"]
  by (auto simp: crush_result_def pools_ok_def)

text \<open>
  Property C6.  Mapping a placement group never fails: for every map with vectors of the right
  length, a CRUSH hierarchy without cycles and pools with valid rules, whatever the exception and
  temporary tables contain and whatever the stack memory held, \<open>_pg_to_up_acting_osds\<close> returns; every
  entry of the up and acting sets is a daemon that exists and is up, or the mark of a hole, and the
  up primary is one of the daemons of the up set, or \<open>-1\<close>.
\<close>

theorem pg_mapping_total:
  assumes "osdmap_ok m" "crush_ok (osd_crush m) rank" "pools_ok m"
  shows "\<exists>r. pg_to_up_acting_osds junk m pg b = Some r \<and>
    (\<forall>osd\<in>set (up_set r) \<union> set (acting_set r). is_up m osd = Some True \<or> osd = CRUSH_ITEM_NONE) \<and>
    (up_primary r = - 1 \<or> up_primary r \<in> set (up_set r) \<and> is_up m (up_primary r) = Some True)"
proof (cases "\<exists>pool. osd_pools m (m_pool pg) = Some pool \<and> (b \<or> m_seed pg < pg_num pool)")
  case True
  then obtain pool where pool: "osd_pools m (m_pool pg) = Some pool" "b \<or> m_seed pg < pg_num pool" by blast
  then obtain shift where shift: "can_shift_osds pool = Some shift" using assms(3) by (auto simp: pools_ok_def)
  obtain res where res: "crush_result junk m pool pg = Some res" using crush_result_total[OF assms(2,3) pool(1)] by blast
  obtain raw where raw: "apply_upmap m pool pg (cut_to shift (known m) res) = Some raw" using apply_upmap_ok[OF assms(1)] by blast
  have temp: "live m osd \<or> osd = CRUSH_ITEM_NONE" if "osd \<in> set (temp_osds m pool shift pg)" for osd
    using that cut_to_entries by (fastforce simp: temp_osds_def split: option.splits)
  obtain r where r: "pg_to_up_acting_osds junk m pg b = Some r" "mset (up_set r) = mset (cut_to shift (live m) raw)"
      "up_primary r \<noteq> - 1 \<longrightarrow> up_primary r \<in> set (up_set r) \<and> live m (up_primary r)"
      "acting_set r = (if temp_osds m pool shift pg = [] then up_set r else temp_osds m pool shift pg)"
    using pipeline[OF assms(1) shift res pool raw] by blast
  have "live m osd \<or> osd = CRUSH_ITEM_NONE" if "osd \<in> set (up_set r)" for osd
    using that cut_to_entries[of osd shift "live m" raw] mset_eq_setD[OF r(2)] by auto
  then have "live m osd \<or> osd = CRUSH_ITEM_NONE" if "osd \<in> set (up_set r) \<union> set (acting_set r)" for osd
    using that temp r(4) by (metis Un_iff)
  then show ?thesis using r(1,3) by (auto simp: osd_queries_ok[OF assms(1)])
next
  case False
  then show ?thesis by (auto simp: pg_to_up_acting_osds_def split: option.splits)
qed

definition demo_osdmap :: osd_map where
  "demo_osdmap =
    \<lparr>max_osd = 4, osd_state = [3, 3, 1, 3], osd_weight = [0x10000, 0, 0x10000, 0x10000],
     osd_primary_affinity = Some [0, 0x10000, 0x10000, 0x10000],
     osd_pools = [1 \<mapsto> demo_pool, 2 \<mapsto> demo_pool\<lparr>pool_kind := TYPE_ERASURE, crush_rule_no := 1\<rparr>],
     pg_upmap = Map.empty, pg_upmap_items = [\<lparr>m_pool = 1, m_seed = 3\<rparr> \<mapsto> [(2, 3)]],
     pg_temp = [\<lparr>m_pool = 1, m_seed = 4\<rparr> \<mapsto> [3, 2]], primary_temp = Map.empty,
     osd_crush = \<lparr>cw_crush = demo_rules, cw_choose_args = Map.empty\<rparr>\<rparr>"

lemma demo_osdmap_ok:
  "osdmap_ok demo_osdmap" "crush_ok (osd_crush demo_osdmap) [1, 0, 0]" "pools_ok demo_osdmap"
proof -
  show "osdmap_ok demo_osdmap" by (simp add: osdmap_ok_def demo_osdmap_def CRUSH_ITEM_NONE_def)
  show "crush_ok (osd_crush demo_osdmap) [1, 0, 0]"
    using demo_rules_ok by (simp add: crush_ok_def demo_osdmap_def CRUSH_ITEM_UNDEF_def)
      (simp add: demo_rules_def demo_map_def workspace_bytes_def)
  show "pools_ok demo_osdmap"
    using demo_rules_ok(6,7)
    by (auto simp: pools_ok_def demo_osdmap_def demo_pool_def set_pg_num_def set_pgp_num_def calc_pg_masks_def
        can_shift_osds_def rule_ok_def replicated_rule_def erasure_rule_def step_ok_def split: if_splits)
qed

theorem pg_mapping_total_witness:
  "\<exists>r. pg_to_up_acting_osds (\<lambda>_. 42) demo_osdmap \<lparr>m_pool = 1, m_seed = 3\<rparr> True = Some r \<and>
    (\<forall>osd\<in>set (up_set r) \<union> set (acting_set r). is_up demo_osdmap osd = Some True \<or> osd = CRUSH_ITEM_NONE) \<and>
    (up_primary r = - 1 \<or> up_primary r \<in> set (up_set r) \<and> is_up demo_osdmap (up_primary r) = Some True)"
  by (rule pg_mapping_total[OF demo_osdmap_ok])

section \<open>Replicated pools\<close>

lemma usable_not_outed: "usable c (osd_weight m) x osd \<Longrightarrow> \<not> outed m osd"
  by (auto simp: usable_def outed_def is_out_def split: if_splits)

lemma crush_result_replicated:
  assumes "crush_ok (osd_crush m) rank" "c = cw_crush (osd_crush m)" "0 < pool_size pool"
    and "0 \<le> crush_rule_no pool" "nat (crush_rule_no pool) < max_rules c"
    and "map_rules c ! nat (crush_rule_no pool) = Some rule" "rule_steps rule = replicated_rule root n ty"
    and "crush_bucket_at c root = Some bucket" "0 < (if n \<le> 0 then n + int (pool_size pool) else n)"
  shows "\<exists>res. crush_result junk m pool pg = Some res \<and> distinct res \<and> length res \<le> pool_size pool \<and>
    (\<forall>osd\<in>set res. \<not> outed m osd)"
proof -
  have ok: "map_ok c rank" "max_devices c \<le> CRUSH_ITEM_UNDEF" "chooseleaf_vary_r c \<le> 32"
      "choose_args_ok c (choose_args_get_with_fallback (osd_crush m) (m_pool pg))"
    using assms(1) choose_args_fallback_ok[OF assms(1)] by (simp_all add: crush_ok_def assms(2))
  obtain res where res: "distinct res" "\<forall>d\<in>set res. usable c (osd_weight m) (sint (raw_pg_to_pps pool pg)) d"
      "length res \<le> pool_size pool"
      "yields c (crush_do_rule c (nat (crush_rule_no pool)) (sint (raw_pg_to_pps pool pg)) (pool_size pool) (osd_weight m)
         (choose_args_get_with_fallback (osd_crush m) (m_pool pg)) (stack_vectors junk (pool_size pool))) res"
    using yields_replicated_rule[OF ok(1,4,2,3) assms(3) scratch_ok_stack assms(5-9)] by blast
  then have "crush_result junk m pool pg = Some res"
    using do_rule_yields[OF assms(1)] assms(2,4) by (simp add: crush_result_def)
  then show ?thesis using res usable_not_outed by blast
qed

text \<open>
  Property C7.  For a group of a replicated pool with the rule \<open>take; chooseleaf firstn; emit\<close>, in a
  well-formed map whose hierarchy has no cycles, the up set has pairwise distinct daemons (if an explicit \<open>pg_upmap\<close> entry for the group is free of duplicates),
  each of them exists, is up and is not marked out, through CRUSH, the exceptions in \<open>pg_upmap_items\<close>
  and the primary affinity; the primary is the first of them; and without an explicit \<open>pg_upmap\<close>
  entry there are at most \<open>size\<close>.
\<close>

theorem replicated_up_set:
  assumes "osdmap_ok m" "crush_ok (osd_crush m) rank" "c = cw_crush (osd_crush m)"
    and "osd_pools m (m_pool pg) = Some pool" "pool_kind pool = TYPE_REPLICATED" "0 < pool_size pool" "m_seed pg < pg_num pool"
    and "0 \<le> crush_rule_no pool" "nat (crush_rule_no pool) < max_rules c"
    and "map_rules c ! nat (crush_rule_no pool) = Some rule" "rule_steps rule = replicated_rule root n ty"
    and "crush_bucket_at c root = Some bucket" "0 < (if n \<le> 0 then n + int (pool_size pool) else n)"
    and "\<forall>ts. pg_upmap m (raw_pg_to_pg pool pg) = Some ts \<longrightarrow> distinct ts"
  shows "\<exists>r. pg_to_up_acting_osds junk m pg b = Some r \<and> distinct (up_set r) \<and>
    (\<forall>osd\<in>set (up_set r). is_up m osd = Some True \<and> osd_is_out m osd = Some False) \<and>
    up_primary r = (if up_set r = [] then - 1 else hd (up_set r)) \<and>
    (pg_upmap m (raw_pg_to_pg pool pg) = None \<longrightarrow> length (up_set r) \<le> pool_size pool)"
proof -
  have shift: "can_shift_osds pool = Some True" using assms(5) by (simp add: can_shift_osds_def)
  obtain res where res: "crush_result junk m pool pg = Some res" "distinct res" "length res \<le> pool_size pool"
      "\<forall>osd\<in>set res. \<not> outed m osd"
    using crush_result_replicated[OF assms(2,3,6,8-13)] by blast
  obtain raw where raw: "apply_upmap m pool pg (cut_to True (known m) res) = Some raw"
      "\<forall>osd\<in>set raw. osd \<in> set (cut_to True (known m) res) \<or> \<not> outed m osd" "distinct raw"
      "pg_upmap m (raw_pg_to_pg pool pg) = None \<longrightarrow> length raw = length (cut_to True (known m) res)"
    using apply_upmap_ok[OF assms(1), of pool pg "cut_to True (known m) res"] res(2) assms(14) by (auto simp: cut_to_def)
  obtain r where r: "pg_to_up_acting_osds junk m pg b = Some r" "mset (up_set r) = mset (cut_to True (live m) raw)"
      "up_primary r = (if up_set r = [] then - 1 else hd (up_set r))"
    using pipeline[OF assms(1) shift res(1) assms(4) _ raw(1), of b] assms(7) by auto
  have up: "set (up_set r) = {osd \<in> set raw. live m osd}" using mset_eq_setD[OF r(2)] by (auto simp: cut_to_def)
  have "osd_is_out m osd = Some False" if "osd \<in> set (up_set r)" for osd
  proof -
    have l: "live m osd" "osd \<in> set raw" using that up by auto
    then have "\<not> outed m osd" using raw(2) res(4) cut_to_subset[of osd True "known m" res] live_not_none[OF assms(1)] by auto
    then show ?thesis using l(1) assms(1) live_not_none[OF assms(1) l(1)]
      by (auto simp: osd_is_out_def osd_queries_ok live_def known_def get_weight_def outed_def osdmap_ok_def CEPH_OSD_OUT_def)
  qed
  moreover have "distinct (up_set r)" using mset_eq_imp_distinct_iff[OF r(2)] raw(3) by (simp add: cut_to_def)
  moreover have "length (up_set r) \<le> length raw" using mset_eq_length[OF r(2)] by (simp add: cut_to_def)
  moreover have "length (cut_to True (known m) res) \<le> pool_size pool"
    using order_trans[OF length_filter_le res(3)] by (simp add: cut_to_def)
  ultimately show ?thesis using r up raw(4) by (auto simp: osd_queries_ok[OF assms(1)])
qed

theorem replicated_up_set_witness:
  "\<exists>r. pg_to_up_acting_osds (\<lambda>_. 42) demo_osdmap \<lparr>m_pool = 1, m_seed = 3\<rparr> True = Some r \<and> distinct (up_set r) \<and>
    (\<forall>osd\<in>set (up_set r). is_up demo_osdmap osd = Some True \<and> osd_is_out demo_osdmap osd = Some False) \<and>
    up_primary r = (if up_set r = [] then - 1 else hd (up_set r)) \<and>
    (pg_upmap demo_osdmap (raw_pg_to_pg demo_pool \<lparr>m_pool = 1, m_seed = 3\<rparr>) = None \<longrightarrow> length (up_set r) \<le> pool_size demo_pool)"
  by (rule replicated_up_set[OF demo_osdmap_ok(1,2) _ _ _ _ _ _ _ _ _ demo_rules_ok(8),
        where rule = "\<lparr>rule_type = 1, rule_steps = replicated_rule (- 1) 0 1\<rparr>" and n = 0 and ty = 1])
    (simp_all add: demo_osdmap_def demo_rules_ok demo_pool_def set_pg_num_def set_pgp_num_def calc_pg_masks_def)

section \<open>Losing a daemon\<close>

lemma state_irrelevant:
  "marked_out (m\<lparr>osd_state := st\<rparr>) = marked_out m"
  "crush_result junk (m\<lparr>osd_state := st\<rparr>) pool pg = crush_result junk m pool pg"
  by (simp_all add: fun_eq_iff marked_out_def crush_result_def)

lemma apply_upmap_state: "apply_upmap (m\<lparr>osd_state := st\<rparr>) pool pg raw = apply_upmap m pool pg raw"
proof -
  have 1: "any_marked_out (m\<lparr>osd_state := st\<rparr>) ts = any_marked_out m ts" for ts
    by (induction ts) (simp_all add: state_irrelevant cong: if_cong)
  have 2: "upmap_item_search (m\<lparr>osd_state := st\<rparr>) r raw i pos = upmap_item_search m r raw i pos" for r raw i pos
    by (induction raw arbitrary: i pos) (simp_all add: state_irrelevant cong: if_cong)
  have "apply_upmap_items (m\<lparr>osd_state := st\<rparr>) rs = apply_upmap_items m rs" for rs
    by (induction rs; rule ext) (simp_all add: 2)
  then show ?thesis by (simp add: apply_upmap_def 1 cong: option.case_cong)
qed

text \<open>
  The up set of a pool with fixed positions when one daemon goes down: its positions become holes
  and no other position moves.
\<close>

lemma down_leaves_hole:
  assumes "osdmap_ok m" "crush_ok (osd_crush m) rank" "pools_ok m"
    and "osd_pools m (m_pool pg) = Some pool" "pool_kind pool = TYPE_ERASURE" "m_seed pg < pg_num pool"
    and "length st = max_osd m" "known (m\<lparr>osd_state := st\<rparr>) = known m"
    and "\<And>x. live (m\<lparr>osd_state := st\<rparr>) x \<longleftrightarrow> live m x \<and> x \<noteq> osd"
  shows "\<exists>r r'. pg_to_up_acting_osds junk m pg b = Some r \<and> pg_to_up_acting_osds junk (m\<lparr>osd_state := st\<rparr>) pg b = Some r' \<and>
    up_set r' = map (\<lambda>x. if x = osd then CRUSH_ITEM_NONE else x) (up_set r)"
proof -
  let ?m = "m\<lparr>osd_state := st\<rparr>"
  have shift: "can_shift_osds pool = Some False" using assms(5) by (simp add: can_shift_osds_def)
  have ok: "osdmap_ok ?m" using assms(1,7) by (simp add: osdmap_ok_def)
  obtain res where res: "crush_result junk m pool pg = Some res" using crush_result_total[OF assms(2,3,4)] by blast
  then have res': "crush_result junk ?m pool pg = Some res" by (simp add: state_irrelevant)
  obtain raw where raw: "apply_upmap m pool pg (cut_to False (known m) res) = Some raw" using apply_upmap_ok[OF assms(1)] by blast
  then have raw': "apply_upmap ?m pool pg (cut_to False (known ?m) res) = Some raw" by (simp add: apply_upmap_state assms(8))
  obtain r where r: "pg_to_up_acting_osds junk m pg b = Some r" "up_set r = cut_to False (live m) raw"
    using pipeline[OF assms(1) shift res assms(4) _ raw, of b] assms(6) by auto
  obtain r' where r': "pg_to_up_acting_osds junk ?m pg b = Some r'" "up_set r' = cut_to False (live ?m) raw"
    using pipeline[OF ok shift res' _ _ raw', of b] assms(4,6) by auto
  have "up_set r' = map (\<lambda>x. if x = osd then CRUSH_ITEM_NONE else x) (up_set r)"
    unfolding r(2) r'(2) by (auto simp: cut_to_def assms(9))
  then show ?thesis using r(1) r'(1) by blast
qed

section \<open>The primary of \<open>pg_to_raw_up\<close>\<close>

text \<open>
  \<open>pg_to_raw_up\<close> picks the primary from the raw set instead of the up set: with a daemon down, and
  no primary affinity set, the primary it reports is that daemon, which is not in the up set.
\<close>

lemma pg_to_raw_up_primary:
  assumes "osdmap_ok m" "osd_primary_affinity m = None" "can_shift_osds pool = Some shift"
    and "osd_pools m (m_pool pg) = Some pool" "crush_result junk m pool pg = Some res"
    and "pg_upmap m (raw_pg_to_pg pool pg) = None" "pg_upmap_items m (raw_pg_to_pg pool pg) = None"
  shows "pg_to_raw_up junk m pg = Some (cut_to shift (live m) (cut_to shift (known m) res), pick_primary (cut_to shift (known m) res))"
  using assms raw_osds_cut_to[OF assms(1,3,5)]
  by (simp add: pg_to_raw_up_def apply_upmap_def raw_to_up_osds_ok apply_primary_affinity_def cut_to_def)

section \<open>Roles in the acting set\<close>

lemma index_of_spec:
  "index_of osd acting i = (if osd \<in> set acting then i + int (length (takeWhile (\<lambda>a. a \<noteq> osd) acting)) else - 1)"
  by (induction acting arbitrary: i) simp_all

text \<open>A role that is not \<open>-1\<close> is a position of the acting set that holds the daemon.\<close>

lemma calc_pg_role_position:
  assumes "- 1 \<le> shard_no who"
  shows "\<exists>k. calc_pg_role who acting = Some k \<and> (k \<noteq> - 1 \<longrightarrow> 0 \<le> k \<and> k < int (length acting) \<and> acting ! nat k = shard_osd who)"
proof (cases "shard_no who = - 1")
  case True
  have "osd \<in> set xs \<Longrightarrow> length (takeWhile (\<lambda>a. a \<noteq> osd) xs) < length xs \<and> xs ! length (takeWhile (\<lambda>a. a \<noteq> osd) xs) = osd" for osd :: int and xs
    by (induction xs) auto
  then show ?thesis using True by (simp add: calc_pg_role_def index_of_spec)
next
  case False
  then show ?thesis using assms by (auto simp: calc_pg_role_def)
qed

text \<open>With the same daemons in the same order there is no change of the primary.\<close>

lemma primary_changed_same: "\<not> primary_changed_broken p acting p acting"
  by (simp add: primary_changed_broken_def)

end
