(* ===== verification/Osd_Incremental.thy ===== *)
theory Osd_Incremental
  imports Osd_Map Interval_Set
begin

text \<open>
  How the map of the daemons changes from one epoch to the next: \<open>OSDMap::apply_incremental\<close> and the
  setters it calls (\<open>osd/OSDMap.cc\<close>, \<open>osd/OSDMap.h\<close>).  Modelled are the fields that the mapping of
  placement groups reads, every per-daemon vector that the function indexes (states, weights, \<open>osd_info\<close>,
  \<open>osd_xinfo\<close>, uuids, the four vectors of addresses), the counters and cached features, the names of the
  pools and the queue of removed snapshots.  The code indexes these vectors, and follows the iterators
  of \<open>new_hb_back_up.find\<close> and \<open>new_hb_front_up.find\<close>, without a check: an index out of range or a
  missing entry is \<^term>\<open>None\<close>.  Flags, ratios, the blocklist, profiles and the stretch mode, which are
  copied from the incremental and which no modelled field depends on, are left out.  Epochs are natural
  numbers; an epoch does not reach \<open>2 ^ 32\<close>.
\<close>

unbundle bit_operations_syntax

section \<open>State\<close>

record osd_info_t =
  up_from :: nat
  up_thru :: nat
  down_at :: nat
  lost_at :: nat
  last_clean_begin :: nat
  last_clean_end :: nat

definition new_osd_info :: osd_info_t where
  "new_osd_info = \<lparr>up_from = 0, up_thru = 0, down_at = 0, lost_at = 0, last_clean_begin = 0, last_clean_end = 0\<rparr>"

record osd_xinfo_t =
  down_stamp :: nat
  laggy_probability :: nat
  laggy_interval :: nat
  features :: nat
  old_weight :: nat
  last_purged_snaps_scrub :: nat
  dead_epoch :: nat

definition new_osd_xinfo :: osd_xinfo_t where
  "new_osd_xinfo = \<lparr>down_stamp = 0, laggy_probability = 0, laggy_interval = 0, features = 0, old_weight = 0,
     last_purged_snaps_scrub = 0, dead_epoch = 0\<rparr>"

text \<open>
  An \<open>entity_addrvec_t\<close> and a \<open>uuid_d\<close> are only copied: any list of bytes.  A null \<open>shared_ptr\<close> in a
  vector of addresses is \<^term>\<open>None\<close>.
\<close>

type_synonym addrvec = "nat list"
type_synonym uuid = "nat list"

record osd_addrs_t =
  client_addrs :: "addrvec option list"
  cluster_addrs :: "addrvec option list"
  hb_back_addrs :: "addrvec option list"
  hb_front_addrs :: "addrvec option list"

record cluster_map =
  cm_epoch :: nat
  cm_fsid :: nat
  cm_osds :: osd_map
  cm_modified :: nat
  cm_osd_info :: "osd_info_t list"
  cm_osd_xinfo :: "osd_xinfo_t list"
  cm_osd_uuid :: "uuid list"
  cm_osd_addrs :: osd_addrs_t
  cached_up_osd_features :: nat
  num_osd :: nat
  num_up_osd :: nat
  num_in_osd :: nat
  pool_max :: int
  pool_name :: "int \<rightharpoonup> string"
  name_pool :: "string \<rightharpoonup> int"
  removed_snaps_queue :: "int \<rightharpoonup> iset"

record incremental =
  inc_epoch :: nat
  inc_fsid :: nat
  inc_modified :: nat
  inc_fullmap :: "cluster_map option"
  inc_new_max_osd :: int
  inc_new_pool_max :: int
  inc_new_pools :: "(int \<times> pg_pool_t) list"
  inc_new_removed_snaps :: "(int \<times> iset) list"
  inc_new_purged_snaps :: "(int \<times> iset) list"
  inc_new_pool_names :: "(int \<times> string) list"
  inc_old_pools :: "int list"
  inc_new_weight :: "(int \<times> u32) list"
  inc_new_primary_affinity :: "(int \<times> nat) list"
  inc_new_state :: "(int \<times> nat) list"
  inc_new_up_client :: "(int \<times> addrvec) list"
  inc_new_hb_back_up :: "(int \<times> addrvec) list"
  inc_new_hb_front_up :: "(int \<times> addrvec) list"
  inc_new_up_cluster :: "(int \<times> addrvec) list"
  inc_new_up_thru :: "(int \<times> nat) list"
  inc_new_last_clean_interval :: "(int \<times> nat \<times> nat) list"
  inc_new_lost :: "(int \<times> nat) list"
  inc_new_xinfo :: "(int \<times> osd_xinfo_t) list"
  inc_new_uuid :: "(int \<times> uuid) list"
  inc_new_pg_temp :: "(pg_t \<times> int list) list"
  inc_new_primary_temp :: "(pg_t \<times> int) list"
  inc_new_pg_upmap :: "(pg_t \<times> int list) list"
  inc_old_pg_upmap :: "pg_t list"
  inc_new_pg_upmap_items :: "(pg_t \<times> (int \<times> int) list) list"
  inc_old_pg_upmap_items :: "pg_t list"
  inc_crush :: "crush_wrapper option"

abbreviation (input) EINVAL :: int where "EINVAL \<equiv> 22"

text \<open>A loop over the entries of a container.\<close>

fun for_each :: "('a \<Rightarrow> 's \<Rightarrow> 's option) \<Rightarrow> 'a list \<Rightarrow> 's \<Rightarrow> 's option" where
  "for_each f [] s = Some s"
| "for_each f (x # xs) s = do { s \<leftarrow> f x s; for_each f xs s }"

text \<open>An index that the code uses without a check.\<close>

definition osd_index :: "int \<Rightarrow> nat option" where
  "osd_index osd = do { ceph_assert (0 \<le> osd); Some (nat osd) }"

definition vec_modify :: "'a list \<Rightarrow> int \<Rightarrow> ('a \<Rightarrow> 'a) \<Rightarrow> 'a list option" where
  "vec_modify xs osd f = do { i \<leftarrow> osd_index osd; x \<leftarrow> arr_get xs i; arr_set xs i (f x) }"

definition clear_bits :: "nat \<Rightarrow> nat \<Rightarrow> nat" where
  "clear_bits s k = s XOR (s AND k)"

definition vec_resize :: "'a list \<Rightarrow> nat \<Rightarrow> 'a \<Rightarrow> 'a list" where
  "vec_resize xs n v = take n xs @ replicate (n - length xs) v"

section \<open>Setters\<close>

definition count_osd :: "osd_map \<Rightarrow> nat \<Rightarrow> nat \<times> nat \<times> nat \<Rightarrow> (nat \<times> nat \<times> nat) option" where
  "count_osd m k c =
    do { let (n, u, i) = c;
         s \<leftarrow> arr_get (osd_state m) k;
         if s AND CEPH_OSD_EXISTS \<noteq> 0
         then do { w \<leftarrow> get_weight m (int k);
                   Some (n + 1, if s AND CEPH_OSD_UP \<noteq> 0 then u + 1 else u,
                         if w \<noteq> CEPH_OSD_OUT then i + 1 else i) }
         else Some (n, u, i) }"

definition calc_num_osds :: "cluster_map \<Rightarrow> cluster_map option" where
  "calc_num_osds cm =
    do { (n, u, i) \<leftarrow> for_each (count_osd (cm_osds cm)) [0..<max_osd (cm_osds cm)] (0, 0, 0);
         Some (cm\<lparr>num_osd := n, num_up_osd := u, num_in_osd := i\<rparr>) }"

definition resize_addrs :: "osd_addrs_t \<Rightarrow> nat \<Rightarrow> osd_addrs_t" where
  "resize_addrs a n =
    \<lparr>client_addrs = vec_resize (client_addrs a) n None, cluster_addrs = vec_resize (cluster_addrs a) n None,
     hb_back_addrs = vec_resize (hb_back_addrs a) n None, hb_front_addrs = vec_resize (hb_front_addrs a) n None\<rparr>"

definition set_max_osd :: "nat \<Rightarrow> cluster_map \<Rightarrow> cluster_map option" where
  "set_max_osd n cm =
    (let m = cm_osds cm in
     calc_num_osds
       (cm\<lparr>cm_osds := m\<lparr>max_osd := n, osd_state := vec_resize (osd_state m) n 0,
                         osd_weight := vec_resize (osd_weight m) n CEPH_OSD_OUT,
                         osd_primary_affinity :=
                           map_option (\<lambda>aff. vec_resize aff n CEPH_OSD_DEFAULT_PRIMARY_AFFINITY) (osd_primary_affinity m)\<rparr>,
            cm_osd_info := vec_resize (cm_osd_info cm) n new_osd_info,
            cm_osd_xinfo := vec_resize (cm_osd_xinfo cm) n new_osd_xinfo,
            cm_osd_addrs := resize_addrs (cm_osd_addrs cm) n,
            cm_osd_uuid := vec_resize (cm_osd_uuid cm) n []\<rparr>))"

definition set_state :: "int \<Rightarrow> nat \<Rightarrow> osd_map \<Rightarrow> osd_map option" where
  "set_state osd s m =
    do { ceph_assert (osd < int (max_osd m));
         i \<leftarrow> osd_index osd;
         st \<leftarrow> arr_set (osd_state m) i s;
         Some (m\<lparr>osd_state := st\<rparr>) }"

definition modify_state :: "int \<Rightarrow> (nat \<Rightarrow> nat) \<Rightarrow> osd_map \<Rightarrow> osd_map option" where
  "modify_state osd f m =
    do { i \<leftarrow> osd_index osd;
         s \<leftarrow> arr_get (osd_state m) i;
         st \<leftarrow> arr_set (osd_state m) i (f s);
         Some (m\<lparr>osd_state := st\<rparr>) }"

definition set_weight :: "int \<Rightarrow> u32 \<Rightarrow> osd_map \<Rightarrow> osd_map option" where
  "set_weight osd w m =
    do { ceph_assert (osd < int (max_osd m));
         i \<leftarrow> osd_index osd;
         ws \<leftarrow> arr_set (osd_weight m) i w;
         let m = m\<lparr>osd_weight := ws\<rparr>;
         if w \<noteq> 0 then modify_state osd (\<lambda>s. s OR CEPH_OSD_EXISTS) m else Some m }"

definition set_primary_affinity :: "int \<Rightarrow> nat \<Rightarrow> osd_map \<Rightarrow> osd_map option" where
  "set_primary_affinity osd w m =
    do { ceph_assert (osd < int (max_osd m));
         let aff = (case osd_primary_affinity m of
                      None \<Rightarrow> replicate (max_osd m) CEPH_OSD_DEFAULT_PRIMARY_AFFINITY | Some aff \<Rightarrow> aff);
         i \<leftarrow> osd_index osd;
         aff \<leftarrow> arr_set aff i w;
         Some (m\<lparr>osd_primary_affinity := Some aff\<rparr>) }"

definition modify_info :: "int \<Rightarrow> (osd_info_t \<Rightarrow> osd_info_t) \<Rightarrow> cluster_map \<Rightarrow> cluster_map option" where
  "modify_info osd f cm = do { v \<leftarrow> vec_modify (cm_osd_info cm) osd f; Some (cm\<lparr>cm_osd_info := v\<rparr>) }"

definition modify_xinfo :: "int \<Rightarrow> (osd_xinfo_t \<Rightarrow> osd_xinfo_t) \<Rightarrow> cluster_map \<Rightarrow> cluster_map option" where
  "modify_xinfo osd f cm = do { v \<leftarrow> vec_modify (cm_osd_xinfo cm) osd f; Some (cm\<lparr>cm_osd_xinfo := v\<rparr>) }"

definition set_uuid :: "int \<Rightarrow> uuid \<Rightarrow> cluster_map \<Rightarrow> cluster_map option" where
  "set_uuid osd u cm = do { v \<leftarrow> vec_modify (cm_osd_uuid cm) osd (\<lambda>_. u); Some (cm\<lparr>cm_osd_uuid := v\<rparr>) }"

text \<open>\<open>osd_addrs->\<dots>[osd].reset(new entity_addrvec_t(\<dots>))\<close>, for one of the four vectors.\<close>

datatype addr_kind = Client_addr | Cluster_addr | Hb_back_addr | Hb_front_addr

definition set_addr :: "addr_kind \<Rightarrow> int \<Rightarrow> addrvec \<Rightarrow> cluster_map \<Rightarrow> cluster_map option" where
  "set_addr k osd a cm =
    (let v = cm_osd_addrs cm; put = (\<lambda>xs. vec_modify xs osd (\<lambda>_. Some a)) in
     case k of
       Client_addr \<Rightarrow> do { xs \<leftarrow> put (client_addrs v); Some (cm\<lparr>cm_osd_addrs := v\<lparr>client_addrs := xs\<rparr>\<rparr>) }
     | Cluster_addr \<Rightarrow> do { xs \<leftarrow> put (cluster_addrs v); Some (cm\<lparr>cm_osd_addrs := v\<lparr>cluster_addrs := xs\<rparr>\<rparr>) }
     | Hb_back_addr \<Rightarrow> do { xs \<leftarrow> put (hb_back_addrs v); Some (cm\<lparr>cm_osd_addrs := v\<lparr>hb_back_addrs := xs\<rparr>\<rparr>) }
     | Hb_front_addr \<Rightarrow> do { xs \<leftarrow> put (hb_front_addrs v); Some (cm\<lparr>cm_osd_addrs := v\<lparr>hb_front_addrs := xs\<rparr>\<rparr>) })"

definition get_xinfo :: "cluster_map \<Rightarrow> int \<Rightarrow> osd_xinfo_t option" where
  "get_xinfo cm osd =
    do { ceph_assert (osd < int (max_osd (cm_osds cm)));
         i \<leftarrow> osd_index osd;
         arr_get (cm_osd_xinfo cm) i }"

definition up_features_step :: "cluster_map \<Rightarrow> nat \<Rightarrow> bool \<times> nat \<Rightarrow> (bool \<times> nat) option" where
  "up_features_step cm osd c =
    do { let (first, cached) = c;
         up \<leftarrow> is_up (cm_osds cm) (int osd);
         if \<not> up then Some (first, cached)
         else do { xi \<leftarrow> get_xinfo cm (int osd);
                   if features xi = 0 then Some (first, cached)
                   else if first then Some (False, features xi)
                   else Some (False, cached AND features xi) } }"

definition calc_up_osd_features :: "cluster_map \<Rightarrow> cluster_map option" where
  "calc_up_osd_features cm =
    do { (_, cached) \<leftarrow> for_each (up_features_step cm) [0..<max_osd (cm_osds cm)] (True, 0);
         Some (cm\<lparr>cached_up_osd_features := cached\<rparr>) }"

definition on_osds :: "(osd_map \<Rightarrow> osd_map option) \<Rightarrow> cluster_map \<Rightarrow> cluster_map option" where
  "on_osds f cm = map_option (\<lambda>m. cm\<lparr>cm_osds := m\<rparr>) (f (cm_osds cm))"

section \<open>The steps of \<open>apply_incremental\<close>\<close>

definition apply_new_pool :: "int \<times> pg_pool_t \<Rightarrow> cluster_map \<Rightarrow> cluster_map option" where
  "apply_new_pool p cm =
    on_osds (\<lambda>m. Some (m\<lparr>osd_pools := (osd_pools m)(fst p \<mapsto> (snd p)\<lparr>last_change := cm_epoch cm\<rparr>)\<rparr>)) cm"

definition apply_removed_snaps :: "int \<times> iset \<Rightarrow> cluster_map \<Rightarrow> cluster_map option" where
  "apply_removed_snaps p cm =
    do { let q = (case removed_snaps_queue cm (fst p) of None \<Rightarrow> iset_empty | Some s \<Rightarrow> s);
         q \<leftarrow> union_of q (snd p);
         Some (cm\<lparr>removed_snaps_queue := (removed_snaps_queue cm)(fst p \<mapsto> q)\<rparr>) }"

definition apply_purged_snaps :: "int \<times> iset \<Rightarrow> cluster_map \<Rightarrow> cluster_map option" where
  "apply_purged_snaps p cm =
    do { q \<leftarrow> removed_snaps_queue cm (fst p);
         q \<leftarrow> subtract q (snd p);
         Some (cm\<lparr>removed_snaps_queue :=
           (removed_snaps_queue cm)(fst p := (if iset_m q = [] then None else Some q))\<rparr>) }"

definition apply_pool_name :: "int \<times> string \<Rightarrow> cluster_map \<Rightarrow> cluster_map option" where
  "apply_pool_name p cm =
    (let names = (case pool_name cm (fst p) of
                    Some old \<Rightarrow> (name_pool cm)(old := None)
                  | None \<Rightarrow> name_pool cm)
     in Some (cm\<lparr>pool_name := (pool_name cm)(fst p \<mapsto> snd p), name_pool := names(snd p \<mapsto> fst p)\<rparr>))"

definition apply_old_pool :: "int \<Rightarrow> cluster_map \<Rightarrow> cluster_map option" where
  "apply_old_pool p cm =
    (let name = (case pool_name cm p of Some n \<Rightarrow> n | None \<Rightarrow> [])
     in Some (cm\<lparr>cm_osds := (cm_osds cm)\<lparr>osd_pools := (osd_pools (cm_osds cm))(p := None)\<rparr>,
                 name_pool := (name_pool cm)(name := None), pool_name := (pool_name cm)(p := None)\<rparr>))"

definition apply_weight :: "int \<times> u32 \<Rightarrow> cluster_map \<Rightarrow> cluster_map option" where
  "apply_weight p cm =
    do { cm \<leftarrow> on_osds (set_weight (fst p) (snd p)) cm;
         if snd p \<noteq> 0
         then do { cm \<leftarrow> on_osds (modify_state (fst p) (\<lambda>s. clear_bits s (CEPH_OSD_AUTOOUT OR CEPH_OSD_NEW))) cm;
                   modify_xinfo (fst p) (\<lambda>x. x\<lparr>old_weight := 0\<rparr>) cm }
         else Some cm }"

definition apply_affinity :: "int \<times> nat \<Rightarrow> cluster_map \<Rightarrow> cluster_map option" where
  "apply_affinity p = on_osds (set_primary_affinity (fst p) (snd p))"

text \<open>What is left of a daemon whose \<open>EXISTS\<close> bit is cleared.\<close>

definition destroy_osd :: "int \<Rightarrow> cluster_map \<Rightarrow> cluster_map option" where
  "destroy_osd osd cm =
    do { cm \<leftarrow> set_uuid osd [] cm;
         cm \<leftarrow> modify_info osd (\<lambda>_. new_osd_info) cm;
         cm \<leftarrow> modify_xinfo osd (\<lambda>_. new_osd_xinfo) cm;
         cm \<leftarrow> on_osds (set_primary_affinity osd CEPH_OSD_DEFAULT_PRIMARY_AFFINITY) cm;
         cm \<leftarrow> set_addr Client_addr osd [] cm;
         cm \<leftarrow> set_addr Cluster_addr osd [] cm;
         cm \<leftarrow> set_addr Hb_front_addr osd [] cm;
         cm \<leftarrow> set_addr Hb_back_addr osd [] cm;
         on_osds (modify_state osd (\<lambda>_. 0)) cm }"

definition apply_state :: "int \<times> nat \<Rightarrow> cluster_map \<Rightarrow> cluster_map option" where
  "apply_state p cm =
    do { let osd = fst p;
         let s = (if snd p \<noteq> 0 then snd p else CEPH_OSD_UP);
         i \<leftarrow> osd_index osd;
         st \<leftarrow> arr_get (osd_state (cm_osds cm)) i;
         cm \<leftarrow> (if st AND CEPH_OSD_UP \<noteq> 0 \<and> s AND CEPH_OSD_UP \<noteq> 0
                then do { cm \<leftarrow> modify_info osd (\<lambda>x. x\<lparr>down_at := cm_epoch cm\<rparr>) cm;
                          modify_xinfo osd (\<lambda>x. x\<lparr>down_stamp := cm_modified cm\<rparr>) cm }
                else Some cm);
         if st AND CEPH_OSD_EXISTS \<noteq> 0 \<and> s AND CEPH_OSD_EXISTS \<noteq> 0
         then destroy_osd osd cm
         else on_osds (modify_state osd (\<lambda>st. st XOR s)) cm }"

definition apply_up_client :: "incremental \<Rightarrow> int \<times> addrvec \<Rightarrow> cluster_map \<Rightarrow> cluster_map option" where
  "apply_up_client inc p cm =
    do { let osd = fst p;
         cm \<leftarrow> on_osds (modify_state osd (\<lambda>s. clear_bits (s OR (CEPH_OSD_EXISTS OR CEPH_OSD_UP)) CEPH_OSD_STOP)) cm;
         cm \<leftarrow> set_addr Client_addr osd (snd p) cm;
         hb_back \<leftarrow> map_of (inc_new_hb_back_up inc) osd;
         cm \<leftarrow> set_addr Hb_back_addr osd hb_back cm;
         hb_front \<leftarrow> map_of (inc_new_hb_front_up inc) osd;
         cm \<leftarrow> set_addr Hb_front_addr osd hb_front cm;
         modify_info osd (\<lambda>x. x\<lparr>up_from := cm_epoch cm\<rparr>) cm }"

definition apply_up_cluster :: "int \<times> addrvec \<Rightarrow> cluster_map \<Rightarrow> cluster_map option" where
  "apply_up_cluster p = set_addr Cluster_addr (fst p) (snd p)"

definition apply_up_thru :: "int \<times> nat \<Rightarrow> cluster_map \<Rightarrow> cluster_map option" where
  "apply_up_thru p = modify_info (fst p) (\<lambda>x. x\<lparr>up_thru := snd p\<rparr>)"

definition apply_clean_interval :: "int \<times> nat \<times> nat \<Rightarrow> cluster_map \<Rightarrow> cluster_map option" where
  "apply_clean_interval p =
    modify_info (fst p) (\<lambda>x. x\<lparr>last_clean_begin := fst (snd p), last_clean_end := snd (snd p)\<rparr>)"

definition apply_lost :: "int \<times> nat \<Rightarrow> cluster_map \<Rightarrow> cluster_map option" where
  "apply_lost p = modify_info (fst p) (\<lambda>x. x\<lparr>lost_at := snd p\<rparr>)"

definition apply_xinfo :: "int \<times> osd_xinfo_t \<Rightarrow> cluster_map \<Rightarrow> cluster_map option" where
  "apply_xinfo p = modify_xinfo (fst p) (\<lambda>_. snd p)"

definition apply_uuid :: "int \<times> uuid \<Rightarrow> cluster_map \<Rightarrow> cluster_map option" where
  "apply_uuid p = set_uuid (fst p) (snd p)"

definition apply_pg_temp :: "pg_t \<times> int list \<Rightarrow> cluster_map \<Rightarrow> cluster_map option" where
  "apply_pg_temp p =
    on_osds (\<lambda>m. Some (m\<lparr>pg_temp := (pg_temp m)(fst p := (if snd p = [] then None else Some (snd p)))\<rparr>))"

definition apply_primary_temp :: "pg_t \<times> int \<Rightarrow> cluster_map \<Rightarrow> cluster_map option" where
  "apply_primary_temp p =
    on_osds (\<lambda>m. Some (m\<lparr>primary_temp := (primary_temp m)(fst p := (if snd p = - 1 then None else Some (snd p)))\<rparr>))"

definition apply_upmaps :: "incremental \<Rightarrow> cluster_map \<Rightarrow> cluster_map option" where
  "apply_upmaps inc cm =
    do { cm \<leftarrow> for_each (\<lambda>p. on_osds (\<lambda>m. Some (m\<lparr>pg_upmap := (pg_upmap m)(fst p \<mapsto> snd p)\<rparr>))) (inc_new_pg_upmap inc) cm;
         cm \<leftarrow> for_each (\<lambda>pg. on_osds (\<lambda>m. Some (m\<lparr>pg_upmap := (pg_upmap m)(pg := None)\<rparr>))) (inc_old_pg_upmap inc) cm;
         cm \<leftarrow> for_each (\<lambda>p. on_osds (\<lambda>m. Some (m\<lparr>pg_upmap_items := (pg_upmap_items m)(fst p \<mapsto> snd p)\<rparr>))) (inc_new_pg_upmap_items inc) cm;
         for_each (\<lambda>pg. on_osds (\<lambda>m. Some (m\<lparr>pg_upmap_items := (pg_upmap_items m)(pg := None)\<rparr>))) (inc_old_pg_upmap_items inc) cm }"

definition apply_crush :: "crush_wrapper option \<Rightarrow> cluster_map \<Rightarrow> cluster_map option" where
  "apply_crush c = (case c of None \<Rightarrow> Some | Some w \<Rightarrow> on_osds (\<lambda>m. Some (m\<lparr>osd_crush := w\<rparr>)))"

definition apply_sizes :: "incremental \<Rightarrow> cluster_map \<Rightarrow> cluster_map option" where
  "apply_sizes inc cm =
    do { cm \<leftarrow> (if 0 \<le> inc_new_max_osd inc then set_max_osd (nat (inc_new_max_osd inc)) cm else Some cm);
         let cm = (if inc_new_pool_max inc \<noteq> - 1 then cm\<lparr>pool_max := inc_new_pool_max inc\<rparr> else cm);
         for_each apply_new_pool (inc_new_pools inc) cm }"

definition apply_pools :: "incremental \<Rightarrow> cluster_map \<Rightarrow> cluster_map option" where
  "apply_pools inc cm =
    do { cm \<leftarrow> apply_sizes inc cm;
         cm \<leftarrow> for_each apply_removed_snaps (inc_new_removed_snaps inc) cm;
         cm \<leftarrow> for_each apply_purged_snaps (inc_new_purged_snaps inc) cm;
         cm \<leftarrow> for_each apply_pool_name (inc_new_pool_names inc) cm;
         for_each apply_old_pool (inc_old_pools inc) cm }"

definition apply_daemons :: "incremental \<Rightarrow> cluster_map \<Rightarrow> cluster_map option" where
  "apply_daemons inc cm =
    do { cm \<leftarrow> for_each apply_weight (inc_new_weight inc) cm;
         cm \<leftarrow> for_each apply_affinity (inc_new_primary_affinity inc) cm;
         cm \<leftarrow> for_each apply_state (inc_new_state inc) cm;
         cm \<leftarrow> for_each (apply_up_client inc) (inc_new_up_client inc) cm;
         cm \<leftarrow> for_each apply_up_cluster (inc_new_up_cluster inc) cm;
         cm \<leftarrow> for_each apply_up_thru (inc_new_up_thru inc) cm;
         cm \<leftarrow> for_each apply_clean_interval (inc_new_last_clean_interval inc) cm;
         cm \<leftarrow> for_each apply_lost (inc_new_lost inc) cm;
         cm \<leftarrow> for_each apply_xinfo (inc_new_xinfo inc) cm;
         for_each apply_uuid (inc_new_uuid inc) cm }"

text \<open>
  The whole function: an error code, or the next map.  A full map replaces everything; the model
  takes the decoded map.
\<close>

definition apply_incremental :: "incremental \<Rightarrow> cluster_map \<Rightarrow> (int \<times> cluster_map) option" where
  "apply_incremental inc cm =
    (let cm = (if inc_epoch inc = 1 then cm\<lparr>cm_fsid := inc_fsid inc\<rparr> else cm) in
     if inc_epoch inc \<noteq> 1 \<and> inc_fsid inc \<noteq> cm_fsid cm then Some (- EINVAL, cm)
     else do {
       ceph_assert (inc_epoch inc = cm_epoch cm + 1);
       let cm = cm\<lparr>cm_epoch := cm_epoch cm + 1, cm_modified := inc_modified inc\<rparr>;
       case inc_fullmap inc of
         Some full \<Rightarrow> Some (0, full)
       | None \<Rightarrow>
           do { cm \<leftarrow> apply_pools inc cm;
                cm \<leftarrow> apply_daemons inc cm;
                cm \<leftarrow> for_each apply_pg_temp (inc_new_pg_temp inc) cm;
                cm \<leftarrow> for_each apply_primary_temp (inc_new_primary_temp inc) cm;
                cm \<leftarrow> apply_upmaps inc cm;
                cm \<leftarrow> apply_crush (inc_crush inc) cm;
                cm \<leftarrow> calc_num_osds cm;
                cm \<leftarrow> calc_up_osd_features cm;
                Some (0, cm) } })"

section \<open>Invariants of the loops\<close>

lemma for_each_inv:
  assumes "\<And>x s. x \<in> set xs \<Longrightarrow> I s \<Longrightarrow> \<exists>s'. f x s = Some s' \<and> I s'" "I s"
  shows "\<exists>s'. for_each f xs s = Some s' \<and> I s'"
  using assms
proof (induction xs arbitrary: s)
  case (Cons x xs)
  then obtain s1 where "f x s = Some s1" "I s1" by (meson list.set_intros(1))
  then show ?case using Cons.IH[of s1] Cons.prems(1) by auto
qed simp

definition cluster_ok :: "cluster_map \<Rightarrow> bool" where
  "cluster_ok cm \<longleftrightarrow>
    (let n = max_osd (cm_osds cm); a = cm_osd_addrs cm in
     osdmap_ok (cm_osds cm) \<and> length (cm_osd_info cm) = n \<and> length (cm_osd_xinfo cm) = n \<and> length (cm_osd_uuid cm) = n \<and>
     length (client_addrs a) = n \<and> length (cluster_addrs a) = n \<and> length (hb_back_addrs a) = n \<and> length (hb_front_addrs a) = n)"

text \<open>What the steps on daemons, temporary mappings and exceptions leave alone.\<close>

definition steady :: "nat \<Rightarrow> cluster_map \<Rightarrow> cluster_map \<Rightarrow> bool" where
  "steady n cm0 cm \<longleftrightarrow>
    cluster_ok cm \<and> max_osd (cm_osds cm) = n \<and> cm_epoch cm = cm_epoch cm0 \<and> cm_fsid cm = cm_fsid cm0 \<and>
    removed_snaps_queue cm = removed_snaps_queue cm0 \<and> pool_name cm = pool_name cm0 \<and> name_pool cm = name_pool cm0"

definition valid_id :: "nat \<Rightarrow> int \<Rightarrow> bool" where
  "valid_id n osd \<longleftrightarrow> 0 \<le> osd \<and> osd < int n"

lemma osd_index_valid: "valid_id n osd \<Longrightarrow> osd_index osd = Some (nat osd) \<and> nat osd < n"
  by (auto simp: valid_id_def osd_index_def)

lemma on_osds_steady:
  assumes "steady n cm0 cm" "\<exists>m. f (cm_osds cm) = Some m \<and> osdmap_ok m \<and> max_osd m = n"
  shows "\<exists>cm'. on_osds f cm = Some cm' \<and> steady n cm0 cm'"
  using assms by (auto simp: steady_def on_osds_def cluster_ok_def Let_def)

lemma vec_modify_ok:
  assumes "valid_id n osd" "length xs = n"
  shows "\<exists>ys. vec_modify xs osd f = Some ys \<and> length ys = n"
  using assms osd_index_valid[OF assms(1)] by (simp add: vec_modify_def)

lemma modify_info_steady:
  assumes "steady n cm0 cm" "valid_id n osd"
  shows "\<exists>cm'. modify_info osd f cm = Some cm' \<and> steady n cm0 cm'"
  using assms vec_modify_ok[OF assms(2), of "cm_osd_info cm" f]
  by (auto simp: steady_def modify_info_def cluster_ok_def Let_def)

lemma modify_xinfo_steady:
  assumes "steady n cm0 cm" "valid_id n osd"
  shows "\<exists>cm'. modify_xinfo osd f cm = Some cm' \<and> steady n cm0 cm'"
  using assms vec_modify_ok[OF assms(2), of "cm_osd_xinfo cm" f]
  by (auto simp: steady_def modify_xinfo_def cluster_ok_def Let_def)

lemma set_uuid_steady:
  assumes "steady n cm0 cm" "valid_id n osd"
  shows "\<exists>cm'. set_uuid osd u cm = Some cm' \<and> steady n cm0 cm'"
  using assms vec_modify_ok[OF assms(2), of "cm_osd_uuid cm" "\<lambda>_. u"]
  by (auto simp: steady_def set_uuid_def cluster_ok_def Let_def)

lemma set_addr_steady:
  assumes "steady n cm0 cm" "valid_id n osd"
  shows "\<exists>cm'. set_addr k osd a cm = Some cm' \<and> steady n cm0 cm'"
proof -
  have "\<exists>ys. vec_modify xs osd (\<lambda>_. Some a) = Some ys \<and> length ys = n" if "length xs = n" for xs
    by (rule vec_modify_ok[OF assms(2) that])
  then show ?thesis using assms(1)
    by (cases k) (fastforce simp: steady_def set_addr_def cluster_ok_def Let_def)+
qed

lemma steady_bind:
  assumes "\<exists>c. x = Some c \<and> steady n cm0 c" "\<And>c. steady n cm0 c \<Longrightarrow> \<exists>c'. g c = Some c' \<and> steady n cm0 c'"
  shows "\<exists>c'. x \<bind> g = Some c' \<and> steady n cm0 c'"
  using assms by fastforce

lemma steady_osds: "steady n cm0 cm \<Longrightarrow> osdmap_ok (cm_osds cm) \<and> max_osd (cm_osds cm) = n"
  by (simp add: steady_def cluster_ok_def Let_def)

lemma modify_state_ok:
  assumes "osdmap_ok m" "max_osd m = n" "valid_id n osd"
  shows "\<exists>m'. modify_state osd f m = Some m' \<and> osdmap_ok m' \<and> max_osd m' = n"
  using assms osd_index_valid[OF assms(3)] by (auto simp: modify_state_def osdmap_ok_def)

lemma set_weight_ok:
  assumes "osdmap_ok m" "max_osd m = n" "valid_id n osd"
  shows "\<exists>m'. set_weight osd w m = Some m' \<and> osdmap_ok m' \<and> max_osd m' = n"
proof -
  let ?m = "m\<lparr>osd_weight := (osd_weight m)[nat osd := w]\<rparr>"
  have "osdmap_ok ?m" "max_osd ?m = n" "nat osd < length (osd_weight m)"
    using assms osd_index_valid[OF assms(3)] by (auto simp: osdmap_ok_def)
  then show ?thesis using modify_state_ok[of ?m n osd] assms osd_index_valid[OF assms(3)]
    by (auto simp: set_weight_def valid_id_def Let_def)
qed

lemma set_primary_affinity_ok:
  assumes "osdmap_ok m" "max_osd m = n" "valid_id n osd"
  shows "\<exists>m'. set_primary_affinity osd w m = Some m' \<and> osdmap_ok m' \<and> max_osd m' = n"
  using assms osd_index_valid[OF assms(3)]
  by (auto simp: set_primary_affinity_def osdmap_ok_def valid_id_def split: option.splits)

lemma on_modify_state_steady:
  assumes "steady n cm0 cm" "valid_id n osd"
  shows "\<exists>cm'. on_osds (modify_state osd f) cm = Some cm' \<and> steady n cm0 cm'"
  using on_osds_steady[OF assms(1)] modify_state_ok[OF _ _ assms(2)] steady_osds[OF assms(1)] by blast

lemma on_set_primary_affinity_steady:
  assumes "steady n cm0 cm" "valid_id n osd"
  shows "\<exists>cm'. on_osds (set_primary_affinity osd w) cm = Some cm' \<and> steady n cm0 cm'"
  using on_osds_steady[OF assms(1)] set_primary_affinity_ok[OF _ _ assms(2)] steady_osds[OF assms(1)] by blast

lemmas daemon_steady =
  modify_info_steady modify_xinfo_steady set_uuid_steady set_addr_steady
  on_modify_state_steady on_set_primary_affinity_steady

lemma apply_weight_steady: "steady n cm0 cm \<Longrightarrow> valid_id n (fst p) \<Longrightarrow> \<exists>cm'. apply_weight p cm = Some cm' \<and> steady n cm0 cm'"
proof -
  assume s: "steady n cm0 cm" and v: "valid_id n (fst p)"
  have "\<exists>c. on_osds (set_weight (fst p) (snd p)) cm = Some c \<and> steady n cm0 c"
    using on_osds_steady[OF s] set_weight_ok[OF _ _ v] steady_osds[OF s] by blast
  then show ?thesis unfolding apply_weight_def
  proof (rule steady_bind)
    fix c assume c: "steady n cm0 c"
    have "\<exists>c'. on_osds (modify_state (fst p) f) c \<bind> modify_xinfo (fst p) g = Some c' \<and> steady n cm0 c'" for f g
      by (rule steady_bind[OF on_modify_state_steady[OF c v] modify_xinfo_steady[OF _ v]])
    then show "\<exists>c'. (if snd p \<noteq> 0
        then on_osds (modify_state (fst p) (\<lambda>s. clear_bits s (CEPH_OSD_AUTOOUT OR CEPH_OSD_NEW))) c \<bind>
             modify_xinfo (fst p) (old_weight_update (\<lambda>_. 0)) else Some c) = Some c' \<and> steady n cm0 c'"
      using c by simp
  qed
qed

lemma apply_affinity_steady: "steady n cm0 cm \<Longrightarrow> valid_id n (fst p) \<Longrightarrow> \<exists>cm'. apply_affinity p cm = Some cm' \<and> steady n cm0 cm'"
  unfolding apply_affinity_def by (rule on_set_primary_affinity_steady)

lemma destroy_osd_steady: "steady n cm0 cm \<Longrightarrow> valid_id n osd \<Longrightarrow> \<exists>cm'. destroy_osd osd cm = Some cm' \<and> steady n cm0 cm'"
  unfolding destroy_osd_def by (intro steady_bind) (assumption | rule daemon_steady)+

lemma apply_state_steady: "steady n cm0 cm \<Longrightarrow> valid_id n (fst p) \<Longrightarrow> \<exists>cm'. apply_state p cm = Some cm' \<and> steady n cm0 cm'"
proof -
  assume s: "steady n cm0 cm" and v: "valid_id n (fst p)"
  have i: "osd_index (fst p) = Some (nat (fst p))" "nat (fst p) < length (osd_state (cm_osds cm))"
    using osd_index_valid[OF v] steady_osds[OF s] by (auto simp: osdmap_ok_def)
  have down: "\<exists>c. modify_info (fst p) f cm \<bind> (\<lambda>c. modify_xinfo (fst p) (g c) c) = Some c \<and> steady n cm0 c" for f g
    by (rule steady_bind[OF modify_info_steady[OF s v] modify_xinfo_steady[OF _ v]])
  have first: "\<exists>c. (if C then modify_info (fst p) f cm \<bind> (\<lambda>c. modify_xinfo (fst p) (g c) c) else Some cm) = Some c \<and> steady n cm0 c" for C f g
    using down[of f g] s by (cases C) auto
  have last: "\<exists>c'. (if D then destroy_osd (fst p) c else on_osds (modify_state (fst p) f) c) = Some c' \<and> steady n cm0 c'"
    if "steady n cm0 c" for D c f
    using destroy_osd_steady[OF that v] on_modify_state_steady[OF that v, of f] by (cases D) auto
  show ?thesis unfolding apply_state_def Let_def i(1) Option.bind_lunit arr_get_nth[OF i(2)]
    by (rule steady_bind[OF first last])
qed

lemma apply_up_client_steady:
  assumes "steady n cm0 cm" "valid_id n (fst p)" "fst p \<in> fst ` set (inc_new_hb_back_up inc)" "fst p \<in> fst ` set (inc_new_hb_front_up inc)"
  shows "\<exists>cm'. apply_up_client inc p cm = Some cm' \<and> steady n cm0 cm'"
proof -
  obtain b f where "map_of (inc_new_hb_back_up inc) (fst p) = Some b" "map_of (inc_new_hb_front_up inc) (fst p) = Some f"
    using assms(3,4) by (metis map_of_eq_None_iff not_Some_eq)
  then show ?thesis using assms(1,2) unfolding apply_up_client_def Let_def
    by simp (intro steady_bind; (assumption | rule daemon_steady)+)
qed

definition ids_ok :: "nat \<Rightarrow> incremental \<Rightarrow> bool" where
  "ids_ok n inc \<longleftrightarrow> list_all (valid_id n)
    (map fst (inc_new_weight inc) @ map fst (inc_new_primary_affinity inc) @ map fst (inc_new_state inc) @
     map fst (inc_new_up_client inc) @ map fst (inc_new_up_cluster inc) @ map fst (inc_new_up_thru inc) @
     map fst (inc_new_last_clean_interval inc) @ map fst (inc_new_lost inc) @ map fst (inc_new_xinfo inc) @ map fst (inc_new_uuid inc))"

text \<open>A daemon that boots has both of its heartbeat addresses in the incremental.\<close>

definition clients_ok :: "incremental \<Rightarrow> bool" where
  "clients_ok inc \<longleftrightarrow> list_all (\<lambda>p. fst p \<in> fst ` set (inc_new_hb_back_up inc) \<and> fst p \<in> fst ` set (inc_new_hb_front_up inc))
     (inc_new_up_client inc)"

lemma for_each_steady:
  assumes "\<And>x c. x \<in> set xs \<Longrightarrow> steady n cm0 c \<Longrightarrow> \<exists>c'. f x c = Some c' \<and> steady n cm0 c'" "steady n cm0 cm"
  shows "\<exists>cm'. for_each f xs cm = Some cm' \<and> steady n cm0 cm'"
  using for_each_inv[of xs "steady n cm0" f cm] assms by blast

lemma apply_daemons_steady:
  assumes "steady n cm0 cm" "ids_ok n inc" "clients_ok inc"
  shows "\<exists>cm'. apply_daemons inc cm = Some cm' \<and> steady n cm0 cm'"
proof -
  note v = assms(2)[unfolded ids_ok_def list_all_append list_all_iff set_map, simplified]
  have f1: "\<exists>c'. for_each apply_weight (inc_new_weight inc) c = Some c' \<and> steady n cm0 c'" if "steady n cm0 c" for c
    by (rule for_each_steady[OF apply_weight_steady that]) (use v in auto)
  have f2: "\<exists>c'. for_each apply_affinity (inc_new_primary_affinity inc) c = Some c' \<and> steady n cm0 c'" if "steady n cm0 c" for c
    by (rule for_each_steady[OF apply_affinity_steady that]) (use v in auto)
  have f3: "\<exists>c'. for_each apply_state (inc_new_state inc) c = Some c' \<and> steady n cm0 c'" if "steady n cm0 c" for c
    by (rule for_each_steady[OF apply_state_steady that]) (use v in auto)
  have f4: "\<exists>c'. for_each (apply_up_client inc) (inc_new_up_client inc) c = Some c' \<and> steady n cm0 c'" if "steady n cm0 c" for c
    by (rule for_each_steady[OF apply_up_client_steady that]) (use v assms(3) in \<open>auto simp: clients_ok_def list_all_iff\<close>)
  have f5: "\<exists>c'. for_each apply_up_cluster (inc_new_up_cluster inc) c = Some c' \<and> steady n cm0 c'" if "steady n cm0 c" for c
    unfolding apply_up_cluster_def by (rule for_each_steady[OF set_addr_steady that]) (use v in auto)
  have f6: "\<exists>c'. for_each apply_up_thru (inc_new_up_thru inc) c = Some c' \<and> steady n cm0 c'" if "steady n cm0 c" for c
    unfolding apply_up_thru_def by (rule for_each_steady[OF modify_info_steady that]) (use v in auto)
  have f7: "\<exists>c'. for_each apply_clean_interval (inc_new_last_clean_interval inc) c = Some c' \<and> steady n cm0 c'" if "steady n cm0 c" for c
    unfolding apply_clean_interval_def by (rule for_each_steady[OF modify_info_steady that]) (use v in auto)
  have f8: "\<exists>c'. for_each apply_lost (inc_new_lost inc) c = Some c' \<and> steady n cm0 c'" if "steady n cm0 c" for c
    unfolding apply_lost_def by (rule for_each_steady[OF modify_info_steady that]) (use v in auto)
  have f9: "\<exists>c'. for_each apply_xinfo (inc_new_xinfo inc) c = Some c' \<and> steady n cm0 c'" if "steady n cm0 c" for c
    unfolding apply_xinfo_def by (rule for_each_steady[OF modify_xinfo_steady that]) (use v in auto)
  have f10: "\<exists>c'. for_each apply_uuid (inc_new_uuid inc) c = Some c' \<and> steady n cm0 c'" if "steady n cm0 c" for c
    unfolding apply_uuid_def by (rule for_each_steady[OF set_uuid_steady that]) (use v in auto)
  show ?thesis unfolding apply_daemons_def
    by (intro steady_bind) (rule f1 f2 f3 f4 f5 f6 f7 f8 f9 f10 | rule assms(1) | assumption)+
qed

section \<open>Counters and the size of the map\<close>

definition counts_ok :: "cluster_map \<Rightarrow> bool" where
  "counts_ok cm \<longleftrightarrow>
    (let m = cm_osds cm; ids = [0..<max_osd m] in
     num_osd cm = length (filter (\<lambda>i. osd_exists m (int i) = Some True) ids) \<and>
     num_up_osd cm = length (filter (\<lambda>i. is_up m (int i) = Some True) ids) \<and>
     num_in_osd cm = length (filter (\<lambda>i. osd_is_out m (int i) = Some False) ids))"

lemma calc_num_osds_ok:
  assumes "cluster_ok cm"
  shows "\<exists>n u i. calc_num_osds cm = Some (cm\<lparr>num_osd := n, num_up_osd := u, num_in_osd := i\<rparr>) \<and>
    counts_ok (cm\<lparr>num_osd := n, num_up_osd := u, num_in_osd := i\<rparr>)"
proof -
  define m where "m = cm_osds cm"
  have ok: "osdmap_ok m" using assms by (simp add: cluster_ok_def Let_def m_def)
  have step: "count_osd m k (n, u, i) = Some (n + of_bool (osd_exists m (int k) = Some True),
      u + of_bool (is_up m (int k) = Some True), i + of_bool (osd_is_out m (int k) = Some False))" if "k < max_osd m" for k n u i
    using that ok
    by (auto simp: count_osd_def osdmap_ok_def osd_exists_def is_up_def osd_is_out_def osd_has_def get_weight_def)
  have "for_each (count_osd m) ks (n, u, i) = Some (n + length (filter (\<lambda>i. osd_exists m (int i) = Some True) ks),
      u + length (filter (\<lambda>i. is_up m (int i) = Some True) ks), i + length (filter (\<lambda>i. osd_is_out m (int i) = Some False) ks))"
    if "\<forall>k\<in>set ks. k < max_osd m" for ks n u i
    using that by (induction ks arbitrary: n u i) (simp_all add: step)
  from this[of "[0..<max_osd m]" 0 0 0] show ?thesis
    by (simp add: calc_num_osds_def m_def counts_ok_def Let_def)
qed

lemma length_vec_resize [simp]: "length (vec_resize xs n v) = n"
  by (simp add: vec_resize_def)

lemma set_max_osd_steady:
  assumes "cluster_ok cm" "int n \<le> CRUSH_ITEM_NONE"
  shows "\<exists>cm'. set_max_osd n cm = Some cm' \<and> steady n cm cm'"
proof -
  let ?m = "cm_osds cm"
  let ?cm = "cm\<lparr>cm_osds := ?m\<lparr>max_osd := n, osd_state := vec_resize (osd_state ?m) n 0,
                         osd_weight := vec_resize (osd_weight ?m) n CEPH_OSD_OUT,
                         osd_primary_affinity :=
                           map_option (\<lambda>aff. vec_resize aff n CEPH_OSD_DEFAULT_PRIMARY_AFFINITY) (osd_primary_affinity ?m)\<rparr>,
            cm_osd_info := vec_resize (cm_osd_info cm) n new_osd_info,
            cm_osd_xinfo := vec_resize (cm_osd_xinfo cm) n new_osd_xinfo,
            cm_osd_addrs := resize_addrs (cm_osd_addrs cm) n,
            cm_osd_uuid := vec_resize (cm_osd_uuid cm) n []\<rparr>"
  have ok: "cluster_ok ?cm" using assms by (auto simp: cluster_ok_def osdmap_ok_def resize_addrs_def)
  obtain a b c where "calc_num_osds ?cm = Some (?cm\<lparr>num_osd := a, num_up_osd := b, num_in_osd := c\<rparr>)"
    using calc_num_osds_ok[OF ok] by blast
  then show ?thesis using ok by (simp add: set_max_osd_def steady_def cluster_ok_def Let_def)
qed

lemma calc_up_osd_features_ok:
  assumes "cluster_ok cm"
  shows "\<exists>f. calc_up_osd_features cm = Some (cm\<lparr>cached_up_osd_features := f\<rparr>)"
proof -
  have ok: "osdmap_ok (cm_osds cm)" "length (cm_osd_xinfo cm) = max_osd (cm_osds cm)"
    using assms by (simp_all add: cluster_ok_def Let_def)
  have "\<exists>c'. up_features_step cm k c = Some c'" if "k < max_osd (cm_osds cm)" for k c
    using that ok osd_queries_ok[OF ok(1)]
    by (cases c) (auto simp: up_features_step_def get_xinfo_def osd_index_def)
  then have "\<exists>c'. for_each (up_features_step cm) [0..<max_osd (cm_osds cm)] (True, 0) = Some c' \<and> True"
    by (intro for_each_inv) auto
  then show ?thesis by (auto simp: calc_up_osd_features_def)
qed

section \<open>Mappings\<close>

lemma osdmap_ok_tables:
  assumes "osdmap_ok m"
  shows "osdmap_ok (m\<lparr>osd_pools := a\<rparr>)" "osdmap_ok (m\<lparr>pg_temp := b\<rparr>)" "osdmap_ok (m\<lparr>primary_temp := c\<rparr>)"
    "osdmap_ok (m\<lparr>pg_upmap := d\<rparr>)" "osdmap_ok (m\<lparr>pg_upmap_items := e\<rparr>)" "osdmap_ok (m\<lparr>osd_crush := f\<rparr>)"
  using assms by (simp_all add: osdmap_ok_def)

lemma for_each_osds_steady:
  assumes "steady n cm0 cm" "\<And>x m. osdmap_ok m \<Longrightarrow> osdmap_ok (f x m) \<and> max_osd (f x m) = max_osd m"
  shows "\<exists>cm'. for_each (\<lambda>x. on_osds (\<lambda>m. Some (f x m))) xs cm = Some cm' \<and> steady n cm0 cm'"
proof (rule for_each_inv)
  fix x s assume s: "steady n cm0 s"
  show "\<exists>s'. on_osds (\<lambda>m. Some (f x m)) s = Some s' \<and> steady n cm0 s'"
    by (rule on_osds_steady[OF s]) (use assms(2)[of "cm_osds s" x] steady_osds[OF s] in simp)
qed (rule assms(1))

lemma apply_upmaps_steady:
  assumes "steady n cm0 cm"
  shows "\<exists>cm'. apply_upmaps inc cm = Some cm' \<and> steady n cm0 cm'"
proof -
  obtain c1 where c1: "for_each (\<lambda>p. on_osds (\<lambda>m. Some (m\<lparr>pg_upmap := (pg_upmap m)(fst p \<mapsto> snd p)\<rparr>))) (inc_new_pg_upmap inc) cm = Some c1"
      "steady n cm0 c1"
    using for_each_osds_steady[OF assms, of "\<lambda>p m. m\<lparr>pg_upmap := (pg_upmap m)(fst p \<mapsto> snd p)\<rparr>" "inc_new_pg_upmap inc"] by (auto simp: osdmap_ok_tables)
  obtain c2 where c2: "for_each (\<lambda>pg. on_osds (\<lambda>m. Some (m\<lparr>pg_upmap := (pg_upmap m)(pg := None)\<rparr>))) (inc_old_pg_upmap inc) c1 = Some c2"
      "steady n cm0 c2"
    using for_each_osds_steady[OF c1(2), of "\<lambda>pg m. m\<lparr>pg_upmap := (pg_upmap m)(pg := None)\<rparr>" "inc_old_pg_upmap inc"] by (auto simp: osdmap_ok_tables)
  obtain c3 where c3: "for_each (\<lambda>p. on_osds (\<lambda>m. Some (m\<lparr>pg_upmap_items := (pg_upmap_items m)(fst p \<mapsto> snd p)\<rparr>))) (inc_new_pg_upmap_items inc) c2 = Some c3"
      "steady n cm0 c3"
    using for_each_osds_steady[OF c2(2), of "\<lambda>p m. m\<lparr>pg_upmap_items := (pg_upmap_items m)(fst p \<mapsto> snd p)\<rparr>" "inc_new_pg_upmap_items inc"] by (auto simp: osdmap_ok_tables)
  obtain c4 where "for_each (\<lambda>pg. on_osds (\<lambda>m. Some (m\<lparr>pg_upmap_items := (pg_upmap_items m)(pg := None)\<rparr>))) (inc_old_pg_upmap_items inc) c3 = Some c4"
      "steady n cm0 c4"
    using for_each_osds_steady[OF c3(2), of "\<lambda>pg m. m\<lparr>pg_upmap_items := (pg_upmap_items m)(pg := None)\<rparr>" "inc_old_pg_upmap_items inc"] by (auto simp: osdmap_ok_tables)
  then show ?thesis using c1 c2 c3 by (simp add: apply_upmaps_def)
qed

lemma apply_crush_steady: "steady n cm0 cm \<Longrightarrow> \<exists>cm'. apply_crush c cm = Some cm' \<and> steady n cm0 cm'"
  using on_osds_steady[of n cm0 cm "\<lambda>m. Some (m\<lparr>osd_crush := the c\<rparr>)"] steady_osds[of n cm0 cm] osdmap_ok_tables
  by (cases c) (auto simp: apply_crush_def)

lemma apply_pg_temp_steady: "steady n cm0 cm \<Longrightarrow> \<exists>cm'. for_each apply_pg_temp xs cm = Some cm' \<and> steady n cm0 cm'"
  unfolding apply_pg_temp_def by (rule for_each_osds_steady) (simp_all add: osdmap_ok_tables)

lemma apply_primary_temp_steady: "steady n cm0 cm \<Longrightarrow> \<exists>cm'. for_each apply_primary_temp xs cm = Some cm' \<and> steady n cm0 cm'"
  unfolding apply_primary_temp_def by (rule for_each_osds_steady) (simp_all add: osdmap_ok_tables)

section \<open>Snapshots\<close>

definition queue_ok :: "(int \<rightharpoonup> iset) \<Rightarrow> bool" where
  "queue_ok q \<longleftrightarrow> (\<forall>p s. q p = Some s \<longrightarrow> iset_wf s)"

text \<open>The snapshots that a table of interval sets lists for a pool.\<close>

definition queued :: "(int \<rightharpoonup> iset) \<Rightarrow> int \<Rightarrow> nat set" where
  "queued q p = (case q p of None \<Rightarrow> {} | Some s \<Rightarrow> iset_abs s)"

definition listed :: "(int \<times> iset) list \<Rightarrow> int \<Rightarrow> nat set" where
  "listed xs p = (\<Union>e\<in>set xs. if fst e = p then iset_abs (snd e) else {})"

lemma listed_simps [simp]:
  "listed [] p = {}" "listed (e # xs) p = (if fst e = p then iset_abs (snd e) else {}) \<union> listed xs p"
  by (simp_all add: listed_def)

lemma removed_snaps_loop:
  assumes "\<forall>e\<in>set xs. iset_wf (snd e)" "queue_ok (removed_snaps_queue cm)"
  shows "\<exists>q. for_each apply_removed_snaps xs cm = Some (cm\<lparr>removed_snaps_queue := q\<rparr>) \<and> queue_ok q \<and>
    dom q = dom (removed_snaps_queue cm) \<union> fst ` set xs \<and> (\<forall>p. queued q p = queued (removed_snaps_queue cm) p \<union> listed xs p)"
  using assms
proof (induction xs arbitrary: cm)
  case Nil
  then show ?case by (intro exI[of _ "removed_snaps_queue cm"]) simp
next
  case (Cons e xs)
  let ?q0 = "removed_snaps_queue cm"
  let ?s = "case ?q0 (fst e) of None \<Rightarrow> iset_empty | Some s \<Rightarrow> s"
  have "iset_wf ?s" "iset_abs ?s = queued ?q0 (fst e)"
    using Cons.prems(2) by (auto simp: queue_ok_def queued_def split: option.splits)
  then obtain u where u: "union_of ?s (snd e) = Some u" "iset_wf u" "iset_abs u = queued ?q0 (fst e) \<union> iset_abs (snd e)"
    using union_of_ok[of ?s "snd e"] Cons.prems(1) by auto
  define q1 where "q1 = ?q0(fst e \<mapsto> u)"
  have q1p: "queue_ok q1" "queued q1 p = queued ?q0 p \<union> (if fst e = p then iset_abs (snd e) else {})" for p
    using Cons.prems(2) u by (auto simp: queue_ok_def queued_def q1_def)
  obtain q where q: "for_each apply_removed_snaps xs (cm\<lparr>removed_snaps_queue := q1\<rparr>) = Some (cm\<lparr>removed_snaps_queue := q\<rparr>)"
      "queue_ok q" "dom q = dom q1 \<union> fst ` set xs" "\<And>p. queued q p = queued q1 p \<union> listed xs p"
    using Cons.IH[of "cm\<lparr>removed_snaps_queue := q1\<rparr>"] Cons.prems(1) q1p(1) by auto
  have "for_each apply_removed_snaps (e # xs) cm = Some (cm\<lparr>removed_snaps_queue := q\<rparr>)"
    using u(1) q(1) by (simp add: apply_removed_snaps_def q1_def)
  moreover have "dom q1 = insert (fst e) (dom ?q0)" by (simp add: q1_def)
  moreover have "queued q p = queued ?q0 p \<union> listed (e # xs) p" for p unfolding q(4) q1p(2) listed_simps by (rule Un_assoc)
  ultimately show ?case using q(2,3) by (intro exI[of _ q]) simp
qed

lemma purged_snaps_loop:
  assumes "\<forall>e\<in>set xs. iset_wf (snd e) \<and> fst e \<in> dom (removed_snaps_queue cm) \<and> iset_abs (snd e) \<subseteq> queued (removed_snaps_queue cm) (fst e)"
    "distinct (map fst xs)" "queue_ok (removed_snaps_queue cm)"
  shows "\<exists>q. for_each apply_purged_snaps xs cm = Some (cm\<lparr>removed_snaps_queue := q\<rparr>) \<and> queue_ok q \<and>
    (\<forall>p. queued q p = queued (removed_snaps_queue cm) p - listed xs p)"
  using assms
proof (induction xs arbitrary: cm)
  case Nil
  then show ?case by (intro exI[of _ "removed_snaps_queue cm"]) simp
next
  case (Cons e xs)
  let ?q0 = "removed_snaps_queue cm"
  obtain s where s: "?q0 (fst e) = Some s" "iset_wf s" using Cons.prems by (auto simp: queue_ok_def)
  then have "ivl_set (iset_m (snd e)) \<subseteq> iset_abs s" "ivl_wf (iset_m (snd e))"
    using Cons.prems(1) by (auto simp: queued_def iset_wf_ivl_wf)
  then obtain u where u: "subtract s (snd e) = Some u" "iset_wf u" "iset_abs u = iset_abs s - iset_abs (snd e)"
    using subtract_list_ok[OF s(2), of "iset_m (snd e)"] by (auto simp: subtract_def)
  define q1 where "q1 = ?q0(fst e := if iset_m u = [] then None else Some u)"
  have q1p: "queue_ok q1" "queued q1 p = queued ?q0 p - (if fst e = p then iset_abs (snd e) else {})" for p
    using Cons.prems(3) u s by (auto simp: queue_ok_def queued_def q1_def)
  have "iset_wf (snd x) \<and> fst x \<in> dom q1 \<and> iset_abs (snd x) \<subseteq> queued q1 (fst x)" if "x \<in> set xs" for x
  proof -
    have "fst x \<noteq> fst e" using that Cons.prems(2) by (auto simp: rev_image_eqI)
    then have "q1 (fst x) = ?q0 (fst x)" by (simp add: q1_def)
    then show ?thesis using that Cons.prems(1) by (auto simp: queued_def dom_def)
  qed
  then obtain q where q: "for_each apply_purged_snaps xs (cm\<lparr>removed_snaps_queue := q1\<rparr>) = Some (cm\<lparr>removed_snaps_queue := q\<rparr>)"
      "queue_ok q" "\<And>p. queued q p = queued q1 p - listed xs p"
    using Cons.IH[of "cm\<lparr>removed_snaps_queue := q1\<rparr>"] Cons.prems(2) q1p(1) by auto
  have "for_each apply_purged_snaps (e # xs) cm = Some (cm\<lparr>removed_snaps_queue := q\<rparr>)"
    using u(1) s(1) q(1) by (simp add: apply_purged_snaps_def q1_def)
  moreover have "queued q p = queued ?q0 p - listed (e # xs) p" for p unfolding q(3) q1p(2) listed_simps by blast
  ultimately show ?case using q(2) by blast
qed

section \<open>Names of pools\<close>

definition names_bij :: "(int \<rightharpoonup> string) \<Rightarrow> (string \<rightharpoonup> int) \<Rightarrow> bool" where
  "names_bij pn np \<longleftrightarrow> (\<forall>p s. pn p = Some s \<longleftrightarrow> np s = Some p) \<and> np [] = None"

lemma names_bij_put:
  assumes "names_bij pn np" "np s = None \<or> np s = Some p" "s \<noteq> []"
  shows "names_bij (pn(p \<mapsto> s)) ((case pn p of Some old \<Rightarrow> np(old := None) | None \<Rightarrow> np)(s \<mapsto> p))"
proof -
  let ?np = "(case pn p of Some old \<Rightarrow> np(old := None) | None \<Rightarrow> np)(s \<mapsto> p)"
  have b: "pn q = Some t \<longleftrightarrow> np t = Some q" for q t using assms(1) by (simp add: names_bij_def)
  have np: "?np t = (if t = s then Some p else if pn p = Some t then None else np t)" for t by (auto split: option.splits)
  have "(pn(p \<mapsto> s)) q = Some t \<longleftrightarrow> ?np t = Some q" for q t
    unfolding np using assms(2) b[of q t] b[of p t] by (cases "q = p"; cases "t = s") auto
  moreover have "?np [] = None" unfolding np using assms(1,3) by (simp add: names_bij_def)
  ultimately show ?thesis by (simp only: names_bij_def) blast
qed

lemma names_bij_del:
  assumes "names_bij pn np"
  shows "names_bij (pn(p := None)) (np((case pn p of Some n \<Rightarrow> n | None \<Rightarrow> []) := None))"
proof -
  let ?np = "np((case pn p of Some n \<Rightarrow> n | None \<Rightarrow> []) := None)"
  have b: "pn q = Some t \<longleftrightarrow> np t = Some q" for q t using assms by (simp add: names_bij_def)
  have n: "np [] = None" using assms by (simp add: names_bij_def)
  have np: "?np t = (if pn p = Some t then None else np t)" for t using n by (auto split: option.splits)
  have "(pn(p := None)) q = Some t \<longleftrightarrow> ?np t = Some q" for q t
    unfolding np using b[of q t] b[of p t] by (cases "q = p") auto
  moreover have "?np [] = None" using n by (simp add: np)
  ultimately show ?thesis by (simp only: names_bij_def) blast
qed

definition fresh_names :: "(string \<rightharpoonup> int) \<Rightarrow> (int \<times> string) list \<Rightarrow> bool" where
  "fresh_names np xs \<longleftrightarrow> distinct (map snd xs) \<and>
    list_all (\<lambda>e. snd e \<noteq> [] \<and> (np (snd e) = None \<or> np (snd e) = Some (fst e))) xs"

lemma pool_names_loop:
  assumes "names_bij (pool_name cm) (name_pool cm)" "fresh_names (name_pool cm) xs"
  shows "\<exists>pn np. for_each apply_pool_name xs cm = Some (cm\<lparr>pool_name := pn, name_pool := np\<rparr>) \<and> names_bij pn np"
  using assms
proof (induction xs arbitrary: cm)
  case Nil
  then show ?case by (intro exI[of _ "pool_name cm"] exI[of _ "name_pool cm"]) simp
next
  case (Cons e xs)
  define np1 where "np1 = (case pool_name cm (fst e) of Some old \<Rightarrow> (name_pool cm)(old := None) | None \<Rightarrow> name_pool cm)(snd e \<mapsto> fst e)"
  define pn1 where "pn1 = (pool_name cm)(fst e \<mapsto> snd e)"
  have "names_bij pn1 np1" unfolding pn1_def np1_def
    by (rule names_bij_put) (use Cons.prems in \<open>simp_all add: fresh_names_def\<close>)
  moreover have "np1 s = name_pool cm s \<or> np1 s = None" if "s \<noteq> snd e" for s
    using that by (auto simp: np1_def split: option.splits)
  then have "fresh_names np1 xs" using Cons.prems(2) unfolding fresh_names_def list_all_iff by (simp add: image_iff) metis
  ultimately obtain pn np where "for_each apply_pool_name xs (cm\<lparr>pool_name := pn1, name_pool := np1\<rparr>) =
        Some (cm\<lparr>pool_name := pn1, name_pool := np1\<rparr>\<lparr>pool_name := pn, name_pool := np\<rparr>)" "names_bij pn np"
    using Cons.IH[of "cm\<lparr>pool_name := pn1, name_pool := np1\<rparr>"] by auto
  moreover have "for_each apply_pool_name (e # xs) cm = for_each apply_pool_name xs (cm\<lparr>pool_name := pn1, name_pool := np1\<rparr>)"
    by (simp add: apply_pool_name_def pn1_def np1_def Let_def)
  ultimately show ?case by auto
qed

section \<open>Whole incrementals\<close>

definition new_size :: "incremental \<Rightarrow> cluster_map \<Rightarrow> nat" where
  "new_size inc cm = (if 0 \<le> inc_new_max_osd inc then nat (inc_new_max_osd inc) else max_osd (cm_osds cm))"

text \<open>
  What the monitor puts into an incremental: daemons within the size of the next map, both heartbeat
  addresses for every daemon that boots, well-formed sets of removed snapshots, purged snapshots that are
  queued, pool names that are free.
\<close>

definition inc_ok :: "incremental \<Rightarrow> cluster_map \<Rightarrow> bool" where
  "inc_ok inc cm \<longleftrightarrow>
    int (new_size inc cm) \<le> CRUSH_ITEM_NONE \<and> ids_ok (new_size inc cm) inc \<and> clients_ok inc \<and>
    list_all (\<lambda>e. iset_wf (snd e)) (inc_new_removed_snaps inc) \<and> distinct (map fst (inc_new_purged_snaps inc)) \<and>
    list_all (\<lambda>e. iset_wf (snd e) \<and>
        fst e \<in> dom (removed_snaps_queue cm) \<union> fst ` set (inc_new_removed_snaps inc) \<and>
        iset_abs (snd e) \<subseteq> queued (removed_snaps_queue cm) (fst e) \<union> listed (inc_new_removed_snaps inc) (fst e))
      (inc_new_purged_snaps inc) \<and>
    fresh_names (name_pool cm) (inc_new_pool_names inc)"

definition state_ok_cm :: "cluster_map \<Rightarrow> bool" where
  "state_ok_cm cm \<longleftrightarrow> cluster_ok cm \<and> queue_ok (removed_snaps_queue cm) \<and> names_bij (pool_name cm) (name_pool cm)"

lemma steady_refl: "cluster_ok cm \<Longrightarrow> steady (max_osd (cm_osds cm)) cm cm"
  by (simp add: steady_def)

lemma apply_new_pool_steady: "steady n cm0 cm \<Longrightarrow> \<exists>cm'. apply_new_pool p cm = Some cm' \<and> steady n cm0 cm'"
  unfolding apply_new_pool_def by (rule on_osds_steady) (use steady_osds in \<open>auto simp: osdmap_ok_tables\<close>)

lemma apply_sizes_steady:
  assumes "cluster_ok cm" "inc_ok inc cm"
  shows "\<exists>cm1. apply_sizes inc cm = Some cm1 \<and> steady (new_size inc cm) cm cm1"
proof -
  let ?n = "new_size inc cm"
  obtain c1 where c1: "(if 0 \<le> inc_new_max_osd inc then set_max_osd (nat (inc_new_max_osd inc)) cm else Some cm) = Some c1" "steady ?n cm c1"
    using set_max_osd_steady[OF assms(1), of ?n] steady_refl[OF assms(1)] assms(2)
    by (cases "0 \<le> inc_new_max_osd inc") (auto simp: new_size_def inc_ok_def)
  define c2 where "c2 = (if inc_new_pool_max inc \<noteq> - 1 then c1\<lparr>pool_max := inc_new_pool_max inc\<rparr> else c1)"
  have c2: "steady ?n cm c2" using c1(2) by (simp add: c2_def steady_def cluster_ok_def Let_def)
  have "\<exists>c3. for_each apply_new_pool (inc_new_pools inc) c2 = Some c3 \<and> steady ?n cm c3"
    using for_each_inv[of "inc_new_pools inc" "steady ?n cm" apply_new_pool c2] apply_new_pool_steady c2 by blast
  then show ?thesis using c1(1) by (simp add: apply_sizes_def c2_def Let_def)
qed

lemma apply_old_pool_keeps:
  assumes "steady n cm0 cm \<and> names_bij (pool_name cm) (name_pool cm)" "q = removed_snaps_queue cm"
  shows "\<exists>cm'. apply_old_pool p cm = Some cm' \<and> cluster_ok cm' \<and> max_osd (cm_osds cm') = n \<and> cm_epoch cm' = cm_epoch cm \<and>
    removed_snaps_queue cm' = q \<and> names_bij (pool_name cm') (name_pool cm')"
  using assms names_bij_del[of "pool_name cm" "name_pool cm" p]
  by (auto simp: apply_old_pool_def Let_def steady_def cluster_ok_def osdmap_ok_tables)

lemma apply_pools_ok:
  assumes "state_ok_cm cm" "inc_ok inc cm"
  shows "\<exists>cm'. apply_pools inc cm = Some cm' \<and> state_ok_cm cm' \<and> max_osd (cm_osds cm') = new_size inc cm \<and>
    cm_epoch cm' = cm_epoch cm \<and>
    (\<forall>p. queued (removed_snaps_queue cm') p =
       (queued (removed_snaps_queue cm) p \<union> listed (inc_new_removed_snaps inc) p) - listed (inc_new_purged_snaps inc) p)"
proof -
  let ?n = "new_size inc cm"
  have cm: "cluster_ok cm" "queue_ok (removed_snaps_queue cm)" "names_bij (pool_name cm) (name_pool cm)"
    using assms(1) by (simp_all add: state_ok_cm_def)
  obtain c1 where c1: "apply_sizes inc cm = Some c1" "steady ?n cm c1"
    using apply_sizes_steady[OF cm(1) assms(2)] by blast
  have f1: "removed_snaps_queue c1 = removed_snaps_queue cm" "pool_name c1 = pool_name cm" "name_pool c1 = name_pool cm"
    using c1(2) by (simp_all add: steady_def)
  obtain q1 where q1: "for_each apply_removed_snaps (inc_new_removed_snaps inc) c1 = Some (c1\<lparr>removed_snaps_queue := q1\<rparr>)"
      "queue_ok q1" "dom q1 = dom (removed_snaps_queue cm) \<union> fst ` set (inc_new_removed_snaps inc)"
      "\<And>p. queued q1 p = queued (removed_snaps_queue cm) p \<union> listed (inc_new_removed_snaps inc) p"
    using removed_snaps_loop[of "inc_new_removed_snaps inc" c1] assms(2) cm(2) f1 by (auto simp: inc_ok_def list_all_iff)
  obtain q2 where q2: "for_each apply_purged_snaps (inc_new_purged_snaps inc) (c1\<lparr>removed_snaps_queue := q1\<rparr>) = Some (c1\<lparr>removed_snaps_queue := q2\<rparr>)"
      "queue_ok q2" "\<And>p. queued q2 p = queued q1 p - listed (inc_new_purged_snaps inc) p"
    using purged_snaps_loop[of "inc_new_purged_snaps inc" "c1\<lparr>removed_snaps_queue := q1\<rparr>"] assms(2) q1(2-4)
    by (auto simp: inc_ok_def list_all_iff)
  obtain pn np where nm: "for_each apply_pool_name (inc_new_pool_names inc) (c1\<lparr>removed_snaps_queue := q2\<rparr>) =
      Some (c1\<lparr>removed_snaps_queue := q2, pool_name := pn, name_pool := np\<rparr>)" "names_bij pn np"
    using pool_names_loop[of "c1\<lparr>removed_snaps_queue := q2\<rparr>" "inc_new_pool_names inc"] assms(2) cm(3) f1 by (auto simp: inc_ok_def)
  define I where "I c \<longleftrightarrow> cluster_ok c \<and> max_osd (cm_osds c) = ?n \<and> cm_epoch c = cm_epoch cm \<and> removed_snaps_queue c = q2 \<and>
      names_bij (pool_name c) (name_pool c)" for c
  have "I (c1\<lparr>removed_snaps_queue := q2, pool_name := pn, name_pool := np\<rparr>)"
    using c1(2) nm(2) by (simp add: I_def steady_def cluster_ok_def Let_def)
  moreover have "\<exists>c'. apply_old_pool p c = Some c' \<and> I c'" if "I c" for p c
    using apply_old_pool_keeps[of ?n c c q2 p] that by (auto simp: I_def steady_def)
  ultimately obtain c where c: "for_each apply_old_pool (inc_old_pools inc) (c1\<lparr>removed_snaps_queue := q2, pool_name := pn, name_pool := np\<rparr>) = Some c" "I c"
    using for_each_inv[of "inc_old_pools inc" I apply_old_pool "c1\<lparr>removed_snaps_queue := q2, pool_name := pn, name_pool := np\<rparr>"] by auto
  have "apply_pools inc cm = Some c"
    using c1(1) q1(1) q2(1) nm(1) c(1) by (simp add: apply_pools_def)
  then show ?thesis using c(2) q2(2,3) q1(4) by (intro exI[of _ c]) (simp add: I_def state_ok_cm_def)
qed

lemma calc_num_osds_last:
  assumes "steady n cm0 cm"
  shows "\<exists>cm'. calc_num_osds cm = Some cm' \<and> steady n cm0 cm' \<and> counts_ok cm'"
proof -
  have "cluster_ok cm" using assms by (simp add: steady_def)
  from calc_num_osds_ok[OF this] show ?thesis using assms by (auto simp: steady_def cluster_ok_def Let_def)
qed

lemma apply_incremental_eq:
  assumes "inc_epoch inc = cm_epoch cm + 1" "inc_fsid inc = cm_fsid cm" "inc_fullmap inc = None"
  shows "apply_incremental inc cm =
    do { cm \<leftarrow> apply_pools inc (cm\<lparr>cm_epoch := cm_epoch cm + 1, cm_modified := inc_modified inc\<rparr>);
         cm \<leftarrow> apply_daemons inc cm;
         cm \<leftarrow> for_each apply_pg_temp (inc_new_pg_temp inc) cm;
         cm \<leftarrow> for_each apply_primary_temp (inc_new_primary_temp inc) cm;
         cm \<leftarrow> apply_upmaps inc cm;
         cm \<leftarrow> apply_crush (inc_crush inc) cm;
         cm \<leftarrow> calc_num_osds cm;
         cm \<leftarrow> calc_up_osd_features cm;
         Some (0, cm) }"
  using assms by (simp add: apply_incremental_def Let_def)

text \<open>
  Property C9.  Applying an incremental that follows the current epoch and that \<open>inc_ok\<close> holds for
  (daemon ids within the size of the next map, heartbeat addresses for every daemon that boots,
  well-formed sets of snapshots, purged snapshots that are queued, free pool names) never fails,
  accesses no vector out of range, and gives a well-formed map of the next epoch: all per-daemon vectors
  have the new size, the counters of existing, up and in daemons agree with the states, \<open>pool_name\<close> and \<open>name_pool\<close> stay inverse to each
  other, and the queue of removed snapshots of every pool is what was queued, plus what was removed,
  minus what was purged.
\<close>

theorem apply_incremental_ok:
  assumes "state_ok_cm cm" "inc_ok inc cm" "inc_epoch inc = cm_epoch cm + 1" "inc_fsid inc = cm_fsid cm" "inc_fullmap inc = None"
  shows "\<exists>cm'. apply_incremental inc cm = Some (0, cm') \<and> cm_epoch cm' = cm_epoch cm + 1 \<and> state_ok_cm cm' \<and> counts_ok cm' \<and>
    max_osd (cm_osds cm') = new_size inc cm \<and>
    (\<forall>p. queued (removed_snaps_queue cm') p =
       (queued (removed_snaps_queue cm) p \<union> listed (inc_new_removed_snaps inc) p) - listed (inc_new_purged_snaps inc) p)"
proof -
  define cm0 where "cm0 = cm\<lparr>cm_epoch := cm_epoch cm + 1, cm_modified := inc_modified inc\<rparr>"
  have ns: "new_size inc cm0 = new_size inc cm" by (simp add: cm0_def new_size_def)
  have "state_ok_cm cm0" using assms(1) by (simp add: cm0_def state_ok_cm_def cluster_ok_def Let_def)
  moreover have "inc_ok inc cm0" using assms(2) unfolding inc_ok_def ns by (simp add: cm0_def)
  ultimately obtain c1 where c1: "apply_pools inc cm0 = Some c1" "state_ok_cm c1" "max_osd (cm_osds c1) = new_size inc cm"
      "cm_epoch c1 = cm_epoch cm + 1"
      "\<forall>p. queued (removed_snaps_queue c1) p =
       (queued (removed_snaps_queue cm) p \<union> listed (inc_new_removed_snaps inc) p) - listed (inc_new_purged_snaps inc) p"
    using apply_pools_ok[of cm0 inc] ns by (auto simp: cm0_def)
  let ?S = "steady (new_size inc cm) c1"
  have s: "?S c1" using c1(2,3) steady_refl[of c1] by (simp add: state_ok_cm_def)
  have "ids_ok (new_size inc cm) inc" "clients_ok inc" using assms(2) by (simp_all add: inc_ok_def)
  then obtain c2 where c2: "apply_daemons inc c1 = Some c2" "?S c2" using apply_daemons_steady[OF s] by blast
  obtain c3 where c3: "for_each apply_pg_temp (inc_new_pg_temp inc) c2 = Some c3" "?S c3" using apply_pg_temp_steady[OF c2(2)] by blast
  obtain c4 where c4: "for_each apply_primary_temp (inc_new_primary_temp inc) c3 = Some c4" "?S c4" using apply_primary_temp_steady[OF c3(2)] by blast
  obtain c5 where c5: "apply_upmaps inc c4 = Some c5" "?S c5" using apply_upmaps_steady[OF c4(2)] by blast
  obtain c6 where c6: "apply_crush (inc_crush inc) c5 = Some c6" "?S c6" using apply_crush_steady[OF c5(2)] by blast
  obtain c7 where c7: "calc_num_osds c6 = Some c7" "?S c7" "counts_ok c7" using calc_num_osds_last[OF c6(2)] by blast
  obtain f where c8: "calc_up_osd_features c7 = Some (c7\<lparr>cached_up_osd_features := f\<rparr>)"
    using calc_up_osd_features_ok[of c7] c7(2) by (auto simp: steady_def)
  let ?c = "c7\<lparr>cached_up_osd_features := f\<rparr>"
  have "apply_incremental inc cm = Some (0, ?c)"
    using c1(1) c2(1) c3(1) c4(1) c5(1) c6(1) c7(1) c8 unfolding apply_incremental_eq[OF assms(3-5)] by (simp add: cm0_def)
  moreover have "state_ok_cm ?c" "counts_ok ?c" "max_osd (cm_osds ?c) = new_size inc cm" "cm_epoch ?c = cm_epoch cm + 1"
      "removed_snaps_queue ?c = removed_snaps_queue c1"
    using c7(2,3) c1(2,4) by (simp_all add: steady_def state_ok_cm_def cluster_ok_def counts_ok_def Let_def)
  ultimately show ?thesis using c1(5) by auto
qed

definition empty_inc :: "nat \<Rightarrow> nat \<Rightarrow> incremental" where
  "empty_inc e f =
    \<lparr>inc_epoch = e, inc_fsid = f, inc_modified = 0, inc_fullmap = None, inc_new_max_osd = - 1, inc_new_pool_max = - 1, inc_new_pools = [],
     inc_new_removed_snaps = [], inc_new_purged_snaps = [], inc_new_pool_names = [], inc_old_pools = [],
     inc_new_weight = [], inc_new_primary_affinity = [], inc_new_state = [], inc_new_up_client = [],
     inc_new_hb_back_up = [], inc_new_hb_front_up = [], inc_new_up_cluster = [],
     inc_new_up_thru = [], inc_new_last_clean_interval = [], inc_new_lost = [], inc_new_xinfo = [], inc_new_uuid = [], inc_new_pg_temp = [],
     inc_new_primary_temp = [], inc_new_pg_upmap = [], inc_old_pg_upmap = [], inc_new_pg_upmap_items = [],
     inc_old_pg_upmap_items = [], inc_crush = None\<rparr>"

definition demo_cluster :: cluster_map where
  "demo_cluster =
    \<lparr>cm_epoch = 7, cm_fsid = 1, cm_osds = demo_osdmap, cm_modified = 0, cm_osd_info = replicate 4 new_osd_info,
     cm_osd_xinfo = replicate 4 (new_osd_xinfo\<lparr>features := 6\<rparr>), cm_osd_uuid = replicate 4 [],
     cm_osd_addrs = \<lparr>client_addrs = replicate 4 (Some [1]), cluster_addrs = replicate 4 (Some [2]),
       hb_back_addrs = replicate 4 (Some [3]), hb_front_addrs = replicate 4 (Some [4])\<rparr>, cached_up_osd_features = 6,
     num_osd = 4, num_up_osd = 3, num_in_osd = 3, pool_max = 2,
     pool_name = [1 \<mapsto> ''rbd'', 2 \<mapsto> ''ec''], name_pool = [''rbd'' \<mapsto> 1, ''ec'' \<mapsto> 2],
     removed_snaps_queue = [1 \<mapsto> \<lparr>iset_size = 3, iset_m = [(5, 3)]\<rparr>]\<rparr>"

lemma demo_cluster_ok: "state_ok_cm demo_cluster"
  using demo_osdmap_ok(1)
  by (auto simp: state_ok_cm_def demo_cluster_def cluster_ok_def queue_ok_def names_bij_def iset_wf_def ivl_wf_def demo_osdmap_def
      u64_limit_def Let_def split: if_splits)

definition demo_inc :: incremental where
  "demo_inc = (empty_inc 8 1)\<lparr>inc_new_max_osd := 5, inc_new_weight := [(4, 0x10000)], inc_new_state := [(0, 0)],
     inc_new_up_client := [(4, [10])], inc_new_hb_back_up := [(4, [11])], inc_new_hb_front_up := [(4, [12])],
     inc_new_up_cluster := [(4, [13])], inc_new_xinfo := [(4, new_osd_xinfo\<lparr>features := 2\<rparr>)], inc_new_uuid := [(4, [14])],
     inc_new_pool_names := [(1, ''vms'')], inc_old_pools := [2],
     inc_new_removed_snaps := [(1, \<lparr>iset_size = 1, iset_m = [(9, 1)]\<rparr>)],
     inc_new_purged_snaps := [(1, \<lparr>iset_size = 2, iset_m = [(5, 2)]\<rparr>)]\<rparr>"

lemma demo_inc_ok: "inc_ok demo_inc demo_cluster"
  by (auto simp: inc_ok_def demo_inc_def demo_cluster_def empty_inc_def new_size_def ids_ok_def valid_id_def CRUSH_ITEM_NONE_def
      iset_wf_def ivl_wf_def queued_def fresh_names_def clients_ok_def u64_limit_def)

theorem apply_incremental_ok_witness:
  "\<exists>cm'. apply_incremental demo_inc demo_cluster = Some (0, cm') \<and> cm_epoch cm' = cm_epoch demo_cluster + 1 \<and> state_ok_cm cm' \<and>
    counts_ok cm' \<and> max_osd (cm_osds cm') = new_size demo_inc demo_cluster \<and>
    (\<forall>p. queued (removed_snaps_queue cm') p =
       (queued (removed_snaps_queue demo_cluster) p \<union> listed (inc_new_removed_snaps demo_inc) p) - listed (inc_new_purged_snaps demo_inc) p)"
  by (rule apply_incremental_ok[OF demo_cluster_ok demo_inc_ok]) (simp_all add: demo_inc_def empty_inc_def demo_cluster_def)

lemma apply_incremental_other_cluster:
  "inc_epoch inc \<noteq> 1 \<Longrightarrow> inc_fsid inc \<noteq> cm_fsid cm \<Longrightarrow> apply_incremental inc cm = Some (- EINVAL, cm)"
  by (simp add: apply_incremental_def)

section \<open>Marking a daemon down\<close>

lemma flag_bits:
  "(s :: nat) AND CEPH_OSD_EXISTS = 0 \<longleftrightarrow> \<not> bit s 0" "s AND CEPH_OSD_UP = 0 \<longleftrightarrow> \<not> bit s (Suc 0)"
  "0 < s AND CEPH_OSD_EXISTS \<longleftrightarrow> bit s 0" "0 < s AND CEPH_OSD_UP \<longleftrightarrow> bit s (Suc 0)"
proof -
  show e: "s AND CEPH_OSD_EXISTS = 0 \<longleftrightarrow> \<not> bit s 0" and u: "s AND CEPH_OSD_UP = 0 \<longleftrightarrow> \<not> bit s (Suc 0)"
    using and_exp_eq_0_iff_not_bit[of s 0] and_exp_eq_0_iff_not_bit[of s "Suc 0"]
    by (simp_all add: CEPH_OSD_EXISTS_def CEPH_OSD_UP_def)
  show "0 < s AND CEPH_OSD_EXISTS \<longleftrightarrow> bit s 0" "0 < s AND CEPH_OSD_UP \<longleftrightarrow> bit s (Suc 0)"
    using e u by (simp_all only: neq0_conv[symmetric]) auto
qed

lemma flip_up: "bit (s XOR CEPH_OSD_UP) 0 = bit (s :: nat) 0" "bit (s XOR CEPH_OSD_UP) (Suc 0) \<longleftrightarrow> \<not> bit s (Suc 0)"
proof -
  have "bit CEPH_OSD_UP n \<longleftrightarrow> n = Suc 0" for n by (simp add: CEPH_OSD_UP_def bit_2_iff)
  then show "bit (s XOR CEPH_OSD_UP) 0 = bit s 0" "bit (s XOR CEPH_OSD_UP) (Suc 0) \<longleftrightarrow> \<not> bit s (Suc 0)"
    by (simp_all add: bit_xor_iff)
qed

lemma mark_down_states:
  assumes "osdmap_ok m" "live m osd"
  defines "m' \<equiv> m\<lparr>osd_state := (osd_state m)[nat osd := osd_state m ! nat osd XOR CEPH_OSD_UP]\<rparr>"
  shows "known m' = known m" "live m' x \<longleftrightarrow> live m x \<and> x \<noteq> osd"
proof -
  have i: "0 \<le> osd" "nat osd < length (osd_state m)" "bit (osd_state m ! nat osd) (Suc 0)"
    using assms(1,2) by (auto simp: live_def known_def osdmap_ok_def flag_bits)
  have st: "osd_state m' ! nat y = (if y = osd then osd_state m ! nat osd XOR CEPH_OSD_UP else osd_state m ! nat y)" if "0 \<le> y" for y
    using i that by (auto simp: m'_def nth_list_update)
  have b: "bit (osd_state m' ! nat y) 0 = bit (osd_state m ! nat y) 0"
    "bit (osd_state m' ! nat y) (Suc 0) \<longleftrightarrow> bit (osd_state m ! nat y) (Suc 0) \<and> y \<noteq> osd" if "0 \<le> y" for y
    unfolding st[OF that] using i(3) by (simp_all add: flip_up)
  have mx: "max_osd m' = max_osd m" by (simp add: m'_def)
  show k: "known m' = known m" by (rule ext) (auto simp: known_def flag_bits b mx)
  show "live m' x \<longleftrightarrow> live m x \<and> x \<noteq> osd" by (auto simp: live_def k flag_bits b known_def)
qed

text \<open>
  Property C11.  Marking a daemon down costs nothing but the daemon.  For an erasure coded pool, after
  the incremental that flips the \<open>UP\<close> state of a daemon that was up, the up set of every placement
  group is the old one with holes in the positions of that daemon: no other position changes.  The
  epoch is recorded in \<open>down_at\<close>.
\<close>

theorem mark_down_leaves_hole:
  assumes "state_ok_cm cm" "crush_ok (osd_crush (cm_osds cm)) rank" "pools_ok (cm_osds cm)"
    and "osd_pools (cm_osds cm) (m_pool pg) = Some pool" "pool_kind pool = TYPE_ERASURE" "m_seed pg < pg_num pool"
    and "is_up (cm_osds cm) osd = Some True"
  shows "\<exists>cm' r r'. apply_incremental ((empty_inc (cm_epoch cm + 1) (cm_fsid cm))\<lparr>inc_new_state := [(osd, 0)]\<rparr>) cm = Some (0, cm') \<and>
    pg_to_up_acting_osds junk (cm_osds cm) pg b = Some r \<and> pg_to_up_acting_osds junk (cm_osds cm') pg b = Some r' \<and>
    up_set r' = map (\<lambda>x. if x = osd then CRUSH_ITEM_NONE else x) (up_set r) \<and>
    down_at (cm_osd_info cm' ! nat osd) = cm_epoch cm + 1"
proof -
  let ?m = "cm_osds cm"
  let ?s = "osd_state ?m ! nat osd"
  let ?st = "(osd_state ?m)[nat osd := ?s XOR CEPH_OSD_UP]"
  let ?info = "(cm_osd_info cm)[nat osd := (cm_osd_info cm ! nat osd)\<lparr>down_at := cm_epoch cm + 1\<rparr>]"
  let ?xinfo = "(cm_osd_xinfo cm)[nat osd := (cm_osd_xinfo cm ! nat osd)\<lparr>down_stamp := 0\<rparr>]"
  have ok: "osdmap_ok ?m" "length (cm_osd_info cm) = max_osd ?m" "length (cm_osd_xinfo cm) = max_osd ?m" "cluster_ok cm" using assms(1) by (simp_all add: state_ok_cm_def cluster_ok_def Let_def)
  have l: "live ?m osd" using assms(7) by (simp add: osd_queries_ok[OF ok(1)])
  then have i: "osd_index osd = Some (nat osd)" "nat osd < length (osd_state ?m)" "nat osd < length (cm_osd_info cm)" "bit ?s (Suc 0)" "nat osd < length (cm_osd_xinfo cm)"
    using ok by (auto simp: live_def known_def osdmap_ok_def osd_index_def flag_bits)
  define cm1 where "cm1 = cm\<lparr>cm_epoch := cm_epoch cm + 1, cm_modified := 0, cm_osd_info := ?info, cm_osd_xinfo := ?xinfo, cm_osds := ?m\<lparr>osd_state := ?st\<rparr>\<rparr>"
  have flags: "?s AND CEPH_OSD_UP \<noteq> 0" "CEPH_OSD_UP AND CEPH_OSD_UP \<noteq> 0" "CEPH_OSD_UP AND CEPH_OSD_EXISTS = 0"
    using i(4) by (simp add: flag_bits, simp_all add: CEPH_OSD_UP_def CEPH_OSD_EXISTS_def)
  have "apply_state (osd, 0) (cm\<lparr>cm_epoch := cm_epoch cm + 1, cm_modified := 0\<rparr>) = Some cm1"
    using i flags by (simp add: apply_state_def Let_def modify_info_def modify_xinfo_def vec_modify_def on_osds_def modify_state_def cm1_def)
  moreover have ok1: "cluster_ok cm1" using ok by (simp add: cm1_def cluster_ok_def osdmap_ok_def Let_def)
  then obtain n u j where "calc_num_osds cm1 = Some (cm1\<lparr>num_osd := n, num_up_osd := u, num_in_osd := j\<rparr>)"
    using calc_num_osds_ok by blast
  moreover obtain f where "calc_up_osd_features (cm1\<lparr>num_osd := n, num_up_osd := u, num_in_osd := j\<rparr>) =
      Some (cm1\<lparr>num_osd := n, num_up_osd := u, num_in_osd := j, cached_up_osd_features := f\<rparr>)"
    using calc_up_osd_features_ok[of "cm1\<lparr>num_osd := n, num_up_osd := u, num_in_osd := j\<rparr>"] ok1
    by (auto simp: cluster_ok_def Let_def)
  ultimately have a: "apply_incremental ((empty_inc (cm_epoch cm + 1) (cm_fsid cm))\<lparr>inc_new_state := [(osd, 0)]\<rparr>) cm =
      Some (0, cm1\<lparr>num_osd := n, num_up_osd := u, num_in_osd := j, cached_up_osd_features := f\<rparr>)"
    by (subst apply_incremental_eq)
      (simp_all add: empty_inc_def apply_pools_def apply_sizes_def apply_daemons_def apply_upmaps_def apply_crush_def)
  have "length ?st = max_osd ?m" using ok(1) by (simp add: osdmap_ok_def)
  from down_leaves_hole[OF ok(1) assms(2-6) this mark_down_states(1)[OF ok(1) l] mark_down_states(2)[OF ok(1) l]]
  show ?thesis using a i(3) by (fastforce simp: cm1_def)
qed

theorem mark_down_leaves_hole_witness:
  "\<exists>cm' r r'. apply_incremental ((empty_inc (cm_epoch demo_cluster + 1) (cm_fsid demo_cluster))\<lparr>inc_new_state := [(3, 0)]\<rparr>) demo_cluster = Some (0, cm') \<and>
    pg_to_up_acting_osds (\<lambda>_. 5) (cm_osds demo_cluster) \<lparr>m_pool = 2, m_seed = 3\<rparr> False = Some r \<and>
    pg_to_up_acting_osds (\<lambda>_. 5) (cm_osds cm') \<lparr>m_pool = 2, m_seed = 3\<rparr> False = Some r' \<and>
    up_set r' = map (\<lambda>x. if x = 3 then CRUSH_ITEM_NONE else x) (up_set r) \<and>
    down_at (cm_osd_info cm' ! nat 3) = cm_epoch demo_cluster + 1"
proof (rule mark_down_leaves_hole[OF demo_cluster_ok, where pool = "demo_pool\<lparr>pool_kind := TYPE_ERASURE, crush_rule_no := 1\<rparr>" and rank = "[1, 0, 0]"])
  have m: "cm_osds demo_cluster = demo_osdmap" by (simp add: demo_cluster_def)
  show "crush_ok (osd_crush (cm_osds demo_cluster)) [1, 0, 0]" "pools_ok (cm_osds demo_cluster)"
    unfolding m by (rule demo_osdmap_ok)+
  show "osd_pools (cm_osds demo_cluster) (m_pool \<lparr>m_pool = 2, m_seed = 3\<rparr>) = Some (demo_pool\<lparr>pool_kind := TYPE_ERASURE, crush_rule_no := 1\<rparr>)"
    by (simp add: m demo_osdmap_def)
  show "is_up (cm_osds demo_cluster) 3 = Some True"
    by (simp add: is_up_def osd_exists_def osd_has_def m demo_osdmap_def CEPH_OSD_EXISTS_def CEPH_OSD_UP_def)
qed (simp_all add: demo_pool_ok)

end
