(* ===== verification/Connection_Tracker.thy ===== *)
theory Connection_Tracker
  imports Prelude Complex_Main
begin

text \<open>
  The scores by which monitors rate their connections to each other (\<open>mon/ConnectionTracker.h\<close>,
  \<open>mon/ConnectionTracker.cc\<close>).  A \<open>std::map\<close> is a key-sorted association list; a \<open>double\<close> is a
  rational number, without rounding.  The member \<open>encoding\<close>, a cache of the encoded tracker, holds the
  encoded fields; writing it to disk (\<open>persist_connectivity_scores\<close>) is not modelled.
\<close>

section \<open>State\<close>

record connection_report =
  cr_rank :: int
  cr_current :: "(int \<times> bool) list"
  cr_history :: "(int \<times> rat) list"
  cr_epoch :: nat
  cr_version :: nat

definition new_report :: connection_report where
  "new_report = \<lparr>cr_rank = - 1, cr_current = [], cr_history = [], cr_epoch = 0, cr_version = 0\<rparr>"

type_synonym encoded_tracker = "int \<times> nat \<times> nat \<times> rat \<times> (int \<times> connection_report) list"

record connection_tracker =
  ct_epoch :: nat
  ct_version :: nat
  ct_peer_reports :: "(int \<times> connection_report) list"
  ct_my_reports :: connection_report
  ct_half_life :: rat
  ct_rank :: int
  ct_encoding :: "encoded_tracker option"

definition new_tracker :: "int \<Rightarrow> rat \<Rightarrow> connection_tracker" where
  "new_tracker rank hl =
    \<lparr>ct_epoch = 0, ct_version = 0, ct_peer_reports = [], ct_my_reports = new_report\<lparr>cr_rank := rank\<rparr>,
     ct_half_life = hl, ct_rank = rank, ct_encoding = None\<rparr>"

definition copy_tracker :: "connection_tracker \<Rightarrow> connection_tracker" where
  "copy_tracker t = t\<lparr>ct_encoding := None\<rparr>"

text \<open>\<open>map::erase\<close> by key.\<close>

definition map_erase :: "('k \<times> 'v) list \<Rightarrow> 'k \<Rightarrow> ('k \<times> 'v) list" where
  "map_erase m k = filter (\<lambda>e. fst e \<noteq> k) m"

section \<open>Operations\<close>

definition ct_encode :: "connection_tracker \<Rightarrow> encoded_tracker" where
  "ct_encode t = (ct_rank t, ct_epoch t, ct_version t, ct_half_life t, ct_peer_reports t)"

definition get_encoded_bl :: "connection_tracker \<Rightarrow> encoded_tracker \<times> connection_tracker" where
  "get_encoded_bl t =
    (case ct_encoding t of Some e \<Rightarrow> (e, t) | None \<Rightarrow> (ct_encode t, t\<lparr>ct_encoding := Some (ct_encode t)\<rparr>))"

definition clear_peer_reports :: "connection_tracker \<Rightarrow> connection_tracker" where
  "clear_peer_reports t = t\<lparr>ct_encoding := None, ct_peer_reports := [], ct_my_reports := new_report\<rparr>"

text \<open>\<open>my_reports = peer_reports[rank]\<close> inserts an empty report if there is none.\<close>

definition ct_decode :: "encoded_tracker \<Rightarrow> connection_tracker \<Rightarrow> connection_tracker" where
  "ct_decode e t =
    (case e of (rank, epoch, version, half_life, reports) \<Rightarrow>
      let t = (clear_peer_reports t)\<lparr>ct_rank := rank, ct_epoch := epoch, ct_version := version,
                                      ct_half_life := half_life, ct_peer_reports := reports\<rparr>
      in if 0 \<le> rank
         then case map_emplace reports rank new_report of
                (reports, r) \<Rightarrow> t\<lparr>ct_peer_reports := reports, ct_my_reports := r\<rparr>
         else t)"

definition reports :: "int \<Rightarrow> connection_tracker \<Rightarrow> (connection_report \<times> connection_tracker) option" where
  "reports p t =
    (case map_of (ct_peer_reports t) p of
       Some r \<Rightarrow> Some (r, t)
     | None \<Rightarrow> do { ceph_assert (p \<noteq> ct_rank t);
                    Some (new_report, t\<lparr>ct_peer_reports := map_put (ct_peer_reports t) p new_report\<rparr>) })"

fun receive_reports :: "(int \<times> connection_report) list \<Rightarrow> connection_tracker \<Rightarrow> connection_tracker option" where
  "receive_reports [] t = Some t"
| "receive_reports (i # rest) t =
    (let report = snd i in
     if cr_rank report = ct_rank t then receive_reports rest t
     else do { (existing, t) \<leftarrow> reports (cr_rank report) t;
               receive_reports rest
                 (if cr_epoch existing < cr_epoch report
                     \<or> cr_epoch report = cr_epoch existing \<and> cr_version existing < cr_version report
                  then t\<lparr>ct_peer_reports := map_put (ct_peer_reports t) (cr_rank report) report\<rparr> else t) })"

definition receive_peer_report :: "connection_tracker \<Rightarrow> connection_tracker \<Rightarrow> connection_tracker option" where
  "receive_peer_report o' t = map_option (ct_encoding_update (\<lambda>_. None)) (receive_reports (ct_peer_reports o') t)"

definition increase_epoch :: "nat \<Rightarrow> connection_tracker \<Rightarrow> bool \<times> connection_tracker" where
  "increase_epoch e t =
    (if ct_epoch t < e
     then let mine = (ct_my_reports t)\<lparr>cr_version := 0, cr_epoch := e\<rparr> in
          (True, t\<lparr>ct_version := 0, ct_epoch := e, ct_my_reports := mine,
                   ct_peer_reports := map_put (ct_peer_reports t) (ct_rank t) mine, ct_encoding := None\<rparr>)
     else (False, t))"

definition increase_version :: "connection_tracker \<Rightarrow> connection_tracker" where
  "increase_version t =
    (let v = ct_version t + 1; mine = (ct_my_reports t)\<lparr>cr_version := v\<rparr> in
     t\<lparr>ct_encoding := None, ct_version := v, ct_my_reports := mine,
       ct_peer_reports := map_put (ct_peer_reports t) (ct_rank t) mine\<rparr>)"

definition set_score :: "int \<Rightarrow> (rat \<Rightarrow> rat) \<Rightarrow> bool \<Rightarrow> connection_tracker \<Rightarrow> connection_tracker" where
  "set_score peer f alive t =
    (let r = ct_my_reports t; (history, pscore) = map_emplace (cr_history r) peer 1 in
     increase_version (t\<lparr>ct_my_reports := r\<lparr>cr_history := map_put history peer (f pscore),
                                            cr_current := map_put (cr_current r) peer alive\<rparr>\<rparr>))"

definition report_live_connection :: "int \<Rightarrow> rat \<Rightarrow> connection_tracker \<Rightarrow> connection_tracker" where
  "report_live_connection peer units_alive t =
    set_score peer (\<lambda>p. min (p * (1 - units_alive / (2 * ct_half_life t)) + units_alive / (2 * ct_half_life t)) 1) True t"

definition report_dead_connection :: "int \<Rightarrow> rat \<Rightarrow> connection_tracker \<Rightarrow> connection_tracker" where
  "report_dead_connection peer units_dead t =
    set_score peer (\<lambda>p. max (p * (1 - units_dead / (2 * ct_half_life t)) - units_dead / (2 * ct_half_life t)) 0) False t"

text \<open>The iterator into \<open>current\<close> is used without a check when there is a score.\<close>

fun score_loop :: "int \<Rightarrow> (int \<times> connection_report) list \<Rightarrow> rat \<Rightarrow> nat \<Rightarrow> (rat \<times> nat) option" where
  "score_loop peer [] rate live = Some (rate, live)"
| "score_loop peer (i # rest) rate live =
    (if fst i = peer then score_loop peer rest rate live
     else case map_of (cr_history (snd i)) peer of
            None \<Rightarrow> score_loop peer rest rate live
          | Some s \<Rightarrow> do { l \<leftarrow> map_of (cr_current (snd i)) peer;
                           if l then score_loop peer rest (rate + s) (live + 1)
                           else score_loop peer rest rate live })"

definition get_total_connection_score :: "connection_tracker \<Rightarrow> int \<Rightarrow> (rat \<times> nat) option" where
  "get_total_connection_score t peer = score_loop peer (ct_peer_reports t) 0 0"

text \<open>
  The loop that moves the entries above a removed rank down by one; \<open>up\<close> are the entries from
  \<open>upper_bound\<close> on, in order.
\<close>

fun move_down :: "(int \<times> 'v) list \<Rightarrow> (int \<times> 'v) list \<Rightarrow> (int \<times> 'v) list" where
  "move_down [] m = m"
| "move_down (e # up) m = move_down up (map_erase (map_put m (fst e - 1) (snd e)) (fst e))"

definition upper_part :: "(int \<times> 'v) list \<Rightarrow> int \<Rightarrow> (int \<times> 'v) list" where
  "upper_part m k = dropWhile (\<lambda>e. fst e \<le> k) m"

definition remove_key :: "int \<Rightarrow> (int \<times> 'v) list \<Rightarrow> (int \<times> 'v) list" where
  "remove_key k m = move_down (upper_part (map_erase m k) k) (map_erase m k)"

definition notify_rank_removed :: "int \<Rightarrow> connection_tracker \<Rightarrow> connection_tracker option" where
  "notify_rank_removed rank_removed t =
    do { let r = ct_my_reports t;
         let ci = upper_part (map_erase (cr_current r) rank_removed) rank_removed;
         let hi = upper_part (map_erase (cr_history r) rank_removed) rank_removed;
         ceph_assert (length ci \<le> length hi \<and> map fst ci = map fst (take (length ci) hi));
         let current = remove_key rank_removed (cr_current r);
         let history = move_down (take (length ci) hi) (map_erase (cr_history r) rank_removed);
         ceph_assert (length current = length (cr_current r) \<or> length current + 1 = length (cr_current r));
         let erased = map_erase (ct_peer_reports t) rank_removed;
         let peers = remove_key rank_removed (ct_peer_reports t);
         ceph_assert (length peers = length erased \<or> length peers + 1 = length erased);
         let below = rank_removed < ct_rank t;
         Some (t\<lparr>ct_encoding := None, ct_peer_reports := peers,
                 ct_rank := (if below then ct_rank t - 1 else ct_rank t),
                 ct_my_reports := r\<lparr>cr_current := current, cr_history := history,
                                    cr_rank := (if below then ct_rank t - 1 else cr_rank r)\<rparr>\<rparr>) }"

definition notify_rank_changed :: "int \<Rightarrow> connection_tracker \<Rightarrow> connection_tracker" where
  "notify_rank_changed new_rank t =
    (if new_rank = ct_rank t then t
     else t\<lparr>ct_peer_reports := map_erase (map_erase (ct_peer_reports t) (ct_rank t)) new_rank,
            ct_my_reports := (ct_my_reports t)\<lparr>cr_rank := new_rank\<rparr>, ct_rank := new_rank, ct_encoding := None\<rparr>)"

definition set_half_life :: "rat \<Rightarrow> connection_tracker \<Rightarrow> connection_tracker" where
  "set_half_life d t = t\<lparr>ct_half_life := d\<rparr>"

section \<open>Maps\<close>

lemma map_of_put [simp]: "map_of (map_put m k v) = (map_of m)(k \<mapsto> v)"
  by (induction m k v rule: map_put.induct) auto

lemma set_map_put: "set (map_put m k v) \<subseteq> insert (k, v) (set m)"
  by (induction m k v rule: map_put.induct) auto

lemma keys_map_put: "map fst m = map fst m' \<Longrightarrow> map fst (map_put m k v) = map fst (map_put m' k v')"
proof (induction m k v arbitrary: m' rule: map_put.induct)
  case (2 a b m k v)
  then obtain b' n where "m' = (a, b') # n" "map fst m = map fst n" by (cases m') auto
  then show ?case using 2 by auto
qed simp

abbreviation keys_sorted :: "(int \<times> 'v) list \<Rightarrow> bool" where
  "keys_sorted m \<equiv> sorted_wrt (<) (map fst m)"

lemma keys_sorted_put: "keys_sorted m \<Longrightarrow> keys_sorted (map_put m k v)"
proof (induction m k v rule: map_put.induct)
  case (2 a b m k v)
  then show ?case using set_map_put[of m k v] by fastforce
qed simp

lemma keys_sorted_erase: "keys_sorted m \<Longrightarrow> keys_sorted (map_erase m k)"
  by (simp add: map_erase_def sorted_wrt_map sorted_wrt_filter)

lemma set_map_erase: "set (map_erase m k) \<subseteq> set m"
  by (auto simp: map_erase_def)

lemma map_of_map_fst: "map fst m = map fst m' \<Longrightarrow> map_of m x \<noteq> None \<longleftrightarrow> map_of m' x \<noteq> None"
  by (metis map_of_eq_None_iff set_map)

definition shift_key :: "int \<Rightarrow> int \<times> 'v \<Rightarrow> int \<times> 'v" where
  "shift_key k e = (if k < fst e then fst e - 1 else fst e, snd e)"

lemma move_down_split:
  assumes "keys_sorted (lo @ hi)" "\<forall>e\<in>set lo. \<forall>x\<in>set hi. fst e < fst x - 1"
  shows "move_down hi (lo @ hi) = lo @ map (\<lambda>e. (fst e - 1, snd e)) hi"
  using assms
proof (induction hi arbitrary: lo)
  case (Cons e hi)
  have "\<forall>x\<in>set (e # hi). fst e - 1 < fst x" using Cons.prems(1) by (auto simp: sorted_wrt_append)
  then have "map_put (lo @ e # hi) (fst e - 1) (snd e) = lo @ (fst e - 1, snd e) # e # hi"
    using Cons.prems(2) by (intro map_put_mid) auto
  moreover have "fst x \<noteq> fst e" if "x \<in> set lo \<union> set hi" for x using that Cons.prems(1) by (auto simp: sorted_wrt_append)
  then have "filter (\<lambda>x. fst x \<noteq> fst e) lo = lo" "filter (\<lambda>x. fst x \<noteq> fst e) hi = hi" by (auto simp: filter_id_conv)
  ultimately have "move_down (e # hi) (lo @ e # hi) = move_down hi ((lo @ [(fst e - 1, snd e)]) @ hi)"
    by (simp add: map_erase_def)
  also have "\<dots> = (lo @ [(fst e - 1, snd e)]) @ map (\<lambda>e. (fst e - 1, snd e)) hi"
    by (rule Cons.IH) (use Cons.prems in \<open>auto simp: sorted_wrt_append\<close>)
  finally show ?case by simp
qed simp

lemma remove_key_shift:
  assumes "keys_sorted m"
  shows "remove_key k m = map (shift_key k) (map_erase m k)"
    "move_down (upper_part (map_erase m k) k) (map_erase m k) = map (shift_key k) (map_erase m k)"
proof -
  define n where "n = map_erase m k"
  define lo where "lo = takeWhile (\<lambda>e. fst e \<le> k) n"
  define hi where "hi = upper_part n k"
  have s: "keys_sorted n" using keys_sorted_erase[OF assms] by (simp add: n_def)
  have n: "lo @ hi = n" by (simp add: lo_def hi_def upper_part_def)
  have "\<forall>x\<in>set hi. \<not> fst x \<le> k" unfolding hi_def upper_part_def
    by (rule sorted_wrt_dropWhile[of "\<lambda>a b. fst a < fst b"]) (use s in \<open>auto simp: sorted_wrt_map\<close>)
  then have hi: "k < fst x" if "x \<in> set hi" for x using that by force
  have lo: "fst e < k" if "e \<in> set lo" for e
  proof -
    have "e \<in> set n \<and> fst e \<le> k" using that unfolding lo_def by (rule set_takeWhileD)
    moreover from this have "fst e \<noteq> k" by (simp add: n_def map_erase_def)
    ultimately show "fst e < k" by linarith
  qed
  have "fst e < fst x - 1" if "e \<in> set lo" "x \<in> set hi" for e x using lo[OF that(1)] hi[OF that(2)] by linarith
  then have md: "move_down hi n = lo @ map (\<lambda>e. (fst e - 1, snd e)) hi"
    using move_down_split[of lo hi] s unfolding n by blast
  have "map (shift_key k) lo = lo" "map (shift_key k) hi = map (\<lambda>e. (fst e - 1, snd e)) hi"
    using lo hi by (force simp: shift_key_def intro!: map_idI, force simp: shift_key_def)
  then have "move_down hi n = map (shift_key k) n" unfolding md by (subst n[symmetric]) (simp only: map_append)
  then show "move_down (upper_part (map_erase m k) k) (map_erase m k) = map (shift_key k) (map_erase m k)"
    "remove_key k m = map (shift_key k) (map_erase m k)"
    by (simp_all add: remove_key_def hi_def n_def)
qed

lemma keys_sorted_shift:
  assumes "keys_sorted m"
  shows "keys_sorted (map (shift_key k) (map_erase m k))"
proof -
  have "sorted_wrt (\<lambda>a b. fst a < fst b) (map_erase m k)" using keys_sorted_erase[OF assms] by (simp add: sorted_wrt_map)
  moreover have "\<forall>e\<in>set (map_erase m k). fst e \<noteq> k" by (simp add: map_erase_def)
  ultimately show ?thesis unfolding sorted_wrt_map
    by (elim sorted_wrt_mono_rel[rotated]) (auto simp: shift_key_def)
qed

section \<open>Well-formed trackers\<close>

text \<open>
  A report has a score for the peers it has a state for and for no others, and a score is between 0
  and 1; the cached encoding is that of the current fields, except that it may hold an older half-life,
  because \<open>set_half_life\<close> does not clear it.
\<close>

definition report_ok :: "connection_report \<Rightarrow> bool" where
  "report_ok r \<longleftrightarrow> map fst (cr_history r) = map fst (cr_current r) \<and> keys_sorted (cr_current r)
    \<and> (\<forall>e\<in>set (cr_history r). 0 \<le> snd e \<and> snd e \<le> 1)"

definition tracker_ok :: "connection_tracker \<Rightarrow> bool" where
  "tracker_ok t \<longleftrightarrow> keys_sorted (ct_peer_reports t) \<and> (\<forall>e\<in>set (ct_peer_reports t). report_ok (snd e))
    \<and> report_ok (ct_my_reports t) \<and> 0 < ct_half_life t
    \<and> (\<forall>e. ct_encoding t = Some e \<longrightarrow> (\<exists>hl. e = ct_encode (t\<lparr>ct_half_life := hl\<rparr>)))"

definition cache_exact :: "connection_tracker \<Rightarrow> bool" where
  "cache_exact t \<longleftrightarrow> (\<forall>e. ct_encoding t = Some e \<longrightarrow> e = ct_encode t)"

lemma report_ok_rank [simp]:
  "report_ok (r\<lparr>cr_rank := k\<rparr>) = report_ok r" "report_ok (r\<lparr>cr_epoch := e\<rparr>) = report_ok r"
  "report_ok (r\<lparr>cr_version := v\<rparr>) = report_ok r"
  by (simp_all add: report_ok_def)

lemma new_report_ok [simp]: "report_ok new_report"
  by (simp add: report_ok_def new_report_def)

lemma new_tracker_ok: "0 < hl \<Longrightarrow> tracker_ok (new_tracker rank hl)"
  by (simp add: tracker_ok_def new_tracker_def)

lemma tracker_ok_clear: "tracker_ok t \<Longrightarrow> tracker_ok (clear_peer_reports t)"
  by (simp add: tracker_ok_def clear_peer_reports_def)

lemma put_report_ok:
  assumes "tracker_ok t" "report_ok r"
  shows "keys_sorted (map_put (ct_peer_reports t) k r)" "\<forall>e\<in>set (map_put (ct_peer_reports t) k r). report_ok (snd e)"
  using assms keys_sorted_put set_map_put[of "ct_peer_reports t" k r] by (auto simp: tracker_ok_def)

lemma tracker_ok_put:
  assumes "tracker_ok t" "report_ok r"
  shows "tracker_ok (t\<lparr>ct_peer_reports := map_put (ct_peer_reports t) k r, ct_encoding := None\<rparr>)"
  using put_report_ok[OF assms] assms(1) by (simp add: tracker_ok_def)

lemma tracker_ok_put_mine:
  assumes "tracker_ok t" "report_ok r"
  shows "tracker_ok (t\<lparr>ct_peer_reports := map_put (ct_peer_reports t) k r, ct_my_reports := r,
                       ct_epoch := e, ct_version := v, ct_encoding := None\<rparr>)"
  using put_report_ok[OF assms] assms by (simp add: tracker_ok_def)

lemma tracker_ok_increase_epoch: "tracker_ok t \<Longrightarrow> tracker_ok (snd (increase_epoch e t))"
  using put_report_ok[of t "(ct_my_reports t)\<lparr>cr_version := 0, cr_epoch := e\<rparr>"]
  by (simp add: increase_epoch_def tracker_ok_def Let_def)

lemma tracker_ok_increase_version:
  assumes "tracker_ok t" "report_ok r"
  shows "tracker_ok (increase_version (t\<lparr>ct_my_reports := r\<rparr>))"
  using put_report_ok[OF assms(1), of "r\<lparr>cr_version := ct_version t + 1\<rparr>"] assms
  by (simp add: increase_version_def tracker_ok_def Let_def)

lemma map_put_twice: "map_put (map_put m k a) k b = map_put m k b"
  by (induction m k a rule: map_put.induct) auto

lemma emplace_put: "map_put (fst (map_emplace m k a)) k b = map_put m k b"
  by (simp add: map_emplace_def map_put_twice split: option.split)

lemma tracker_ok_set_score:
  assumes "tracker_ok t" "\<And>p. 0 \<le> p \<Longrightarrow> p \<le> 1 \<Longrightarrow> 0 \<le> f p \<and> f p \<le> 1"
  shows "tracker_ok (set_score peer f alive t)"
proof -
  let ?r = "ct_my_reports t"
  obtain h p where e: "map_emplace (cr_history ?r) peer 1 = (h, p)" by force
  have r: "report_ok ?r" using assms(1) by (simp add: tracker_ok_def)
  then have "0 \<le> p \<and> p \<le> 1" using e map_of_SomeD[of "cr_history ?r" peer]
    by (force simp: map_emplace_def report_ok_def split: option.splits)
  then have f: "0 \<le> f p \<and> f p \<le> 1" using assms(2) by blast
  have h: "map_put h peer (f p) = map_put (cr_history ?r) peer (f p)" using emplace_put[of "cr_history ?r" peer 1] e by simp
  have "0 \<le> snd e \<and> snd e \<le> 1" if "e \<in> set (map_put (cr_history ?r) peer (f p))" for e
    using subsetD[OF set_map_put that] f r by (auto simp: report_ok_def)
  then have "report_ok (?r\<lparr>cr_history := map_put h peer (f p), cr_current := map_put (cr_current ?r) peer alive\<rparr>)"
    using r keys_sorted_put[of "cr_current ?r" peer alive] keys_map_put[of "cr_history ?r" "cr_current ?r"] by (simp add: report_ok_def h)
  then show ?thesis using tracker_ok_increase_version[OF assms(1)] by (simp add: set_score_def e Let_def)
qed

lemma live_score_range:
  assumes "0 \<le> (x::rat)" "0 \<le> p" "p \<le> 1"
  shows "0 \<le> min (p * (1 - x) + x) 1 \<and> min (p * (1 - x) + x) 1 \<le> 1"
proof -
  have "0 \<le> x * (1 - p)" using assms by simp
  then show ?thesis using assms by (auto simp: algebra_simps)
qed

lemma dead_score_range:
  assumes "0 \<le> (x::rat)" "0 \<le> p" "p \<le> 1"
  shows "0 \<le> max (p * (1 - x) - x) 0 \<and> max (p * (1 - x) - x) 0 \<le> 1"
proof -
  have "0 \<le> x + p * x" using assms by simp
  then have "p - (x + p * x) \<le> 1" using assms(3) by linarith
  moreover have "p * (1 - x) - x = p - (x + p * x)" by (simp add: algebra_simps)
  ultimately show ?thesis by simp
qed

lemma tracker_ok_live: "tracker_ok t \<Longrightarrow> 0 \<le> u \<Longrightarrow> tracker_ok (report_live_connection peer u t)"
  unfolding report_live_connection_def
  by (intro tracker_ok_set_score live_score_range) (simp_all add: tracker_ok_def)

lemma tracker_ok_dead: "tracker_ok t \<Longrightarrow> 0 \<le> u \<Longrightarrow> tracker_ok (report_dead_connection peer u t)"
  unfolding report_dead_connection_def
  by (intro tracker_ok_set_score dead_score_range) (simp_all add: tracker_ok_def)

lemma tracker_ok_receive_reports:
  "tracker_ok (t\<lparr>ct_encoding := None\<rparr>) \<Longrightarrow> \<forall>e\<in>set rs. report_ok (snd e) \<Longrightarrow>
   \<exists>t'. receive_reports rs t = Some t' \<and> tracker_ok (t'\<lparr>ct_encoding := None\<rparr>)"
proof (induction rs arbitrary: t)
  case (Cons i rs)
  show ?case
  proof (cases "cr_rank (snd i) = ct_rank t")
    case True
    then show ?thesis using Cons by simp
  next
    case False
    let ?k = "cr_rank (snd i)"
    obtain ex u where u: "reports ?k t = Some (ex, u)" "tracker_ok (u\<lparr>ct_encoding := None\<rparr>)"
    proof (cases "map_of (ct_peer_reports t) ?k")
      case None
      then show ?thesis using that False tracker_ok_put[OF Cons.prems(1) new_report_ok, of ?k]
        by (simp add: reports_def ceph_assert_def)
    next
      case (Some r)
      then show ?thesis using that Cons.prems by (simp add: reports_def)
    qed
    have "tracker_ok ((u\<lparr>ct_peer_reports := map_put (ct_peer_reports u) ?k (snd i)\<rparr>)\<lparr>ct_encoding := None\<rparr>)"
      using tracker_ok_put[OF u(2)] Cons.prems(2) by simp
    then show ?thesis using Cons.IH u Cons.prems(2) False by (simp add: Let_def)
  qed
qed simp

lemma tracker_ok_no_encoding: "tracker_ok t \<Longrightarrow> tracker_ok (t\<lparr>ct_encoding := None\<rparr>)"
  by (simp add: tracker_ok_def)

lemma tracker_ok_receive:
  assumes "tracker_ok t" "\<forall>e\<in>set (ct_peer_reports u). report_ok (snd e)"
  shows "\<exists>t'. receive_peer_report u t = Some t' \<and> tracker_ok t'"
  using tracker_ok_receive_reports[OF tracker_ok_no_encoding[OF assms(1)] assms(2)]
  by (auto simp: receive_peer_report_def)

lemma tracker_ok_changed: "tracker_ok t \<Longrightarrow> tracker_ok (notify_rank_changed k t)"
  by (auto simp: notify_rank_changed_def tracker_ok_def keys_sorted_erase dest!: subsetD[OF set_map_erase])

lemma tracker_ok_encode:
  assumes "tracker_ok t"
  shows "\<exists>hl. fst (get_encoded_bl t) = ct_encode (t\<lparr>ct_half_life := hl\<rparr>)" "tracker_ok (snd (get_encoded_bl t))"
proof -
  have "\<exists>hl. ct_encode t = ct_encode (t\<lparr>ct_half_life := hl\<rparr>)" by (auto simp: ct_encode_def)
  then show "\<exists>hl. fst (get_encoded_bl t) = ct_encode (t\<lparr>ct_half_life := hl\<rparr>)"
    using assms by (auto simp: get_encoded_bl_def tracker_ok_def split: option.splits)
  show "tracker_ok (snd (get_encoded_bl t))"
    using assms by (auto simp: get_encoded_bl_def tracker_ok_def ct_encode_def split: option.splits)
qed

lemma cache_exact_encode: "cache_exact t \<Longrightarrow> fst (get_encoded_bl t) = ct_encode t"
  by (simp add: cache_exact_def get_encoded_bl_def split: option.splits)

lemma tracker_ok_half_life: "tracker_ok t \<Longrightarrow> 0 < d \<Longrightarrow> tracker_ok (set_half_life d t)"
  by (auto simp: tracker_ok_def set_half_life_def ct_encode_def)

lemma tracker_ok_decode:
  assumes "keys_sorted rs" "\<forall>e\<in>set rs. report_ok (snd e)" "0 < hl"
  shows "tracker_ok (ct_decode (k, e, v, hl, rs) t)"
  using assms set_map_put[of rs k new_report] keys_sorted_put[of rs k new_report] map_of_SomeD[of rs k]
  by (fastforce simp: ct_decode_def tracker_ok_def clear_peer_reports_def map_emplace_def Let_def split: option.splits)

lemma shift_map_fst: "map fst m = map fst m' \<Longrightarrow>
  map fst (map (shift_key k) (map_erase m k)) = map fst (map (shift_key k) (map_erase m' k))"
proof (induction m arbitrary: m')
  case (Cons e m)
  then obtain e' n where "m' = e' # n" "fst e = fst e'" "map fst m = map fst n" by (cases m') auto
  then show ?case using Cons.IH[of n] by (simp add: map_erase_def shift_key_def)
qed (simp add: map_erase_def)

lemma upper_part_map_fst: "map fst m = map fst m' \<Longrightarrow> map fst (upper_part m k) = map fst (upper_part m' k)"
proof (induction m arbitrary: m')
  case (Cons e m)
  then obtain e' n where "m' = e' # n" "fst e = fst e'" "map fst m = map fst n" by (cases m') auto
  then show ?case using Cons.IH[of n] by (simp add: upper_part_def)
qed (simp add: upper_part_def)

lemma erase_map_fst: "map fst m = map fst m' \<Longrightarrow> map fst (map_erase m k) = map fst (map_erase m' k)"
proof (induction m arbitrary: m')
  case (Cons e m)
  then obtain e' n where "m' = e' # n" "fst e = fst e'" "map fst m = map fst n" by (cases m') auto
  then show ?case using Cons.IH[of n] by (simp add: map_erase_def)
qed (simp add: map_erase_def)

lemma length_map_erase:
  assumes "keys_sorted m"
  shows "length (map_erase m k) = length m \<or> length (map_erase m k) + 1 = length m"
  using assms
proof (induction m)
  case (Cons e m)
  then show ?case
  proof (cases "fst e = k")
    case True
    then have "map_erase m k = m" using Cons.prems by (auto simp: map_erase_def filter_id_conv)
    then show ?thesis using True by (simp add: map_erase_def)
  next
    case False
    then show ?thesis using Cons by (auto simp: map_erase_def)
  qed
qed (simp add: map_erase_def)

lemma notify_rank_removed_eq:
  assumes "tracker_ok t"
  shows "notify_rank_removed k t = Some (t\<lparr>ct_encoding := None,
      ct_peer_reports := map (shift_key k) (map_erase (ct_peer_reports t) k),
      ct_rank := (if k < ct_rank t then ct_rank t - 1 else ct_rank t),
      ct_my_reports := (ct_my_reports t)\<lparr>
        cr_current := map (shift_key k) (map_erase (cr_current (ct_my_reports t)) k),
        cr_history := map (shift_key k) (map_erase (cr_history (ct_my_reports t)) k),
        cr_rank := (if k < ct_rank t then ct_rank t - 1 else cr_rank (ct_my_reports t))\<rparr>\<rparr>)"
proof -
  define c where "c = cr_current (ct_my_reports t)"
  define h where "h = cr_history (ct_my_reports t)"
  define ps where "ps = ct_peer_reports t"
  define ci where "ci = upper_part (map_erase c k) k"
  define hi where "hi = upper_part (map_erase h k) k"
  have ok: "map fst h = map fst c" "keys_sorted c" "keys_sorted ps"
    using assms by (simp_all add: tracker_ok_def report_ok_def c_def h_def ps_def)
  have e: "map fst ci = map fst hi" using upper_part_map_fst[OF erase_map_fst[OF ok(1)[symmetric]]] by (simp add: ci_def hi_def)
  then have l: "length ci = length hi" by (metis length_map)
  have "move_down hi (map_erase h k) = map (shift_key k) (map_erase h k)"
    using remove_key_shift(2)[of h k] ok by (simp add: hi_def)
  then show ?thesis
    using length_map_erase[OF ok(2), of k] e l
    by (simp add: notify_rank_removed_def remove_key_shift(1)[OF ok(2)] remove_key_shift(1)[OF ok(3)] ceph_assert_def Let_def
        flip: c_def h_def ps_def ci_def hi_def)
qed

lemma tracker_ok_removed:
  assumes "tracker_ok t"
  shows "\<exists>t'. notify_rank_removed k t = Some t' \<and> tracker_ok t'"
proof -
  have "map fst (map (shift_key k) (map_erase (cr_history (ct_my_reports t)) k)) =
    map fst (map (shift_key k) (map_erase (cr_current (ct_my_reports t)) k))"
    using assms by (intro shift_map_fst) (simp add: tracker_ok_def report_ok_def)
  moreover have "keys_sorted (map (shift_key k) (map_erase (ct_peer_reports t) k))"
    "keys_sorted (map (shift_key k) (map_erase (cr_current (ct_my_reports t)) k))"
    using assms keys_sorted_shift by (auto simp only: tracker_ok_def report_ok_def)
  moreover have "\<forall>e\<in>set (map (shift_key k) (map_erase (cr_history (ct_my_reports t)) k)). 0 \<le> snd e \<and> snd e \<le> 1"
    using assms by (auto simp: tracker_ok_def report_ok_def shift_key_def map_erase_def)
  moreover have "\<forall>e\<in>set (map (shift_key k) (map_erase (ct_peer_reports t) k)). report_ok (snd e)"
    using assms by (auto simp: tracker_ok_def shift_key_def map_erase_def)
  ultimately show ?thesis unfolding notify_rank_removed_eq[OF assms]
    using assms by (simp add: tracker_ok_def report_ok_def)
qed

section \<open>Sequences of operations\<close>

text \<open>What the elector does with its tracker.\<close>

datatype tracker_op =
    Live int rat
  | Dead int rat
  | New_epoch nat
  | Peer_report connection_tracker
  | Rank_removed int
  | Rank_changed int
  | Reset
  | Get_encoded
  | Decode encoded_tracker
  | Half_life rat

fun tracker_step :: "tracker_op \<Rightarrow> connection_tracker \<Rightarrow> connection_tracker option" where
  "tracker_step (Live p u) t = Some (report_live_connection p u t)"
| "tracker_step (Dead p u) t = Some (report_dead_connection p u t)"
| "tracker_step (New_epoch e) t = Some (snd (increase_epoch e t))"
| "tracker_step (Peer_report o') t = receive_peer_report o' t"
| "tracker_step (Rank_removed k) t = notify_rank_removed k t"
| "tracker_step (Rank_changed k) t = Some (notify_rank_changed k t)"
| "tracker_step Reset t = Some (clear_peer_reports t)"
| "tracker_step Get_encoded t = Some (snd (get_encoded_bl t))"
| "tracker_step (Decode e) t = Some (ct_decode e t)"
| "tracker_step (Half_life d) t = Some (set_half_life d t)"

primrec tracker_run :: "tracker_op list \<Rightarrow> connection_tracker \<Rightarrow> connection_tracker option" where
  "tracker_run [] t = Some t"
| "tracker_run (x # xs) t = do { t \<leftarrow> tracker_step x t; tracker_run xs t }"

text \<open>Reports that come from outside are well-formed; durations are not negative, half-lives positive.\<close>

fun tracker_op_ok :: "tracker_op \<Rightarrow> bool" where
  "tracker_op_ok (Live p u) = (0 \<le> u)"
| "tracker_op_ok (Dead p u) = (0 \<le> u)"
| "tracker_op_ok (Peer_report o') = (\<forall>e\<in>set (ct_peer_reports o'). report_ok (snd e))"
| "tracker_op_ok (Decode (k, e, v, hl, rs)) = (0 < hl \<and> keys_sorted rs \<and> (\<forall>e\<in>set rs. report_ok (snd e)))"
| "tracker_op_ok (Half_life d) = (0 < d)"
| "tracker_op_ok _ = True"

lemma tracker_ok_step:
  assumes "tracker_ok t" "tracker_op_ok x"
  shows "\<exists>t'. tracker_step x t = Some t' \<and> tracker_ok t'"
  using assms(2)
  by (cases x rule: tracker_op_ok.cases)
    (use assms(1) in \<open>simp_all add: tracker_ok_live tracker_ok_dead tracker_ok_increase_epoch tracker_ok_receive
      tracker_ok_removed tracker_ok_changed tracker_ok_clear tracker_ok_encode(2) tracker_ok_decode
      tracker_ok_half_life\<close>)

lemma tracker_ok_run:
  "tracker_ok t \<Longrightarrow> \<forall>x\<in>set xs. tracker_op_ok x \<Longrightarrow> \<exists>t'. tracker_run xs t = Some t' \<and> tracker_ok t'"
proof (induction xs arbitrary: t)
  case (Cons x xs)
  then obtain t1 where "tracker_step x t = Some t1" "tracker_ok t1" using tracker_ok_step[of t x] by auto
  then show ?case using Cons.IH[of t1] Cons.prems by simp
qed simp

definition sets_half_life :: "tracker_op \<Rightarrow> bool" where
  "sets_half_life x = (case x of Half_life d \<Rightarrow> True | _ \<Rightarrow> False)"

lemma cache_exact_step:
  assumes "cache_exact t" "\<not> sets_half_life x" "tracker_step x t = Some t'"
  shows "cache_exact t'"
  using assms
  by (cases x) (auto simp: sets_half_life_def cache_exact_def report_live_connection_def report_dead_connection_def
      set_score_def increase_version_def increase_epoch_def receive_peer_report_def notify_rank_removed_def
      notify_rank_changed_def clear_peer_reports_def get_encoded_bl_def ct_decode_def ct_encode_def Let_def
      split: option.splits prod.splits if_splits)

lemma cache_exact_run:
  "cache_exact t \<Longrightarrow> list_all (\<lambda>x. \<not> sets_half_life x) xs \<Longrightarrow> tracker_run xs t = Some t' \<Longrightarrow> cache_exact t'"
proof (induction xs arbitrary: t)
  case (Cons x xs)
  then obtain t1 where "tracker_step x t = Some t1" "tracker_run xs t1 = Some t'" by (auto simp: bind_eq_Some_conv)
  then show ?case using Cons.IH[of t1] cache_exact_step[of t x t1] Cons.prems by simp
qed simp

lemma score_loop_bounds:
  assumes "\<forall>e\<in>set rs. report_ok (snd e)"
  shows "\<exists>r n. score_loop p rs rate live = Some (rate + r, live + n) \<and> 0 \<le> r \<and> r \<le> of_nat n \<and> n \<le> length rs"
  using assms
proof (induction rs arbitrary: rate live)
  case (Cons i rs)
  have IH: "\<exists>r n. score_loop p rs rate live = Some (rate + r, live + n) \<and> 0 \<le> r \<and> r \<le> of_nat n \<and> n \<le> length rs" for rate live
    using Cons by simp
  have skip: ?case if "score_loop p (i # rs) rate live = score_loop p rs rate live"
    using IH[of rate live] that by (auto intro: le_SucI)
  show ?case
  proof (cases "fst i = p \<or> map_of (cr_history (snd i)) p = None")
    case True
    then show ?thesis by (intro skip) auto
  next
    case False
    then obtain s where s: "map_of (cr_history (snd i)) p = Some s" by blast
    have ok: "report_ok (snd i)" using Cons.prems by simp
    then have "0 \<le> s \<and> s \<le> 1" using map_of_SomeD[OF s] by (auto simp: report_ok_def)
    moreover obtain l where l: "map_of (cr_current (snd i)) p = Some l"
      using ok s map_of_map_fst[of "cr_history (snd i)" "cr_current (snd i)" p] by (auto simp: report_ok_def)
    moreover obtain r n where "score_loop p rs (rate + s) (live + 1) = Some (rate + s + r, live + 1 + n)"
      "0 \<le> r" "r \<le> of_nat n" "n \<le> length rs" using IH[of "rate + s" "live + 1"] by blast
    ultimately show ?thesis using False s skip
      by (cases l) (auto intro!: exI[of _ "s + r"] exI[of _ "Suc n"])
  qed
qed simp

lemma total_score_bounds:
  assumes "tracker_ok t"
  shows "\<exists>r n. get_total_connection_score t p = Some (r, n) \<and> 0 \<le> r \<and> r \<le> of_nat n \<and> n \<le> length (ct_peer_reports t)"
  using score_loop_bounds[of "ct_peer_reports t" p 0 0] assms by (simp add: get_total_connection_score_def tracker_ok_def)

text \<open>
  Property C15.  Whatever a tracker has gone through since it was created (connections reported alive or
  dead for any time, new epochs, reports of peers, ranks removed or renumbered, resets, decoding, changes
  of the half-life), none of the assertions of the code has failed; the total score of a rank can be
  computed, is not negative, is at most the number of peers that see the rank alive, which is at most the
  number of reports; and the bytes sent to the other monitors are the encoding of the current fields, except
  that they may hold an older half-life: exactly the current fields if the half-life was never set.
\<close>

theorem connection_score_bounded:
  assumes "0 < hl" "\<forall>x\<in>set xs. tracker_op_ok x"
  shows "\<exists>t. tracker_run xs (new_tracker rank hl) = Some t
    \<and> (\<exists>d. fst (get_encoded_bl t) = ct_encode (t\<lparr>ct_half_life := d\<rparr>))
    \<and> (list_all (\<lambda>x. \<not> sets_half_life x) xs \<longrightarrow> fst (get_encoded_bl t) = ct_encode t)
    \<and> (\<exists>r n. get_total_connection_score t p = Some (r, n) \<and> 0 \<le> r \<and> r \<le> of_nat n \<and> n \<le> length (ct_peer_reports t))"
proof -
  obtain t where t: "tracker_run xs (new_tracker rank hl) = Some t" "tracker_ok t"
    using tracker_ok_run[OF new_tracker_ok[OF assms(1)] assms(2)] by blast
  have "cache_exact (new_tracker rank hl)" by (simp add: cache_exact_def new_tracker_def)
  then have "list_all (\<lambda>x. \<not> sets_half_life x) xs \<Longrightarrow> fst (get_encoded_bl t) = ct_encode t"
    using cache_exact_run[OF _ _ t(1)] cache_exact_encode by blast
  then show ?thesis using t(1) tracker_ok_encode(1)[OF t(2)] total_score_bounds[OF t(2), of p] by blast
qed

definition demo_ops :: "tracker_op list" where
  "demo_ops = [New_epoch 3, Live 1 2, Dead 2 5, Get_encoded, Half_life 20, Rank_removed 1, Live 1 1,
               Peer_report ((new_tracker 1 10)\<lparr>ct_peer_reports := [(1, new_report\<lparr>cr_rank := 1, cr_epoch := 3\<rparr>)]\<rparr>)]"

theorem connection_score_bounded_witness:
  "\<exists>t d. tracker_run demo_ops (new_tracker 0 10) = Some t \<and> fst (get_encoded_bl t) = ct_encode (t\<lparr>ct_half_life := d\<rparr>)
    \<and> (\<exists>r n. get_total_connection_score t 1 = Some (r, n) \<and> 0 \<le> r \<and> r \<le> of_nat n \<and> n \<le> length (ct_peer_reports t))"
proof -
  have "0 < (10 :: rat)" "\<forall>x\<in>set demo_ops. tracker_op_ok x"
    by (simp_all add: demo_ops_def report_ok_def new_report_def)
  from connection_score_bounded[OF this, of 0 1] show ?thesis by blast
qed

text \<open>
  A tracker that is sent to another monitor, or stored and read again, carries the same fields, provided
  that it holds a report of its own rank; the reader gets its own report back from the reports of peers.
\<close>

lemma decode_encode:
  assumes "ct_rank t < 0 \<or> map_of (ct_peer_reports t) (ct_rank t) = Some (ct_my_reports t)"
  shows "ct_encode (ct_decode (ct_encode t) u) = ct_encode t"
    "0 \<le> ct_rank t \<Longrightarrow> ct_my_reports (ct_decode (ct_encode t) u) = ct_my_reports t"
  using assms by (auto simp: ct_encode_def ct_decode_def clear_peer_reports_def map_emplace_def Let_def split: option.splits)

text \<open>
  A newer report of a peer replaces the older one, and an older or equal one is ignored.
\<close>

lemma receive_single_report:
  assumes "k \<noteq> ct_rank t" "cr_rank r = k" "map_of (ct_peer_reports t) k = Some old"
  shows "\<exists>t'. receive_reports [(i, r)] t = Some t' \<and> map_of (ct_peer_reports t') k =
    Some (if cr_epoch old < cr_epoch r \<or> cr_epoch r = cr_epoch old \<and> cr_version old < cr_version r then r else old)"
  using assms by (auto simp: reports_def Let_def)

section \<open>Stale data\<close>

text \<open>
  When a rank is removed, the peers' reports move to their new keys but keep the old numbers inside:
  after rank 1 of four has gone, the report of the former rank 3, now under key 2, still says 3 and still
  rates the former rank 2 under its old number.
\<close>

definition demo_reports :: connection_tracker where
  "demo_reports = (new_tracker 0 10)\<lparr>ct_peer_reports :=
     [(0, new_report\<lparr>cr_rank := 0\<rparr>),
      (3, new_report\<lparr>cr_rank := 3, cr_current := [(1, False), (2, True)], cr_history := [(1, 0), (2, 1)]\<rparr>)]\<rparr>"

lemma removed_rank_left_in_peer_reports:
  "map_option (\<lambda>t. map_of (ct_peer_reports t) 2) (notify_rank_removed 1 demo_reports) =
     Some (Some (new_report\<lparr>cr_rank := 3, cr_current := [(1, False), (2, True)], cr_history := [(1, 0), (2, 1)]\<rparr>))"
  by (simp add: demo_reports_def new_tracker_def new_report_def notify_rank_removed_def remove_key_def upper_part_def
      map_erase_def ceph_assert_def Let_def)

text \<open>A reset forgets the own rank, and the next update publishes a report of rank -1.\<close>

lemma reset_loses_rank:
  "map_of (ct_peer_reports (increase_version (clear_peer_reports t))) (ct_rank t) =
     Some (new_report\<lparr>cr_version := ct_version t + 1\<rparr>)"
  by (simp add: increase_version_def clear_peer_reports_def Let_def)

text \<open>A change of the half-life leaves the cached encoding as it was.\<close>

lemma half_life_not_encoded:
  "fst (get_encoded_bl (set_half_life d (snd (get_encoded_bl t)))) = fst (get_encoded_bl t)"
  by (simp add: get_encoded_bl_def set_half_life_def split: option.splits)

end
