(* ===== verification/Election_Logic.thy ===== *)
theory Election_Logic
  imports Connection_Tracker "HOL-Library.Word"
begin

unbundle bit_operations_syntax

text \<open>
  How a monitor takes part in the election of a leader (\<open>mon/ElectionLogic.cc\<close>), with the operations
  that \<open>ElectionLogic\<close> calls on its owner (\<open>mon/Elector.cc\<close>, \<open>mon/Monitor.cc\<close>).

  One record holds the state of the three classes for one monitor; an operation maps it to the next
  state, and \<^term>\<open>None\<close> is a failed assertion.  Messages that are sent are appended to \<open>el_outbox\<close>.  The
  store of the monitor is the epoch and the scores written to it last.  Epochs are unbounded numbers.
  The monitor map is fixed, the same on all monitors; metadata of the monitors, the Paxos machine and
  the services that are told of the result of an election are left out.
\<close>

section \<open>State\<close>

type_synonym features = "64 word"

datatype mon_state =
    STATE_INIT | STATE_PROBING | STATE_SYNCHRONIZING | STATE_ELECTING | STATE_LEADER | STATE_PEON | STATE_SHUTDOWN

datatype election_strategy = CLASSIC | DISALLOW | CONNECTIVITY

datatype election_op = OP_PROPOSE | OP_ACK | OP_NAK | OP_VICTORY

text \<open>
  An election message; \<open>em_con_features\<close> are the features of the connection on which it arrives.
  \<open>em_sharing\<close> is the tracker in a proposal; the commands of the leader in a victory are left out.
\<close>

record election_msg =
  em_from :: int
  em_op :: election_op
  em_epoch :: nat
  em_scoring :: encoded_tracker
  em_strategy :: election_strategy
  em_quorum :: "int set"
  em_quorum_features :: features
  em_con_features :: features
  em_mon_features :: features
  em_mon_release :: nat
  em_sharing :: "encoded_tracker option"

record ping_msg =
  pm_from :: int
  pm_reply :: bool
  pm_stamp :: rat
  pm_scoring :: encoded_tracker

datatype message = Election election_msg | Ping ping_msg

record elector_info =
  cluster_features :: features
  mon_features :: features
  mon_release :: nat

text \<open>What does not change while a monitor map is in force.\<close>

record mon_config =
  cf_rank :: int
  cf_size :: nat
  cf_required_features :: features
  cf_required_mon_features :: features
  cf_min_mon_release :: nat
  cf_features_all :: features
  cf_supported :: features
  cf_release :: nat
  cf_half_life :: rat
  cf_persist_interval :: nat
  cf_ignore_propose_margin :: rat
  cf_ping_timeout :: rat
  cf_ping_divisor :: rat

datatype ping_context = Ping_check int | Dead_ping int

record elector =
  el_cfg :: mon_config
  el_state :: mon_state
  el_leader :: int
  el_quorum :: "int set"
  el_quorum_con_features :: features
  el_quorum_mon_features :: features
  el_quorum_min_release :: nat
  el_has_ever_joined :: bool
  el_store_epoch :: nat
  el_store_scores :: "encoded_tracker option"
  el_tracker :: connection_tracker
  el_acked_ping :: "(int \<times> rat) list"
  el_sent_ping :: "(int \<times> rat) list"
  el_live_pinging :: "int set"
  el_dead_pinging :: "int set"
  el_contexts :: "ping_context list"
  el_expire_event :: bool
  el_peer_info :: "(int \<times> elector_info) list"
  el_disallowed_leaders :: "int set"
  el_epoch :: nat
  el_last_election_winner :: int
  el_last_voted_for :: int
  el_stable_tracker :: "connection_tracker option"
  el_leader_tracker :: "connection_tracker option"
  el_leader_acked :: int
  el_strategy :: election_strategy
  el_participating :: bool
  el_electing_me :: bool
  el_acked_me :: "int set"
  el_outbox :: "(int \<times> message) list"

abbreviation get_my_rank :: "elector \<Rightarrow> int" where
  "get_my_rank s \<equiv> cf_rank (el_cfg s)"

abbreviation paxos_size :: "elector \<Rightarrow> nat" where
  "paxos_size s \<equiv> cf_size (el_cfg s)"

section \<open>The owner of the logic: \<open>Elector\<close> and \<open>Monitor\<close>\<close>

definition encoded_scores :: "elector \<Rightarrow> encoded_tracker \<times> elector" where
  "encoded_scores s = (case get_encoded_bl (el_tracker s) of (bl, t) \<Rightarrow> (bl, s\<lparr>el_tracker := t\<rparr>))"

definition persist_epoch :: "nat \<Rightarrow> elector \<Rightarrow> elector" where
  "persist_epoch e s =
    (case encoded_scores s of (bl, s) \<Rightarrow> s\<lparr>el_store_epoch := e, el_store_scores := Some bl\<rparr>)"

definition persist_connectivity_scores :: "elector \<Rightarrow> elector" where
  "persist_connectivity_scores s = (case encoded_scores s of (bl, s) \<Rightarrow> s\<lparr>el_store_scores := Some bl\<rparr>)"

definition mon_reset :: "elector \<Rightarrow> elector" where
  "mon_reset s = s\<lparr>el_quorum := {}\<rparr>"

definition join_election :: "elector \<Rightarrow> elector" where
  "join_election s = (mon_reset s)\<lparr>el_state := STATE_ELECTING\<rparr>"

definition new_election_msg :: "election_op \<Rightarrow> nat \<Rightarrow> elector \<Rightarrow> election_msg \<times> elector" where
  "new_election_msg op e s =
    (case encoded_scores s of (bl, s) \<Rightarrow>
      (\<lparr>em_from = get_my_rank s, em_op = op, em_epoch = e, em_scoring = bl, em_strategy = el_strategy s,
        em_quorum = {}, em_quorum_features = 0, em_con_features = cf_features_all (el_cfg s), em_mon_features = 0,
        em_mon_release = 0, em_sharing = None\<rparr>, s))"

definition send_mon_message :: "message \<Rightarrow> int \<Rightarrow> elector \<Rightarrow> elector" where
  "send_mon_message m i s = s\<lparr>el_outbox := el_outbox s @ [(i, m)]\<rparr>"

definition send_election :: "election_op \<Rightarrow> nat \<Rightarrow> (election_msg \<Rightarrow> election_msg) \<Rightarrow> int \<Rightarrow> elector \<Rightarrow> elector" where
  "send_election op e f i s = (case new_election_msg op e s of (m, s) \<Rightarrow> send_mon_message (Election (f m)) i s)"

definition propose_to_peers :: "nat \<Rightarrow> encoded_tracker option \<Rightarrow> elector \<Rightarrow> elector" where
  "propose_to_peers e logic_bl s =
    fold (\<lambda>i s. if i = get_my_rank s then s
                else send_election OP_PROPOSE e
                       (\<lambda>m. m\<lparr>em_sharing := logic_bl, em_mon_features := cf_supported (el_cfg s),
                              em_mon_release := cf_release (el_cfg s)\<rparr>) i s)
      (map int [0..<paxos_size s]) s"

text \<open>The map \<open>peer_info\<close> restarts with the own entry; \<open>_start\<close> and \<open>_defer_to\<close> set the timer.\<close>

definition elector_start :: "elector \<Rightarrow> elector" where
  "elector_start s =
    s\<lparr>el_peer_info := [(get_my_rank s, \<lparr>cluster_features = cf_features_all (el_cfg s), mon_features = cf_supported (el_cfg s),
                                        mon_release = cf_release (el_cfg s)\<rparr>)],
      el_expire_event := True\<rparr>"

definition elector_defer_to :: "int \<Rightarrow> elector \<Rightarrow> elector" where
  "elector_defer_to who s =
    (send_election OP_ACK (el_epoch s)
      (\<lambda>m. m\<lparr>em_mon_features := cf_supported (el_cfg s), em_mon_release := cf_release (el_cfg s)\<rparr>) who s)
      \<lparr>el_expire_event := True\<rparr>"

definition win_election :: "int set \<Rightarrow> features \<Rightarrow> features \<Rightarrow> nat \<Rightarrow> elector \<Rightarrow> elector option" where
  "win_election active features mon_feats min_release s =
    do { ceph_assert (el_state s = STATE_ELECTING);
         Some (s\<lparr>el_state := STATE_LEADER, el_leader := get_my_rank s, el_quorum := active,
                 el_quorum_con_features := features, el_quorum_mon_features := mon_feats,
                 el_quorum_min_release := min_release\<rparr>) }"

definition lose_election :: "int set \<Rightarrow> int \<Rightarrow> features \<Rightarrow> features \<Rightarrow> nat \<Rightarrow> elector \<Rightarrow> elector" where
  "lose_election q l features mon_feats min_release s =
    s\<lparr>el_state := STATE_PEON, el_leader := l, el_quorum := q, el_quorum_con_features := features,
      el_quorum_mon_features := mon_feats, el_quorum_min_release := min_release\<rparr>"

text \<open>The features and the release that all members of the new quorum have.\<close>

fun quorum_info :: "(int \<times> elector_info) list \<Rightarrow> int list \<Rightarrow> features \<Rightarrow> features \<Rightarrow> nat \<Rightarrow> (features \<times> features \<times> nat) option" where
  "quorum_info infos [] cf mf rel = Some (cf, mf, rel)"
| "quorum_info infos (i # is) cf mf rel =
    do { info \<leftarrow> map_of infos i;
         quorum_info infos is (cf AND cluster_features info) (mf AND mon_features info)
           (if rel = 0 \<or> mon_release info < rel then mon_release info else rel) }"

definition message_victory :: "int set \<Rightarrow> elector \<Rightarrow> elector option" where
  "message_victory quorum s =
    do { (cf, mf, rel) \<leftarrow> quorum_info (el_peer_info s) (sorted_list_of_set quorum)
                             (cf_features_all (el_cfg s)) (cf_supported (el_cfg s)) 0;
         let s = s\<lparr>el_expire_event := False\<rparr>;
         let s = fold (\<lambda>p s. if p = get_my_rank s then s
                             else send_election OP_VICTORY (el_epoch s)
                                    (\<lambda>m. m\<lparr>em_quorum := quorum, em_quorum_features := cf, em_mon_features := mf,
                                           em_mon_release := rel\<rparr>) p s)
                   (sorted_list_of_set quorum) s;
         win_election quorum cf mf rel s }"

section \<open>Epochs\<close>

definition init :: "elector \<Rightarrow> elector" where
  "init s =
    (let e = el_store_epoch s in
     if e = 0 then s\<lparr>el_epoch := 1\<rparr>
     else if odd e then persist_epoch (e + 1) (s\<lparr>el_epoch := e + 1\<rparr>)
     else s\<lparr>el_epoch := e\<rparr>)"

definition bump_epoch :: "nat \<Rightarrow> elector \<Rightarrow> elector option" where
  "bump_epoch e s =
    do { ceph_assert (el_epoch s \<le> e);
         let s = s\<lparr>el_epoch := e, el_tracker := snd (increase_epoch e (el_tracker s))\<rparr>;
         let s = persist_epoch e s;
         Some (join_election (s\<lparr>el_electing_me := False, el_acked_me := {}\<rparr>)) }"

definition declare_standalone_victory :: "elector \<Rightarrow> elector option" where
  "declare_standalone_victory s =
    do { ceph_assert (paxos_size s = 1 \<and> get_my_rank s = 0);
         let s = init s;
         bump_epoch (el_epoch s + 1) s }"

definition reset_stable_tracker :: "elector \<Rightarrow> elector" where
  "reset_stable_tracker s = s\<lparr>el_stable_tracker := Some (copy_tracker (el_tracker s))\<rparr>"

definition clear_live_election_state :: "elector \<Rightarrow> elector" where
  "clear_live_election_state s =
    (reset_stable_tracker (s\<lparr>el_leader_acked := - 1, el_electing_me := False\<rparr>))\<lparr>el_leader_tracker := None\<rparr>"

section \<open>Starting, deferring, winning\<close>

definition start :: "elector \<Rightarrow> elector option" where
  "start s =
    (if \<not> el_participating s then Some s
     else do { let s = init (s\<lparr>el_acked_me := {}\<rparr>);
               s \<leftarrow> (if even (el_epoch s) then bump_epoch (el_epoch s + 1) s else Some s);
               let s = s\<lparr>el_acked_me := insert (get_my_rank s) (el_acked_me s)\<rparr>;
               let s = reset_stable_tracker (clear_live_election_state s);
               let s = s\<lparr>el_electing_me := True\<rparr>;
               let bl = (if el_strategy s = CONNECTIVITY then map_option ct_encode (el_stable_tracker s) else None);
               Some (elector_start (propose_to_peers (el_epoch s) bl s)) })"

text \<open>\<open>Monitor::start_election\<close>, which \<open>trigger_new_election\<close> calls.\<close>

definition start_election :: "elector \<Rightarrow> elector option" where
  "start_election s = start ((mon_reset s)\<lparr>el_state := STATE_ELECTING\<rparr>)"

definition win_standalone_election :: "elector \<Rightarrow> elector option" where
  "win_standalone_election s =
    do { s \<leftarrow> declare_standalone_victory s;
         ceph_assert (get_my_rank s = 0);
         win_election {get_my_rank s} (cf_features_all (el_cfg s)) (cf_supported (el_cfg s)) (cf_release (el_cfg s)) s }"

text \<open>\<open>Monitor::bootstrap\<close> with an unchanged map; the messages of the probing phase are left out.\<close>

definition bootstrap :: "elector \<Rightarrow> elector option" where
  "bootstrap s =
    (let s = mon_reset (s\<lparr>el_state := STATE_PROBING\<rparr>) in
     if paxos_size s = 1 \<and> get_my_rank s = 0 then win_standalone_election s else Some s)"

definition defer_to :: "int \<Rightarrow> elector \<Rightarrow> elector option" where
  "defer_to who s =
    do { ceph_assert (if el_strategy s = CLASSIC then who < get_my_rank s else who \<notin> el_disallowed_leaders s);
         let s = (if el_electing_me s then s\<lparr>el_acked_me := {}, el_electing_me := False\<rparr> else s);
         Some (elector_defer_to who (s\<lparr>el_leader_acked := who\<rparr>)) }"

definition declare_victory :: "elector \<Rightarrow> elector option" where
  "declare_victory s =
    do { let s = s\<lparr>el_last_election_winner := get_my_rank s, el_last_voted_for := get_my_rank s\<rparr>;
         let s = clear_live_election_state s;
         let new_quorum = el_acked_me s;
         let s = s\<lparr>el_acked_me := {}\<rparr>;
         ceph_assert (odd (el_epoch s));
         s \<leftarrow> bump_epoch (el_epoch s + 1) s;
         message_victory new_quorum s }"

text \<open>The timer has fired: its event is gone.\<close>

definition end_election_period :: "elector \<Rightarrow> elector option" where
  "end_election_period s =
    (let s = s\<lparr>el_expire_event := False\<rparr> in
     if el_electing_me s \<and> paxos_size s div 2 < card (el_acked_me s) then declare_victory s
     else if el_has_ever_joined s then start s
     else bootstrap s)"

section \<open>Proposals by rank\<close>

definition propose_classic_prefix :: "int \<Rightarrow> nat \<Rightarrow> elector \<Rightarrow> (bool \<times> elector) option" where
  "propose_classic_prefix from mepoch s =
    (if el_epoch s < mepoch then do { s \<leftarrow> bump_epoch mepoch s; Some (False, s) }
     else if mepoch < el_epoch s then
       (if even (el_epoch s) \<and> from \<notin> el_quorum s then do { s \<leftarrow> start_election s; Some (True, s) }
        else Some (True, s))
     else Some (False, s))"

definition propose_disallow_handler :: "int \<Rightarrow> nat \<Rightarrow> elector \<Rightarrow> elector option" where
  "propose_disallow_handler from mepoch s =
    do { (drop_it, s) \<leftarrow> propose_classic_prefix from mepoch s;
         if drop_it then Some s
         else do {
           let my_rank = get_my_rank s;
           let me_disallowed = my_rank \<in> el_disallowed_leaders s;
           let from_disallowed = from \<in> el_disallowed_leaders s;
           let my_win = (\<not> me_disallowed \<and> (my_rank < from \<or> from_disallowed));
           let their_win = (\<not> from_disallowed \<and> (from < my_rank \<or> me_disallowed) \<and>
                            (el_leader_acked s < 0 \<or> from \<le> el_leader_acked s));
           if my_win then
             (if 0 \<le> el_leader_acked s
              then do { ceph_assert (el_leader_acked s < from \<or> from_disallowed); Some s }
              else if \<not> el_electing_me s then start_election s else Some s)
           else if their_win then defer_to from s else Some s } }"

definition propose_classic_handler :: "int \<Rightarrow> nat \<Rightarrow> elector \<Rightarrow> elector option" where
  "propose_classic_handler from mepoch s =
    do { (drop_it, s) \<leftarrow> propose_classic_prefix from mepoch s;
         if drop_it then Some s
         else if get_my_rank s < from then
           (if 0 \<le> el_leader_acked s then do { ceph_assert (el_leader_acked s < from); Some s }
            else if \<not> el_electing_me s then start_election s else Some s)
         else if el_leader_acked s < 0 \<or> from < el_leader_acked s \<or> el_leader_acked s = from
         then defer_to from s else Some s }"

section \<open>Proposals by connectivity\<close>

definition connectivity_election_score :: "int \<Rightarrow> elector \<Rightarrow> rat option" where
  "connectivity_election_score rank s =
    (if rank \<in> el_disallowed_leaders s then Some (- 1)
     else map_option fst (get_total_connection_score
            (case el_stable_tracker s of Some t \<Rightarrow> t | None \<Rightarrow> el_tracker s) rank))"

definition connectivity_bump_epoch_in_election :: "nat \<Rightarrow> elector \<Rightarrow> elector option" where
  "connectivity_bump_epoch_in_election mepoch s =
    do { ceph_assert (el_epoch s < mepoch);
         s \<leftarrow> bump_epoch mepoch s;
         let s = reset_stable_tracker s;
         my_score \<leftarrow> connectivity_election_score (get_my_rank s) s;
         lscore \<leftarrow> connectivity_election_score (el_leader_acked s) s;
         Some (if lscore < my_score then s\<lparr>el_leader_acked := - 1, el_leader_tracker := None\<rparr> else s) }"

text \<open>The loop over the ranks that finds the best score and the score of the last vote.\<close>

fun best_scorer :: "int list \<Rightarrow> elector \<Rightarrow> int \<Rightarrow> rat \<Rightarrow> rat \<Rightarrow> (int \<times> rat \<times> rat) option" where
  "best_scorer [] s best best_score last_score = Some (best, best_score, last_score)"
| "best_scorer (i # is) s best best_score last_score =
    do { score \<leftarrow> connectivity_election_score i s;
         let (best, best_score) = (if best_score < score then (i, score) else (best, best_score));
         best_scorer is s best best_score
           (if 0 \<le> el_last_voted_for s \<and> i = el_last_voted_for s then score else last_score) }"

definition propose_changes_vote :: "elector \<Rightarrow> bool option" where
  "propose_changes_vote s =
    do { (best, best_score, last_score) \<leftarrow> best_scorer (map int [0..<paxos_size s]) s 0 0 0;
         Some (\<not> (best = el_last_voted_for s \<or>
                   best_score - last_score < cf_ignore_propose_margin (el_cfg s))) }"

text \<open>Whether \<open>a\<close> with score \<open>sa\<close> is preferred to \<open>b\<close> with score \<open>sb\<close>.\<close>

definition outscores :: "int \<Rightarrow> rat \<Rightarrow> int \<Rightarrow> rat \<Rightarrow> bool" where
  "outscores a sa b sb \<longleftrightarrow> a < b \<and> sb \<le> sa \<or> sb < sa"

definition defer_with_tracker :: "int \<Rightarrow> encoded_tracker option \<Rightarrow> elector \<Rightarrow> elector option" where
  "defer_with_tracker from ct s =
    do { s \<leftarrow> defer_to from s;
         bl \<leftarrow> ct;
         Some (s\<lparr>el_leader_tracker := Some (copy_tracker (ct_decode bl (new_tracker (- 1) 0)))\<rparr>) }"

definition defer_or_disagree :: "int \<Rightarrow> encoded_tracker option \<Rightarrow> elector \<Rightarrow> elector option" where
  "defer_or_disagree from ct s =
    (if 0 \<le> el_leader_acked s \<and> from \<noteq> el_leader_acked s then
       do { let leader = el_leader_acked s;
            lt \<leftarrow> el_leader_tracker s;
            (leader_from_score, _) \<leftarrow> get_total_connection_score lt from;
            (leader_leader_score, _) \<leftarrow> get_total_connection_score lt leader;
            if outscores from leader_from_score leader leader_leader_score then defer_with_tracker from ct s
            else do {
              (cur_leader_score, _) \<leftarrow> get_total_connection_score (el_tracker s) leader;
              (cur_from_score, _) \<leftarrow> get_total_connection_score (el_tracker s) from;
              if outscores from cur_from_score leader cur_leader_score
              then do { s \<leftarrow> bump_epoch (el_epoch s + 1) s; start s }
              else Some s } }
     else defer_with_tracker from ct s)"

definition connectivity_vote :: "int \<Rightarrow> encoded_tracker option \<Rightarrow> elector \<Rightarrow> elector option" where
  "connectivity_vote from ct s =
    do { let my_rank = get_my_rank s;
         my_score \<leftarrow> connectivity_election_score my_rank s;
         from_score \<leftarrow> connectivity_election_score from s;
         leader_score \<leftarrow> (if 0 \<le> el_leader_acked s then connectivity_election_score (el_leader_acked s) s else Some (- 1));
         let my_win = (0 \<le> my_score \<and> (my_rank < from \<and> from_score \<le> my_score \<or> from_score < my_score));
         let their_win = (0 \<le> from_score \<and> (from < my_rank \<and> my_score \<le> from_score \<or> my_score < from_score) \<and>
                          (from \<le> el_leader_acked s \<and> leader_score \<le> from_score \<or> leader_score < from_score));
         if my_win then
           (if 0 \<le> el_leader_acked s then do { ceph_assert (from_score \<le> leader_score); Some s }
            else if \<not> el_electing_me s then start_election s else Some s)
         else if their_win \<or> from = el_leader_acked s then defer_or_disagree from ct s
         else Some s }"

definition propose_connectivity_handler :: "int \<Rightarrow> nat \<Rightarrow> encoded_tracker option \<Rightarrow> elector \<Rightarrow> elector option" where
  "propose_connectivity_handler from mepoch ct s =
    do { consider \<leftarrow> (if even (el_epoch s) \<and> el_last_election_winner s \<noteq> get_my_rank s \<and> from \<notin> el_quorum s
                       then propose_changes_vote s else Some True);
         if \<not> consider then Some s
         else if el_epoch s < mepoch
         then do { s \<leftarrow> connectivity_bump_epoch_in_election mepoch s; connectivity_vote from ct s }
         else if mepoch < el_epoch s
         then (if even (el_epoch s) \<and> from \<notin> el_quorum s then start_election s else Some s)
         else connectivity_vote from ct s }"

definition receive_propose :: "int \<Rightarrow> nat \<Rightarrow> encoded_tracker option \<Rightarrow> elector \<Rightarrow> elector option" where
  "receive_propose from mepoch ct s =
    (if from = get_my_rank s then Some s
     else case el_strategy s of
            CLASSIC \<Rightarrow> propose_classic_handler from mepoch s
          | DISALLOW \<Rightarrow> propose_disallow_handler from mepoch s
          | CONNECTIVITY \<Rightarrow> propose_connectivity_handler from mepoch ct s)"

section \<open>Acknowledgements and victories\<close>

definition receive_ack :: "int \<Rightarrow> nat \<Rightarrow> elector \<Rightarrow> elector option" where
  "receive_ack from from_epoch s =
    do { ceph_assert (odd from_epoch);
         if el_epoch s < from_epoch then do { s \<leftarrow> bump_epoch from_epoch s; start s }
         else if el_electing_me s then
           do { let s = s\<lparr>el_acked_me := insert from (el_acked_me s)\<rparr>;
                if card (el_acked_me s) = paxos_size s then declare_victory s else Some s }
         else do { ceph_assert (0 \<le> el_leader_acked s); Some s } }"

definition victory_makes_sense :: "int \<Rightarrow> elector \<Rightarrow> bool option" where
  "victory_makes_sense from s =
    (case el_strategy s of
       CLASSIC \<Rightarrow> Some (from < get_my_rank s)
     | DISALLOW \<Rightarrow> Some (from < get_my_rank s \<or> get_my_rank s \<in> el_disallowed_leaders s)
     | CONNECTIVITY \<Rightarrow> do { my_score \<leftarrow> connectivity_election_score (get_my_rank s) s;
                             leader_score \<leftarrow> connectivity_election_score from s;
                             Some (my_score \<le> leader_score) })"

definition receive_victory_claim :: "int \<Rightarrow> nat \<Rightarrow> elector \<Rightarrow> (bool \<times> elector) option" where
  "receive_victory_claim from from_epoch s =
    do { election_okay \<leftarrow> victory_makes_sense from s;
         let s = clear_live_election_state (s\<lparr>el_last_election_winner := from, el_last_voted_for := el_leader_acked s\<rparr>);
         if \<not> election_okay
         then do { ceph_assert (el_strategy s = CONNECTIVITY);
                   s \<leftarrow> bump_epoch from_epoch s; s \<leftarrow> start s; Some (False, s) }
         else if from_epoch \<noteq> el_epoch s + 1
         then do { s \<leftarrow> bump_epoch from_epoch s; s \<leftarrow> start s; Some (False, s) }
         else do { s \<leftarrow> bump_epoch from_epoch s; Some (True, s) } }"

section \<open>What the operations change\<close>

text \<open>
  The operations in closed form: the new values of the fields, with the contents of the trackers left
  open.  A message that is sent to several peers is the same for all of them.
\<close>

definition election_from :: "elector \<Rightarrow> election_op \<Rightarrow> nat \<Rightarrow> election_msg \<Rightarrow> bool" where
  "election_from s op e m \<longleftrightarrow> em_from m = get_my_rank s \<and> em_op m = op \<and> em_epoch m = e
    \<and> em_strategy m = el_strategy s \<and> em_con_features m = cf_features_all (el_cfg s)"

definition full_features :: "elector \<Rightarrow> election_msg \<Rightarrow> bool" where
  "full_features s m \<longleftrightarrow> em_mon_features m = cf_supported (el_cfg s) \<and> em_mon_release m = cf_release (el_cfg s)"

definition peers :: "elector \<Rightarrow> int list" where
  "peers s = filter (\<lambda>i. i \<noteq> get_my_rank s) (map int [0..<paxos_size s])"

lemma get_encoded_bl_again [simp]: "get_encoded_bl (snd (get_encoded_bl t)) = get_encoded_bl t"
  by (auto simp: get_encoded_bl_def split: option.split)

lemma encoded_scores_eq: "encoded_scores s = (fst (get_encoded_bl (el_tracker s)), s\<lparr>el_tracker := snd (get_encoded_bl (el_tracker s))\<rparr>)"
  by (simp add: encoded_scores_def split: prod.split)

lemma send_election_eq:
  "send_election op e f i s = s\<lparr>el_tracker := snd (get_encoded_bl (el_tracker s)),
     el_outbox := el_outbox s @ [(i, Election (f (fst (new_election_msg op e s))))]\<rparr>"
  by (simp add: send_election_def new_election_msg_def encoded_scores_eq send_mon_message_def)

lemma new_election_msg_from: "election_from s op e (fst (new_election_msg op e s))"
  by (simp add: new_election_msg_def encoded_scores_eq election_from_def)

lemma new_election_msg_cong:
  "fst (new_election_msg op e (s\<lparr>el_tracker := snd (get_encoded_bl (el_tracker s)), el_outbox := xs\<rparr>)) = fst (new_election_msg op e s)"
  by (simp add: new_election_msg_def encoded_scores_eq)

lemma fold_send:
  assumes "\<And>s t xs. g (s\<lparr>el_tracker := t, el_outbox := xs\<rparr>) = g s" "\<And>s t xs. h (s\<lparr>el_tracker := t, el_outbox := xs\<rparr>) = h s"
  shows "\<exists>t. fold (\<lambda>i s. if i = get_my_rank s then s else send_election op (h s) (g s) i s) is s =
    s\<lparr>el_tracker := t, el_outbox := el_outbox s
       @ map (\<lambda>i. (i, Election (g s (fst (new_election_msg op (h s) s))))) (filter (\<lambda>i. i \<noteq> get_my_rank s) is)\<rparr>"
proof (induction "is" arbitrary: s)
  case Nil
  show ?case by (rule exI[of _ "el_tracker s"]) simp
next
  case (Cons i "is")
  show ?case
  proof (cases "i = get_my_rank s")
    case True
    then show ?thesis using Cons[of s] by simp
  next
    case False
    then show ?thesis
      using Cons[of "send_election op (h s) (g s) i s"]
      by (auto simp: send_election_eq new_election_msg_cong assms)
  qed
qed

lemma propose_to_peers_eq:
  "\<exists>t m. propose_to_peers e bl s = s\<lparr>el_tracker := t, el_outbox := el_outbox s @ map (\<lambda>i. (i, Election m)) (peers s)\<rparr>
     \<and> election_from s OP_PROPOSE e m \<and> full_features s m \<and> em_sharing m = bl"
proof -
  let ?g = "\<lambda>s m. m\<lparr>em_sharing := bl, em_mon_features := cf_supported (el_cfg s), em_mon_release := cf_release (el_cfg s)\<rparr>"
  obtain t where "propose_to_peers e bl s = s\<lparr>el_tracker := t, el_outbox := el_outbox s
       @ map (\<lambda>i. (i, Election (?g s (fst (new_election_msg OP_PROPOSE e s))))) (peers s)\<rparr>"
    using fold_send[of ?g "\<lambda>_. e" OP_PROPOSE "map int [0..<paxos_size s]" s] by (auto simp: propose_to_peers_def peers_def)
  then show ?thesis using new_election_msg_from[of s OP_PROPOSE e]
    by (intro exI[of _ t] exI[of _ "?g s (fst (new_election_msg OP_PROPOSE e s))"]) (simp add: election_from_def full_features_def)
qed

lemma persist_epoch_eq:
  "\<exists>t sc. persist_epoch e s = s\<lparr>el_store_epoch := e, el_store_scores := sc, el_tracker := t\<rparr>"
  by (rule exI[of _ "snd (get_encoded_bl (el_tracker s))"], rule exI[of _ "Some (fst (get_encoded_bl (el_tracker s)))"])
    (simp add: persist_epoch_def encoded_scores_eq)

lemma bump_epoch_eq:
  assumes "el_epoch s \<le> e"
  shows "\<exists>t sc. bump_epoch e s = Some (s\<lparr>el_epoch := e, el_tracker := t, el_store_epoch := e, el_store_scores := sc,
    el_electing_me := False, el_acked_me := {}, el_quorum := {}, el_state := STATE_ELECTING\<rparr>)"
proof -
  let ?s = "s\<lparr>el_epoch := e, el_tracker := snd (increase_epoch e (el_tracker s))\<rparr>"
  obtain t sc where "persist_epoch e ?s = ?s\<lparr>el_store_epoch := e, el_store_scores := sc, el_tracker := t\<rparr>"
    using persist_epoch_eq by blast
  then show ?thesis using assms by (intro exI[of _ t] exI[of _ sc]) (simp add: bump_epoch_def join_election_def mon_reset_def)
qed

text \<open>The epoch of the next election, from the epoch in the store; the first one is not written.\<close>

definition next_epoch :: "nat \<Rightarrow> nat" where
  "next_epoch e = (if e = 0 then 1 else if odd e then e + 2 else e + 1)"

lemma odd_next_epoch [simp]: "odd (next_epoch e)"
  by (simp add: next_epoch_def)

lemma next_epoch_pos: "e \<noteq> 0 \<Longrightarrow> e < next_epoch e"
  by (simp add: next_epoch_def)

lemma init_bump_eq:
  fixes s defines "E \<equiv> next_epoch (el_store_epoch s)"
  shows "\<exists>t sc. (if even (el_epoch (init s)) then bump_epoch (el_epoch (init s) + 1) (init s) else Some (init s)) =
    Some (s\<lparr>el_tracker := t, el_store_scores := sc, el_epoch := E,
      el_electing_me := (el_store_epoch s = 0 \<and> el_electing_me s),
      el_acked_me := (if el_store_epoch s = 0 then el_acked_me s else {}),
      el_store_epoch := (if el_store_epoch s = 0 then 0 else E),
      el_quorum := (if el_store_epoch s = 0 then el_quorum s else {}),
      el_state := (if el_store_epoch s = 0 then el_state s else STATE_ELECTING)\<rparr>)"
proof (cases "el_store_epoch s = 0")
  case True
  then show ?thesis by (intro exI[of _ "el_tracker s"] exI[of _ "el_store_scores s"]) (simp add: init_def E_def next_epoch_def)
next
  case False
  obtain t sc where i: "init s = s\<lparr>el_epoch := E - 1, el_store_epoch := E - 1, el_store_scores := sc, el_tracker := t\<rparr>"
  proof (cases "odd (el_store_epoch s)")
    case True
    obtain t sc where "persist_epoch (el_store_epoch s + 1) (s\<lparr>el_epoch := el_store_epoch s + 1\<rparr>) =
      (s\<lparr>el_epoch := el_store_epoch s + 1\<rparr>)\<lparr>el_store_epoch := el_store_epoch s + 1, el_store_scores := sc, el_tracker := t\<rparr>"
      using persist_epoch_eq by blast
    then show ?thesis using False True by (intro that[of t sc]) (simp add: init_def E_def next_epoch_def Let_def)
  next
    case ev: False
    show ?thesis using False ev by (intro that[of "el_tracker s" "el_store_scores s"]) (simp add: init_def E_def next_epoch_def)
  qed
  then have e: "el_epoch (init s) + 1 = E" "even (el_epoch (init s))"
    using False by (simp_all add: E_def next_epoch_def)
  obtain t' sc' where "bump_epoch E (init s) = Some ((init s)\<lparr>el_epoch := E, el_tracker := t', el_store_epoch := E,
      el_store_scores := sc', el_electing_me := False, el_acked_me := {}, el_quorum := {}, el_state := STATE_ELECTING\<rparr>)"
    using bump_epoch_eq[of "init s" E] e by auto
  then show ?thesis using False by (intro exI[of _ t'] exI[of _ sc']) (simp only: e if_True, simp add: i)
qed

text \<open>The state after the start of an election.\<close>

definition started :: "elector \<Rightarrow> elector \<Rightarrow> bool" where
  "started s s' \<longleftrightarrow> (let E = next_epoch (el_store_epoch s) in
    \<exists>t sc st m. s' = s\<lparr>el_tracker := t, el_store_scores := sc, el_stable_tracker := st, el_leader_tracker := None,
      el_epoch := E, el_store_epoch := (if el_store_epoch s = 0 then 0 else E),
      el_quorum := (if el_store_epoch s = 0 then el_quorum s else {}),
      el_state := (if el_store_epoch s = 0 then el_state s else STATE_ELECTING),
      el_leader_acked := - 1, el_electing_me := True, el_acked_me := {get_my_rank s},
      el_peer_info := [(get_my_rank s, \<lparr>cluster_features = cf_features_all (el_cfg s), mon_features = cf_supported (el_cfg s),
                                        mon_release = cf_release (el_cfg s)\<rparr>)],
      el_expire_event := True, el_outbox := el_outbox s @ map (\<lambda>i. (i, Election m)) (peers s)\<rparr>
    \<and> election_from s OP_PROPOSE E m \<and> full_features s m)"

lemma start_eq:
  fixes s defines "E \<equiv> next_epoch (el_store_epoch s)"
  assumes "el_participating s"
  shows "\<exists>s'. start s = Some s' \<and> started s s'"
proof -
  let ?s = "s\<lparr>el_acked_me := {}\<rparr>"
  obtain t sc where "(if even (el_epoch (init ?s)) then bump_epoch (el_epoch (init ?s) + 1) (init ?s) else Some (init ?s)) =
    Some (s\<lparr>el_tracker := t, el_store_scores := sc, el_epoch := E, el_electing_me := (el_store_epoch s = 0 \<and> el_electing_me s),
      el_acked_me := {}, el_store_epoch := (if el_store_epoch s = 0 then 0 else E),
      el_quorum := (if el_store_epoch s = 0 then el_quorum s else {}),
      el_state := (if el_store_epoch s = 0 then el_state s else STATE_ELECTING)\<rparr>)" (is "?bump = Some ?r")
    using init_bump_eq[of ?s] by (auto simp: E_def cong: if_cong)
  moreover define r where "r = ?r"
  ultimately have 1: "?bump = Some r" by simp
  define u where "u = (reset_stable_tracker (clear_live_election_state (r\<lparr>el_acked_me := insert (get_my_rank r) (el_acked_me r)\<rparr>)))
    \<lparr>el_electing_me := True\<rparr>"
  define bl where "bl = (if el_strategy u = CONNECTIVITY then map_option ct_encode (el_stable_tracker u) else None)"
  have E: "el_epoch u = E" by (simp add: u_def r_def clear_live_election_state_def reset_stable_tracker_def)
  have 2: "start s = Some (elector_start (propose_to_peers E bl u))"
    using assms(2) by (simp only: start_def 1 E bind.bind_lunit Let_def not_True_eq_False if_False flip: u_def bl_def)
  obtain t' m where "propose_to_peers E bl u = u\<lparr>el_tracker := t', el_outbox := el_outbox u @ map (\<lambda>i. (i, Election m)) (peers u)\<rparr>"
    "election_from u OP_PROPOSE E m" "full_features u m" using propose_to_peers_eq by blast
  then show ?thesis unfolding 2 started_def Let_def option.inject E_def[symmetric]
    by (intro exI[of _ "elector_start (propose_to_peers E bl u)"] conjI refl exI[of _ t'] exI[of _ sc] exI[of _ "Some (copy_tracker t)"] exI[of _ m])
      (simp_all add: elector_start_def u_def r_def election_from_def full_features_def peers_def
        clear_live_election_state_def reset_stable_tracker_def)
qed

text \<open>The state after an acknowledgement was sent to \<open>who\<close>.\<close>

lemma defer_to_eq:
  assumes "if el_strategy s = CLASSIC then who < get_my_rank s else who \<notin> el_disallowed_leaders s"
    "el_electing_me s \<or> el_acked_me s = {}"
  shows "\<exists>t m. defer_to who s = Some (s\<lparr>el_tracker := t, el_electing_me := False, el_acked_me := {}, el_leader_acked := who,
      el_expire_event := True, el_outbox := el_outbox s @ [(who, Election m)]\<rparr>)
    \<and> election_from s OP_ACK (el_epoch s) m \<and> full_features s m"
proof -
  define u where "u = (if el_electing_me s then s\<lparr>el_acked_me := {}, el_electing_me := False\<rparr> else s)\<lparr>el_leader_acked := who\<rparr>"
  have u: "u = s\<lparr>el_electing_me := False, el_acked_me := {}, el_leader_acked := who\<rparr>"
    using assms(2) by (auto simp: u_def intro!: elector.equality)
  let ?m = "(fst (new_election_msg OP_ACK (el_epoch u) u))\<lparr>em_mon_features := cf_supported (el_cfg u), em_mon_release := cf_release (el_cfg u)\<rparr>"
  have "defer_to who s = Some (elector_defer_to who u)" using assms(1) by (simp add: defer_to_def u_def)
  then show ?thesis using new_election_msg_from[of u OP_ACK "el_epoch u"]
    by (intro exI[of _ "snd (get_encoded_bl (el_tracker u))"] exI[of _ ?m])
      (simp add: elector_defer_to_def send_election_eq u election_from_def full_features_def)
qed

lemma quorum_info_total: "set is \<subseteq> fst ` set infos \<Longrightarrow> \<exists>cf mf rel'. quorum_info infos is c mfs rel = Some (cf, mf, rel')"
proof (induction infos "is" c mfs rel rule: quorum_info.induct)
  case (2 infos i "is" cf mf rel)
  then obtain info where "map_of infos i = Some info" by (cases "map_of infos i") (auto simp: map_of_eq_None_iff)
  then show ?case using 2 by simp
qed simp

lemma message_victory_eq:
  assumes "el_state s = STATE_ELECTING" "quorum \<subseteq> fst ` set (el_peer_info s)" "finite quorum"
  shows "\<exists>t m cf mf rel. message_victory quorum s = Some (s\<lparr>el_tracker := t, el_expire_event := False,
      el_outbox := el_outbox s @ map (\<lambda>i. (i, Election m)) (filter (\<lambda>i. i \<noteq> get_my_rank s) (sorted_list_of_set quorum)),
      el_state := STATE_LEADER, el_leader := get_my_rank s, el_quorum := quorum,
      el_quorum_con_features := cf, el_quorum_mon_features := mf, el_quorum_min_release := rel\<rparr>)
    \<and> election_from s OP_VICTORY (el_epoch s) m \<and> em_quorum m = quorum"
proof -
  obtain cf mf rel where q: "quorum_info (el_peer_info s) (sorted_list_of_set quorum) (cf_features_all (el_cfg s))
      (cf_supported (el_cfg s)) 0 = Some (cf, mf, rel)"
    using quorum_info_total[of "sorted_list_of_set quorum" "el_peer_info s"] assms(2,3) by (metis set_sorted_list_of_set)
  let ?g = "\<lambda>s m. m\<lparr>em_quorum := quorum, em_quorum_features := cf, em_mon_features := mf, em_mon_release := rel\<rparr>"
  define u where "u = s\<lparr>el_expire_event := False\<rparr>"
  obtain t where f: "fold (\<lambda>p s. if p = get_my_rank s then s else send_election OP_VICTORY (el_epoch s) (?g s) p s)
      (sorted_list_of_set quorum) u = u\<lparr>el_tracker := t, el_outbox := el_outbox u
       @ map (\<lambda>i. (i, Election (?g u (fst (new_election_msg OP_VICTORY (el_epoch u) u)))))
           (filter (\<lambda>i. i \<noteq> get_my_rank u) (sorted_list_of_set quorum))\<rparr>"
    using fold_send[of ?g el_epoch OP_VICTORY "sorted_list_of_set quorum" u] by auto
  show ?thesis using new_election_msg_from[of u OP_VICTORY "el_epoch u"] assms(1) f[unfolded u_def]
    by (intro exI[of _ t] exI[of _ "?g u (fst (new_election_msg OP_VICTORY (el_epoch u) u))"] exI[of _ cf] exI[of _ mf] exI[of _ rel])
      (simp add: message_victory_def q win_election_def u_def election_from_def)
qed

text \<open>The state after an election was won.\<close>

lemma declare_victory_eq:
  assumes "odd (el_epoch s)" "el_acked_me s \<subseteq> fst ` set (el_peer_info s)"
  shows "\<exists>t sc st m cf mf rel. declare_victory s = Some (s\<lparr>el_tracker := t, el_store_scores := sc, el_stable_tracker := st,
      el_leader_tracker := None, el_last_election_winner := get_my_rank s, el_last_voted_for := get_my_rank s,
      el_leader_acked := - 1, el_electing_me := False, el_acked_me := {}, el_epoch := el_epoch s + 1,
      el_store_epoch := el_epoch s + 1, el_expire_event := False,
      el_outbox := el_outbox s @ map (\<lambda>i. (i, Election m)) (filter (\<lambda>i. i \<noteq> get_my_rank s) (sorted_list_of_set (el_acked_me s))),
      el_state := STATE_LEADER, el_leader := get_my_rank s, el_quorum := el_acked_me s,
      el_quorum_con_features := cf, el_quorum_mon_features := mf, el_quorum_min_release := rel\<rparr>)
    \<and> election_from s OP_VICTORY (el_epoch s + 1) m \<and> em_quorum m = el_acked_me s"
proof -
  define u where "u = s\<lparr>el_last_election_winner := get_my_rank s, el_last_voted_for := get_my_rank s, el_leader_acked := - 1,
    el_electing_me := False, el_stable_tracker := Some (copy_tracker (el_tracker s)), el_leader_tracker := None, el_acked_me := {}\<rparr>"
  obtain t sc where b: "bump_epoch (el_epoch s + 1) u = Some (u\<lparr>el_epoch := el_epoch s + 1, el_tracker := t,
      el_store_epoch := el_epoch s + 1, el_store_scores := sc, el_electing_me := False, el_acked_me := {}, el_quorum := {},
      el_state := STATE_ELECTING\<rparr>)" (is "_ = Some ?v")
    using bump_epoch_eq[of u "el_epoch s + 1"] by (auto simp: u_def)
  define v where "v = ?v"
  have "finite (el_acked_me s)" using assms(2) finite_subset by blast
  then obtain t' m cf mf rel where w: "message_victory (el_acked_me s) v = Some (v\<lparr>el_tracker := t', el_expire_event := False,
      el_outbox := el_outbox v @ map (\<lambda>i. (i, Election m)) (filter (\<lambda>i. i \<noteq> get_my_rank v) (sorted_list_of_set (el_acked_me s))),
      el_state := STATE_LEADER, el_leader := get_my_rank v, el_quorum := el_acked_me s,
      el_quorum_con_features := cf, el_quorum_mon_features := mf, el_quorum_min_release := rel\<rparr>)"
    "election_from v OP_VICTORY (el_epoch v) m" "em_quorum m = el_acked_me s"
    using message_victory_eq[of v "el_acked_me s"] assms(2) by (auto simp: v_def u_def)
  have "declare_victory s = message_victory (el_acked_me s) v"
    using assms(1) b by (simp add: declare_victory_def clear_live_election_state_def reset_stable_tracker_def u_def v_def)
  then show ?thesis using w
    by (intro exI[of _ t'] exI[of _ sc] exI[of _ "Some (copy_tracker (el_tracker s))"] exI[of _ m] exI[of _ cf] exI[of _ mf] exI[of _ rel])
      (simp add: v_def u_def election_from_def)
qed

end
