(* ===== verification/Elector.thy ===== *)
theory Elector
  imports Election_Logic
begin

unbundle bit_operations_syntax

text \<open>
  The message handlers of a monitor's elector and its pings to the other monitors (\<open>mon/Elector.cc\<close>),
  and the commands by which a monitor enters, leaves and restarts (\<open>mon/Monitor.cc\<close>).  The current time
  is an argument; a timer event is an entry of \<open>el_contexts\<close>.  \<open>exit(0)\<close> is the state
  \<^term>\<open>STATE_SHUTDOWN\<close>.
\<close>

section \<open>Pings\<close>

definition FEATURE_PINGING :: features where
  "FEATURE_PINGING = push_bit 7 1"

definition contains_all :: "features \<Rightarrow> features \<Rightarrow> bool" where
  "contains_all f other \<longleftrightarrow> f AND other = other"

text \<open>
  The tracker asks its owner to write the scores when the version is a multiple of the interval
  (the end of \<open>ConnectionTracker::increase_version\<close>).
\<close>

definition update_scores :: "(connection_tracker \<Rightarrow> connection_tracker) \<Rightarrow> elector \<Rightarrow> elector" where
  "update_scores f s =
    (let s = s\<lparr>el_tracker := f (el_tracker s)\<rparr> in
     if ct_version (el_tracker s) mod cf_persist_interval (el_cfg s) = 0 then persist_connectivity_scores s else s)"

definition send_ping :: "bool \<Rightarrow> rat \<Rightarrow> int \<Rightarrow> elector \<Rightarrow> elector" where
  "send_ping reply stamp peer s =
    (case encoded_scores s of (bl, s) \<Rightarrow>
      send_mon_message (Ping \<lparr>pm_from = get_my_rank s, pm_reply = reply, pm_stamp = stamp, pm_scoring = bl\<rparr>) peer s)"

definition send_peer_ping :: "int \<Rightarrow> rat \<Rightarrow> elector \<Rightarrow> elector" where
  "send_peer_ping peer now s =
    (let s = send_ping False now peer s in s\<lparr>el_sent_ping := map_put (el_sent_ping s) peer now\<rparr>)"

definition add_event :: "ping_context \<Rightarrow> elector \<Rightarrow> elector" where
  "add_event c s = s\<lparr>el_contexts := el_contexts s @ [c]\<rparr>"

definition begin_peer_ping :: "rat \<Rightarrow> int \<Rightarrow> elector \<Rightarrow> elector" where
  "begin_peer_ping now peer s =
    (if peer \<in> el_live_pinging s then s
     else if \<not> contains_all (el_quorum_mon_features s) FEATURE_PINGING then s
     else let s = update_scores (report_live_connection peer 0) s;
              s = s\<lparr>el_live_pinging := insert peer (el_live_pinging s), el_dead_pinging := el_dead_pinging s - {peer},
                    el_acked_ping := map_put (el_acked_ping s) peer now\<rparr>
          in add_event (Ping_check peer) (send_peer_ping peer now s))"

definition begin_dead_ping :: "int \<Rightarrow> elector \<Rightarrow> elector" where
  "begin_dead_ping peer s =
    (if peer \<in> el_dead_pinging s then s
     else add_event (Dead_ping peer)
       (s\<lparr>el_live_pinging := el_live_pinging s - {peer}, el_dead_pinging := insert peer (el_dead_pinging s)\<rparr>))"

text \<open>The references into the two maps insert a zero time stamp for a new key.\<close>

definition ping_check :: "rat \<Rightarrow> int \<Rightarrow> elector \<Rightarrow> elector" where
  "ping_check now peer s =
    (if int (paxos_size s) \<le> peer then s\<lparr>el_live_pinging := el_live_pinging s - {peer}\<rparr>
     else if peer \<notin> el_live_pinging s \<and> peer \<notin> el_dead_pinging s then s
     else case map_emplace (el_acked_ping s) peer 0 of (acked, acked_ping) \<Rightarrow>
          case map_emplace (el_sent_ping s) peer 0 of (sent, newest_ping) \<Rightarrow>
            let s = s\<lparr>el_acked_ping := acked, el_sent_ping := sent\<rparr> in
            if acked_ping \<noteq> 0 \<and> acked_ping < now - cf_ping_timeout (el_cfg s)
            then let s = update_scores (report_dead_connection peer (now - acked_ping)) s in
                 begin_dead_ping peer (s\<lparr>el_acked_ping := map_put (el_acked_ping s) peer now\<rparr>)
            else let s = (if acked_ping = newest_ping then send_peer_ping peer now s else s) in
                 add_event (Ping_check peer) s)"

definition dead_ping :: "rat \<Rightarrow> int \<Rightarrow> elector \<Rightarrow> elector option" where
  "dead_ping now peer s =
    (if peer \<notin> el_dead_pinging s then Some s
     else do { ceph_assert (peer \<notin> el_live_pinging s);
               let (acked, acked_ping) = map_emplace (el_acked_ping s) peer 0;
               let s = update_scores (report_dead_connection peer (now - acked_ping)) (s\<lparr>el_acked_ping := acked\<rparr>);
               Some (add_event (Dead_ping peer) (s\<lparr>el_acked_ping := map_put (el_acked_ping s) peer now\<rparr>)) })"

definition assimilate_connection_reports :: "encoded_tracker \<Rightarrow> elector \<Rightarrow> elector option" where
  "assimilate_connection_reports tbl s =
    do { t \<leftarrow> receive_peer_report (ct_decode tbl (new_tracker (- 1) 0)) (el_tracker s);
         Some (s\<lparr>el_tracker := t\<rparr>) }"

definition handle_ping_reply :: "rat \<Rightarrow> ping_msg \<Rightarrow> elector \<Rightarrow> elector" where
  "handle_ping_reply now m s =
    (let prank = pm_from m in
     case map_emplace (el_acked_ping s) prank 0 of (acked, previous_acked) \<Rightarrow>
     case map_emplace (el_sent_ping s) prank 0 of (sent, newest) \<Rightarrow>
       let s = s\<lparr>el_acked_ping := acked, el_sent_ping := sent\<rparr> in
       if newest < pm_stamp m \<and> newest \<noteq> 0 then s
       else let s = (if previous_acked < pm_stamp m
                     then let s = update_scores (report_live_connection prank (pm_stamp m - previous_acked)) s in
                          s\<lparr>el_acked_ping := map_put (el_acked_ping s) prank (pm_stamp m)\<rparr>
                     else s)
            in if cf_ping_timeout (el_cfg s) / cf_ping_divisor (el_cfg s) < now - pm_stamp m
               then send_peer_ping prank now s else s)"

definition handle_ping :: "rat \<Rightarrow> ping_msg \<Rightarrow> elector \<Rightarrow> elector option" where
  "handle_ping now m s =
    do { let s = begin_peer_ping now (pm_from m) s;
         s \<leftarrow> assimilate_connection_reports (pm_scoring m) s;
         Some (if pm_reply m then handle_ping_reply now m s else send_ping True (pm_stamp m) (pm_from m) s) }"

text \<open>A timer event of the pings fires.\<close>

fun run_context :: "rat \<Rightarrow> ping_context \<Rightarrow> elector \<Rightarrow> elector option" where
  "run_context now (Ping_check peer) s = Some (ping_check now peer s)"
| "run_context now (Dead_ping peer) s = dead_ping now peer s"

section \<open>Changes of the ranks\<close>

definition notify_clear_peer_state :: "elector \<Rightarrow> elector" where
  "notify_clear_peer_state s = s\<lparr>el_tracker := clear_peer_reports (el_tracker s)\<rparr>"

definition elector_rank_changed :: "int \<Rightarrow> elector \<Rightarrow> elector" where
  "elector_rank_changed new_rank s =
    s\<lparr>el_tracker := notify_rank_changed new_rank (el_tracker s),
      el_live_pinging := el_live_pinging s - {new_rank}, el_dead_pinging := el_dead_pinging s - {new_rank}\<rparr>"

text \<open>The loop over the ranks above the removed one.\<close>

fun move_pings :: "rat \<Rightarrow> int \<Rightarrow> int list \<Rightarrow> elector \<Rightarrow> elector" where
  "move_pings now rank_removed [] s = s"
| "move_pings now rank_removed (i # is) s =
    move_pings now rank_removed is
      (if i \<in> el_live_pinging s then
         let s = s\<lparr>el_dead_pinging := el_dead_pinging s - {i - 1}\<rparr>;
             s = (if i - 1 \<notin> el_live_pinging s then begin_peer_ping now (i - 1) s else s)
         in if i + 1 \<notin> el_live_pinging s then s\<lparr>el_live_pinging := el_live_pinging s - {i}\<rparr> else s
       else if i \<in> el_dead_pinging s then
         let s = s\<lparr>el_live_pinging := el_live_pinging s - {i - 1}\<rparr>;
             s = (if i - 1 \<notin> el_dead_pinging s then begin_dead_ping (i - 1) s else s)
         in if i + 1 \<notin> el_dead_pinging s then s\<lparr>el_dead_pinging := el_dead_pinging s - {i}\<rparr> else s
       else if i - 1 = rank_removed
       then s\<lparr>el_dead_pinging := el_dead_pinging s - {rank_removed}, el_live_pinging := el_live_pinging s - {rank_removed}\<rparr>
       else s)"

definition elector_rank_removed :: "rat \<Rightarrow> nat \<Rightarrow> elector \<Rightarrow> elector option" where
  "elector_rank_removed now rank_removed s =
    do { t \<leftarrow> notify_rank_removed (int rank_removed) (el_tracker s);
         let s = s\<lparr>el_tracker := t\<rparr>;
         Some (if rank_removed < paxos_size s
               then move_pings now (int rank_removed) (map int [rank_removed + 1..<paxos_size s + 1]) s
               else s\<lparr>el_live_pinging := el_live_pinging s - {int rank_removed},
                      el_dead_pinging := el_dead_pinging s - {int rank_removed}\<rparr>) }"

section \<open>Election messages\<close>

definition nak_old_peer :: "election_msg \<Rightarrow> elector \<Rightarrow> elector" where
  "nak_old_peer m s =
    send_election OP_NAK (em_epoch m)
      (\<lambda>r. r\<lparr>em_quorum_features := cf_required_features (el_cfg s), em_mon_features := cf_required_mon_features (el_cfg s),
             em_mon_release := cf_min_mon_release (el_cfg s)\<rparr>) (em_from m) s"

text \<open>The bits of \<open>required\<close> that \<open>has\<close> lacks.\<close>

definition lacks :: "features \<Rightarrow> features \<Rightarrow> bool" where
  "lacks has required \<longleftrightarrow> (required XOR has) AND required \<noteq> 0"

text \<open>The third refusal does not return: the proposal is answered with a refusal and then processed.\<close>

definition handle_propose :: "election_msg \<Rightarrow> elector \<Rightarrow> elector option" where
  "handle_propose m s =
    do { ceph_assert (odd (em_epoch m));
         if lacks (em_con_features m) (cf_required_features (el_cfg s)) then Some (nak_old_peer m s)
         else if em_mon_release m < cf_min_mon_release (el_cfg s) then Some (nak_old_peer m s)
         else receive_propose (em_from m) (em_epoch m) (em_sharing m)
                (if \<not> contains_all (em_mon_features m) (cf_required_mon_features (el_cfg s)) then nak_old_peer m s else s) }"

definition handle_ack :: "election_msg \<Rightarrow> elector \<Rightarrow> elector option" where
  "handle_ack m s =
    do { ceph_assert (em_epoch m = el_epoch s);
         if lacks (em_con_features m) (cf_required_features (el_cfg s)) then Some s
         else if \<not> contains_all (em_mon_features m) (cf_required_mon_features (el_cfg s)) then Some s
         else do {
           s \<leftarrow> (if el_electing_me s
                  then do { let infos = map_put (el_peer_info s) (em_from m)
                                          \<lparr>cluster_features = em_con_features m, mon_features = em_mon_features m,
                                           mon_release = em_mon_release m\<rparr>;
                            ceph_assert (el_acked_me s \<subseteq> set (map fst infos));
                            Some (s\<lparr>el_peer_info := infos\<rparr>) }
                  else Some s);
           receive_ack (em_from m) (em_epoch m) s } }"

definition handle_victory :: "election_msg \<Rightarrow> elector \<Rightarrow> elector option" where
  "handle_victory m s =
    do { (accept_victory, s) \<leftarrow> receive_victory_claim (em_from m) (em_epoch m) s;
         if \<not> accept_victory then Some s
         else do { let s = lose_election (em_quorum m) (em_from m) (em_quorum_features m) (em_mon_features m) (em_mon_release m) s;
                   Some (s\<lparr>el_expire_event := False\<rparr>) } }"

definition handle_nak :: "election_msg \<Rightarrow> elector \<Rightarrow> elector" where
  "handle_nak m s = s\<lparr>el_state := STATE_SHUTDOWN\<rparr>"

definition dispatch_election :: "rat \<Rightarrow> election_msg \<Rightarrow> elector \<Rightarrow> elector option" where
  "dispatch_election now m s =
    (if \<not> el_participating s then Some s
     else if int (paxos_size s) \<le> em_from m then Some s
     else if em_strategy m \<noteq> el_strategy s then Some s
     else do { s \<leftarrow> assimilate_connection_reports (em_scoring m) s;
               let s = begin_peer_ping now (em_from m) s;
               if em_op m = OP_PROPOSE then handle_propose m s
               else if em_epoch m < el_epoch s then Some s
               else case em_op m of
                      OP_ACK \<Rightarrow> handle_ack m s
                    | OP_VICTORY \<Rightarrow> handle_victory m s
                    | _ \<Rightarrow> Some (handle_nak m s) })"

text \<open>
  \<open>Monitor::dispatch_op\<close> for these messages: election messages are dropped while a monitor probes or
  synchronizes; a process that has ended receives nothing.
\<close>

definition dispatch :: "rat \<Rightarrow> message \<Rightarrow> elector \<Rightarrow> elector option" where
  "dispatch now msg s =
    (if el_state s = STATE_SHUTDOWN then Some s
     else case msg of
            Election m \<Rightarrow> if el_state s = STATE_PROBING \<or> el_state s = STATE_SYNCHRONIZING then Some s
                          else dispatch_election now m s
          | Ping m \<Rightarrow> handle_ping now m s)"

section \<open>Commands\<close>

definition quorum_enter :: "elector \<Rightarrow> elector option" where
  "quorum_enter s = start_election (s\<lparr>el_participating := True\<rparr>)"

definition quorum_exit :: "elector \<Rightarrow> elector option" where
  "quorum_exit s = do { s \<leftarrow> start_election s; Some (s\<lparr>el_participating := False\<rparr>) }"

text \<open>
  A new process on the same store: the tracker is created for the unknown rank -1, then the stored
  scores are read; \<open>Monitor::bootstrap\<close> finds the rank and tells the elector.
\<close>

definition new_elector :: "mon_config \<Rightarrow> election_strategy \<Rightarrow> int set \<Rightarrow> bool \<Rightarrow> nat \<Rightarrow> encoded_tracker option \<Rightarrow> elector" where
  "new_elector cfg strategy disallowed joined store_epoch scores =
    (let t = new_tracker (- 1) (cf_half_life cfg) in
     \<lparr>el_cfg = cfg, el_state = STATE_INIT, el_leader = 0, el_quorum = {}, el_quorum_con_features = 0,
      el_quorum_mon_features = 0, el_quorum_min_release = 0, el_has_ever_joined = joined, el_store_epoch = store_epoch,
      el_store_scores = scores, el_tracker = (case scores of None \<Rightarrow> t | Some bl \<Rightarrow> ct_decode bl t),
      el_acked_ping = [], el_sent_ping = [], el_live_pinging = {}, el_dead_pinging = {}, el_contexts = [],
      el_expire_event = False, el_peer_info = [], el_disallowed_leaders = disallowed, el_epoch = 0,
      el_last_election_winner = - 1, el_last_voted_for = - 1, el_stable_tracker = None, el_leader_tracker = None,
      el_leader_acked = - 1, el_strategy = strategy, el_participating = True, el_electing_me = False,
      el_acked_me = {}, el_outbox = []\<rparr>)"

definition restart :: "elector \<Rightarrow> elector option" where
  "restart s =
    bootstrap (elector_rank_changed (get_my_rank s)
      (new_elector (el_cfg s) (el_strategy s) (el_disallowed_leaders s) (el_has_ever_joined s)
         (el_store_epoch s) (el_store_scores s)))"

end
