(* ===== verification/Election_System.thy ===== *)
theory Election_System
  imports Elector
begin

text \<open>
  The monitors of a cluster and the messages between them, as a step relation: any message that was ever
  sent may arrive, at any time, any number of times; timers expire; monitors enter, leave, restart.  The
  invariant shows, for the strategies that elect by rank (with or without ranks that must not lead), that
  no assertion of the election code fails.  The strategy by connectivity is not covered by it.
\<close>

section \<open>The cluster\<close>

text \<open>
  The monitors of a map: how many there are, the strategy and the ranks that must not lead, which are
  the same for all of them, and what each of them is configured with.
\<close>

record election_setup =
  es_size :: nat
  es_strategy :: election_strategy
  es_disallowed :: "int set"
  es_cfg :: "int \<Rightarrow> mon_config"

abbreviation ranks :: "election_setup \<Rightarrow> int set" where
  "ranks S \<equiv> {0..<int (es_size S)}"

text \<open>Every monitor has what every other requires.\<close>

definition setup_ok :: "election_setup \<Rightarrow> bool" where
  "setup_ok S \<longleftrightarrow> 2 \<le> es_size S \<and> es_strategy S \<noteq> CONNECTIVITY
    \<and> (\<forall>i\<in>ranks S. cf_rank (es_cfg S i) = i \<and> cf_size (es_cfg S i) = es_size S)
    \<and> (\<forall>i\<in>ranks S. \<forall>j\<in>ranks S. \<not> lacks (cf_features_all (es_cfg S j)) (cf_required_features (es_cfg S i))
         \<and> cf_min_mon_release (es_cfg S i) \<le> cf_release (es_cfg S j)
         \<and> contains_all (cf_supported (es_cfg S j)) (cf_required_mon_features (es_cfg S i)))"

text \<open>
  The state of the cluster: the monitors and all messages sent so far.  A message stays in the network,
  so it may be delivered late, twice, out of order or never.
\<close>

record cluster =
  mons :: "int \<Rightarrow> elector"
  net :: "(int \<times> message) set"

datatype event =
    Deliver int message rat
  | Timeout int
  | Call_election int
  | Quorum_enter int
  | Quorum_exit int
  | Bootstrap int
  | Restart int
  | Run_context int ping_context rat

fun target :: "event \<Rightarrow> int" where
  "target (Deliver i _ _) = i"
| "target (Timeout i) = i"
| "target (Call_election i) = i"
| "target (Quorum_enter i) = i"
| "target (Quorum_exit i) = i"
| "target (Bootstrap i) = i"
| "target (Restart i) = i"
| "target (Run_context i _ _) = i"

fun handle :: "event \<Rightarrow> elector \<Rightarrow> elector option" where
  "handle (Deliver _ m now) s = dispatch now m s"
| "handle (Timeout _) s = end_election_period s"
| "handle (Call_election _) s = start_election s"
| "handle (Quorum_enter _) s = quorum_enter s"
| "handle (Quorum_exit _) s = quorum_exit s"
| "handle (Bootstrap _) s = bootstrap s"
| "handle (Restart _) s = restart s"
| "handle (Run_context _ c now) s = run_context now c (s\<lparr>el_contexts := remove1 c (el_contexts s)\<rparr>)"

fun enabled :: "event \<Rightarrow> cluster \<Rightarrow> bool" where
  "enabled (Deliver i m _) c \<longleftrightarrow> (i, m) \<in> net c"
| "enabled (Timeout i) c \<longleftrightarrow> el_expire_event (mons c i)"
| "enabled (Run_context i x _) c \<longleftrightarrow> x \<in> set (el_contexts (mons c i))"
| "enabled _ c \<longleftrightarrow> True"

text \<open>The next state of a monitor goes into the cluster, what it sent into the network.\<close>

definition put :: "int \<Rightarrow> elector \<Rightarrow> cluster \<Rightarrow> cluster" where
  "put i s c = \<lparr>mons = (mons c)(i := s\<lparr>el_outbox := []\<rparr>), net = net c \<union> set (el_outbox s)\<rparr>"

definition run_event :: "event \<Rightarrow> cluster \<Rightarrow> cluster option" where
  "run_event ev c = map_option (\<lambda>s. put (target ev) s c) (handle ev (mons c (target ev)))"

inductive cluster_step :: "election_setup \<Rightarrow> cluster \<Rightarrow> cluster \<Rightarrow> bool" for S where
  step: "target ev \<in> ranks S \<Longrightarrow> enabled ev c \<Longrightarrow> run_event ev c = Some c' \<Longrightarrow> cluster_step S c c'"

text \<open>All monitors have just started, on stores with any epochs; nothing was sent yet.\<close>

definition initial :: "election_setup \<Rightarrow> cluster \<Rightarrow> bool" where
  "initial S c \<longleftrightarrow> net c = {} \<and> (\<forall>i\<in>ranks S. \<exists>joined e.
     restart (new_elector (es_cfg S i) (es_strategy S) (es_disallowed S) joined e None) = Some (mons c i))"

inductive reachable :: "election_setup \<Rightarrow> cluster \<Rightarrow> bool" for S where
  start: "initial S c \<Longrightarrow> reachable S c"
| step: "reachable S c \<Longrightarrow> cluster_step S c c' \<Longrightarrow> reachable S c'"

section \<open>Invariants\<close>

text \<open>Whom a monitor gives way to.\<close>

definition beats :: "election_setup \<Rightarrow> int \<Rightarrow> int \<Rightarrow> bool" where
  "beats S a b \<longleftrightarrow> (if es_strategy S = CLASSIC then a < b
     else a \<notin> es_disallowed S \<and> a \<noteq> b \<and> (a < b \<or> b \<in> es_disallowed S))"

definition quorum_ok :: "election_setup \<Rightarrow> int \<Rightarrow> int set \<Rightarrow> bool" where
  "quorum_ok S l q \<longleftrightarrow> q \<subseteq> ranks S \<and> es_size S div 2 < card q \<and> l \<in> q \<and> (\<forall>j\<in>q. j = l \<or> beats S l j)"

text \<open>The monitor has read its epoch from the store.\<close>

definition initialized :: "elector \<Rightarrow> bool" where
  "initialized s \<longleftrightarrow> el_state s \<noteq> STATE_PROBING \<or> el_expire_event s \<or> \<not> el_participating s \<or> el_electing_me s"

definition configured :: "election_setup \<Rightarrow> int \<Rightarrow> elector \<Rightarrow> bool" where
  "configured S i s \<longleftrightarrow> el_cfg s = es_cfg S i \<and> el_strategy s = es_strategy S \<and> el_disallowed_leaders s = es_disallowed S
    \<and> el_live_pinging s \<inter> el_dead_pinging s = {}"

definition vote_ok :: "election_setup \<Rightarrow> int \<Rightarrow> elector \<Rightarrow> bool" where
  "vote_ok S i s \<longleftrightarrow> (el_leader_acked s = - 1 \<or> el_leader_acked s \<in> ranks S \<and> beats S (el_leader_acked s) i)
    \<and> (if el_electing_me s
       then odd (el_epoch s) \<and> el_leader_acked s = - 1 \<and> i \<in> el_acked_me s \<and> el_acked_me s \<subseteq> ranks S
         \<and> el_acked_me s \<subseteq> fst ` set (el_peer_info s) \<and> (\<forall>j\<in>el_acked_me s. j = i \<or> beats S i j)
       else el_acked_me s = {})"

definition result_ok :: "election_setup \<Rightarrow> int \<Rightarrow> elector \<Rightarrow> bool" where
  "result_ok S i s \<longleftrightarrow>
    (el_state s = STATE_PROBING \<or> el_state s = STATE_ELECTING
     \<or> (el_state s = STATE_LEADER \<and> el_leader s = i \<or> el_state s = STATE_PEON \<and> beats S (el_leader s) i)
       \<and> even (el_epoch s) \<and> i \<in> el_quorum s \<and> quorum_ok S (el_leader s) (el_quorum s))"

definition node_ok :: "election_setup \<Rightarrow> int \<Rightarrow> elector \<Rightarrow> bool" where
  "node_ok S i s \<longleftrightarrow> configured S i s \<and> vote_ok S i s \<and> result_ok S i s
    \<and> (initialized s \<longrightarrow> el_epoch s = max 1 (el_store_epoch s))"

text \<open>
  What holds for good at a monitor that has proposed itself in epoch \<open>e\<close>: while it is in that epoch it
  still stands for election or has given way to someone.
\<close>

definition proposed_ok :: "elector \<Rightarrow> nat \<Rightarrow> bool" where
  "proposed_ok s e \<longleftrightarrow> odd e \<and> e \<le> max 1 (el_store_epoch s) \<and> (e = el_epoch s \<longrightarrow> el_electing_me s \<or> 0 \<le> el_leader_acked s)"

definition msg_ok :: "election_setup \<Rightarrow> (int \<Rightarrow> nat \<Rightarrow> bool) \<Rightarrow> int \<Rightarrow> message \<Rightarrow> bool" where
  "msg_ok S proposed to msg \<longleftrightarrow> (case msg of Ping _ \<Rightarrow> True | Election m \<Rightarrow>
     em_from m \<in> ranks S \<and> to \<in> ranks S \<and> em_from m \<noteq> to \<and> em_strategy m = es_strategy S
     \<and> em_con_features m = cf_features_all (es_cfg S (em_from m))
     \<and> (case em_op m of
          OP_PROPOSE \<Rightarrow> proposed (em_from m) (em_epoch m) \<and> odd (em_epoch m)
            \<and> em_mon_features m = cf_supported (es_cfg S (em_from m)) \<and> em_mon_release m = cf_release (es_cfg S (em_from m))
        | OP_ACK \<Rightarrow> proposed to (em_epoch m) \<and> beats S to (em_from m) \<and> odd (em_epoch m)
            \<and> em_mon_features m = cf_supported (es_cfg S (em_from m))
        | OP_VICTORY \<Rightarrow> even (em_epoch m) \<and> beats S (em_from m) to \<and> to \<in> em_quorum m \<and> quorum_ok S (em_from m) (em_quorum m)
        | OP_NAK \<Rightarrow> False))"

definition cluster_ok :: "election_setup \<Rightarrow> cluster \<Rightarrow> bool" where
  "cluster_ok S c \<longleftrightarrow> (\<forall>i\<in>ranks S. node_ok S i (mons c i) \<and> el_outbox (mons c i) = [])
    \<and> (\<forall>(to, m)\<in>net c. msg_ok S (\<lambda>p. proposed_ok (mons c p)) to m)"

text \<open>
  A step of monitor \<open>i\<close>: it stays well-formed, what it proposed before still holds, and the messages it
  sends are well-formed, if the proposals of the others are as \<open>P\<close> says.
\<close>

definition fine :: "election_setup \<Rightarrow> (int \<Rightarrow> nat \<Rightarrow> bool) \<Rightarrow> int \<Rightarrow> elector \<Rightarrow> elector \<Rightarrow> bool" where
  "fine S P i s s' \<longleftrightarrow> node_ok S i s' \<and> (\<forall>e. proposed_ok s e \<longrightarrow> proposed_ok s' e)
    \<and> (\<forall>(to, m)\<in>set (el_outbox s'). (to, m) \<in> set (el_outbox s) \<or> msg_ok S (P(i := proposed_ok s')) to m)"

lemma msg_ok_mono: "msg_ok S P to m \<Longrightarrow> (\<And>p e. P p e \<Longrightarrow> Q p e) \<Longrightarrow> msg_ok S Q to m"
  by (auto simp: msg_ok_def split: message.splits election_op.splits)

lemma fine_refl: "node_ok S i s \<Longrightarrow> fine S P i s s"
  by (auto simp: fine_def)

lemma fine_trans:
  assumes "fine S P i s s'" "fine S P i s' s''"
  shows "fine S P i s s''"
proof -
  have "msg_ok S (P(i := proposed_ok s'')) to m" if "msg_ok S (P(i := proposed_ok s')) to m" for to m
    using msg_ok_mono[OF that] assms(2) by (auto simp: fine_def split: if_splits)
  then show ?thesis using assms unfolding fine_def by fast
qed

section \<open>Steps of the election logic\<close>

text \<open>An operation that returns and makes a fine step.\<close>

definition okay :: "election_setup \<Rightarrow> (int \<Rightarrow> nat \<Rightarrow> bool) \<Rightarrow> int \<Rightarrow> (elector \<Rightarrow> elector option) \<Rightarrow> elector \<Rightarrow> bool" where
  "okay S P i f s \<longleftrightarrow> (\<exists>s'. f s = Some s' \<and> fine S P i s s')"

lemma okayI: "f s = Some s' \<Longrightarrow> fine S P i s s' \<Longrightarrow> okay S P i f s"
  by (auto simp: okay_def)

lemma okayE:
  assumes "okay S P i f s"
  obtains s' where "f s = Some s'" "fine S P i s s'" "node_ok S i s'"
  using assms by (auto simp: okay_def fine_def)

lemma okay_bind:
  assumes "f s = Some s'" "fine S P i s s'" "okay S P i g s'"
  shows "okay S P i (\<lambda>s. f s \<bind> g) s"
  using assms fine_trans by (fastforce simp: okay_def)

lemma okay_cong: "okay S P i f s \<Longrightarrow> f s = g t \<Longrightarrow> fine S P i t s \<Longrightarrow> okay S P i g t"
  using fine_trans by (fastforce simp: okay_def)

lemma ranks_cfg:
  assumes "setup_ok S" "i \<in> ranks S" "configured S i s"
  shows "get_my_rank s = i" "paxos_size s = es_size S"
  using assms by (auto simp: setup_ok_def configured_def)

lemma set_peers:
  assumes "setup_ok S" "i \<in> ranks S" "configured S i s"
  shows "set (peers s) = ranks S - {i}"
  using ranks_cfg[OF assms] by (auto simp: peers_def image_int_atLeastLessThan)

lemma beats_not_refl: "\<not> beats S a a"
  by (simp add: beats_def)

lemma started_fine:
  assumes S: "setup_ok S" "i \<in> ranks S" and s: "configured S i s" and s': "started s s'"
    and st: "el_state s = STATE_PROBING \<or> el_state s = STATE_ELECTING \<or> el_store_epoch s \<noteq> 0"
  shows "fine S P i s s'"
proof -
  define E where "E = next_epoch (el_store_epoch s)"
  obtain t sc st m where eq: "s' = s\<lparr>el_tracker := t, el_store_scores := sc, el_stable_tracker := st, el_leader_tracker := None,
      el_epoch := E, el_store_epoch := (if el_store_epoch s = 0 then 0 else E),
      el_quorum := (if el_store_epoch s = 0 then el_quorum s else {}),
      el_state := (if el_store_epoch s = 0 then el_state s else STATE_ELECTING),
      el_leader_acked := - 1, el_electing_me := True, el_acked_me := {i},
      el_peer_info := [(i, \<lparr>cluster_features = cf_features_all (el_cfg s), mon_features = cf_supported (el_cfg s),
                                        mon_release = cf_release (el_cfg s)\<rparr>)],
      el_expire_event := True, el_outbox := el_outbox s @ map (\<lambda>i. (i, Election m)) (peers s)\<rparr>"
    and m: "election_from s OP_PROPOSE E m" "full_features s m"
    using s' unfolding started_def Let_def E_def[symmetric] ranks_cfg[OF S s] by blast
  have E: "odd E" "E = (if el_store_epoch s = 0 then 1 else E)" "el_store_epoch s \<noteq> 0 \<longrightarrow> el_store_epoch s < E"
    by (simp_all add: E_def next_epoch_def)
  have "node_ok S i s'" using E s st S(2)
    by (auto simp: node_ok_def eq configured_def vote_ok_def result_ok_def next_epoch_def)
  moreover have "proposed_ok s' e" if "proposed_ok s e" for e
    using that E by (auto simp: proposed_ok_def eq)
  moreover have "proposed_ok s' E" using E by (auto simp: proposed_ok_def eq)
  then have "msg_ok S (P(i := proposed_ok s')) to (Election m)" if "to \<in> ranks S - {i}" for to
    using m that s S E by (auto simp: msg_ok_def election_from_def full_features_def configured_def ranks_cfg[OF S s])
  ultimately show ?thesis using set_peers[OF S s] by (auto simp: fine_def eq)
qed

lemma start_okay:
  assumes "setup_ok S" "i \<in> ranks S" "node_ok S i s"
  shows "okay S P i start s"
proof (cases "el_participating s")
  case True
  then obtain s' where "start s = Some s'" "started s s'" using start_eq by blast
  moreover have "el_state s = STATE_PROBING \<or> el_state s = STATE_ELECTING \<or> el_store_epoch s \<noteq> 0"
    using assms(3) by (auto simp: node_ok_def result_ok_def initialized_def max_def split: if_splits)
  ultimately show ?thesis using started_fine[OF assms(1,2)] assms(3) by (auto simp: okay_def node_ok_def)
next
  case False
  then show ?thesis using fine_refl[OF assms(3)] by (auto simp: okay_def start_def)
qed

lemma start_election_okay:
  assumes "setup_ok S" "i \<in> ranks S" "node_ok S i s"
  shows "okay S P i start_election s"
proof -
  define u where "u = s\<lparr>el_quorum := {}, el_state := STATE_ELECTING\<rparr>"
  have u: "start_election s = start u" by (simp add: start_election_def mon_reset_def u_def)
  have c: "configured S i u" using assms(3) by (simp add: node_ok_def configured_def u_def)
  show ?thesis
  proof (cases "el_participating s")
    case True
    then obtain s' where s': "start u = Some s'" "started u s'" using start_eq[of u] by (auto simp: u_def)
    then have "fine S P i u s'" using started_fine[OF assms(1,2) c] by (simp add: u_def)
    then have "fine S P i s s'" by (simp add: fine_def u_def proposed_ok_def)
    then show ?thesis using s'(1) u by (auto simp: okay_def)
  next
    case False
    then have "fine S P i s u"
      using assms(3) by (auto simp: fine_def node_ok_def configured_def u_def vote_ok_def result_ok_def initialized_def proposed_ok_def)
    then show ?thesis using False u by (auto simp: okay_def start_def u_def)
  qed
qed

lemma bump_epoch_okay:
  assumes "node_ok S i s" "initialized s" "el_epoch s < e \<or> el_epoch s = e \<and> even e"
  shows "okay S P i (bump_epoch e) s"
proof -
  obtain t sc where b: "bump_epoch e s = Some (s\<lparr>el_epoch := e, el_tracker := t, el_store_epoch := e, el_store_scores := sc,
    el_electing_me := False, el_acked_me := {}, el_quorum := {}, el_state := STATE_ELECTING\<rparr>)" (is "_ = Some ?s")
    using bump_epoch_eq[of s e] assms(3) by auto
  have e: "el_epoch s = max 1 (el_store_epoch s)" using assms by (simp add: node_ok_def)
  then have "1 \<le> e" using assms(3) by auto
  then have "node_ok S i ?s" using assms(1)
    by (auto simp: node_ok_def configured_def vote_ok_def result_ok_def)
  moreover have "proposed_ok ?s e'" if "proposed_ok s e'" for e'
    using that e assms(3) by (auto simp: proposed_ok_def)
  ultimately have "fine S P i s ?s" by (auto simp: fine_def)
  with b show ?thesis by (auto simp: okay_def)
qed

lemma bump_start_okay:
  assumes "setup_ok S" "i \<in> ranks S" "node_ok S i s" "initialized s" "el_epoch s < e \<or> el_epoch s = e \<and> even e"
  shows "okay S P i (\<lambda>s. bump_epoch e s \<bind> start) s"
proof -
  obtain s' where "bump_epoch e s = Some s'" "fine S P i s s'" "node_ok S i s'"
    using bump_epoch_okay[OF assms(3-5), of P] by (rule okayE)
  then show ?thesis using start_okay[OF assms(1,2)] okay_bind by metis
qed

lemma defer_okay:
  assumes S: "setup_ok S" "i \<in> ranks S" and s: "node_ok S i s" and b: "beats S who i" "who \<in> ranks S"
    and e: "odd (el_epoch s)" "P who (el_epoch s)" "initialized s"
  shows "okay S P i (defer_to who) s"
proof -
  have c: "configured S i s" using s by (simp add: node_ok_def)
  have "if el_strategy s = CLASSIC then who < get_my_rank s else who \<notin> el_disallowed_leaders s"
    using b c ranks_cfg[OF S c] by (auto simp: beats_def configured_def)
  moreover have "el_electing_me s \<or> el_acked_me s = {}" using s by (auto simp: node_ok_def vote_ok_def split: if_splits)
  ultimately obtain t m where d: "defer_to who s = Some (s\<lparr>el_tracker := t, el_electing_me := False, el_acked_me := {}, el_leader_acked := who,
      el_expire_event := True, el_outbox := el_outbox s @ [(who, Election m)]\<rparr>)" (is "_ = Some ?s")
    and m: "election_from s OP_ACK (el_epoch s) m" "full_features s m"
    using defer_to_eq by blast
  have "node_ok S i ?s" using s b e by (auto simp: node_ok_def configured_def vote_ok_def result_ok_def)
  moreover have "proposed_ok ?s e'" if "proposed_ok s e'" for e' using that b by (auto simp: proposed_ok_def)
  moreover have "who \<noteq> i" using b beats_not_refl by blast
  then have "msg_ok S (P(i := proposed_ok ?s)) who (Election m)"
    using m S b e c by (auto simp: msg_ok_def election_from_def full_features_def configured_def ranks_cfg[OF S c])
  ultimately have "fine S P i s ?s" by (auto simp: fine_def)
  with d show ?thesis by (auto simp: okay_def)
qed

lemma declare_victory_okay:
  assumes S: "setup_ok S" "i \<in> ranks S" and s: "node_ok S i s" and e: "el_electing_me s" "es_size S div 2 < card (el_acked_me s)"
  shows "okay S P i declare_victory s"
proof -
  have c: "configured S i s" and v: "vote_ok S i s" and ep: "el_epoch s = max 1 (el_store_epoch s)"
    using s e(1) by (simp_all add: node_ok_def initialized_def)
  have a: "el_acked_me s \<subseteq> ranks S" and o: "odd (el_epoch s)" "el_acked_me s \<subseteq> fst ` set (el_peer_info s)"
    using v e(1) by (simp_all add: vote_ok_def)
  obtain t sc st m cf mf rel where d: "declare_victory s = Some (s\<lparr>el_tracker := t, el_store_scores := sc, el_stable_tracker := st,
      el_leader_tracker := None, el_last_election_winner := get_my_rank s, el_last_voted_for := get_my_rank s,
      el_leader_acked := - 1, el_electing_me := False, el_acked_me := {}, el_epoch := el_epoch s + 1,
      el_store_epoch := el_epoch s + 1, el_expire_event := False,
      el_outbox := el_outbox s @ map (\<lambda>i. (i, Election m)) (filter (\<lambda>i. i \<noteq> get_my_rank s) (sorted_list_of_set (el_acked_me s))),
      el_state := STATE_LEADER, el_leader := get_my_rank s, el_quorum := el_acked_me s,
      el_quorum_con_features := cf, el_quorum_mon_features := mf, el_quorum_min_release := rel\<rparr>)" (is "_ = Some ?s")
    and m: "election_from s OP_VICTORY (el_epoch s + 1) m" "em_quorum m = el_acked_me s"
    using declare_victory_eq[OF o] by blast
  have q: "quorum_ok S i (el_acked_me s)" using v e by (auto simp: quorum_ok_def vote_ok_def)
  have r: "get_my_rank s = i" using ranks_cfg[OF S c] by simp
  have "node_ok S i ?s" using c v q e r
    by (auto simp: node_ok_def configured_def vote_ok_def result_ok_def)
  moreover have "proposed_ok ?s e'" if "proposed_ok s e'" for e' using that ep by (auto simp: proposed_ok_def)
  moreover have "msg_ok S (P(i := proposed_ok ?s)) to (Election m)" if "to \<in> el_acked_me s" "to \<noteq> i" for to
    using m that S v q e(1) c r a
    by (auto simp: msg_ok_def election_from_def configured_def vote_ok_def)
  moreover have "finite (el_acked_me s)" using a finite_subset by blast
  ultimately have "fine S P i s ?s" by (auto simp: fine_def r)
  with d show ?thesis by (auto simp: okay_def)
qed

lemma bump_epoch_result:
  assumes "bump_epoch e s = Some s'"
  shows "el_epoch s' = e" "el_state s' = STATE_ELECTING" "el_participating s' = el_participating s"
    "el_strategy s' = el_strategy s" "el_leader_acked s' = el_leader_acked s" "\<not> el_electing_me s'"
proof -
  have "el_epoch s \<le> e" using assms by (simp add: bump_epoch_def)
  then show "el_epoch s' = e" "el_state s' = STATE_ELECTING" "el_participating s' = el_participating s"
    "el_strategy s' = el_strategy s" "el_leader_acked s' = el_leader_acked s" "\<not> el_electing_me s'"
    using bump_epoch_eq[of s e] assms by auto
qed

lemma prefix_okay:
  assumes S: "setup_ok S" "i \<in> ranks S" and s: "node_ok S i s" "initialized s" and e: "odd mepoch"
  obtains s' where "propose_classic_prefix from mepoch s = Some (True, s')" "fine S P i s s'"
  | s' where "propose_classic_prefix from mepoch s = Some (False, s')" "fine S P i s s'" "node_ok S i s'" "initialized s'"
      "el_epoch s' = mepoch" "el_strategy s' = el_strategy s"
proof (cases "el_epoch s < mepoch")
  case True
  then obtain s' where "bump_epoch mepoch s = Some s'" "fine S P i s s'" "node_ok S i s'"
    using bump_epoch_okay[OF s, of mepoch P] by (auto elim: okayE)
  then show ?thesis using True bump_epoch_result[of mepoch s s'] by (intro that(2)[of s']) (auto simp: propose_classic_prefix_def initialized_def)
next
  case False
  obtain s' where s': "start_election s = Some s'" "fine S P i s s'" using start_election_okay[OF S s(1), of P] by (rule okayE)
  show ?thesis
  proof (cases "mepoch < el_epoch s")
    case True
    define u where "u = (if even (el_epoch s) \<and> from \<notin> el_quorum s then s' else s)"
    have "propose_classic_prefix from mepoch s = Some (True, u)" using False True s'(1)
      by (simp add: propose_classic_prefix_def u_def)
    moreover have "fine S P i s u" using s'(2) fine_refl[OF s(1), of P] by (simp add: u_def)
    ultimately show ?thesis by (rule that(1))
  next
    case ge: False
    then show ?thesis using False s fine_refl[OF s(1), of P] by (intro that(2)[of s]) (simp_all add: propose_classic_prefix_def)
  qed
qed

lemma classic_okay:
  assumes S: "setup_ok S" "i \<in> ranks S" and s: "node_ok S i s" "initialized s" and c: "es_strategy S = CLASSIC"
    and f: "from \<in> ranks S" "from \<noteq> i" and e: "odd mepoch" "P from mepoch"
  shows "okay S P i (propose_classic_handler from mepoch) s"
proof (rule prefix_okay[OF S s e(1), of "from" P])
  fix s' assume "propose_classic_prefix from mepoch s = Some (True, s')" "fine S P i s s'"
  then show ?thesis by (auto simp: okay_def propose_classic_handler_def)
next
  fix s' assume p: "propose_classic_prefix from mepoch s = Some (False, s')" "fine S P i s s'" and n: "node_ok S i s'" "initialized s'"
    and m: "el_epoch s' = mepoch"
  have cf: "configured S i s'" using n by (simp add: node_ok_def)
  note r = ranks_cfg[OF S cf]
  have l: "0 \<le> el_leader_acked s' \<Longrightarrow> el_leader_acked s' < i"
    using n(1) c by (auto simp: node_ok_def vote_ok_def beats_def)
  have "okay S P i (\<lambda>s. if get_my_rank s < from then
           (if 0 \<le> el_leader_acked s then do { ceph_assert (el_leader_acked s < from); Some s }
            else if \<not> el_electing_me s then start_election s else Some s)
         else if el_leader_acked s < 0 \<or> from < el_leader_acked s \<or> el_leader_acked s = from
         then defer_to from s else Some s) s'" (is "okay S P i ?f s'")
  proof (cases "i < from")
    case True
    then show ?thesis using l start_election_okay[OF S n(1), of P] fine_refl[OF n(1), of P]
      by (auto simp: okay_def r)
  next
    case False
    then have "beats S from i" using f c by (simp add: beats_def)
    then show ?thesis using False defer_okay[where P=P, OF S n(1) _ f(1)] m e n(2) fine_refl[OF n(1), of P] by (auto simp: okay_def r)
  qed
  moreover have "propose_classic_handler from mepoch s = ?f s'" by (simp add: propose_classic_handler_def p)
  ultimately show ?thesis using fine_trans[OF p(2)] by (auto simp only: okay_def)
qed

lemma disallow_okay:
  assumes S: "setup_ok S" "i \<in> ranks S" and s: "node_ok S i s" "initialized s" and c: "es_strategy S = DISALLOW"
    and f: "from \<in> ranks S" "from \<noteq> i" and e: "odd mepoch" "P from mepoch"
  shows "okay S P i (propose_disallow_handler from mepoch) s"
proof (rule prefix_okay[OF S s e(1), of "from" P])
  fix s' assume "propose_classic_prefix from mepoch s = Some (True, s')" "fine S P i s s'"
  then show ?thesis by (auto simp: okay_def propose_disallow_handler_def)
next
  fix s' assume p: "propose_classic_prefix from mepoch s = Some (False, s')" "fine S P i s s'" and n: "node_ok S i s'" "initialized s'"
    and m: "el_epoch s' = mepoch"
  have cf: "configured S i s'" using n by (simp add: node_ok_def)
  then have d: "el_disallowed_leaders s' = es_disallowed S" by (simp add: configured_def)
  note r = ranks_cfg[OF S cf]
  define mine where "mine \<longleftrightarrow> i \<notin> es_disallowed S \<and> (i < from \<or> from \<in> es_disallowed S)"
  define theirs where "theirs \<longleftrightarrow> from \<notin> es_disallowed S \<and> (from < i \<or> i \<in> es_disallowed S)
    \<and> (el_leader_acked s' < 0 \<or> from \<le> el_leader_acked s')"
  have h: "propose_disallow_handler from mepoch s =
    (if mine then (if 0 \<le> el_leader_acked s'
                   then do { ceph_assert (el_leader_acked s' < from \<or> from \<in> es_disallowed S); Some s' }
                   else if \<not> el_electing_me s' then start_election s' else Some s')
     else if theirs then defer_to from s' else Some s')"
    by (simp only: propose_disallow_handler_def p bind.bind_lunit prod.case if_False Let_def r d mine_def theirs_def)
  have l: "el_leader_acked s' < from \<or> from \<in> es_disallowed S" if "0 \<le> el_leader_acked s'" mine
    using n(1) c that by (auto simp: node_ok_def vote_ok_def beats_def mine_def)
  have t: "okay S P i (defer_to from) s'" if theirs
    using defer_okay[where P=P, OF S n(1) _ f(1)] m e n(2) that f c by (simp add: beats_def theirs_def)
  have "\<exists>u. propose_disallow_handler from mepoch s = Some u \<and> fine S P i s' u"
    using l t start_election_okay[OF S n(1), of P] fine_refl[OF n(1), of P]
    unfolding h by (cases mine; cases theirs) (simp_all add: okay_def)
  then show ?thesis using fine_trans[OF p(2)] by (auto simp: okay_def)
qed

lemma receive_propose_okay:
  assumes S: "setup_ok S" "i \<in> ranks S" and s: "node_ok S i s" "initialized s"
    and f: "from \<in> ranks S" "from \<noteq> i" and e: "odd mepoch" "P from mepoch"
  shows "okay S P i (receive_propose from mepoch ct) s"
proof -
  have c: "configured S i s" using s by (simp add: node_ok_def)
  then have "el_strategy s = es_strategy S" "es_strategy S \<noteq> CONNECTIVITY" using S by (simp_all add: configured_def setup_ok_def)
  then show ?thesis using classic_okay[where P=P, OF S s _ f e] disallow_okay[where P=P, OF S s _ f e] f ranks_cfg[OF S c]
    by (cases "es_strategy S") (simp_all add: okay_def receive_propose_def)
qed

lemma receive_ack_okay:
  assumes S: "setup_ok S" "i \<in> ranks S" and s: "node_ok S i s"
    and f: "from \<in> ranks S" "beats S i from" "from \<in> fst ` set (el_peer_info s) \<or> \<not> el_electing_me s"
    and e: "odd e" "e = el_epoch s" "el_electing_me s \<or> 0 \<le> el_leader_acked s"
  shows "okay S P i (receive_ack from e) s"
proof (cases "el_electing_me s")
  case True
  define u where "u = s\<lparr>el_acked_me := insert from (el_acked_me s)\<rparr>"
  have c: "configured S i u" using s by (simp add: node_ok_def configured_def u_def)
  have n: "node_ok S i u" using s f True
    by (auto simp: node_ok_def configured_def vote_ok_def result_ok_def initialized_def u_def)
  then have fu: "fine S P i s u" by (auto simp: fine_def u_def proposed_ok_def)
  show ?thesis
  proof (cases "card (el_acked_me u) = es_size S")
    case card: True
    have "okay S P i declare_victory u"
      using True card S(1) by (intro declare_victory_okay[OF S n]) (auto simp: u_def setup_ok_def)
    then show ?thesis using True card e ranks_cfg[OF S c] fu
      by (auto simp: receive_ack_def u_def okay_def intro: fine_trans)
  next
    case False
    then have "receive_ack from e s = Some u" using True e ranks_cfg[OF S c] by (simp add: receive_ack_def u_def)
    then show ?thesis using fu by (simp add: okay_def)
  qed
next
  case False
  then show ?thesis using e fine_refl[OF s] by (simp add: receive_ack_def okay_def)
qed

lemma victory_claim_okay:
  assumes S: "setup_ok S" "i \<in> ranks S" and s: "node_ok S i s" "initialized s"
    and f: "beats S from i" and e: "even e" "el_epoch s \<le> e"
  obtains s' where "receive_victory_claim from e s = Some (False, s')" "fine S P i s s'"
  | s' where "receive_victory_claim from e s = Some (True, s')" "fine S P i s s'" "node_ok S i s'"
      "el_epoch s' = e" "el_state s' = STATE_ELECTING" "\<not> el_electing_me s'"
proof -
  define u where "u = clear_live_election_state (s\<lparr>el_last_election_winner := from, el_last_voted_for := el_leader_acked s\<rparr>)"
  have u: "u = s\<lparr>el_last_election_winner := from, el_last_voted_for := el_leader_acked s, el_leader_acked := - 1,
      el_electing_me := False, el_stable_tracker := Some (copy_tracker (el_tracker s)), el_leader_tracker := None\<rparr>"
    by (simp add: u_def clear_live_election_state_def reset_stable_tracker_def)
  obtain s1 where s1: "bump_epoch e u = Some s1" "fine S P i s s1" "node_ok S i s1"
  proof -
    obtain t sc where b: "bump_epoch e u = Some (u\<lparr>el_epoch := e, el_tracker := t, el_store_epoch := e, el_store_scores := sc,
      el_electing_me := False, el_acked_me := {}, el_quorum := {}, el_state := STATE_ELECTING\<rparr>)" (is "_ = Some ?s")
      using bump_epoch_eq[of u e] e by (auto simp: u)
    have ep: "el_epoch s = max 1 (el_store_epoch s)" using s by (simp add: node_ok_def)
    have "node_ok S i ?s" using s e ep by (auto simp: node_ok_def configured_def vote_ok_def result_ok_def u)
    moreover have "proposed_ok ?s e'" if "proposed_ok s e'" for e' using that e ep by (auto simp: proposed_ok_def u)
    ultimately have "fine S P i s ?s" by (auto simp: fine_def u)
    with b that show ?thesis by (auto simp: fine_def)
  qed
  have c: "configured S i s" using s by (simp add: node_ok_def)
  have v: "victory_makes_sense from s = Some True" using c f S
    by (cases "es_strategy S") (auto simp: victory_makes_sense_def beats_def configured_def setup_ok_def)
  obtain s2 where s2: "start s1 = Some s2" "fine S P i s1 s2" using start_okay[OF S s1(3), of P] by (auto elim: okayE)
  show ?thesis
  proof (cases "e = el_epoch s + 1")
    case True
    then have "receive_victory_claim from e s = Some (True, s1)"
      using s1(1) by (simp add: receive_victory_claim_def v flip: u_def) (simp add: u)
    then show ?thesis using that(2)[OF _ s1(2,3)] bump_epoch_result[OF s1(1)] by simp
  next
    case False
    then have "receive_victory_claim from e s = Some (False, s2)"
      using s1(1) s2(1) by (simp add: receive_victory_claim_def v flip: u_def) (simp add: u)
    then show ?thesis using that(1) fine_trans[OF s1(2) s2(2)] by simp
  qed
qed

lemma end_election_period_okay:
  assumes S: "setup_ok S" "i \<in> ranks S" and s: "node_ok S i s" "el_expire_event s"
  shows "okay S P i end_election_period s"
proof -
  define u where "u = s\<lparr>el_expire_event := False\<rparr>"
  have n: "node_ok S i u" using s by (auto simp: node_ok_def configured_def vote_ok_def result_ok_def initialized_def u_def)
  then have fu: "fine S P i s u" by (auto simp: fine_def proposed_ok_def u_def)
  have c: "configured S i u" using n by (simp add: node_ok_def)
  have r: "get_my_rank s = i" "paxos_size s = es_size S" using ranks_cfg[OF S c] by (simp_all add: u_def)
  have "okay S P i bootstrap u"
  proof -
    have "node_ok S i (u\<lparr>el_state := STATE_PROBING, el_quorum := {}\<rparr>)" (is "node_ok S i ?v")
      using n s by (auto simp: node_ok_def configured_def vote_ok_def result_ok_def initialized_def u_def)
    then have "fine S P i u ?v" by (auto simp: fine_def proposed_ok_def)
    moreover have "bootstrap u = Some ?v" using S(1) r by (simp add: bootstrap_def mon_reset_def setup_ok_def u_def)
    ultimately show ?thesis by (simp add: okay_def)
  qed
  moreover have "okay S P i start u" by (rule start_okay[OF S n])
  moreover have "okay S P i declare_victory u" if "el_electing_me s" "es_size S div 2 < card (el_acked_me s)"
    using declare_victory_okay[OF S n] that by (simp add: u_def)
  moreover have "end_election_period s = (if el_electing_me u \<and> es_size S div 2 < card (el_acked_me u) then declare_victory u
      else if el_has_ever_joined u then start u else bootstrap u)"
    by (simp add: end_election_period_def u_def r Let_def)
  ultimately have "\<exists>s'. end_election_period s = Some s' \<and> fine S P i u s'" by (simp add: okay_def u_def)
  then show ?thesis using fine_trans[OF fu] by (auto simp: okay_def)
qed

section \<open>Pings\<close>

text \<open>
  Pings and reports leave alone what the election reads; no peer is at once among the live and the dead.
\<close>

definition election_part where
  "election_part s = (el_cfg s, el_state s, el_leader s, el_quorum s, el_quorum_mon_features s, el_has_ever_joined s,
     el_store_epoch s, el_expire_event s, el_peer_info s, el_disallowed_leaders s, el_epoch s, el_leader_acked s,
     el_strategy s, el_participating s, el_electing_me s, el_acked_me s)"

definition pinged :: "elector \<Rightarrow> elector \<Rightarrow> bool" where
  "pinged s s' \<longleftrightarrow> election_part s' = election_part s
    \<and> (el_live_pinging s \<inter> el_dead_pinging s = {} \<longrightarrow> el_live_pinging s' \<inter> el_dead_pinging s' = {})
    \<and> set (el_outbox s') \<subseteq> set (el_outbox s) \<union> {x. \<exists>i m. x = (i, Ping m)}"

lemma pinged_refl [simp]: "pinged s s"
  by (simp add: pinged_def)

lemma pinged_trans: "pinged s s' \<Longrightarrow> pinged s' s'' \<Longrightarrow> pinged s s''"
  unfolding pinged_def by (elim conjE, intro conjI) (simp, simp, blast)

lemma pinged_part:
  assumes "pinged s s'"
  shows "el_cfg s' = el_cfg s" "el_state s' = el_state s" "el_leader s' = el_leader s" "el_quorum s' = el_quorum s"
    "el_store_epoch s' = el_store_epoch s" "el_expire_event s' = el_expire_event s" "el_peer_info s' = el_peer_info s"
    "el_disallowed_leaders s' = el_disallowed_leaders s" "el_epoch s' = el_epoch s" "el_leader_acked s' = el_leader_acked s"
    "el_strategy s' = el_strategy s" "el_participating s' = el_participating s" "el_electing_me s' = el_electing_me s"
    "el_acked_me s' = el_acked_me s" "el_has_ever_joined s' = el_has_ever_joined s"
  using assms by (simp_all add: pinged_def election_part_def)

lemma pinged_fine:
  assumes "node_ok S i s" "pinged s s'"
  shows "fine S P i s s'"
proof -
  have "el_live_pinging s' \<inter> el_dead_pinging s' = {}" using assms by (simp add: pinged_def node_ok_def configured_def)
  then have "configured S i s'" using assms(1) by (simp add: node_ok_def configured_def pinged_part[OF assms(2)])
  moreover have "vote_ok S i s' = vote_ok S i s" "result_ok S i s' = result_ok S i s" "initialized s' = initialized s"
    by (simp_all add: vote_ok_def result_ok_def initialized_def pinged_part[OF assms(2)])
  ultimately have "node_ok S i s'" using assms(1) unfolding node_ok_def pinged_part[OF assms(2)] by blast
  moreover have "proposed_ok s' = proposed_ok s" by (simp add: proposed_ok_def pinged_part[OF assms(2)] fun_eq_iff)
  moreover have "msg_ok S (P(i := proposed_ok s')) to m" if "(to, m) \<in> set (el_outbox s')" "(to, m) \<notin> set (el_outbox s)" for to m
    using that assms(2) by (auto simp: pinged_def msg_ok_def)
  ultimately show ?thesis by (auto simp: fine_def)
qed

lemma pinged_update_scores: "pinged s (update_scores f s)"
  by (simp add: pinged_def election_part_def update_scores_def persist_connectivity_scores_def encoded_scores_eq Let_def)

lemma pinged_send_ping: "pinged s (send_ping r st p s)"
  by (auto simp: pinged_def election_part_def send_ping_def encoded_scores_eq send_mon_message_def)

lemma pinged_add_event [simp]: "pinged s (add_event x s') = pinged s s'"
  by (simp add: pinged_def election_part_def add_event_def)

lemma pinged_maps [simp]: "pinged s (s'\<lparr>el_acked_ping := a\<rparr>) = pinged s s'" "pinged s (s'\<lparr>el_sent_ping := b\<rparr>) = pinged s s'"
  by (simp_all add: pinged_def election_part_def)

lemma pinged_live: "pinged s (s\<lparr>el_live_pinging := insert p (el_live_pinging s), el_dead_pinging := el_dead_pinging s - {p}\<rparr>)"
  "pinged s (s\<lparr>el_live_pinging := el_live_pinging s - {p}, el_dead_pinging := insert p (el_dead_pinging s)\<rparr>)"
  "pinged s (s\<lparr>el_live_pinging := el_live_pinging s - {p}\<rparr>)" "pinged s (s\<lparr>el_dead_pinging := el_dead_pinging s - {p}\<rparr>)"
  by (auto simp: pinged_def election_part_def)

lemma pinged_send_peer_ping: "pinged s (send_peer_ping p now s)"
  using pinged_send_ping by (simp add: send_peer_ping_def Let_def)

lemmas pinged_steps = pinged_trans[OF _ pinged_update_scores] pinged_trans[OF _ pinged_send_ping]
  pinged_trans[OF _ pinged_send_peer_ping] pinged_trans[OF _ pinged_live(1)]

lemma pinged_begin_peer_ping: "pinged s (begin_peer_ping now p s)"
proof -
  have "pinged s (update_scores (report_live_connection p 0) s)" by (rule pinged_update_scores)
  then show ?thesis
    by (simp add: begin_peer_ping_def Let_def pinged_steps)
qed

lemma pinged_begin_dead_ping: "pinged s (begin_dead_ping p s)"
  using pinged_live(2) by (simp add: begin_dead_ping_def)

lemma pinged_ping_check: "pinged s (ping_check now p s)"
proof -
  have m: "pinged s (s\<lparr>el_acked_ping := a, el_sent_ping := b\<rparr>)" for a b by simp
  then have "pinged s (begin_dead_ping p ((update_scores f (s\<lparr>el_acked_ping := a, el_sent_ping := b\<rparr>))\<lparr>el_acked_ping := c\<rparr>))" for f a b c
    by (intro pinged_trans[OF _ pinged_begin_dead_ping]) (simp add: pinged_steps)
  then show ?thesis using m pinged_live(3)[of s p] by (simp add: ping_check_def Let_def pinged_steps split: prod.split)
qed

lemma pinged_dead_ping:
  assumes "el_live_pinging s \<inter> el_dead_pinging s = {}"
  shows "\<exists>s'. dead_ping now p s = Some s' \<and> pinged s s'"
proof (cases "p \<in> el_dead_pinging s")
  case True
  obtain a b where e: "map_emplace (el_acked_ping s) p 0 = (a, b)" by force
  have "pinged s (update_scores f (s\<lparr>el_acked_ping := a\<rparr>))" for f by (intro pinged_steps(1)) simp
  moreover have "p \<notin> el_live_pinging s" using assms True by blast
  ultimately show ?thesis using True by (simp add: dead_ping_def e Let_def)
qed (simp add: dead_ping_def)

text \<open>A report of a peer can always be taken in.\<close>

lemma receive_reports_total: "\<exists>t'. receive_reports rs t = Some t' \<and> ct_rank t' = ct_rank t"
proof (induction rs arbitrary: t)
  case (Cons x rs)
  have "\<exists>ex u. reports (cr_rank (snd x)) t = Some (ex, u) \<and> ct_rank u = ct_rank t" if "cr_rank (snd x) \<noteq> ct_rank t"
    using that by (auto simp: reports_def split: option.split)
  then show ?case using Cons by (fastforce simp: Let_def)
qed simp

lemma pinged_assimilate: "\<exists>s'. assimilate_connection_reports bl s = Some s' \<and> pinged s s'"
proof -
  obtain t where "receive_peer_report (ct_decode bl (new_tracker (- 1) 0)) (el_tracker s) = Some t"
    using receive_reports_total by (fastforce simp: receive_peer_report_def)
  then show ?thesis by (simp add: assimilate_connection_reports_def pinged_def election_part_def)
qed

lemma pinged_ping_reply: "pinged s (handle_ping_reply now m s)"
proof -
  have "pinged s (s\<lparr>el_acked_ping := a, el_sent_ping := b\<rparr>)" for a b by simp
  then show ?thesis by (simp add: handle_ping_reply_def Let_def pinged_steps split: prod.split)
qed

lemma pinged_handle_ping: "\<exists>s'. handle_ping now m s = Some s' \<and> pinged s s'"
proof -
  obtain s' where "assimilate_connection_reports (pm_scoring m) (begin_peer_ping now (pm_from m) s) = Some s'" "pinged s s'"
    using pinged_assimilate pinged_trans[OF pinged_begin_peer_ping] by blast
  then show ?thesis using pinged_trans[OF _ pinged_ping_reply] pinged_trans[OF _ pinged_send_ping]
    by (cases "pm_reply m") (simp_all add: handle_ping_def)
qed

lemma run_context_okay:
  assumes "node_ok S i s"
  shows "okay S P i (\<lambda>s. run_context now x (s\<lparr>el_contexts := cs\<rparr>)) s"
proof -
  let ?s = "s\<lparr>el_contexts := cs\<rparr>"
  have p: "pinged s ?s" by (simp add: pinged_def election_part_def)
  have l: "el_live_pinging ?s \<inter> el_dead_pinging ?s = {}" using assms by (simp add: node_ok_def configured_def)
  have "\<exists>s'. run_context now x ?s = Some s' \<and> pinged ?s s'"
    using pinged_dead_ping[OF l] pinged_ping_check[of ?s] by (cases x) auto
  then show ?thesis using pinged_trans[OF p] pinged_fine[OF assms] by (auto simp: okay_def)
qed

section \<open>Messages\<close>

lemma handle_ack_okay:
  assumes S: "setup_ok S" "i \<in> ranks S" and s: "node_ok S i s" "initialized s"
    and m: "msg_ok S (P(i := proposed_ok s)) i (Election m)" "em_op m = OP_ACK" "el_epoch s \<le> em_epoch m"
  shows "okay S P i (handle_ack m) s"
proof -
  have c: "configured S i s" using s by (simp add: node_ok_def)
  have f: "em_from m \<in> ranks S" "beats S i (em_from m)" and p: "proposed_ok s (em_epoch m)"
    and feat: "\<not> lacks (em_con_features m) (cf_required_features (el_cfg s))"
      "contains_all (em_mon_features m) (cf_required_mon_features (el_cfg s))"
    using m c S by (auto simp: msg_ok_def configured_def setup_ok_def)
  have e: "em_epoch m = el_epoch s" "odd (em_epoch m)" "el_electing_me s \<or> 0 \<le> el_leader_acked s"
    using p m(3) s by (auto simp: proposed_ok_def node_ok_def)
  define infos where "infos = map_put (el_peer_info s) (em_from m)
    \<lparr>cluster_features = em_con_features m, mon_features = em_mon_features m, mon_release = em_mon_release m\<rparr>"
  have keys: "fst ` set infos = insert (em_from m) (fst ` set (el_peer_info s))"
    using dom_map_of_conv_image_fst[of infos] dom_map_of_conv_image_fst[of "el_peer_info s"] by (simp add: infos_def)
  define u where "u = (if el_electing_me s then s\<lparr>el_peer_info := infos\<rparr> else s)"
  have n: "node_ok S i u" using s keys
    by (auto simp: node_ok_def configured_def vote_ok_def result_ok_def initialized_def u_def)
  have fu: "fine S P i s u" using n by (auto simp: fine_def u_def proposed_ok_def)
  have "okay S P i (receive_ack (em_from m) (em_epoch m)) u"
    using e f keys by (intro receive_ack_okay[OF S n]) (auto simp: u_def)
  moreover have "el_electing_me s \<longrightarrow> el_acked_me s \<subseteq> insert (em_from m) (fst ` set (el_peer_info s))"
    using s by (auto simp: node_ok_def vote_ok_def)
  then have "handle_ack m s = receive_ack (em_from m) (em_epoch m) u"
    using e feat keys by (simp add: handle_ack_def u_def flip: infos_def)
  ultimately show ?thesis using fine_trans[OF fu] by (auto simp: okay_def)
qed

lemma handle_victory_okay:
  assumes S: "setup_ok S" "i \<in> ranks S" and s: "node_ok S i s" "initialized s"
    and m: "msg_ok S Q i (Election m)" "em_op m = OP_VICTORY" "el_epoch s \<le> em_epoch m"
  shows "okay S P i (handle_victory m) s"
proof -
  have f: "even (em_epoch m)" "beats S (em_from m) i" "i \<in> em_quorum m" "quorum_ok S (em_from m) (em_quorum m)"
    using m by (simp_all add: msg_ok_def)
  show ?thesis
  proof (rule victory_claim_okay[where P=P, OF S s f(2,1) m(3)])
    fix s' assume "receive_victory_claim (em_from m) (em_epoch m) s = Some (False, s')" "fine S P i s s'"
    then show ?thesis by (simp add: okay_def handle_victory_def)
  next
    fix s' assume v: "receive_victory_claim (em_from m) (em_epoch m) s = Some (True, s')" "fine S P i s s'" "node_ok S i s'"
      "el_epoch s' = em_epoch m" "el_state s' = STATE_ELECTING" "\<not> el_electing_me s'"
    define u where "u = (lose_election (em_quorum m) (em_from m) (em_quorum_features m) (em_mon_features m) (em_mon_release m) s')
      \<lparr>el_expire_event := False\<rparr>"
    have "node_ok S i u" using v f
      by (auto simp: node_ok_def configured_def vote_ok_def result_ok_def initialized_def lose_election_def u_def)
    then have "fine S P i s' u" by (auto simp: fine_def u_def lose_election_def proposed_ok_def)
    moreover have "handle_victory m s = Some u" by (simp add: handle_victory_def v(1) u_def)
    ultimately show ?thesis using fine_trans[OF v(2)] by (simp add: okay_def)
  qed
qed

text \<open>What is left of the handling of a well-formed message, after its report was taken in.\<close>

definition handle_election :: "election_msg \<Rightarrow> elector \<Rightarrow> elector option" where
  "handle_election m s =
    (if em_op m = OP_PROPOSE then receive_propose (em_from m) (em_epoch m) (em_sharing m) s
     else if em_epoch m < el_epoch s then Some s
     else if em_op m = OP_ACK then handle_ack m s else handle_victory m s)"

lemma dispatch_election_eq:
  assumes S: "setup_ok S" "i \<in> ranks S" and s: "node_ok S i s" and p: "el_participating s" and m: "msg_ok S P i (Election m)"
  obtains u where "pinged s u" "dispatch_election now m s = handle_election m u"
proof -
  have c: "configured S i s" using s by (simp add: node_ok_def)
  have f: "em_strategy m = el_strategy s" "\<not> int (paxos_size s) \<le> em_from m" "em_op m \<noteq> OP_NAK"
    using m c ranks_cfg[OF S c] by (auto simp: msg_ok_def configured_def split: election_op.splits)
  obtain a where a: "assimilate_connection_reports (em_scoring m) s = Some a" "pinged s a"
    using pinged_assimilate by blast
  define u where "u = begin_peer_ping now (em_from m) a"
  have pu: "pinged s u" using pinged_trans[OF a(2) pinged_begin_peer_ping] by (simp add: u_def)
  have "handle_propose m u = receive_propose (em_from m) (em_epoch m) (em_sharing m) u" if "em_op m = OP_PROPOSE"
  proof -
    have "odd (em_epoch m)" "contains_all (em_mon_features m) (cf_required_mon_features (el_cfg u))"
      "\<not> em_mon_release m < cf_min_mon_release (el_cfg u)" "\<not> lacks (em_con_features m) (cf_required_features (el_cfg u))"
      using m c S that by (auto simp: msg_ok_def configured_def setup_ok_def pinged_part[OF pu] not_less)
    then show ?thesis by (simp add: handle_propose_def)
  qed
  then have "dispatch_election now m s = handle_election m u"
    using f p by (cases "em_op m") (simp_all add: dispatch_election_def handle_election_def a flip: u_def)
  with pu show ?thesis by (rule that)
qed

lemma dispatch_election_okay:
  assumes S: "setup_ok S" "i \<in> ranks S" and s: "node_ok S i s" "initialized s"
    and m: "msg_ok S (P(i := proposed_ok s)) i (Election m)"
  shows "okay S P i (dispatch_election now m) s"
proof (cases "el_participating s")
  case True
  obtain u where u: "pinged s u" "dispatch_election now m s = handle_election m u"
    using dispatch_election_eq[OF S s(1) True m] .
  then have fu: "fine S P i s u" and n: "node_ok S i u" using pinged_fine[OF s(1)] by (auto simp: fine_def)
  have iu: "initialized u" and mu: "msg_ok S (P(i := proposed_ok u)) i (Election m)"
    using s(2) msg_ok_mono[OF m] fu by (auto simp: initialized_def pinged_part[OF u(1)] fine_def split: if_splits)
  have "okay S P i (handle_election m) u"
  proof (cases "em_op m")
    case OP_PROPOSE
    then have "odd (em_epoch m)" "P (em_from m) (em_epoch m)" "em_from m \<in> ranks S" "em_from m \<noteq> i"
      using mu by (auto simp: msg_ok_def)
    then show ?thesis using receive_propose_okay[where P=P, OF S n iu] OP_PROPOSE by (simp add: handle_election_def okay_def)
  next
    case OP_ACK
    then show ?thesis using handle_ack_okay[OF S n iu mu] fine_refl[OF n] by (simp add: handle_election_def okay_def)
  next
    case OP_VICTORY
    then show ?thesis using handle_victory_okay[OF S n iu mu] fine_refl[OF n] by (simp add: handle_election_def okay_def)
  qed (use m in \<open>simp add: msg_ok_def\<close>)
  then show ?thesis using fine_trans[OF fu] u(2) by (auto simp: okay_def)
next
  case False
  then show ?thesis using fine_refl[OF s(1)] by (simp add: okay_def dispatch_election_def)
qed

lemma dispatch_okay:
  assumes S: "setup_ok S" "i \<in> ranks S" and s: "node_ok S i s" and m: "msg_ok S (P(i := proposed_ok s)) i m"
  shows "okay S P i (dispatch now m) s"
proof (cases m)
  case (Election e)
  have "el_state s \<noteq> STATE_SHUTDOWN \<and> el_state s \<noteq> STATE_SYNCHRONIZING" using s by (auto simp: node_ok_def result_ok_def)
  then show ?thesis using dispatch_election_okay[OF S s, of P e now] m Election fine_refl[OF s, of P]
    by (cases "el_state s = STATE_PROBING") (simp_all add: dispatch_def okay_def initialized_def)
next
  case (Ping p)
  then show ?thesis using pinged_handle_ping[of now p s] pinged_fine[OF s] s
    by (auto simp: dispatch_def okay_def node_ok_def result_ok_def)
qed

section \<open>The invariant\<close>

lemma restart_node:
  assumes S: "setup_ok S" "i \<in> ranks S" and c: "el_cfg s = es_cfg S i" "el_strategy s = es_strategy S" "el_disallowed_leaders s = es_disallowed S"
  obtains s' where "restart s = Some s'" "node_ok S i s'" "el_outbox s' = []" "el_epoch s' = 0" "el_store_epoch s' = el_store_epoch s"
proof -
  define u where "u = elector_rank_changed (get_my_rank s) (new_elector (el_cfg s) (el_strategy s) (el_disallowed_leaders s)
    (el_has_ever_joined s) (el_store_epoch s) (el_store_scores s))"
  have "paxos_size u = es_size S" using S c by (simp add: u_def elector_rank_changed_def new_elector_def Let_def setup_ok_def)
  then have r: "restart s = Some (u\<lparr>el_state := STATE_PROBING, el_quorum := {}\<rparr>)" (is "_ = Some ?u")
    using S(1) by (simp add: restart_def bootstrap_def mon_reset_def setup_ok_def flip: u_def)
  have "node_ok S i ?u" using c
    by (simp add: u_def elector_rank_changed_def new_elector_def Let_def node_ok_def configured_def vote_ok_def result_ok_def initialized_def)
  moreover have "el_outbox ?u = []" "el_epoch ?u = 0" "el_store_epoch ?u = el_store_epoch s"
    by (simp_all add: u_def elector_rank_changed_def new_elector_def Let_def)
  ultimately show ?thesis using r by (intro that)
qed

lemma restart_okay:
  assumes S: "setup_ok S" "i \<in> ranks S" and s: "node_ok S i s"
  shows "okay S P i restart s"
proof -
  obtain s' where s': "restart s = Some s'" "node_ok S i s'" "el_outbox s' = []" "el_epoch s' = 0" "el_store_epoch s' = el_store_epoch s"
    using restart_node[OF S] s by (auto simp: node_ok_def configured_def)
  have "proposed_ok s' e" if "proposed_ok s e" for e using that s'(4,5) by (cases "e = 0") (auto simp: proposed_ok_def)
  then show ?thesis using s' by (auto simp: okay_def fine_def)
qed

lemma bootstrap_okay:
  assumes S: "setup_ok S" "i \<in> ranks S" and s: "node_ok S i s"
  shows "okay S P i bootstrap s"
proof -
  define u where "u = s\<lparr>el_state := STATE_PROBING, el_quorum := {}\<rparr>"
  have "node_ok S i u" using s by (auto simp: u_def node_ok_def configured_def vote_ok_def result_ok_def initialized_def)
  then have "fine S P i s u" by (auto simp: fine_def u_def proposed_ok_def)
  moreover have "paxos_size s = es_size S" using ranks_cfg[OF S] s by (auto simp: node_ok_def)
  then have "bootstrap s = Some u" using S(1) by (simp add: bootstrap_def mon_reset_def setup_ok_def u_def)
  ultimately show ?thesis by (simp add: okay_def)
qed

lemma enter_okay:
  assumes S: "setup_ok S" "i \<in> ranks S" and s: "node_ok S i s"
  shows "okay S P i quorum_enter s"
proof -
  define u where "u = s\<lparr>el_participating := True, el_quorum := {}, el_state := STATE_ELECTING\<rparr>"
  have c: "configured S i u" using s by (simp add: node_ok_def configured_def u_def)
  obtain s' where s': "start u = Some s'" "started u s'" using start_eq[of u] by (auto simp: u_def)
  then have "fine S P i u s'" using started_fine[OF S c] by (simp add: u_def)
  then have "fine S P i s s'" by (simp add: fine_def u_def proposed_ok_def)
  then show ?thesis using s' by (simp add: okay_def quorum_enter_def start_election_def mon_reset_def u_def)
qed

lemma exit_okay:
  assumes S: "setup_ok S" "i \<in> ranks S" and s: "node_ok S i s"
  shows "okay S P i quorum_exit s"
proof -
  obtain s' where s': "start_election s = Some s'" "fine S P i s s'" "node_ok S i s'"
    using start_election_okay[OF S s, of P] by (rule okayE)
  have "initialized s'"
  proof (cases "el_participating s")
    case True
    let ?u = "s\<lparr>el_quorum := {}, el_state := STATE_ELECTING\<rparr>"
    obtain s'' where "start ?u = Some s''" "started ?u s''" using start_eq[of ?u] True by auto
    then have "started ?u s'" using s'(1) by (simp add: start_election_def mon_reset_def)
    then show ?thesis by (auto simp: started_def Let_def initialized_def)
  next
    case False
    then show ?thesis using s'(1) by (auto simp: start_election_def start_def mon_reset_def initialized_def)
  qed
  then have "node_ok S i (s'\<lparr>el_participating := False\<rparr>)" using s'(3)
    by (auto simp: node_ok_def configured_def vote_ok_def result_ok_def)
  moreover have "proposed_ok (s'\<lparr>el_participating := False\<rparr>) = proposed_ok s'" by (simp add: proposed_ok_def fun_eq_iff)
  ultimately have "fine S P i s (s'\<lparr>el_participating := False\<rparr>)" using s'(2) by (simp add: fine_def)
  then show ?thesis using s'(1) by (simp add: okay_def quorum_exit_def)
qed

text \<open>Every event that can happen in a well-formed cluster is handled.\<close>

lemma handle_okay:
  assumes S: "setup_ok S" and c: "cluster_ok S c" and ev: "target ev \<in> ranks S" "enabled ev c"
  shows "okay S (\<lambda>p. proposed_ok (mons c p)) (target ev) (handle ev) (mons c (target ev))"
proof -
  have n: "node_ok S (target ev) (mons c (target ev))" using c ev(1) by (simp add: cluster_ok_def)
  have eta: "handle ev = (\<lambda>s. handle ev s)" for ev by simp
  show ?thesis
  proof (cases ev)
    case (Deliver i m now)
    then have "msg_ok S ((\<lambda>p. proposed_ok (mons c p))(i := proposed_ok (mons c i))) i m"
      using c ev(2) by (auto simp: cluster_ok_def fun_upd_idem)
    then show ?thesis using dispatch_okay[OF S _ n[unfolded Deliver]] ev(1) Deliver by (simp add: okay_def)
  next
    case (Run_context i x now)
    then show ?thesis using run_context_okay[OF n] by (simp add: okay_def)
  qed (use ev n S in \<open>simp_all add: okay_def end_election_period_okay[unfolded okay_def] start_election_okay[unfolded okay_def]
    enter_okay[unfolded okay_def] exit_okay[unfolded okay_def] bootstrap_okay[unfolded okay_def] restart_okay[unfolded okay_def]\<close>)
qed

lemma cluster_ok_put:
  assumes c: "cluster_ok S c" "i \<in> ranks S" and s: "fine S (\<lambda>p. proposed_ok (mons c p)) i (mons c i) s"
  shows "cluster_ok S (put i s c)"
proof -
  let ?s = "s\<lparr>el_outbox := []\<rparr>"
  have p: "proposed_ok ?s = proposed_ok s" by (simp add: proposed_ok_def fun_eq_iff)
  have "pinged s ?s" by (simp add: pinged_def election_part_def)
  then have n: "node_ok S i ?s" using s pinged_fine unfolding fine_def by blast
  let ?P = "(\<lambda>q. proposed_ok (mons c q))(i := proposed_ok s)"
  have P: "(\<lambda>q. proposed_ok (mons (put i s c) q)) = ?P" using p by (auto simp: put_def fun_eq_iff)
  have "msg_ok S ?P to m" if "(to, m) \<in> net (put i s c)" for to m
  proof (cases "(to, m) \<in> net c")
    case True
    then have "msg_ok S (\<lambda>p. proposed_ok (mons c p)) to m" using c(1) by (auto simp: cluster_ok_def)
    then show ?thesis by (rule msg_ok_mono) (use s in \<open>auto simp: fine_def\<close>)
  next
    case False
    then have "(to, m) \<in> set (el_outbox s)" using that by (simp add: put_def)
    moreover have "el_outbox (mons c i) = []" using c by (simp add: cluster_ok_def)
    ultimately show ?thesis using s by (auto simp: fine_def)
  qed
  then show ?thesis using c(1) n unfolding cluster_ok_def P by (auto simp: put_def)
qed

lemma cluster_ok_step:
  assumes "setup_ok S" "cluster_ok S c" "cluster_step S c c'"
  shows "cluster_ok S c'"
  using assms(3)
proof cases
  case (step ev)
  then show ?thesis using handle_okay[OF assms(1,2) step(1,2)] cluster_ok_put[OF assms(2) step(1)]
    by (auto simp: okay_def run_event_def)
qed

lemma cluster_ok_initial:
  assumes "setup_ok S" "initial S c"
  shows "cluster_ok S c"
proof -
  have "node_ok S i (mons c i) \<and> el_outbox (mons c i) = []" if i: "i \<in> ranks S" for i
  proof -
    obtain j e where r: "restart (new_elector (es_cfg S i) (es_strategy S) (es_disallowed S) j e None) = Some (mons c i)"
      using assms(2) i unfolding initial_def by blast
    show ?thesis using restart_node[OF assms(1) i, of "new_elector (es_cfg S i) (es_strategy S) (es_disallowed S) j e None"] r
      by (auto simp: new_elector_def Let_def)
  qed
  then show ?thesis using assms(2) by (simp add: cluster_ok_def initial_def)
qed

lemma reachable_ok:
  assumes "setup_ok S" "reachable S c"
  shows "cluster_ok S c"
  using assms(2) by induction (use assms(1) cluster_ok_initial cluster_ok_step in blast)+

text \<open>Three monitors with empty stores.\<close>

definition demo_config :: "int \<Rightarrow> mon_config" where
  "demo_config i = \<lparr>cf_rank = i, cf_size = 3, cf_required_features = 1, cf_required_mon_features = 1, cf_min_mon_release = 1,
     cf_features_all = 3, cf_supported = 255, cf_release = 16, cf_half_life = 43200, cf_persist_interval = 10,
     cf_ignore_propose_margin = 1 / 10000, cf_ping_timeout = 2, cf_ping_divisor = 2\<rparr>"

definition demo_setup :: election_setup where
  "demo_setup = \<lparr>es_size = 3, es_strategy = CLASSIC, es_disallowed = {}, es_cfg = demo_config\<rparr>"

definition demo_start :: cluster where
  "demo_start = \<lparr>mons = (\<lambda>i. (elector_rank_changed i (new_elector (demo_config i) CLASSIC {} True 0 None))
     \<lparr>el_state := STATE_PROBING\<rparr>), net = {}\<rparr>"

lemma demo_setup_ok: "setup_ok demo_setup"
  by (simp add: setup_ok_def demo_setup_def demo_config_def lacks_def contains_all_def)

lemma demo_initial: "initial demo_setup demo_start"
  by (auto simp: initial_def demo_setup_def demo_start_def demo_config_def restart_def bootstrap_def mon_reset_def
      elector_rank_changed_def new_elector_def Let_def intro!: exI[of _ True] exI[of _ 0])



end
