(* ===== verification/Election_Progress.thy ===== *)
theory Election_Progress
  imports Election_System
begin

text \<open>
  Runs of a cluster: from every reachable state an election can be brought to an end with all monitors in
  the quorum of the one that should lead; a leader has a majority; and two monitors can lead in the same
  epoch.
\<close>


section \<open>An election that comes to an end\<close>

definition sent :: "cluster \<Rightarrow> int \<Rightarrow> int \<Rightarrow> election_op \<Rightarrow> nat \<Rightarrow> int set \<Rightarrow> bool" where
  "sent c i j op e q \<longleftrightarrow> (\<exists>m. (j, Election m) \<in> net c \<and> em_from m = i \<and> em_op m = op \<and> em_epoch m = e \<and> q \<subseteq> em_quorum m)"

lemma sent_put: "sent c i j op e q \<Longrightarrow> sent (put k s c) i j op e q"
  by (auto simp: sent_def put_def)

definition awake :: "elector \<Rightarrow> bool" where
  "awake s \<longleftrightarrow> el_state s = STATE_ELECTING \<and> el_participating s"

text \<open>Monitor \<open>i\<close> stands for election and has told everyone.\<close>

definition standing :: "election_setup \<Rightarrow> cluster \<Rightarrow> int \<Rightarrow> bool" where
  "standing S c i \<longleftrightarrow> awake (mons c i) \<and> el_expire_event (mons c i) \<and> el_electing_me (mons c i) \<and> el_acked_me (mons c i) = {i}
    \<and> (\<forall>j\<in>ranks S - {i}. sent c i j OP_PROPOSE (el_epoch (mons c i)) {})"

text \<open>Monitor \<open>i\<close> has given way to \<open>l\<close> in epoch \<open>e\<close>.\<close>

definition deferred :: "cluster \<Rightarrow> int \<Rightarrow> nat \<Rightarrow> int \<Rightarrow> bool" where
  "deferred c l e i \<longleftrightarrow> awake (mons c i) \<and> el_epoch (mons c i) = e \<and> sent c i l OP_ACK e {}"

text \<open>All monitors agree on the leader \<open>l\<close>, in epoch \<open>e\<close>, with everyone in the quorum.\<close>

definition elected :: "election_setup \<Rightarrow> int \<Rightarrow> nat \<Rightarrow> cluster \<Rightarrow> bool" where
  "elected S l e c \<longleftrightarrow> (\<forall>i\<in>ranks S. let s = mons c i in el_state s = (if i = l then STATE_LEADER else STATE_PEON)
    \<and> el_leader s = l \<and> el_epoch s = e \<and> el_quorum s = ranks S)"

lemma step_put:
  assumes "setup_ok S" "cluster_ok S c" "i \<in> ranks S" "handle ev (mons c i) = Some s" "target ev = i" "enabled ev c"
  shows "cluster_step S c (put i s c)" "cluster_ok S (put i s c)"
proof -
  have "run_event ev c = Some (put i s c)" using assms(4,5) by (simp add: run_event_def)
  then show "cluster_step S c (put i s c)" using assms(3,5,6) by (intro cluster_step.step) simp_all
  then show "cluster_ok S (put i s c)" using cluster_ok_step[OF assms(1,2)] by blast
qed

lemma mons_put: "mons (put i s c) j = (if j = i then s\<lparr>el_outbox := []\<rparr> else mons c j)"
  by (simp add: put_def)

lemma started_standing:
  assumes S: "setup_ok S" "i \<in> ranks S" and s: "configured S i s" "awake s" and s': "started s s'"
  shows "standing S (put i s' c) i \<and> el_epoch (mons (put i s' c) i) = next_epoch (el_store_epoch s)"
proof -
  define E where "E = next_epoch (el_store_epoch s)"
  obtain t sc st m where eq: "s' = s\<lparr>el_tracker := t, el_store_scores := sc, el_stable_tracker := st, el_leader_tracker := None,
      el_epoch := E, el_store_epoch := (if el_store_epoch s = 0 then 0 else E),
      el_quorum := (if el_store_epoch s = 0 then el_quorum s else {}),
      el_state := (if el_store_epoch s = 0 then el_state s else STATE_ELECTING),
      el_leader_acked := - 1, el_electing_me := True, el_acked_me := {i},
      el_peer_info := [(i, \<lparr>cluster_features = cf_features_all (el_cfg s), mon_features = cf_supported (el_cfg s),
                                        mon_release = cf_release (el_cfg s)\<rparr>)],
      el_expire_event := True, el_outbox := el_outbox s @ map (\<lambda>i. (i, Election m)) (peers s)\<rparr>"
    and m: "election_from s OP_PROPOSE E m"
    using s' unfolding started_def Let_def E_def[symmetric] ranks_cfg[OF S s(1)] by blast
  have "sent (put i s' c) i j OP_PROPOSE E {}" if "j \<in> ranks S - {i}" for j
    using that m set_peers[OF S s(1)] ranks_cfg[OF S s(1)]
    by (auto simp: sent_def put_def eq election_from_def intro!: exI[of _ m])
  then show ?thesis using s(2) by (auto simp: standing_def mons_put eq awake_def E_def)
qed

lemma standing_put: "standing S c i \<Longrightarrow> i \<noteq> j \<Longrightarrow> standing S (put j s c) i"
  by (auto simp: standing_def mons_put sent_put)

lemma deferred_put: "deferred c l e i \<Longrightarrow> i \<noteq> j \<Longrightarrow> deferred (put j s c) l e i"
  by (auto simp: deferred_def mons_put sent_put)

text \<open>A monitor enters.\<close>

lemma enter_step:
  assumes S: "setup_ok S" and c: "cluster_ok S c" "i \<in> ranks S"
  obtains s where "cluster_step S c (put i s c)" "cluster_ok S (put i s c)" "standing S (put i s c) i"
    "el_epoch (mons (put i s c) i) = next_epoch (el_store_epoch (mons c i))"
proof -
  define u where "u = (mons c i)\<lparr>el_participating := True, el_quorum := {}, el_state := STATE_ELECTING\<rparr>"
  have "node_ok S i (mons c i)" using c by (simp add: cluster_ok_def)
  then have cf: "configured S i u" by (simp add: node_ok_def configured_def u_def)
  obtain s where s: "start u = Some s" "started u s" using start_eq[of u] by (auto simp: u_def)
  then have h: "handle (Quorum_enter i) (mons c i) = Some s" by (simp add: quorum_enter_def start_election_def mon_reset_def u_def)
  then show ?thesis using step_put[OF S c h] started_standing[OF S c(2) cf _ s(2), of c] that[of s]
    by (simp add: awake_def u_def)
qed

text \<open>A set of monitors is brought to a state one after the other.\<close>

lemma one_by_one:
  assumes "finite B" "A \<inter> B = {}" "Q A c"
    and "\<And>A c i. Q A c \<Longrightarrow> i \<in> B - A \<Longrightarrow> \<exists>c'. (cluster_step S)\<^sup>*\<^sup>* c c' \<and> Q (insert i A) c'"
  shows "\<exists>c'. (cluster_step S)\<^sup>*\<^sup>* c c' \<and> Q (A \<union> B) c'"
proof -
  have "\<exists>c'. (cluster_step S)\<^sup>*\<^sup>* c c' \<and> Q (A \<union> X) c'" if "finite X" "X \<subseteq> B" for X
    using that
  proof (induction X)
    case (insert i X)
    then obtain c1 where c1: "(cluster_step S)\<^sup>*\<^sup>* c c1" "Q (A \<union> X) c1" by auto
    moreover have "i \<in> B - (A \<union> X)" using insert assms(2) by blast
    ultimately obtain c2 where "(cluster_step S)\<^sup>*\<^sup>* c1 c2" "Q (insert i (A \<union> X)) c2" using assms(4) by blast
    then show ?case using c1(1) by (metis Un_insert_right rtranclp_trans)
  qed (use assms(3) in auto)
  then show ?thesis using assms(1) by blast
qed

text \<open>Everyone enters.\<close>

lemma all_standing:
  assumes S: "setup_ok S" and c: "cluster_ok S c"
  shows "\<exists>c'. (cluster_step S)\<^sup>*\<^sup>* c c' \<and> cluster_ok S c' \<and> (\<forall>i\<in>ranks S. standing S c' i
    \<and> el_epoch (mons c' i) = next_epoch (el_store_epoch (mons c i)))"
proof -
  define Q where "Q A c1 \<longleftrightarrow> cluster_ok S c1 \<and> (\<forall>i\<in>A. standing S c1 i \<and> el_epoch (mons c1 i) = next_epoch (el_store_epoch (mons c i)))
    \<and> (\<forall>i. i \<notin> A \<longrightarrow> mons c1 i = mons c i)" for A c1
  have "\<exists>c'. (cluster_step S)\<^sup>*\<^sup>* c1 c' \<and> Q (insert i A) c'" if "Q A c1" "i \<in> ranks S - A" for A c1 i
  proof -
    have ok: "cluster_ok S c1" "i \<in> ranks S" "mons c1 i = mons c i" using that by (auto simp: Q_def)
    obtain s where s: "cluster_step S c1 (put i s c1)" "cluster_ok S (put i s c1)" "standing S (put i s c1) i"
      "el_epoch (mons (put i s c1) i) = next_epoch (el_store_epoch (mons c i))"
      using enter_step[OF S ok(1,2)] unfolding ok(3) .
    then have "Q (insert i A) (put i s c1)" using that standing_put[of S c1 _ i s] by (auto simp: Q_def mons_put)
    then show ?thesis using s(1) by blast
  qed
  moreover have "Q {} c" using c by (simp add: Q_def)
  ultimately have "\<exists>c'. (cluster_step S)\<^sup>*\<^sup>* c c' \<and> Q ({} \<union> ranks S) c'"
    using one_by_one[of "ranks S" "{}" Q c S] by simp
  then show ?thesis by (auto simp: Q_def)
qed

text \<open>A proposal of a later epoch from someone who should not lead: the monitor starts an election of its own.\<close>

lemma propose_wins:
  assumes S: "setup_ok S" "i \<in> ranks S" and s: "node_ok S i s" "awake s" "el_leader_acked s = - 1"
    and f: "beats S i from" "el_epoch s < e"
  obtains u s' where "receive_propose from e ct s = Some s'" "started u s'" "configured S i u" "awake u" "el_store_epoch u = e"
proof -
  obtain t sc where b: "bump_epoch e s = Some (s\<lparr>el_epoch := e, el_tracker := t, el_store_epoch := e, el_store_scores := sc,
      el_electing_me := False, el_acked_me := {}, el_quorum := {}, el_state := STATE_ELECTING\<rparr>)" (is "_ = Some ?s")
    using bump_epoch_eq[of s e] f(2) by auto
  define s1 where "s1 = ?s"
  define u where "u = s1\<lparr>el_quorum := {}, el_state := STATE_ELECTING\<rparr>"
  have c: "configured S i s" using s by (simp add: node_ok_def)
  note r = ranks_cfg[OF S c]
  have u: "configured S i u" "awake u" "el_store_epoch u = e" using c s(2) by (simp_all add: u_def s1_def configured_def awake_def)
  obtain s' where s': "start u = Some s'" "started u s'" using start_eq[of u] u(2) by (auto simp: awake_def)
  have st: "start_election s1 = Some s'" using s'(1) by (simp add: start_election_def mon_reset_def u_def)
  have l: "el_leader_acked s1 = - 1" "\<not> el_electing_me s1" "get_my_rank s1 = i" "el_disallowed_leaders s1 = es_disallowed S"
    using s(3) r c by (simp_all add: s1_def configured_def)
  have p: "propose_classic_prefix from e s = Some (False, s1)" using f(2) b by (simp add: propose_classic_prefix_def s1_def)
  have "propose_classic_handler from e s = Some s'" if "es_strategy S = CLASSIC"
    using f that by (simp add: propose_classic_handler_def p l st beats_def)
  moreover have "propose_disallow_handler from e s = Some s'" if "es_strategy S = DISALLOW"
    using f that by (simp add: propose_disallow_handler_def p l st beats_def)
  ultimately have "receive_propose from e ct s = Some s'"
    using S c r f(1) beats_not_refl[of S i] by (cases "es_strategy S") (auto simp: receive_propose_def configured_def setup_ok_def)
  then show ?thesis using that s'(2) u by blast
qed

text \<open>A proposal of the same or a later epoch from someone who should lead: the monitor gives way.\<close>

lemma propose_defers:
  assumes S: "setup_ok S" "i \<in> ranks S" and s: "node_ok S i s" "awake s" "el_leader_acked s < 0 \<or> from \<le> el_leader_acked s"
    and f: "beats S from i" "el_epoch s \<le> e"
  obtains s' m where "receive_propose from e ct s = Some s'" "awake s'" "el_epoch s' = e" "el_leader_acked s' = from"
    "(from, Election m) \<in> set (el_outbox s')" "em_from m = i" "em_op m = OP_ACK" "em_epoch m = e"
proof -
  have c: "configured S i s" using s by (simp add: node_ok_def)
  note r = ranks_cfg[OF S c]
  obtain s1 where p: "propose_classic_prefix from e s = Some (False, s1)"
    and s1: "configured S i s1" "awake s1" "el_leader_acked s1 < 0 \<or> from \<le> el_leader_acked s1" "el_epoch s1 = e" "el_electing_me s1 \<or> el_acked_me s1 = {}"
  proof (cases "el_epoch s < e")
    case True
    then obtain t sc where b: "bump_epoch e s = Some (s\<lparr>el_epoch := e, el_tracker := t, el_store_epoch := e, el_store_scores := sc,
        el_electing_me := False, el_acked_me := {}, el_quorum := {}, el_state := STATE_ELECTING\<rparr>)" (is "_ = Some ?s")
      using bump_epoch_eq[of s e] by auto
    have "configured S i ?s" "awake ?s" using c s(2) by (simp_all add: configured_def awake_def)
    then show ?thesis using True b s(3) by (intro that[of ?s]) (simp_all add: propose_classic_prefix_def)
  next
    case False
    then have "el_electing_me s \<or> el_acked_me s = {}" using s(1) by (auto simp: node_ok_def vote_ok_def split: if_splits)
    then show ?thesis using False f(2) c s by (intro that[of s]) (simp_all add: propose_classic_prefix_def)
  qed
  note r1 = ranks_cfg[OF S s1(1)]
  have cfg1: "el_strategy s1 = es_strategy S" "el_disallowed_leaders s1 = es_disallowed S" using s1(1) by (simp_all add: configured_def)
  have pre: "if el_strategy s1 = CLASSIC then from < get_my_rank s1 else from \<notin> el_disallowed_leaders s1"
    using f(1) by (simp add: cfg1 r1 beats_def split: if_splits)
  obtain t m where d0: "defer_to from s1 = Some (s1\<lparr>el_tracker := t, el_electing_me := False, el_acked_me := {},
      el_leader_acked := from, el_expire_event := True, el_outbox := el_outbox s1 @ [(from, Election m)]\<rparr>)" (is "_ = Some ?s")
    and m0: "election_from s1 OP_ACK (el_epoch s1) m" using defer_to_eq[OF pre s1(5)] by blast
  define s' where "s' = ?s"
  have d: "defer_to from s1 = Some s'" and s': "awake s'" "el_epoch s' = e" "el_leader_acked s' = from"
    "(from, Election m) \<in> set (el_outbox s')" and m: "em_from m = i" "em_op m = OP_ACK" "em_epoch m = e"
    using d0 m0 s1(2,4) r1 by (simp_all add: awake_def election_from_def s'_def)
  have "from < i" if "es_strategy S = CLASSIC" using f(1) that by (simp add: beats_def)
  then have "propose_classic_handler from e s = Some s'" if "es_strategy S = CLASSIC"
    using that s1(3) by (auto simp: propose_classic_handler_def p r1 d)
  moreover have "from \<notin> es_disallowed S \<and> (from < i \<or> i \<in> es_disallowed S)" if "es_strategy S = DISALLOW"
    using f(1) that by (simp add: beats_def)
  then have "propose_disallow_handler from e s = Some s'" if "es_strategy S = DISALLOW"
    using that s1(3) by (auto simp: propose_disallow_handler_def p r1 cfg1 d Let_def)
  ultimately have "receive_propose from e ct s = Some s'"
    using S c r f(1) beats_not_refl[of S i] by (cases "es_strategy S") (auto simp: receive_propose_def configured_def setup_ok_def)
  then show ?thesis using m s' by (intro that)
qed

text \<open>Delivery of a message to a monitor that is awake.\<close>

lemma deliver:
  assumes S: "setup_ok S" and c: "cluster_ok S c" and i: "i \<in> ranks S" "awake (mons c i)" and m: "(i, Election m) \<in> net c"
  obtains u where "pinged (mons c i) u" "node_ok S i u" "handle (Deliver i (Election m) now) (mons c i) = handle_election m u"
    "msg_ok S (\<lambda>p. proposed_ok (mons c p)) i (Election m)"
proof -
  have n: "node_ok S i (mons c i)" and mm: "msg_ok S (\<lambda>p. proposed_ok (mons c p)) i (Election m)"
    using c i m by (auto simp: cluster_ok_def)
  obtain u where "pinged (mons c i) u" "dispatch_election now m (mons c i) = handle_election m u"
    using dispatch_election_eq[OF S i(1) n _ mm] i(2) by (auto simp: awake_def)
  then show ?thesis using that n pinged_fine[OF n] i(2) mm by (auto simp: dispatch_def awake_def fine_def)
qed

text \<open>The monitor that should lead gets an epoch that no other has passed.\<close>

lemma leader_stands_highest:
  assumes S: "setup_ok S" and c: "cluster_ok S c" "\<forall>i\<in>ranks S. standing S c i" and l: "l \<in> ranks S" "\<forall>j\<in>ranks S - {l}. beats S l j"
  shows "\<exists>c'. (cluster_step S)\<^sup>*\<^sup>* c c' \<and> cluster_ok S c' \<and> (\<forall>i\<in>ranks S. standing S c' i \<and> el_epoch (mons c' i) \<le> el_epoch (mons c' l))"
proof -
  let ?ep = "\<lambda>i. el_epoch (mons c i)"
  obtain k where k: "k \<in> ranks S" "\<forall>i\<in>ranks S. ?ep i \<le> ?ep k"
    using Max_in[of "?ep ` ranks S"] Max_ge[of "?ep ` ranks S"] l(1) by fastforce
  show ?thesis
  proof (cases "?ep k \<le> ?ep l")
    case True
    then show ?thesis using c k by (intro exI[of _ c]) (auto intro: le_trans)
  next
    case False
    then have kl: "k \<noteq> l" by auto
    then obtain m where m: "(l, Election m) \<in> net c" "em_from m = k" "em_op m = OP_PROPOSE" "em_epoch m = ?ep k"
      using c(2) k(1) l(1) unfolding standing_def sent_def by blast
    have aw: "awake (mons c l)" "el_electing_me (mons c l)" using c(2) l(1) by (auto simp: standing_def)
    obtain u where u: "pinged (mons c l) u" "node_ok S l u" "handle (Deliver l (Election m) 0) (mons c l) = handle_election m u"
      using deliver[OF S c(1) l(1) aw(1) m(1)] by blast
    have "awake u" "el_leader_acked u = - 1" "el_epoch u < ?ep k"
      using aw u(2) False by (auto simp: awake_def pinged_part[OF u(1)] node_ok_def vote_ok_def)
    moreover have "beats S l k" using l(2) k kl by blast
    ultimately obtain v s' where s': "receive_propose k (?ep k) (em_sharing m) u = Some s'" "started v s'" "configured S l v" "awake v"
      "el_store_epoch v = ?ep k" using propose_wins[OF S l(1) u(2)] by blast
    have h: "handle (Deliver l (Election m) 0) (mons c l) = Some s'" using u(3) m s'(1) by (simp add: handle_election_def)
    have st: "standing S (put l s' c) l" "el_epoch (mons (put l s' c) l) = next_epoch (?ep k)"
      using started_standing[OF S l(1) s'(3,4,2)] s'(5) by auto
    have "?ep k \<le> next_epoch (?ep k)" by (simp add: next_epoch_def)
    then have "\<forall>i\<in>ranks S. standing S (put l s' c) i \<and> el_epoch (mons (put l s' c) i) \<le> el_epoch (mons (put l s' c) l)"
      using st c(2) k(2) standing_put[of S c _ l s'] by (auto simp: mons_put intro: le_trans)
    then show ?thesis using step_put[OF S c(1) l(1) h] m(1) by (intro exI[of _ "put l s' c"]) auto
  qed
qed

text \<open>A monitor gives way to one that should lead.\<close>

lemma defer_step:
  assumes S: "setup_ok S" and c: "cluster_ok S c" "i \<in> ranks S" "awake (mons c i)" "el_epoch (mons c i) \<le> e"
    "el_leader_acked (mons c i) < 0 \<or> l \<le> el_leader_acked (mons c i)" and l: "beats S l i" "sent c l i OP_PROPOSE e {}"
  obtains s where "cluster_step S c (put i s c)" "cluster_ok S (put i s c)" "deferred (put i s c) l e i"
    "el_leader_acked (mons (put i s c) i) = l"
proof -
  obtain m where m: "(i, Election m) \<in> net c" "em_from m = l" "em_op m = OP_PROPOSE" "em_epoch m = e"
    using l(2) unfolding sent_def by blast
  obtain u where u: "pinged (mons c i) u" "node_ok S i u" "handle (Deliver i (Election m) 0) (mons c i) = handle_election m u"
    using deliver[OF S c(1-3) m(1)] by blast
  have "awake u" "el_leader_acked u < 0 \<or> l \<le> el_leader_acked u" "el_epoch u \<le> e"
    using c by (simp_all add: awake_def pinged_part[OF u(1)])
  then obtain s a where s: "receive_propose l e (em_sharing m) u = Some s" "awake s" "el_epoch s = e" "el_leader_acked s = l"
    "(l, Election a) \<in> set (el_outbox s)" "em_from a = i" "em_op a = OP_ACK" "em_epoch a = e"
    using propose_defers[OF S c(2) u(2)] l(1) by blast
  have h: "handle (Deliver i (Election m) 0) (mons c i) = Some s" using u(3) m s(1) by (simp add: handle_election_def)
  have "deferred (put i s c) l e i" using s(2-) by (auto simp: deferred_def sent_def mons_put awake_def put_def)
  then show ?thesis using step_put[OF S c(1,2) h] m(1) s(4) that[of s] by (simp add: mons_put)
qed

text \<open>Everyone else gives way to it.\<close>

lemma all_deferred:
  assumes S: "setup_ok S" and l: "l \<in> ranks S" "\<forall>j\<in>ranks S - {l}. beats S l j"
    and c: "cluster_ok S c" "\<forall>i\<in>ranks S. standing S c i \<and> el_epoch (mons c i) \<le> e" "el_epoch (mons c l) = e"
  shows "\<exists>c'. (cluster_step S)\<^sup>*\<^sup>* c c' \<and> cluster_ok S c' \<and> standing S c' l \<and> el_epoch (mons c' l) = e
    \<and> (\<forall>i\<in>ranks S - {l}. deferred c' l e i)"
proof -
  define Q where "Q A c \<longleftrightarrow> cluster_ok S c \<and> standing S c l \<and> el_epoch (mons c l) = e \<and> (\<forall>i\<in>A - {l}. deferred c l e i)
    \<and> (\<forall>i\<in>ranks S - A. standing S c i \<and> el_epoch (mons c i) \<le> e)" for A c
  have "\<exists>c'. (cluster_step S)\<^sup>*\<^sup>* c c' \<and> Q (insert i A) c'" if "Q A c" "i \<in> (ranks S - {l}) - A" for A c i
  proof -
    have q: "cluster_ok S c" "i \<in> ranks S" "i \<noteq> l" "standing S c i" "el_epoch (mons c i) \<le> e" "standing S c l" "el_epoch (mons c l) = e"
      using that by (auto simp: Q_def)
    have "el_leader_acked (mons c i) < 0" using q(1,2,4) by (auto simp: cluster_ok_def node_ok_def vote_ok_def standing_def)
    moreover have "beats S l i" "sent c l i OP_PROPOSE e {}" "awake (mons c i)" using l(2) q by (auto simp: standing_def)
    ultimately obtain s where s: "cluster_step S c (put i s c)" "cluster_ok S (put i s c)" "deferred (put i s c) l e i"
      using defer_step[OF S q(1,2) _ q(5)] by blast
    then have "Q (insert i A) (put i s c)"
      using that q standing_put[of S c _ i s] deferred_put[of c l e _ i s] by (auto simp: Q_def mons_put)
    then show ?thesis using s(1) by blast
  qed
  moreover have "Q {} c" using c l by (auto simp: Q_def)
  ultimately have "\<exists>c'. (cluster_step S)\<^sup>*\<^sup>* c c' \<and> Q ({} \<union> (ranks S - {l})) c'"
    using one_by_one[of "ranks S - {l}" "{}" Q c S] by simp
  then show ?thesis unfolding Q_def by auto
qed

text \<open>An acknowledgement is counted, and the last one wins the election.\<close>

lemma ack_counts:
  assumes S: "setup_ok S" "i \<in> ranks S" and s: "node_ok S i s" "awake s" "el_electing_me s"
    and m: "msg_ok S P i (Election m)" "em_op m = OP_ACK" "em_epoch m = el_epoch s"
  obtains s' where "handle_ack m s = Some s'" "insert (em_from m) (el_acked_me s) \<noteq> ranks S" "awake s'" "el_electing_me s'"
      "el_expire_event s' = el_expire_event s" "el_epoch s' = el_epoch s" "el_acked_me s' = insert (em_from m) (el_acked_me s)"
  | s' v where "handle_ack m s = Some s'" "insert (em_from m) (el_acked_me s) = ranks S" "el_state s' = STATE_LEADER"
      "el_leader s' = i" "el_epoch s' = el_epoch s + 1" "el_quorum s' = ranks S" "em_from v = i" "em_op v = OP_VICTORY"
      "em_epoch v = el_epoch s + 1" "em_quorum v = ranks S" "\<forall>j\<in>ranks S - {i}. (j, Election v) \<in> set (el_outbox s')"
proof -
  have c: "configured S i s" and v: "vote_ok S i s" using s by (simp_all add: node_ok_def)
  have o: "odd (el_epoch s)" "el_acked_me s \<subseteq> ranks S" "el_acked_me s \<subseteq> fst ` set (el_peer_info s)"
    using v s(3) by (simp_all add: vote_ok_def)
  have feat: "em_from m \<in> ranks S" "\<not> lacks (em_con_features m) (cf_required_features (el_cfg s))"
      "contains_all (em_mon_features m) (cf_required_mon_features (el_cfg s))"
    using m c S by (auto simp: msg_ok_def configured_def setup_ok_def)
  define infos where "infos = map_put (el_peer_info s) (em_from m)
    \<lparr>cluster_features = em_con_features m, mon_features = em_mon_features m, mon_release = em_mon_release m\<rparr>"
  have keys: "fst ` set infos = insert (em_from m) (fst ` set (el_peer_info s))"
    using dom_map_of_conv_image_fst[of infos] dom_map_of_conv_image_fst[of "el_peer_info s"] by (simp add: infos_def)
  define A where "A = insert (em_from m) (el_acked_me s)"
  define u where "u = s\<lparr>el_peer_info := infos, el_acked_me := A\<rparr>"
  have sub: "A \<subseteq> ranks S" "A \<subseteq> fst ` set infos" using o feat keys by (auto simp: A_def)
  have "el_acked_me s \<subseteq> insert (em_from m) (fst ` set (el_peer_info s))" using o(3) by blast
  then have h: "handle_ack m s = (if card A = es_size S then declare_victory u else Some u)"
    using m s(3) feat keys o(1) ranks_cfg[OF S c] by (simp add: handle_ack_def receive_ack_def A_def u_def flip: infos_def)
  show ?thesis
  proof (cases "A = ranks S")
    case True
    have pre: "odd (el_epoch u)" "el_acked_me u \<subseteq> fst ` set (el_peer_info u)" using o(1) sub(2) by (simp_all add: u_def)
    obtain t sc st w cf mf rel where d: "declare_victory u = Some (u\<lparr>el_tracker := t, el_store_scores := sc, el_stable_tracker := st,
      el_leader_tracker := None, el_last_election_winner := get_my_rank u, el_last_voted_for := get_my_rank u,
      el_leader_acked := - 1, el_electing_me := False, el_acked_me := {}, el_epoch := el_epoch u + 1,
      el_store_epoch := el_epoch u + 1, el_expire_event := False,
      el_outbox := el_outbox u @ map (\<lambda>i. (i, Election w)) (filter (\<lambda>i. i \<noteq> get_my_rank u) (sorted_list_of_set (el_acked_me u))),
      el_state := STATE_LEADER, el_leader := get_my_rank u, el_quorum := el_acked_me u,
      el_quorum_con_features := cf, el_quorum_mon_features := mf, el_quorum_min_release := rel\<rparr>)" (is "_ = Some ?s")
      and w: "election_from u OP_VICTORY (el_epoch u + 1) w" "em_quorum w = el_acked_me u"
      using declare_victory_eq[OF pre] by blast
    have "handle_ack m s = Some ?s" using h True d by simp
    then show ?thesis using w True ranks_cfg[OF S c]
      by (intro that(2)[of ?s w]) (simp_all add: u_def election_from_def A_def)
  next
    case False
    then have "card A \<noteq> es_size S" using sub(1) card_subset_eq[of "ranks S" A] by auto
    then show ?thesis using h False s by (intro that(1)[of u]) (simp_all add: u_def awake_def A_def)
  qed
qed

text \<open>The victory of the epoch that a monitor has voted in is accepted.\<close>

lemma victory_accepted:
  assumes S: "setup_ok S" "i \<in> ranks S" and s: "node_ok S i s"
    and m: "msg_ok S P i (Election m)" "em_op m = OP_VICTORY" "em_epoch m = el_epoch s + 1"
  obtains s' where "handle_victory m s = Some s'" "el_state s' = STATE_PEON" "el_leader s' = em_from m" "el_epoch s' = em_epoch m"
    "el_quorum s' = em_quorum m"
proof -
  have c: "configured S i s" using s by (simp add: node_ok_def)
  have "beats S (em_from m) i" using m by (simp add: msg_ok_def)
  then have v: "victory_makes_sense (em_from m) s = Some True" using c S
    by (cases "es_strategy S") (auto simp: victory_makes_sense_def beats_def configured_def setup_ok_def)
  define u where "u = clear_live_election_state (s\<lparr>el_last_election_winner := em_from m, el_last_voted_for := el_leader_acked s\<rparr>)"
  have e: "el_epoch u = el_epoch s" by (simp add: u_def clear_live_election_state_def reset_stable_tracker_def)
  obtain s1 where b: "bump_epoch (em_epoch m) u = Some s1" using bump_epoch_eq[of u "em_epoch m"] m(3) e by auto
  then have "handle_victory m s = Some ((lose_election (em_quorum m) (em_from m) (em_quorum_features m) (em_mon_features m)
      (em_mon_release m) s1)\<lparr>el_expire_event := False\<rparr>)"
    using m(3) e by (simp add: handle_victory_def receive_victory_claim_def v flip: u_def)
  then show ?thesis by (rule that) (simp_all add: lose_election_def bump_epoch_result(1)[OF b])
qed

lemma ack_step:
  assumes S: "setup_ok S" and c: "cluster_ok S c" "l \<in> ranks S" "awake (mons c l)" "el_electing_me (mons c l)"
    and e: "el_epoch (mons c l) = e" "sent c i l OP_ACK e {}" and A: "insert i (el_acked_me (mons c l)) = A"
  obtains s where "cluster_step S c (put l s c)" "cluster_ok S (put l s c)"
    "if A = ranks S
     then el_state s = STATE_LEADER \<and> el_leader s = l \<and> el_epoch s = e + 1 \<and> el_quorum s = ranks S
       \<and> (\<forall>j\<in>ranks S - {l}. sent (put l s c) l j OP_VICTORY (e + 1) (ranks S))
     else awake s \<and> el_electing_me s \<and> el_expire_event s = el_expire_event (mons c l) \<and> el_epoch s = e \<and> el_acked_me s = A"
proof -
  obtain m where m: "(l, Election m) \<in> net c" "em_from m = i" "em_op m = OP_ACK" "em_epoch m = e"
    using e(2) unfolding sent_def by blast
  obtain u where u: "pinged (mons c l) u" "node_ok S l u" "handle (Deliver l (Election m) 0) (mons c l) = handle_election m u"
    "msg_ok S (\<lambda>p. proposed_ok (mons c p)) l (Election m)" using deliver[OF S c(1-3) m(1)] by blast
  have v: "awake u" "el_electing_me u" "em_epoch m = el_epoch u"
    using c e m(4) by (simp_all add: awake_def pinged_part[OF u(1)])
  have A': "insert (em_from m) (el_acked_me u) = A" "el_epoch u = e" using A m(2) e(1) by (simp_all add: pinged_part[OF u(1)])
  have h: "handle (Deliver l (Election m) 0) (mons c l) = handle_ack m u" using u(3) v(3) m(3) by (simp add: handle_election_def)
  have st: "cluster_step S c (put l s c)" "cluster_ok S (put l s c)" if "handle_ack m u = Some s" for s
    using step_put[OF S c(1,2) h[unfolded that]] m(1) by simp_all
  show ?thesis
  proof (rule ack_counts[OF S c(2) u(2) v(1,2) u(4) m(3) v(3)], unfold A')
    fix s assume s: "handle_ack m u = Some s" "A \<noteq> ranks S" "awake s" "el_electing_me s" "el_expire_event s = el_expire_event u"
      "el_epoch s = e" "el_acked_me s = A"
    then show ?thesis by (intro that[OF st[OF s(1)]]) (simp add: pinged_part[OF u(1)])
  next
    fix s w assume s: "handle_ack m u = Some s" "A = ranks S" "el_state s = STATE_LEADER" "el_leader s = l" "el_epoch s = e + 1"
      "el_quorum s = ranks S" "em_from w = l" "em_op w = OP_VICTORY" "em_epoch w = e + 1" "em_quorum w = ranks S"
      "\<forall>j\<in>ranks S - {l}. (j, Election w) \<in> set (el_outbox s)"
    then have "sent (put l s c) l j OP_VICTORY (e + 1) (ranks S)" if "j \<in> ranks S - {l}" for j
      using that by (auto simp: sent_def put_def intro!: exI[of _ w])
    then show ?thesis using s(2-6) by (intro that[OF st[OF s(1)]]) simp
  qed
qed

lemma leader_wins:
  assumes S: "setup_ok S" and l: "l \<in> ranks S"
    and c: "cluster_ok S c" "standing S c l" "el_epoch (mons c l) = e" "\<forall>i\<in>ranks S - {l}. deferred c l e i"
  shows "\<exists>c'. (cluster_step S)\<^sup>*\<^sup>* c c' \<and> cluster_ok S c' \<and> el_state (mons c' l) = STATE_LEADER \<and> el_leader (mons c' l) = l
    \<and> el_epoch (mons c' l) = e + 1 \<and> el_quorum (mons c' l) = ranks S
    \<and> (\<forall>i\<in>ranks S - {l}. awake (mons c' i) \<and> el_epoch (mons c' i) = e \<and> sent c' l i OP_VICTORY (e + 1) (ranks S))"
proof -
  define Q where "Q A c \<longleftrightarrow> cluster_ok S c \<and> (\<forall>i\<in>ranks S - {l}. deferred c l e i)
    \<and> (if insert l A = ranks S
       then el_state (mons c l) = STATE_LEADER \<and> el_leader (mons c l) = l \<and> el_epoch (mons c l) = e + 1
         \<and> el_quorum (mons c l) = ranks S \<and> (\<forall>i\<in>ranks S - {l}. sent c l i OP_VICTORY (e + 1) (ranks S))
       else awake (mons c l) \<and> el_electing_me (mons c l) \<and> el_epoch (mons c l) = e \<and> el_acked_me (mons c l) = insert l A)" for A c
  have "\<exists>c'. (cluster_step S)\<^sup>*\<^sup>* c c' \<and> Q (insert i A) c'" if "Q A c" "i \<in> (ranks S - {l}) - A" for A c i
  proof -
    have ne: "insert l A \<noteq> ranks S" using that by blast
    then have q: "cluster_ok S c" "awake (mons c l)" "el_electing_me (mons c l)" "el_epoch (mons c l) = e"
      "el_acked_me (mons c l) = insert l A" "deferred c l e i" "\<forall>i\<in>ranks S - {l}. deferred c l e i"
      using that by (auto simp: Q_def)
    then have a: "sent c i l OP_ACK e {}" by (simp add: deferred_def)
    obtain s where s: "cluster_step S c (put l s c)" "cluster_ok S (put l s c)"
      "if insert i (insert l A) = ranks S
       then el_state s = STATE_LEADER \<and> el_leader s = l \<and> el_epoch s = e + 1 \<and> el_quorum s = ranks S
         \<and> (\<forall>j\<in>ranks S - {l}. sent (put l s c) l j OP_VICTORY (e + 1) (ranks S))
       else awake s \<and> el_electing_me s \<and> el_expire_event s = el_expire_event (mons c l) \<and> el_epoch s = e
         \<and> el_acked_me s = insert i (insert l A)"
      using ack_step[OF S q(1) l q(2-4) a] unfolding q(5) by blast
    have "\<forall>j\<in>ranks S - {l}. deferred (put l s c) l e j" using q(7) deferred_put by blast
    then have "Q (insert i A) (put l s c)" using s(2,3) unfolding Q_def
      by (simp add: mons_put awake_def insert_commute[of l i] split: if_splits)
    then show ?thesis using s(1) by blast
  qed
  moreover have "{l} \<noteq> ranks S"
  proof
    assume "{l} = ranks S"
    then have "card (ranks S) = 1" by (metis card_1_singleton_iff One_nat_def)
    then show False using S by (simp add: setup_ok_def)
  qed
  then have "Q {} c" using c by (simp add: Q_def standing_def)
  ultimately have "\<exists>c'. (cluster_step S)\<^sup>*\<^sup>* c c' \<and> Q ({} \<union> (ranks S - {l})) c'"
    using one_by_one[of "ranks S - {l}" "{}" Q c S] by simp
  moreover have "insert l (ranks S - {l}) = ranks S" using l by blast
  ultimately show ?thesis unfolding Q_def deferred_def by auto
qed

lemma all_follow:
  assumes S: "setup_ok S" and l: "l \<in> ranks S"
    and c: "cluster_ok S c" "el_state (mons c l) = STATE_LEADER" "el_leader (mons c l) = l" "el_epoch (mons c l) = e + 1"
      "el_quorum (mons c l) = ranks S"
      "\<forall>i\<in>ranks S - {l}. awake (mons c i) \<and> el_epoch (mons c i) = e \<and> sent c l i OP_VICTORY (e + 1) (ranks S)"
  shows "\<exists>c'. (cluster_step S)\<^sup>*\<^sup>* c c' \<and> elected S l (e + 1) c'"
proof -
  let ?follows = "\<lambda>c i. el_state (mons c i) = STATE_PEON \<and> el_leader (mons c i) = l \<and> el_epoch (mons c i) = e + 1 \<and> el_quorum (mons c i) = ranks S"
  let ?leads = "\<lambda>c. el_state (mons c l) = STATE_LEADER \<and> el_leader (mons c l) = l \<and> el_epoch (mons c l) = e + 1 \<and> el_quorum (mons c l) = ranks S"
  define Q where "Q A c \<longleftrightarrow> cluster_ok S c \<and> ?leads c \<and> (\<forall>i\<in>A. ?follows c i)
    \<and> (\<forall>i\<in>(ranks S - {l}) - A. awake (mons c i) \<and> el_epoch (mons c i) = e \<and> sent c l i OP_VICTORY (e + 1) (ranks S))" for A c
  have "\<exists>c'. (cluster_step S)\<^sup>*\<^sup>* c c' \<and> Q (insert i A) c'" if "Q A c" "i \<in> (ranks S - {l}) - A" for A c i
  proof -
    have q: "cluster_ok S c" "i \<in> ranks S" "i \<noteq> l" "awake (mons c i)" "el_epoch (mons c i) = e" "sent c l i OP_VICTORY (e + 1) (ranks S)"
      using that by (auto simp: Q_def)
    obtain m where m: "(i, Election m) \<in> net c" "em_from m = l" "em_op m = OP_VICTORY" "em_epoch m = e + 1" "ranks S \<subseteq> em_quorum m"
      using q(6) unfolding sent_def by blast
    obtain u where u: "pinged (mons c i) u" "node_ok S i u" "handle (Deliver i (Election m) 0) (mons c i) = handle_election m u"
      "msg_ok S (\<lambda>p. proposed_ok (mons c p)) i (Election m)"
      using deliver[OF S q(1,2,4) m(1)] by blast
    have v: "em_epoch m = el_epoch u + 1" using q(5) m(4) by (simp add: pinged_part[OF u(1)])
    have em: "em_quorum m = ranks S" using u(4) m(3,5) by (auto simp: msg_ok_def quorum_ok_def)
    obtain s' where s': "handle_victory m u = Some s'" "el_state s' = STATE_PEON" "el_leader s' = em_from m" "el_epoch s' = em_epoch m"
      "el_quorum s' = em_quorum m" using victory_accepted[OF S q(2) u(2,4) m(3) v] by blast
    have h: "handle (Deliver i (Election m) 0) (mons c i) = Some s'" using u(3) v m(3) s'(1) by (simp add: handle_election_def)
    have "Q (insert i A) (put i s' c)"
      using that q(3) s'(2-) m(2,4) em step_put(2)[OF S q(1,2) h] m(1) by (auto simp: Q_def mons_put sent_put)
    then show ?thesis using step_put(1)[OF S q(1,2) h] m(1) by auto
  qed
  moreover have "Q {} c" using c by (simp add: Q_def)
  ultimately have "\<exists>c'. (cluster_step S)\<^sup>*\<^sup>* c c' \<and> Q ({} \<union> (ranks S - {l})) c'"
    using one_by_one[of "ranks S - {l}" "{}" Q c S] by simp
  then show ?thesis unfolding Q_def elected_def Let_def by fastforce
qed

lemma election_run:
  assumes "setup_ok S" "cluster_ok S c" "l \<in> ranks S" "\<forall>j\<in>ranks S - {l}. beats S l j"
  shows "\<exists>c' e. (cluster_step S)\<^sup>*\<^sup>* c c' \<and> even e \<and> elected S l e c'"
proof -
  obtain c1 where c1: "(cluster_step S)\<^sup>*\<^sup>* c c1" "cluster_ok S c1" "\<forall>i\<in>ranks S. standing S c1 i"
    using all_standing[OF assms(1,2)] by blast
  obtain c2 where c2: "(cluster_step S)\<^sup>*\<^sup>* c1 c2" "cluster_ok S c2"
    "\<forall>i\<in>ranks S. standing S c2 i \<and> el_epoch (mons c2 i) \<le> el_epoch (mons c2 l)"
    using leader_stands_highest[OF assms(1) c1(2,3) assms(3,4)] by blast
  define e where "e = el_epoch (mons c2 l)"
  obtain c3 where c3: "(cluster_step S)\<^sup>*\<^sup>* c2 c3" "cluster_ok S c3" "standing S c3 l" "el_epoch (mons c3 l) = e"
    "\<forall>i\<in>ranks S - {l}. deferred c3 l e i"
    using all_deferred[OF assms(1,3,4) c2(2,3)] by (auto simp: e_def)
  have "vote_ok S l (mons c3 l)" using c3(2) assms(3) by (simp add: cluster_ok_def node_ok_def)
  then have "odd e" using c3(3,4) by (auto simp: vote_ok_def standing_def)
  obtain c4 where c4: "(cluster_step S)\<^sup>*\<^sup>* c3 c4" "cluster_ok S c4" "el_state (mons c4 l) = STATE_LEADER" "el_leader (mons c4 l) = l"
    "el_epoch (mons c4 l) = e + 1" "el_quorum (mons c4 l) = ranks S"
    "\<forall>i\<in>ranks S - {l}. awake (mons c4 i) \<and> el_epoch (mons c4 i) = e \<and> sent c4 l i OP_VICTORY (e + 1) (ranks S)"
    using leader_wins[OF assms(1,3) c3(2-5)] by blast
  obtain c5 where c5: "(cluster_step S)\<^sup>*\<^sup>* c4 c5" "elected S l (e + 1) c5"
    using all_follow[OF assms(1,3) c4(2-7)] by blast
  have "(cluster_step S)\<^sup>*\<^sup>* c c5" using c1(1) c2(1) c3(1) c4(1) c5(1) by (meson rtranclp_trans)
  then show ?thesis using c5(2) \<open>odd e\<close> by (intro exI[of _ c5] exI[of _ "e + 1"]) simp
qed

text \<open>
  Property C13.  From every reachable state, whatever happened before, the cluster can still elect: there
  is a run after which all monitors agree on the same even epoch, on the rank that should lead (the lowest
  one that is not disallowed) and on a quorum of all monitors.
\<close>

theorem election_can_complete:
  assumes "setup_ok S" "reachable S c" "l \<in> ranks S" "\<forall>j\<in>ranks S - {l}. beats S l j"
  shows "\<exists>c' e. (cluster_step S)\<^sup>*\<^sup>* c c' \<and> even e \<and> elected S l e c'"
  using election_run[OF assms(1) reachable_ok[OF assms(1,2)] assms(3,4)] .

section \<open>Two leaders in one epoch\<close>

lemma timeout_step:
  assumes S: "setup_ok S" and c: "cluster_ok S c" "i \<in> ranks S" "el_electing_me (mons c i)" "el_expire_event (mons c i)"
    "es_size S div 2 < card (el_acked_me (mons c i))"
  obtains s where "cluster_step S c (put i s c)" "cluster_ok S (put i s c)" "el_state s = STATE_LEADER"
    "el_epoch s = el_epoch (mons c i) + 1" "el_quorum s = el_acked_me (mons c i)"
proof -
  define u where "u = (mons c i)\<lparr>el_expire_event := False\<rparr>"
  have n: "node_ok S i (mons c i)" using c by (simp add: cluster_ok_def)
  then have pre: "odd (el_epoch u)" "el_acked_me u \<subseteq> fst ` set (el_peer_info u)"
    using c(3) by (simp_all add: node_ok_def vote_ok_def u_def)
  have "paxos_size u = es_size S" using ranks_cfg[OF S c(2)] n by (simp add: u_def node_ok_def)
  then have h: "end_election_period (mons c i) = declare_victory u"
    using c by (simp add: end_election_period_def Let_def u_def)
  obtain s where "declare_victory u = Some s" "el_state s = STATE_LEADER" "el_epoch s = el_epoch u + 1" "el_quorum s = el_acked_me u"
    using declare_victory_eq[OF pre] by (elim exE conjE) simp
  then show ?thesis using step_put[OF S c(1,2), of "Timeout i" s] h c(4) that[of s] by (simp add: u_def)
qed

text \<open>
  Property C31.  An epoch can have two leaders: of three monitors that elect by rank, monitor 2 gives
  way to 1 and then, in the same epoch, to 0; both have a majority when their timers expire, and both
  declare victory in the same epoch, with overlapping quorums.
\<close>

theorem two_leaders_in_one_epoch:
  assumes S: "setup_ok S" "es_size S = 3" "es_strategy S = CLASSIC" and c: "initial S c" "\<forall>i\<in>ranks S. el_store_epoch (mons c i) = e0"
  shows "\<exists>c'. (cluster_step S)\<^sup>*\<^sup>* c c' \<and> el_state (mons c' 0) = STATE_LEADER \<and> el_state (mons c' 1) = STATE_LEADER
    \<and> el_epoch (mons c' 0) = el_epoch (mons c' 1) \<and> el_quorum (mons c' 0) = {0, 2} \<and> el_quorum (mons c' 1) = {1, 2}"
proof -
  let ?E = "next_epoch e0"
  have r: "0 \<in> ranks S" "1 \<in> ranks S" "2 \<in> ranks S" using S(2) by simp_all
  have b: "beats S 1 2" "beats S 0 2" using S(3) by (simp_all add: beats_def)
  have "1 \<notin> {0, 2::int}" "0 \<notin> {1, 2::int}" by simp_all
  then have lt: "{2, 0} \<noteq> ranks S" "{2, 1} \<noteq> ranks S" using r by (metis insert_commute)+
  note ok = cluster_ok_initial[OF S(1) c(1)]
  obtain c3 where c3: "(cluster_step S)\<^sup>*\<^sup>* c c3" "cluster_ok S c3"
    "\<forall>i\<in>ranks S. standing S c3 i \<and> el_epoch (mons c3 i) = ?E" using all_standing[OF S(1) ok] c(2) by auto
  then have st: "standing S c3 0" "standing S c3 1" "standing S c3 2" "el_epoch (mons c3 0) = ?E" "el_epoch (mons c3 1) = ?E"
    "el_epoch (mons c3 2) = ?E" using r by blast+
  have "el_leader_acked (mons c3 2) < 0" using st(3) c3(2) r by (auto simp: cluster_ok_def node_ok_def vote_ok_def standing_def)
  then obtain s3 where 4: "cluster_step S c3 (put 2 s3 c3)" "cluster_ok S (put 2 s3 c3)" "deferred (put 2 s3 c3) 1 ?E 2"
    "el_leader_acked (mons (put 2 s3 c3) 2) = 1"
    using defer_step[OF S(1) _ r(3), of c3 ?E 1] c3(2) st r b by (auto simp: standing_def)
  define c4 where "c4 = put 2 s3 c3"
  have "sent c4 0 2 OP_PROPOSE ?E {}" using st r by (auto simp: standing_def c4_def intro: sent_put)
  then obtain s4 where 5: "cluster_step S c4 (put 2 s4 c4)" "cluster_ok S (put 2 s4 c4)" "deferred (put 2 s4 c4) 0 ?E 2"
    using defer_step[OF S(1) _ r(3), of c4 ?E 0] 4(2-) b by (auto simp: c4_def[symmetric] deferred_def)
  define c5 where "c5 = put 2 s4 c4"
  have m5: "mons c5 0 = mons c3 0" "mons c5 1 = mons c3 1" by (simp_all add: c5_def c4_def mons_put)
  have a: "sent c5 2 1 OP_ACK ?E {}" "sent c5 2 0 OP_ACK ?E {}"
    using 4(3) 5(3) sent_put by (auto simp: c5_def c4_def deferred_def)
  have f5: "awake (mons c5 1)" "el_electing_me (mons c5 1)" "el_expire_event (mons c5 1)" "el_epoch (mons c5 1) = ?E"
    "el_acked_me (mons c5 1) = {1}" using st(2,5) by (simp_all add: m5 standing_def)
  obtain s5 where 6: "cluster_step S c5 (put 1 s5 c5)" "cluster_ok S (put 1 s5 c5)" "el_electing_me s5" "el_expire_event s5"
    "el_epoch s5 = ?E" "el_acked_me s5 = {2, 1}"
    using ack_step[OF S(1) 5(2)[folded c5_def] r(2) f5(1,2,4) a(1) refl] f5(3) unfolding f5(5) if_not_P[OF lt(2)] by blast
  define c6 where "c6 = put 1 s5 c5"
  have f6: "awake (mons c6 0)" "el_electing_me (mons c6 0)" "el_expire_event (mons c6 0)" "el_epoch (mons c6 0) = ?E"
    "el_acked_me (mons c6 0) = {0}" "sent c6 2 0 OP_ACK ?E {}"
    using st(1,4) sent_put[OF a(2)] by (simp_all add: c6_def mons_put m5 standing_def)
  obtain s6 where 7: "cluster_step S c6 (put 0 s6 c6)" "cluster_ok S (put 0 s6 c6)" "el_electing_me s6" "el_expire_event s6"
    "el_epoch s6 = ?E" "el_acked_me s6 = {2, 0}"
    using ack_step[OF S(1) 6(2)[folded c6_def] r(1) f6(1,2,4,6) refl] f6(3) unfolding f6(5) if_not_P[OF lt(1)] by blast
  define c7 where "c7 = put 0 s6 c6"
  have f7: "el_electing_me (mons c7 1)" "el_expire_event (mons c7 1)" "el_epoch (mons c7 1) = ?E" "el_acked_me (mons c7 1) = {2, 1}"
    using 6(3-) by (simp_all add: c7_def c6_def mons_put)
  obtain s7 where 8: "cluster_step S c7 (put 1 s7 c7)" "cluster_ok S (put 1 s7 c7)" "el_state s7 = STATE_LEADER"
    "el_epoch s7 = ?E + 1" "el_quorum s7 = {2, 1}"
    using timeout_step[OF S(1) 7(2)[folded c7_def] r(2) f7(1,2), unfolded f7(3,4)] S(2) by auto
  define c8 where "c8 = put 1 s7 c7"
  have f8: "el_electing_me (mons c8 0)" "el_expire_event (mons c8 0)" "el_epoch (mons c8 0) = ?E" "el_acked_me (mons c8 0) = {2, 0}"
    using 7(3-) by (simp_all add: c8_def c7_def mons_put)
  obtain s8 where 9: "cluster_step S c8 (put 0 s8 c8)" "el_state s8 = STATE_LEADER" "el_epoch s8 = ?E + 1" "el_quorum s8 = {2, 0}"
    using timeout_step[OF S(1) 8(2)[folded c8_def] r(1) f8(1,2), unfolded f8(3,4)] S(2) by auto
  have "(cluster_step S)\<^sup>*\<^sup>* c (put 0 s8 c8)"
    using c3(1) 4(1) 5(1) 6(1) 7(1) 8(1) 9(1)
    by (simp add: c4_def[symmetric] c5_def[symmetric] c6_def[symmetric]
        c7_def[symmetric] c8_def[symmetric])
  then show ?thesis using 8(3-) 9(2-) by (intro exI[of _ "put 0 s8 c8"]) (auto simp: mons_put c8_def)
qed

theorem two_leaders_in_one_epoch_witness:
  "initial demo_setup demo_start \<and> (\<exists>c'. (cluster_step demo_setup)\<^sup>*\<^sup>* demo_start c'
    \<and> el_state (mons c' 0) = STATE_LEADER \<and> el_state (mons c' 1) = STATE_LEADER
    \<and> el_epoch (mons c' 0) = el_epoch (mons c' 1) \<and> el_quorum (mons c' 0) = {0, 2} \<and> el_quorum (mons c' 1) = {1, 2})"
  using demo_initial two_leaders_in_one_epoch[OF demo_setup_ok _ _ demo_initial, of 0]
  by (simp add: demo_setup_def demo_start_def elector_rank_changed_def new_elector_def Let_def)

lemma demo_beats: "\<forall>j\<in>ranks demo_setup - {0}. beats demo_setup 0 j"
  by (auto simp: demo_setup_def beats_def)

theorem election_can_complete_witness:
  "reachable demo_setup demo_start \<and> (\<exists>c' e. (cluster_step demo_setup)\<^sup>*\<^sup>* demo_start c' \<and> even e \<and> elected demo_setup 0 e c')"
  using reachable.start[OF demo_initial]
    election_can_complete[OF demo_setup_ok reachable.start[OF demo_initial] _ demo_beats]
  by (simp add: demo_setup_def)

lemma reachable_run: "(cluster_step S)\<^sup>*\<^sup>* c c' \<Longrightarrow> reachable S c \<Longrightarrow> reachable S c'"
  by (induction rule: rtranclp_induct) (auto intro: reachable.step)

section \<open>Quorums\<close>

text \<open>
  Property C14.  Whoever believes to be the leader or a member of a quorum is in an even epoch and
  in that quorum, which contains its leader, is a majority of all monitors, and has no member that should lead
  rather than the leader.
\<close>

theorem leader_has_majority:
  assumes "setup_ok S" "reachable S c" "i \<in> ranks S" "s = mons c i" "el_state s = STATE_LEADER \<or> el_state s = STATE_PEON"
  shows "even (el_epoch s) \<and> el_epoch s = el_store_epoch s \<and> i \<in> el_quorum s \<and> el_leader s \<in> el_quorum s
    \<and> el_quorum s \<subseteq> ranks S \<and> es_size S div 2 < card (el_quorum s)
    \<and> (el_state s = STATE_LEADER \<longleftrightarrow> el_leader s = i) \<and> (\<forall>j\<in>el_quorum s. \<not> beats S j (el_leader s))"
proof -
  have n: "node_ok S i s" using reachable_ok[OF assms(1,2)] assms(3,4) by (simp add: cluster_ok_def)
  then have r: "result_ok S i s" and e: "el_epoch s = max 1 (el_store_epoch s)"
    using assms(5) by (auto simp: node_ok_def initialized_def)
  then have q: "even (el_epoch s)" "i \<in> el_quorum s" "quorum_ok S (el_leader s) (el_quorum s)"
    "el_state s = STATE_LEADER \<and> el_leader s = i \<or> el_state s = STATE_PEON \<and> beats S (el_leader s) i"
    using assms(5) by (auto simp: result_ok_def)
  moreover have "el_epoch s = el_store_epoch s" using e q(1) by (simp add: max_def split: if_splits)
  moreover have "\<not> beats S j (el_leader s)" if "j \<in> el_quorum s" for j
    using q(3) that by (auto simp: quorum_ok_def beats_def split: if_splits)
  ultimately show ?thesis using beats_not_refl[of S i] by (auto simp: quorum_ok_def)
qed

theorem leader_has_majority_witness:
  "\<exists>c. reachable demo_setup c \<and> el_state (mons c 0) = STATE_LEADER \<and> even (el_epoch (mons c 0))
     \<and> 1 < card (el_quorum (mons c 0))"
proof -
  have "0 \<in> ranks demo_setup" by (simp add: demo_setup_def)
  then obtain c e where c: "reachable demo_setup c" "elected demo_setup 0 e c"
    using election_run[OF demo_setup_ok cluster_ok_initial[OF demo_setup_ok demo_initial] _ demo_beats]
      reachable_run reachable.start[OF demo_initial] by blast
  then have "el_state (mons c 0) = STATE_LEADER" by (auto simp: elected_def demo_setup_def Let_def)
  then show ?thesis using leader_has_majority[OF demo_setup_ok c(1), of 0] c(1) by (auto simp: demo_setup_def)
qed

end
