(* ===== verification/Striper.thy ===== *)
theory Striper
  imports Osd_Map
begin

text \<open>
  Striping of a file over objects (\<open>osdc/Striper.cc\<close>, \<open>osdc/StriperTypes.h\<close>, and \<open>file_layout_t\<close> of
  \<open>include/fs_types.h\<close>).  A file is cut into stripe units, which are dealt out in turn to
  \<open>stripe_count\<close> objects until each of them has \<open>object_size\<close> bytes; then the next set of objects
  begins.  \<open>file_to_extents\<close> turns a range of the file into ranges of objects, \<open>extent_to_file\<close> and
  \<open>get_file_offset\<close> go back, \<open>object_truncate_size\<close> and \<open>get_num_objects\<close> say what a file size
  means for the objects.

  Offsets and lengths are natural numbers; where a 64-bit computation can wrap around, \<open>u64_of\<close>
  is written out.  A division by zero is \<^term>\<open>None\<close>.
\<close>

section \<open>Layouts\<close>

record file_layout_t =
  stripe_unit :: nat
  stripe_count :: nat
  object_size :: nat
  layout_pool_id :: int
  layout_pool_ns :: string

abbreviation (input) CEPH_MIN_STRIPE_UNIT :: nat where "CEPH_MIN_STRIPE_UNIT \<equiv> 65536"

abbreviation (input) u64_max :: nat where "u64_max \<equiv> 2 ^ 64 - 1"

definition get_period :: "file_layout_t \<Rightarrow> nat" where
  "get_period l = stripe_count l * object_size l"

definition layout_is_valid :: "file_layout_t \<Rightarrow> bool" where
  "layout_is_valid l =
     (if stripe_unit l = 0 \<or> stripe_unit l mod CEPH_MIN_STRIPE_UNIT \<noteq> 0 then False
      else if object_size l = 0 \<or> object_size l mod CEPH_MIN_STRIPE_UNIT \<noteq> 0 then False
      else if object_size l < stripe_unit l \<or> object_size l mod stripe_unit l \<noteq> 0 then False
      else if stripe_count l = 0 then False
      else True)"

definition file_layout_default :: file_layout_t where
  "file_layout_default =
     \<lparr>stripe_unit = 2 ^ 22, stripe_count = 1, object_size = 2 ^ 22,
      layout_pool_id = - 1, layout_pool_ns = []\<rparr>"

section \<open>Object extents\<close>

record object_extent =
  object_no :: nat
  ex_offset :: nat
  ex_length :: nat
  ex_truncate_size :: nat
  buffer_extents :: "(nat \<times> nat) list"

definition object_truncate_size :: "file_layout_t \<Rightarrow> nat \<Rightarrow> nat \<Rightarrow> nat option" where
  "object_truncate_size l objectno trunc_size =
     (if trunc_size = 0 \<or> trunc_size = u64_max then Some trunc_size
      else do {
        let su = stripe_unit l;
        ceph_assert (object_size l \<ge> su);
        ceph_assert (su \<noteq> 0 \<and> stripe_count l \<noteq> 0);
        let stripes_per_object = object_size l div su;
        let objectsetno = objectno div stripe_count l;
        let trunc_objectsetno = trunc_size div object_size l div stripe_count l;
        if objectsetno > trunc_objectsetno then Some 0
        else if objectsetno < trunc_objectsetno then Some (object_size l)
        else do {
          let trunc_blockno = trunc_size div su;
          let trunc_stripeno = trunc_blockno div stripe_count l;
          let trunc_stripepos = trunc_blockno mod stripe_count l;
          let trunc_objectno = trunc_objectsetno * stripe_count l + trunc_stripepos;
          if objectno < trunc_objectno then Some ((trunc_stripeno mod stripes_per_object + 1) * su)
          else if objectno > trunc_objectno then Some (trunc_stripeno mod stripes_per_object * su)
          else Some (trunc_stripeno mod stripes_per_object * su + trunc_size mod su)
        }
      })"

text \<open>
  The body of the loop of \<open>file_to_extents\<close> after the piece has been located: the piece extends the
  last extent of its object when it continues it, and starts a new extent behind it otherwise.
\<close>

definition add_piece ::
  "file_layout_t \<Rightarrow> nat \<Rightarrow> object_extent list \<Rightarrow> nat \<Rightarrow> nat \<Rightarrow> nat \<Rightarrow> nat
   \<Rightarrow> object_extent list option" where
  "add_piece l trunc_size exs objectno x_offset x_len buf =
     (let before = takeWhile (\<lambda>e. \<not> objectno < object_no e) exs;
          after = dropWhile (\<lambda>e. \<not> objectno < object_no e) exs
      in if before = [] \<or> object_no (last before) \<noteq> objectno
            \<or> u64_of (ex_offset (last before) + ex_length (last before)) \<noteq> x_offset
         then do {
           tsize \<leftarrow> object_truncate_size l objectno trunc_size;
           Some (before @ \<lparr>object_no = objectno, ex_offset = x_offset, ex_length = x_len,
                            ex_truncate_size = tsize, buffer_extents = [(buf, x_len)]\<rparr> # after)
         }
         else Some (butlast before @
                (last before)\<lparr>ex_length := u64_of (ex_length (last before) + x_len),
                              buffer_extents := buffer_extents (last before) @ [(buf, x_len)]\<rparr>
                # after))"

function extents_loop ::
  "file_layout_t \<Rightarrow> nat \<Rightarrow> nat \<Rightarrow> nat \<Rightarrow> nat \<Rightarrow> nat \<Rightarrow> nat \<Rightarrow> nat \<Rightarrow> object_extent list
   \<Rightarrow> object_extent list option" where
  "extents_loop l su stripes_per_object offset trunc_size buffer_offset cur remaining exs =
     (if remaining = 0 then Some exs
      else if su = 0 \<or> stripe_count l = 0 \<or> stripes_per_object = 0 then None
      else let blockno = cur div su;
               stripeno = blockno div stripe_count l;
               stripepos = blockno mod stripe_count l;
               objectsetno = stripeno div stripes_per_object;
               objectno = objectsetno * stripe_count l + stripepos;
               block_start = stripeno mod stripes_per_object * su;
               block_off = cur mod su;
               max = su - block_off;
               x_offset = block_start + block_off;
               x_len = (if remaining > max then max else remaining)
           in do {
             exs' \<leftarrow> add_piece l trunc_size exs objectno x_offset x_len
                       (u64_of (cur + 2 ^ 64 - offset + buffer_offset));
             extents_loop l su stripes_per_object offset trunc_size buffer_offset
               (u64_of (cur + x_len)) (remaining - x_len) exs'
           })"
  by pat_completeness auto
termination
  by (relation "measure (\<lambda>(l, su, spo, off, tr, buf, cur, remaining, exs). remaining)") auto

declare extents_loop.simps [simp del]

definition file_to_extents ::
  "file_layout_t \<Rightarrow> nat \<Rightarrow> nat \<Rightarrow> nat \<Rightarrow> nat \<Rightarrow> object_extent list \<Rightarrow> object_extent list option" where
  "file_to_extents l offset len trunc_size buffer_offset exs =
     do {
       ceph_assert (len > 0);
       ceph_assert (object_size l \<ge> stripe_unit l);
       let su = (if stripe_count l = 1 then object_size l else stripe_unit l);
       ceph_assert (su \<noteq> 0);
       extents_loop l su (object_size l div su) offset trunc_size buffer_offset offset len exs
     }"

function extent_to_file_loop ::
  "file_layout_t \<Rightarrow> nat \<Rightarrow> nat \<Rightarrow> nat \<Rightarrow> nat \<Rightarrow> (nat \<times> nat) list \<Rightarrow> (nat \<times> nat) list option" where
  "extent_to_file_loop l objectno off_in_block off len exs =
     (if len = 0 then Some exs
      else if stripe_count l = 0 \<or> stripe_unit l \<le> off_in_block then None
      else let su = stripe_unit l;
               stripepos = objectno mod stripe_count l;
               objectsetno = objectno div stripe_count l;
               stripeno = off div su + objectsetno * (object_size l div su);
               blockno = stripeno * stripe_count l + stripepos;
               extent_off = u64_of (blockno * su + off_in_block);
               extent_len = min len (su - off_in_block)
           in extent_to_file_loop l objectno 0 (u64_of (off + extent_len)) (len - extent_len)
                (exs @ [(extent_off, extent_len)]))"
  by pat_completeness auto
termination
  by (relation "measure (\<lambda>(l, ono, oib, off, len, exs). len)") auto

declare extent_to_file_loop.simps [simp del]

definition extent_to_file ::
  "file_layout_t \<Rightarrow> nat \<Rightarrow> nat \<Rightarrow> nat \<Rightarrow> (nat \<times> nat) list \<Rightarrow> (nat \<times> nat) list option" where
  "extent_to_file l objectno off len exs =
     do {
       ceph_assert (object_size l \<ge> stripe_unit l);
       ceph_assert (stripe_unit l \<noteq> 0);
       extent_to_file_loop l objectno (off mod stripe_unit l) off len exs
     }"

definition get_num_objects :: "file_layout_t \<Rightarrow> nat \<Rightarrow> nat option" where
  "get_num_objects l sz =
     do {
       let period = get_period l;
       ceph_assert (period \<noteq> 0);
       let num_periods = u64_of (sz + period - 1) div period;
       let remainder_bytes = sz mod period;
       let remainder_objs =
         (if remainder_bytes > 0 \<and> remainder_bytes < stripe_count l * stripe_unit l
          then stripe_count l - (remainder_bytes + stripe_unit l - 1) div stripe_unit l else 0);
       Some (u64_of (num_periods * stripe_count l + 2 ^ 64 - remainder_objs))
     }"

definition get_file_offset :: "file_layout_t \<Rightarrow> nat \<Rightarrow> nat \<Rightarrow> nat option" where
  "get_file_offset l objectno off =
     do {
       let su = stripe_unit l;
       ceph_assert (object_size l \<ge> su);
       ceph_assert (su \<noteq> 0 \<and> stripe_count l \<noteq> 0);
       let stripes_per_object = object_size l div su;
       let off_in_block = off mod su;
       let stripepos = objectno mod stripe_count l;
       let objectsetno = objectno div stripe_count l;
       let stripeno = off div su + objectsetno * stripes_per_object;
       let blockno = stripeno * stripe_count l + stripepos;
       Some (u64_of (blockno * su + off_in_block))
     }"

section \<open>Extents with object names\<close>

record ObjectExtent = object_extent +
  oid :: string
  oloc :: object_locator_t

definition file_to_object_locator :: "file_layout_t \<Rightarrow> object_locator_t" where
  "file_to_object_locator l =
     \<lparr>loc_pool = layout_pool_id l, loc_key = [], loc_nspace = layout_pool_ns l, loc_hash = - 1\<rparr>"

definition heavyweight :: "(nat \<Rightarrow> string) \<Rightarrow> file_layout_t \<Rightarrow> object_extent \<Rightarrow> ObjectExtent" where
  "heavyweight format_oid l ex =
     \<lparr>object_no = object_no ex, ex_offset = ex_offset ex, ex_length = ex_length ex,
      ex_truncate_size = ex_truncate_size ex, buffer_extents = buffer_extents ex,
      oid = format_oid (object_no ex), oloc = file_to_object_locator l\<rparr>"

definition file_to_extents_vec ::
  "(nat \<Rightarrow> string) \<Rightarrow> file_layout_t \<Rightarrow> nat \<Rightarrow> nat \<Rightarrow> nat \<Rightarrow> ObjectExtent list \<Rightarrow> nat
   \<Rightarrow> ObjectExtent list option" where
  "file_to_extents_vec format_oid l offset len trunc_size extents buffer_offset =
     do {
       exs \<leftarrow> file_to_extents l offset len trunc_size buffer_offset [];
       Some (extents @ map (heavyweight format_oid l) exs)
     }"

definition file_to_extents_map ::
  "(nat \<Rightarrow> string) \<Rightarrow> file_layout_t \<Rightarrow> nat \<Rightarrow> nat \<Rightarrow> nat \<Rightarrow> (string \<rightharpoonup> ObjectExtent list) \<Rightarrow> nat
   \<Rightarrow> (string \<rightharpoonup> ObjectExtent list) option" where
  "file_to_extents_map format_oid l offset len trunc_size object_extents buffer_offset =
     do {
       exs \<leftarrow> file_to_extents l offset len trunc_size buffer_offset [];
       Some (fold (\<lambda>ex m. m(format_oid (object_no ex) \<mapsto>
                 (case m (format_oid (object_no ex)) of None \<Rightarrow> [] | Some v \<Rightarrow> v)
                   @ [heavyweight format_oid l ex]))
               exs object_extents)
     }"

text \<open>The names of the objects of an inode: its number in hexadecimal, a dot, eight or more digits.\<close>

definition ino_format :: "nat \<Rightarrow> nat \<Rightarrow> string" where
  "ino_format ino objectno =
     to_base 16 ino @ ''.''
       @ replicate (8 - length (to_base 16 objectno)) CHR ''0'' @ to_base 16 objectno"

definition file_to_extents_ino ::
  "nat \<Rightarrow> file_layout_t \<Rightarrow> nat \<Rightarrow> nat \<Rightarrow> nat \<Rightarrow> ObjectExtent list \<Rightarrow> ObjectExtent list option" where
  "file_to_extents_ino ino l offset len trunc_size extents =
     file_to_extents_vec (ino_format ino) l offset len trunc_size extents 0"

section \<open>The arithmetic of striping\<close>

text \<open>
  \<open>file_pos\<close> is the position in the file of a byte of an object, \<open>object_of\<close> and \<open>offset_of\<close>
  the object and the position in it of a byte of the file, all for \<open>spo\<close> stripe units per object.
\<close>

definition file_pos :: "nat \<Rightarrow> nat \<Rightarrow> nat \<Rightarrow> nat \<Rightarrow> nat \<Rightarrow> nat" where
  "file_pos su sc spo ob y = ((y div su + ob div sc * spo) * sc + ob mod sc) * su + y mod su"

definition object_of :: "nat \<Rightarrow> nat \<Rightarrow> nat \<Rightarrow> nat \<Rightarrow> nat" where
  "object_of su sc spo c = c div su div sc div spo * sc + c div su mod sc"

definition offset_of :: "nat \<Rightarrow> nat \<Rightarrow> nat \<Rightarrow> nat \<Rightarrow> nat" where
  "offset_of su sc spo c = c div su div sc mod spo * su + c mod su"

lemma add_mult_div: "b < n \<Longrightarrow> (a * n + b) div n = (a::nat)"
  by simp

lemma add_mult_mod: "b < n \<Longrightarrow> (a * n + b) mod n = (b::nat)"
  by simp

lemma file_pos_of:
  assumes "0 < su" "0 < sc" "0 < spo"
  shows "file_pos su sc spo (object_of su sc spo c) (offset_of su sc spo c) = c"
proof -
  have "offset_of su sc spo c div su = c div su div sc mod spo"
    and "offset_of su sc spo c mod su = c mod su"
    using assms by (simp_all add: offset_of_def add_mult_div)
  moreover have "object_of su sc spo c div sc = c div su div sc div spo"
    and "object_of su sc spo c mod sc = c div su mod sc"
    using assms by (simp_all add: object_of_def add_mult_div)
  ultimately show ?thesis
    by (simp add: file_pos_def mod_div_mult_eq)
qed

lemma offset_of_less:
  assumes "0 < su" "0 < spo"
  shows "offset_of su sc spo c < spo * su"
proof -
  have "c div su div sc mod spo + 1 \<le> spo" using assms by (simp add: Suc_leI)
  then have "(c div su div sc mod spo + 1) * su \<le> spo * su" by (rule mult_le_mono1)
  moreover have "c mod su < su" using assms by simp
  ultimately show ?thesis unfolding offset_of_def by (simp add: algebra_simps)
qed

lemma of_file_pos:
  assumes "0 < su" "0 < sc" "y < spo * su"
  shows "object_of su sc spo (file_pos su sc spo ob y) = ob"
    and "offset_of su sc spo (file_pos su sc spo ob y) = y"
proof -
  have "0 < spo" using assms by (cases spo) auto
  have row: "y div su < spo" using assms by (simp add: less_mult_imp_div_less)
  have blk: "file_pos su sc spo ob y div su = (y div su + ob div sc * spo) * sc + ob mod sc"
    "file_pos su sc spo ob y mod su = y mod su"
    using assms by (simp_all add: file_pos_def add_mult_div)
  have str: "file_pos su sc spo ob y div su div sc = ob div sc * spo + y div su"
    "file_pos su sc spo ob y div su mod sc = ob mod sc"
    unfolding blk using assms by (simp_all add: add_mult_div)
  show "object_of su sc spo (file_pos su sc spo ob y) = ob"
    using row by (simp add: object_of_def str)
  show "offset_of su sc spo (file_pos su sc spo ob y) = y"
    using row by (simp add: offset_of_def str blk(2))
qed

lemma block_less:
  fixes q q' b p m m' sc su :: nat
  assumes "q < q'" "0 < sc" "m < su"
  shows "((q + b) * sc + p) * su + m < ((q' + b) * sc + p) * su + m'"
proof -
  have "(q + b) * sc + p < (q' + b) * sc + p" using assms by simp
  then have "Suc ((q + b) * sc + p) * su \<le> ((q' + b) * sc + p) * su"
    by (intro mult_le_mono1) (rule Suc_leI)
  with assms(3) show ?thesis unfolding mult_Suc by linarith
qed

lemma file_pos_less:
  assumes "0 < su" "0 < sc" "y < y'"
  shows "file_pos su sc spo ob y < file_pos su sc spo ob y'"
proof (cases "y div su = y' div su")
  case True
  have "y = y' div su * su + y mod su" by (simp flip: True)
  moreover have "y' = y' div su * su + y' mod su" by simp
  ultimately have "y mod su < y' mod su" using assms(3) by linarith
  with True show ?thesis by (simp add: file_pos_def)
next
  case False
  moreover have "y div su \<le> y' div su" using assms by (simp add: div_le_mono)
  ultimately show ?thesis
    using assms unfolding file_pos_def by (intro block_less) simp_all
qed

lemma file_pos_less_iff:
  "0 < su \<Longrightarrow> 0 < sc \<Longrightarrow> file_pos su sc spo ob y < file_pos su sc spo ob y' \<longleftrightarrow> y < y'"
  using file_pos_less [of su sc y y' spo ob] file_pos_less [of su sc y' y spo ob] by (cases y y' rule: linorder_cases) auto

lemma same_unit:
  assumes "k < su - c mod su"
  shows "object_of su sc spo (c + k) = object_of su sc spo c"
    and "offset_of su sc spo (c + k) = offset_of su sc spo c + k"
proof -
  have c: "c + k = c div su * su + (c mod su + k)" by simp
  have "c mod su + k < su" using assms by linarith
  then have "(c + k) div su = c div su" "(c + k) mod su = c mod su + k"
    by (metis c add_mult_div, metis c add_mult_mod)
  then show "object_of su sc spo (c + k) = object_of su sc spo c"
    "offset_of su sc spo (c + k) = offset_of su sc spo c + k"
    by (simp_all add: object_of_def offset_of_def)
qed

lemma file_pos_one: "file_pos su 1 spo ob y = ob * (spo * su) + y"
proof -
  have "file_pos su 1 spo ob y = ob * spo * su + (y div su * su + y mod su)"
    unfolding file_pos_def by (simp add: add_mult_distrib)
  then show ?thesis by (simp add: mult.assoc)
qed

section \<open>Bytes of a layout\<close>

text \<open>The fields of a layout are 32-bit numbers.\<close>

definition layout_ok :: "file_layout_t \<Rightarrow> bool" where
  "layout_ok l \<longleftrightarrow> layout_is_valid l \<and> stripe_unit l < 2 ^ 32 \<and> stripe_count l < 2 ^ 32 \<and> object_size l < 2 ^ 32"

definition eff_unit :: "file_layout_t \<Rightarrow> nat" where
  "eff_unit l = (if stripe_count l = 1 then object_size l else stripe_unit l)"

definition byte_pos :: "file_layout_t \<Rightarrow> nat \<Rightarrow> nat \<Rightarrow> nat" where
  "byte_pos l = file_pos (stripe_unit l) (stripe_count l) (object_size l div stripe_unit l)"

definition object_at :: "file_layout_t \<Rightarrow> nat \<Rightarrow> nat" where
  "object_at l = object_of (eff_unit l) (stripe_count l) (object_size l div eff_unit l)"

definition offset_at :: "file_layout_t \<Rightarrow> nat \<Rightarrow> nat" where
  "offset_at l = offset_of (eff_unit l) (stripe_count l) (object_size l div eff_unit l)"

lemma layout_facts:
  assumes "layout_ok l"
  shows "0 < stripe_unit l" "0 < stripe_count l" "0 < object_size l" "stripe_unit l \<le> object_size l"
    "object_size l div stripe_unit l * stripe_unit l = object_size l"
    "0 < object_size l div stripe_unit l" "object_size l < 2 ^ 32" "stripe_count l < 2 ^ 32"
    "0 < eff_unit l" "0 < object_size l div eff_unit l" "object_size l div eff_unit l * eff_unit l = object_size l"
  using assms
  by (auto simp: layout_ok_def layout_is_valid_def eff_unit_def div_greater_zero_iff mod_eq_0_iff_dvd
      split: if_splits)

lemma byte_pos_eff:
  assumes "layout_ok l"
  shows "byte_pos l = file_pos (eff_unit l) (stripe_count l) (object_size l div eff_unit l)"
proof (cases "stripe_count l = 1")
  case True
  then have "byte_pos l ob y = file_pos (eff_unit l) (stripe_count l) (object_size l div eff_unit l) ob y" for ob y
    using layout_facts [OF assms] by (simp only: byte_pos_def file_pos_one)
  then show ?thesis by blast
qed (simp add: byte_pos_def eff_unit_def)

lemma byte_pos_at [simp]: "layout_ok l \<Longrightarrow> byte_pos l (object_at l c) (offset_at l c) = c"
  by (simp add: byte_pos_eff object_at_def offset_at_def file_pos_of layout_facts)

lemma offset_at_less: "layout_ok l \<Longrightarrow> offset_at l c < object_size l"
  using offset_of_less [of "eff_unit l" "object_size l div eff_unit l" "stripe_count l" c] layout_facts [of l]
  by (simp add: offset_at_def)

lemma at_byte_pos:
  assumes "layout_ok l" "y < object_size l"
  shows "object_at l (byte_pos l ob y) = ob" "offset_at l (byte_pos l ob y) = y"
proof -
  have "y < object_size l div eff_unit l * eff_unit l"
    using assms layout_facts(11) [OF assms(1)] by simp
  from of_file_pos [OF _ _ this, of "stripe_count l" ob] layout_facts [OF assms(1)]
  show "object_at l (byte_pos l ob y) = ob" "offset_at l (byte_pos l ob y) = y"
    by (simp_all add: byte_pos_eff [OF assms(1)] object_at_def offset_at_def)
qed

lemma byte_pos_less_iff: "layout_ok l \<Longrightarrow> byte_pos l ob y < byte_pos l ob y' \<longleftrightarrow> y < y'"
  by (simp add: byte_pos_def file_pos_less_iff layout_facts)

lemma at_same_unit:
  assumes "k < eff_unit l - c mod eff_unit l"
  shows "object_at l (c + k) = object_at l c" "offset_at l (c + k) = offset_at l c + k"
  using same_unit [OF assms] by (simp_all add: object_at_def offset_at_def)

lemma byte_pos_add:
  "layout_ok l \<Longrightarrow> k < eff_unit l - c mod eff_unit l \<Longrightarrow>
   byte_pos l (object_at l c) (offset_at l c + k) = c + k"
  by (metis at_same_unit byte_pos_at)

lemma get_file_offset_eq:
  "layout_ok l \<Longrightarrow> get_file_offset l ob y = Some (u64_of (byte_pos l ob y))"
  using layout_facts [of l]
  by (simp add: get_file_offset_def byte_pos_def file_pos_def Let_def)

lemma object_truncate_size_total: "layout_ok l \<Longrightarrow> \<exists>t. object_truncate_size l ob tr = Some t"
  using layout_facts [of l] by (simp add: object_truncate_size_def Let_def)

section \<open>The extents of a range\<close>

text \<open>The bytes of an object that lie in a range of the file.\<close>

definition bytes_in :: "file_layout_t \<Rightarrow> nat \<Rightarrow> nat \<Rightarrow> nat \<Rightarrow> nat set" where
  "bytes_in l from until ob =
     {y. y < object_size l \<and> from \<le> byte_pos l ob y \<and> byte_pos l ob y < until}"

lemma bytes_in_other:
  assumes "layout_ok l" "n \<le> eff_unit l - cur mod eff_unit l" "ob \<noteq> object_at l cur"
  shows "bytes_in l from (cur + n) ob = bytes_in l from cur ob"
proof -
  have "byte_pos l ob y < cur" if "y < object_size l" "byte_pos l ob y < cur + n" for y
  proof (rule ccontr)
    assume "\<not> byte_pos l ob y < cur"
    then obtain k where k: "byte_pos l ob y = cur + k" "k < n"
      using \<open>byte_pos l ob y < cur + n\<close> by (metis add_less_cancel_left le_Suc_ex linorder_not_less)
    then have "object_at l (byte_pos l ob y) = object_at l cur"
      using assms(2) by (simp add: at_same_unit)
    then show False using at_byte_pos [OF assms(1) that(1)] assms(3) by simp
  qed
  then show ?thesis by (auto simp: bytes_in_def)
qed

lemma bytes_in_same:
  assumes "layout_ok l" "n \<le> eff_unit l - cur mod eff_unit l" "from \<le> cur"
  shows "bytes_in l from (cur + n) (object_at l cur) =
         bytes_in l from cur (object_at l cur) \<union> {offset_at l cur..<offset_at l cur + n}"
    (is "?L = ?R")
proof (intro set_eqI iffI)
  fix y assume y: "y \<in> ?L"
  show "y \<in> ?R"
  proof (cases "byte_pos l (object_at l cur) y < cur")
    case True
    with y show ?thesis by (simp add: bytes_in_def)
  next
    case False
    define k where "k = byte_pos l (object_at l cur) y - cur"
    have k: "byte_pos l (object_at l cur) y = cur + k" "k < n"
      using False y by (auto simp: bytes_in_def k_def)
    have "y = offset_at l (cur + k)"
      using at_byte_pos(2) [OF assms(1), of y "object_at l cur"] y by (simp add: bytes_in_def k)
    with k assms(2) show ?thesis by (simp add: at_same_unit)
  qed
next
  fix y assume y: "y \<in> ?R"
  show "y \<in> ?L"
  proof (cases "y \<in> bytes_in l from cur (object_at l cur)")
    case True
    then show ?thesis by (simp add: bytes_in_def)
  next
    case False
    define k where "k = y - offset_at l cur"
    have k: "y = offset_at l cur + k" "k < n" using False y by (auto simp: k_def)
    then have "k < eff_unit l - cur mod eff_unit l" using assms(2) by simp
    with k show ?thesis
      using assms offset_at_less [OF assms(1), of "cur + k"] at_same_unit [of k l cur]
      by (simp add: bytes_in_def byte_pos_add)
  qed
qed

lemma bytes_in_end:
  assumes "layout_ok l" "bytes_in l from cur (object_at l cur) = {a..<b}" "a < b"
  shows "b = offset_at l cur"
proof -
  let ?o = "object_at l cur"
  have last: "b - 1 \<in> bytes_in l from cur ?o" using assms(2,3) by simp
  then have "byte_pos l ?o (b - 1) < byte_pos l ?o (offset_at l cur)"
    using assms(1) by (simp add: bytes_in_def)
  then have "b - 1 < offset_at l cur" using byte_pos_less_iff [OF assms(1)] by blast
  moreover have "\<not> b < offset_at l cur"
  proof
    assume b: "b < offset_at l cur"
    then have "byte_pos l ?o b < byte_pos l ?o (offset_at l cur)"
      using byte_pos_less_iff [OF assms(1)] by blast
    then have "byte_pos l ?o b < cur" using assms(1) by simp
    moreover have "byte_pos l ?o (b - 1) < byte_pos l ?o b"
      using byte_pos_less_iff [OF assms(1)] assms(3) by simp
    ultimately have "b \<in> bytes_in l from cur ?o"
      using last b offset_at_less [OF assms(1), of cur] by (simp add: bytes_in_def)
    then show False using assms(2) by simp
  qed
  ultimately show ?thesis using assms(3) by linarith
qed

definition positions :: "(nat \<times> nat) list \<Rightarrow> nat list" where
  "positions bes = concat (map (\<lambda>(b, n). [b..<b + n]) bes)"

definition extent_exact :: "file_layout_t \<Rightarrow> nat \<Rightarrow> nat \<Rightarrow> nat \<Rightarrow> nat \<Rightarrow> object_extent \<Rightarrow> bool" where
  "extent_exact l from until buf tr ex \<longleftrightarrow>
     0 < ex_length ex
   \<and> bytes_in l from until (object_no ex) = {ex_offset ex..<ex_offset ex + ex_length ex}
   \<and> positions (buffer_extents ex) =
       map (\<lambda>y. byte_pos l (object_no ex) y - from + buf) [ex_offset ex..<ex_offset ex + ex_length ex]
   \<and> list_all (\<lambda>(b, n). 0 < n) (buffer_extents ex)
   \<and> object_truncate_size l (object_no ex) tr = Some (ex_truncate_size ex)"

definition covers :: "file_layout_t \<Rightarrow> nat \<Rightarrow> nat \<Rightarrow> nat \<Rightarrow> nat \<Rightarrow> object_extent list \<Rightarrow> bool" where
  "covers l from until buf tr exs \<longleftrightarrow>
     sorted_wrt (<) (map object_no exs)
   \<and> (\<forall>ex \<in> set exs. extent_exact l from until buf tr ex)
   \<and> object_at l ` {from..<until} \<subseteq> object_no ` set exs"

lemma positions_snoc: "positions (bes @ [(b, n)]) = positions bes @ [b..<b + n]"
  by (simp add: positions_def)

lemma extent_exact_end:
  "extent_exact l from until buf tr ex \<Longrightarrow> ex_offset ex + ex_length ex \<le> object_size l"
proof -
  assume ex: "extent_exact l from until buf tr ex"
  then have "ex_offset ex + ex_length ex - 1 \<in> bytes_in l from until (object_no ex)"
    by (auto simp: extent_exact_def)
  then have "ex_offset ex + ex_length ex - 1 < object_size l" by (simp add: bytes_in_def)
  then show ?thesis by linarith
qed

lemma piece_positions:
  assumes "layout_ok l" "n \<le> eff_unit l - cur mod eff_unit l" "from \<le> cur"
  shows "[cur - from + buf..<cur - from + buf + n] =
         map (\<lambda>y. byte_pos l (object_at l cur) y - from + buf) [offset_at l cur..<offset_at l cur + n]"
proof (rule nth_equalityI)
  fix i assume "i < length [cur - from + buf..<cur - from + buf + n]"
  then have "i < n" by simp
  with assms show "[cur - from + buf..<cur - from + buf + n] ! i =
      map (\<lambda>y. byte_pos l (object_at l cur) y - from + buf)
        [offset_at l cur..<offset_at l cur + n] ! i"
    using byte_pos_add [of l i cur] by simp
qed simp

lemma all_then_stop:
  assumes "\<forall>x \<in> set xs. P x" "\<forall>x \<in> set ys. \<not> P x"
  shows "takeWhile P (xs @ ys) = xs" "dropWhile P (xs @ ys) = ys"
  using assms by (cases ys, simp_all)+

lemma sorted_split:
  assumes "sorted_wrt (<) (map object_no exs)"
  obtains (present) pre ex post where "exs = pre @ ex # post" "object_no ex = ob"
      "takeWhile (\<lambda>e. \<not> ob < object_no e) exs = pre @ [ex]"
      "dropWhile (\<lambda>e. \<not> ob < object_no e) exs = post"
  | (absent) pre post where "exs = pre @ post" "ob \<notin> object_no ` set exs"
      "takeWhile (\<lambda>e. \<not> ob < object_no e) exs = pre"
      "dropWhile (\<lambda>e. \<not> ob < object_no e) exs = post"
      "\<forall>e \<in> set pre. object_no e < ob" "\<forall>e \<in> set post. ob < object_no e"
proof (cases "ob \<in> object_no ` set exs")
  case True
  then obtain pre ex post where e: "exs = pre @ ex # post" "object_no ex = ob"
    by (metis imageE split_list)
  with assms have "\<forall>e \<in> set pre. object_no e < ob" "\<forall>e \<in> set post. ob < object_no e"
    by (auto simp: sorted_wrt_append)
  then have "takeWhile (\<lambda>e. \<not> ob < object_no e) ((pre @ [ex]) @ post) = pre @ [ex]"
    "dropWhile (\<lambda>e. \<not> ob < object_no e) ((pre @ [ex]) @ post) = post"
    using e(2) by (intro all_then_stop; auto)+
  then show ?thesis by (intro present [OF e]) (simp_all add: e(1))
next
  case False
  let ?P = "\<lambda>e. \<not> ob < object_no e"
  have after: "\<forall>e \<in> set (dropWhile ?P exs). \<not> ?P e"
    using assms by (intro sorted_wrt_dropWhile [of "\<lambda>x y. object_no x < object_no y"])
      (auto simp: sorted_wrt_map)
  have before: "\<forall>e \<in> set (takeWhile ?P exs). object_no e < ob"
    using False by (auto dest!: set_takeWhileD intro: le_neq_implies_less)
  show ?thesis
    using after by (intro absent [OF takeWhile_dropWhile_split False refl refl before]) blast
qed

lemma extent_exact_other:
  assumes "layout_ok l" "n \<le> eff_unit l - cur mod eff_unit l" "object_no ex \<noteq> object_at l cur"
    "extent_exact l from cur buf tr ex"
  shows "extent_exact l from (cur + n) buf tr ex"
  using assms(4) unfolding extent_exact_def bytes_in_other [OF assms(1-3)] .

lemma objects_until:
  assumes "n \<le> eff_unit l - cur mod eff_unit l"
  shows "object_at l ` {from..<cur + n} \<subseteq> insert (object_at l cur) (object_at l ` {from..<cur})"
proof
  fix ob assume "ob \<in> object_at l ` {from..<cur + n}"
  then obtain c where c: "ob = object_at l c" "from \<le> c" "c < cur + n" by auto
  show "ob \<in> insert (object_at l cur) (object_at l ` {from..<cur})"
  proof (cases "c < cur")
    case False
    then have "object_at l (cur + (c - cur)) = object_at l cur"
      using c assms by (intro at_same_unit) linarith
    with c False show ?thesis by simp
  qed (use c in auto)
qed

lemma add_piece_extends:
  assumes ok: "layout_ok l" and n: "n \<le> eff_unit l - cur mod eff_unit l" "0 < n" and "from \<le> cur"
    and ex: "object_no ex = object_at l cur" "extent_exact l from cur buf tr ex"
  shows "ex_offset ex + ex_length ex = offset_at l cur"
    and "ex_length ex + n < 2 ^ 64"
    and "extent_exact l from (cur + n) buf tr
           (ex\<lparr>ex_length := ex_length ex + n,
               buffer_extents := buffer_extents ex @ [(cur - from + buf, n)]\<rparr>)"
proof -
  let ?o = "object_at l cur"
  have b: "bytes_in l from cur ?o = {ex_offset ex..<ex_offset ex + ex_length ex}" "0 < ex_length ex"
    using ex by (auto simp: extent_exact_def)
  show fin: "ex_offset ex + ex_length ex = offset_at l cur"
    using bytes_in_end [OF ok b(1)] b(2) by simp
  have "bytes_in l from (cur + n) ?o = {ex_offset ex..<ex_offset ex + ex_length ex + n}"
    using bytes_in_same [OF ok n(1) \<open>from \<le> cur\<close>] b by (auto simp flip: fin)
  moreover have "positions (buffer_extents ex @ [(cur - from + buf, n)]) =
      map (\<lambda>y. byte_pos l ?o y - from + buf) [ex_offset ex..<ex_offset ex + ex_length ex + n]"
    unfolding positions_snoc piece_positions [OF ok n(1) \<open>from \<le> cur\<close>] fin [symmetric]
      upt_add_eq_append [OF le_add1, of "ex_offset ex" "ex_length ex" n]
    using ex by (simp add: extent_exact_def)
  ultimately show new: "extent_exact l from (cur + n) buf tr
      (ex\<lparr>ex_length := ex_length ex + n,
          buffer_extents := buffer_extents ex @ [(cur - from + buf, n)]\<rparr>)"
    using ex n by (simp add: extent_exact_def add.assoc)
  show "ex_length ex + n < 2 ^ 64"
    using extent_exact_end [OF new] layout_facts(7) [OF ok] by simp
qed

lemma new_piece_exact:
  assumes ok: "layout_ok l" and n: "n \<le> eff_unit l - cur mod eff_unit l" "0 < n" and "from \<le> cur"
    and none: "bytes_in l from cur (object_at l cur) = {}"
    and "object_truncate_size l (object_at l cur) tr = Some t"
  shows "extent_exact l from (cur + n) buf tr
           \<lparr>object_no = object_at l cur, ex_offset = offset_at l cur, ex_length = n,
            ex_truncate_size = t, buffer_extents = [(cur - from + buf, n)]\<rparr>"
proof -
  have "bytes_in l from (cur + n) (object_at l cur) = {offset_at l cur..<offset_at l cur + n}"
    unfolding bytes_in_same [OF ok n(1) \<open>from \<le> cur\<close>] none by simp
  moreover have "positions [(cur - from + buf, n)] =
      map (\<lambda>y. byte_pos l (object_at l cur) y - from + buf) [offset_at l cur..<offset_at l cur + n]"
    unfolding positions_def piece_positions [OF ok n(1) \<open>from \<le> cur\<close>, symmetric] by simp
  ultimately show ?thesis
    using assms(3,6) by (simp add: extent_exact_def)
qed

lemma no_bytes_yet:
  assumes "layout_ok l" "object_at l ` {from..<cur} \<subseteq> S" "ob \<notin> S"
  shows "bytes_in l from cur ob = {}"
proof -
  have False if "y \<in> bytes_in l from cur ob" for y
  proof -
    have "object_at l (byte_pos l ob y) \<in> S"
      using assms(2) that by (auto simp: bytes_in_def)
    moreover have "object_at l (byte_pos l ob y) = ob"
      using that by (intro at_byte_pos(1) assms(1)) (simp add: bytes_in_def)
    ultimately show False using assms(3) by simp
  qed
  then show ?thesis by blast
qed

lemma covers_middle:
  assumes "sorted_wrt (<) (map object_no (pre @ ex # post))"
    and "\<forall>e \<in> set pre \<union> set post. extent_exact l from (cur + n) buf tr e"
    and "extent_exact l from (cur + n) buf tr ex" "object_no ex = object_at l cur"
    and "object_at l ` {from..<cur} \<subseteq> insert (object_at l cur) (object_no ` (set pre \<union> set post))"
    and "n \<le> eff_unit l - cur mod eff_unit l"
  shows "covers l from (cur + n) buf tr (pre @ ex # post)"
proof -
  have "object_at l ` {from..<cur + n} \<subseteq> object_no ` set (pre @ ex # post)"
    using objects_until [OF assms(6), of "from"] assms(4,5) by auto
  then show ?thesis using assms(1-3) by (auto simp: covers_def)
qed

lemma add_piece_covers:
  assumes ok: "layout_ok l" and n: "n \<le> eff_unit l - cur mod eff_unit l" "0 < n" and "from \<le> cur"
    and cov: "covers l from cur buf tr exs"
  shows "\<exists>exs'. add_piece l tr exs (object_at l cur) (offset_at l cur) n (cur - from + buf) = Some exs'
           \<and> covers l from (cur + n) buf tr exs'"
proof -
  let ?o = "object_at l cur"
  have sorted: "sorted_wrt (<) (map object_no exs)"
    and all: "\<And>ex. ex \<in> set exs \<Longrightarrow> extent_exact l from cur buf tr ex"
    and objs: "object_at l ` {from..<cur} \<subseteq> object_no ` set exs"
    using cov by (auto simp: covers_def)
  obtain t where t: "object_truncate_size l ?o tr = Some t"
    using object_truncate_size_total [OF ok] by blast
  from sorted show ?thesis
  proof (cases rule: sorted_split [where ob = ?o])
    case (present pre ex post)
    define ex' where "ex' = ex\<lparr>ex_length := ex_length ex + n,
      buffer_extents := buffer_extents ex @ [(cur - from + buf, n)]\<rparr>"
    have ex: "extent_exact l from cur buf tr ex" using all present by simp
    note ext = add_piece_extends [OF ok n \<open>from \<le> cur\<close> present(2) ex]
    have fit: "offset_at l cur < 2 ^ 64"
      using offset_at_less [OF ok, of cur] layout_facts(7) [OF ok] by simp
    have add: "add_piece l tr exs ?o (offset_at l cur) n (cur - from + buf) = Some (pre @ ex' # post)"
      unfolding add_piece_def present(3,4) Let_def using present(2) ext(1,2) fit by (simp add: ex'_def)
    have "object_no e \<noteq> ?o" if "e \<in> set pre \<union> set post" for e
      using sorted that present(1,2) by (auto simp: sorted_wrt_append)
    then have "\<forall>e \<in> set pre \<union> set post. extent_exact l from (cur + n) buf tr e"
      using all present(1) by (auto intro!: extent_exact_other [OF ok n(1)])
    moreover have "object_no ex' = ?o" using present(2) by (simp add: ex'_def)
    moreover have "object_at l ` {from..<cur} \<subseteq> insert ?o (object_no ` (set pre \<union> set post))"
      using objs present(1,2) by auto
    ultimately have "covers l from (cur + n) buf tr (pre @ ex' # post)"
      using sorted ext(3) n(1) present(1,2) by (intro covers_middle) (simp_all add: ex'_def)
    with add show ?thesis by blast
  next
    case (absent pre post)
    define ex' where "ex' = \<lparr>object_no = ?o, ex_offset = offset_at l cur, ex_length = n,
      ex_truncate_size = t, buffer_extents = [(cur - from + buf, n)]\<rparr>"
    have "pre = [] \<or> object_no (last pre) \<noteq> ?o"
      using absent(5) by (metis last_in_set less_irrefl)
    then have add: "add_piece l tr exs ?o (offset_at l cur) n (cur - from + buf) = Some (pre @ ex' # post)"
      unfolding add_piece_def absent(3,4) Let_def by (auto simp: t ex'_def)
    have "extent_exact l from (cur + n) buf tr ex'"
      unfolding ex'_def
      by (rule new_piece_exact [OF ok n \<open>from \<le> cur\<close> no_bytes_yet [OF ok objs absent(2)] t])
    moreover have "object_no e \<noteq> ?o" if "e \<in> set pre \<union> set post" for e
      using that absent(5,6) by auto
    then have "\<forall>e \<in> set pre \<union> set post. extent_exact l from (cur + n) buf tr e"
      using all absent(1) by (auto intro!: extent_exact_other [OF ok n(1)])
    moreover have "object_no ex' = ?o" by (simp add: ex'_def)
    moreover have "object_at l ` {from..<cur} \<subseteq> insert ?o (object_no ` (set pre \<union> set post))"
      using objs absent(1) by auto
    moreover have "sorted_wrt (<) (map object_no (pre @ ex' # post))"
      using sorted absent(1,5,6) by (auto simp: sorted_wrt_append ex'_def)
    ultimately have "covers l from (cur + n) buf tr (pre @ ex' # post)"
      using n(1) by (intro covers_middle) simp_all
    with add show ?thesis by blast
  qed
qed

lemma extents_loop_step:
  assumes "layout_ok l" "0 < r" "from \<le> cur" "cur + r < 2 ^ 64" "cur + r - from + buf < 2 ^ 64"
  defines "n \<equiv> min r (eff_unit l - cur mod eff_unit l)"
  shows "extents_loop l (eff_unit l) (object_size l div eff_unit l) from tr buf cur r exs =
         add_piece l tr exs (object_at l cur) (offset_at l cur) n (cur - from + buf) \<bind>
         extents_loop l (eff_unit l) (object_size l div eff_unit l) from tr buf (cur + n) (r - n)"
proof -
  have n: "(if r > eff_unit l - cur mod eff_unit l then eff_unit l - cur mod eff_unit l else r) = n"
    by (simp add: n_def)
  have "n \<le> r" by (simp add: n_def)
  then have small: "u64_of (cur + n) = cur + n" using assms by simp
  have buf: "u64_of (cur + 2 ^ 64 - from + buf) = cur - from + buf"
    using assms by (intro u64_of_wrap) simp_all
  have nz: "eff_unit l \<noteq> 0" "stripe_count l \<noteq> 0" "object_size l div eff_unit l \<noteq> 0" "r \<noteq> 0"
    using layout_facts [OF assms(1)] assms(2) by simp_all
  show ?thesis
    by (subst extents_loop.simps)
      (simp only: nz n small buf Let_def object_at_def offset_at_def object_of_def offset_of_def
        simp_thms if_False)
qed

lemma extents_loop_covers:
  assumes "layout_ok l" "from \<le> cur" "cur + r < 2 ^ 64" "cur + r - from + buf < 2 ^ 64"
    and "covers l from cur buf tr exs"
  shows "\<exists>exs'. extents_loop l (eff_unit l) (object_size l div eff_unit l) from tr buf cur r exs = Some exs'
           \<and> covers l from (cur + r) buf tr exs'"
  using assms
proof (induction r arbitrary: cur exs rule: less_induct)
  case (less r)
  show ?case
  proof (cases "r = 0")
    case True
    with less.prems show ?thesis by (simp add: extents_loop.simps)
  next
    case False
    define n where "n = min r (eff_unit l - cur mod eff_unit l)"
    have n: "n \<le> eff_unit l - cur mod eff_unit l" "0 < n" "n \<le> r"
      using False layout_facts(9) [OF less.prems(1)] by (auto simp: n_def)
    obtain exs' where exs': "covers l from (cur + n) buf tr exs'"
      "add_piece l tr exs (object_at l cur) (offset_at l cur) n (cur - from + buf) = Some exs'"
      using add_piece_covers [OF less.prems(1) n(1,2) less.prems(2,5)] by blast
    have "\<exists>exs''. extents_loop l (eff_unit l) (object_size l div eff_unit l) from tr buf (cur + n) (r - n) exs'
            = Some exs'' \<and> covers l from (cur + n + (r - n)) buf tr exs''"
      using less.prems n exs'(1) by (intro less.IH) simp_all
    then show ?thesis
      using extents_loop_step [OF less.prems(1) _ less.prems(2-4), folded n_def, of tr exs] False n(3) exs'(2)
      by simp
  qed
qed

lemma covers_start: "covers l from from buf tr []"
  by (simp add: covers_def)

lemma file_to_extents_covers:
  assumes "layout_ok l" "0 < len" "offset + len < 2 ^ 64" "len + buf < 2 ^ 64"
  shows "\<exists>exs. file_to_extents l offset len tr buf [] = Some exs \<and> covers l offset (offset + len) buf tr exs"
  using extents_loop_covers [OF assms(1) order_refl assms(3) _ covers_start, of buf tr] assms(2,4)
    layout_facts [OF assms(1)]
  by (simp add: file_to_extents_def eff_unit_def Let_def)

section \<open>From objects back to the file\<close>

lemma byte_pos_bound:
  assumes "layout_ok l" "y < object_size l"
  shows "byte_pos l ob y < (ob div stripe_count l + 1) * get_period l"
proof -
  define su sc spo b where "su = stripe_unit l" and "sc = stripe_count l"
    and "spo = object_size l div su" and "b = ob div sc"
  note [simp] = su_def [symmetric] sc_def [symmetric] spo_def [symmetric] b_def [symmetric]
  have os: "object_size l = spo * su" and pos: "0 < su" "0 < sc"
    using layout_facts [OF assms(1)] by simp_all
  have eqs: "byte_pos l ob y = file_pos su sc spo ob y" "get_period l = sc * (spo * su)"
    by (simp add: byte_pos_def, simp add: get_period_def os)
  have "y div su + 1 + b * spo \<le> (b + 1) * spo"
    using assms(2) os by (simp add: less_mult_imp_div_less Suc_leI)
  then have row: "(y div su + 1 + b * spo) * sc * su \<le> (b + 1) * spo * sc * su"
    by (intro mult_le_mono1)
  have "ob mod sc + 1 \<le> sc" using pos by (simp add: Suc_leI)
  then have "((y div su + b * spo) * sc + ob mod sc + 1) * su \<le> (y div su + 1 + b * spo) * sc * su"
    by (intro mult_le_mono1) (simp add: add_mult_distrib)
  moreover have "file_pos su sc spo ob y < ((y div su + b * spo) * sc + ob mod sc + 1) * su"
    using pos by (simp add: file_pos_def add_mult_distrib)
  ultimately have "file_pos su sc spo ob y < (b + 1) * spo * sc * su" using row by linarith
  also have "(b + 1) * spo * sc * su = (b + 1) * (sc * (spo * su))" by (simp only: mult_ac)
  finally show ?thesis by (simp only: eqs b_def sc_def)
qed

lemma byte_pos_run:
  assumes "0 < stripe_unit l" "i < stripe_unit l - off mod stripe_unit l"
  shows "byte_pos l ob (off + i) = byte_pos l ob off + i"
proof -
  let ?su = "stripe_unit l"
  have c: "off + i = off div ?su * ?su + (off mod ?su + i)" by simp
  have "off mod ?su + i < ?su" using assms by linarith
  then have "(off + i) div ?su = off div ?su" "(off + i) mod ?su = off mod ?su + i"
    by (metis c add_mult_div, metis c add_mult_mod)
  then show ?thesis by (simp add: byte_pos_def file_pos_def)
qed

lemma run_positions:
  assumes "0 < stripe_unit l" "n \<le> stripe_unit l - off mod stripe_unit l"
  shows "[byte_pos l ob off..<byte_pos l ob off + n] = map (byte_pos l ob) [off..<off + n]"
proof (rule nth_equalityI)
  fix i assume "i < length [byte_pos l ob off..<byte_pos l ob off + n]"
  then have "i < n" by simp
  with assms show "[byte_pos l ob off..<byte_pos l ob off + n] ! i = map (byte_pos l ob) [off..<off + n] ! i"
    using byte_pos_run [of l i off ob] by simp
qed simp

lemma positions_append: "positions (xs @ ys) = positions xs @ positions ys"
  by (simp add: positions_def)

lemma extent_to_file_loop_positions:
  assumes "layout_ok l" "off + len \<le> object_size l" "(ob div stripe_count l + 1) * get_period l \<le> 2 ^ 64"
    and "len = 0 \<or> oib = off mod stripe_unit l"
  shows "\<exists>fes. extent_to_file_loop l ob oib off len exs = Some (exs @ fes)
           \<and> positions fes = map (byte_pos l ob) [off..<off + len]"
  using assms
proof (induction len arbitrary: off oib exs rule: less_induct)
  case (less len)
  let ?su = "stripe_unit l"
  show ?case
  proof (cases "len = 0")
    case True
    then show ?thesis by (simp add: extent_to_file_loop.simps positions_def)
  next
    case False
    note facts = layout_facts [OF less.prems(1)]
    define n where "n = min len (?su - off mod ?su)"
    have oib: "oib = off mod ?su" using False less.prems(4) by simp
    have n: "0 < n" "n \<le> len" "n \<le> ?su - off mod ?su"
      using False facts(1) by (auto simp: n_def)
    have "byte_pos l ob off < 2 ^ 64"
      using byte_pos_bound [OF less.prems(1), of off ob] False less.prems(2,3) by simp
    then have eo: "u64_of (((off div ?su + ob div stripe_count l * (object_size l div ?su)) * stripe_count l
        + ob mod stripe_count l) * ?su + off mod ?su) = byte_pos l ob off"
      by (simp add: byte_pos_def file_pos_def)
    have small: "u64_of (off + n) = off + n" using n(2) less.prems(2) facts(7) by simp
    have next_ok: "len - n = 0 \<or> 0 = (off + n) mod ?su"
    proof (cases "len - n = 0")
      case False
      then have "n = ?su - off mod ?su" by (auto simp: n_def)
      moreover have "off = off div ?su * ?su + off mod ?su" "off mod ?su < ?su" using facts(1) by simp_all
      ultimately have "off + n = off div ?su * ?su + ?su" by linarith
      then show ?thesis by simp
    qed simp
    have "\<exists>fes. extent_to_file_loop l ob 0 (off + n) (len - n) (exs @ [(byte_pos l ob off, n)])
            = Some ((exs @ [(byte_pos l ob off, n)]) @ fes)
          \<and> positions fes = map (byte_pos l ob) [off + n..<off + n + (len - n)]"
      using n less.prems next_ok by (intro less.IH) simp_all
    then obtain fes where fes:
      "extent_to_file_loop l ob 0 (off + n) (len - n) (exs @ [(byte_pos l ob off, n)])
        = Some ((exs @ [(byte_pos l ob off, n)]) @ fes)"
      "positions fes = map (byte_pos l ob) [off + n..<off + len]"
      using n(2) by auto
    have nz: "len \<noteq> 0" "stripe_count l \<noteq> 0" "\<not> ?su \<le> off mod ?su"
      using False facts(1,2) by (simp_all add: not_le)
    have "extent_to_file_loop l ob oib off len exs = Some (exs @ (byte_pos l ob off, n) # fes)"
      by (subst extent_to_file_loop.simps)
        (simp only: oib nz eo small n_def [symmetric] fes(1) Let_def simp_thms if_False append_assoc append.simps)
    moreover have "positions ((byte_pos l ob off, n) # fes) = map (byte_pos l ob) [off..<off + len]"
      using run_positions [OF facts(1) n(3), of ob] fes(2) n(2)
        upt_add_eq_append [of off "off + n" "len - n"]
      by (simp add: positions_def)
    ultimately show ?thesis by blast
  qed
qed

lemma extent_to_file_positions:
  assumes "layout_ok l" "off + len \<le> object_size l" "(ob div stripe_count l + 1) * get_period l \<le> 2 ^ 64"
  shows "\<exists>fes. extent_to_file l ob off len [] = Some fes
           \<and> positions fes = map (byte_pos l ob) [off..<off + len]"
  using extent_to_file_loop_positions [OF assms, of "off mod stripe_unit l" "[]"] layout_facts [OF assms(1)]
  by (simp add: extent_to_file_def)

section \<open>File sizes and objects\<close>

lemma digit_less_iff:
  fixes A B k m n :: nat
  assumes "k < n" "m < n"
  shows "A * n + k < B * n + m \<longleftrightarrow> A < B \<or> A = B \<and> k < m"
proof (cases A B rule: linorder_cases)
  case less
  then have "Suc A * n \<le> B * n" by (intro mult_le_mono1) (rule Suc_leI)
  with less assms show ?thesis by simp
next
  case greater
  then have "Suc B * n \<le> A * n" by (intro mult_le_mono1) (rule Suc_leI)
  with greater assms show ?thesis by simp
qed simp

lemma file_pos_digits:
  fixes su sc spo :: nat
  assumes "0 < su" "0 < sc" "y < spo * su"
  shows "file_pos su sc spo ob y < tr \<longleftrightarrow>
     ob div sc < tr div su div sc div spo
   \<or> ob div sc = tr div su div sc div spo
     \<and> (y div su < tr div su div sc mod spo
        \<or> y div su = tr div su div sc mod spo
          \<and> (ob mod sc < tr div su mod sc \<or> ob mod sc = tr div su mod sc \<and> y mod su < tr mod su))"
proof -
  define a r p m where "a = tr div su div sc div spo" and "r = tr div su div sc mod spo"
    and "p = tr div su mod sc" and "m = tr mod su"
  have "0 < spo" using assms by (cases spo) auto
  then have lt: "r < spo" "p < sc" "m < su" "y div su < spo" "ob mod sc < sc" "y mod su < su"
    using assms by (simp_all add: r_def p_def m_def less_mult_imp_div_less)
  have "tr = ((a * spo + r) * sc + p) * su + m"
    by (simp add: a_def r_def p_def m_def)
  then have "file_pos su sc spo ob y < tr \<longleftrightarrow>
      ((ob div sc * spo + y div su) * sc + ob mod sc) * su + y mod su < ((a * spo + r) * sc + p) * su + m"
    by (simp only: file_pos_def add.commute [of "y div su"])
  also have "\<dots> \<longleftrightarrow> ob div sc < a \<or> ob div sc = a \<and> (y div su < r \<or> y div su = r \<and> (ob mod sc < p \<or> ob mod sc = p \<and> y mod su < m))"
    using digit_less_iff [OF lt(6,3)] digit_less_iff [OF lt(5,2)] digit_less_iff [OF lt(4,1)] lt
    by (metis add_mult_div add_mult_mod)
  finally show ?thesis by (simp only: a_def r_def p_def m_def)
qed

lemma row_less_iff: "0 < su \<Longrightarrow> y div su < r \<longleftrightarrow> y < r * (su::nat)"
  by (metis div_less_iff_less_mult)

lemma row_le_iff:
  fixes y su r m :: nat
  assumes "0 < su" "m < su"
  shows "y div su < r \<or> y div su = r \<and> y mod su < m \<longleftrightarrow> y < r * su + m"
  using digit_less_iff [of "y mod su" su m "y div su" r] assms by simp

lemma object_truncate_size_bytes:
  assumes "layout_ok l" "tr \<noteq> u64_max" "object_truncate_size l ob tr = Some t" "y < object_size l"
  shows "byte_pos l ob y < tr \<longleftrightarrow> y < t"
proof (cases "tr = 0")
  case True
  with assms show ?thesis by (simp add: object_truncate_size_def)
next
  case False
  define su sc spo where "su = stripe_unit l" and "sc = stripe_count l" and "spo = object_size l div su"
  note facts = layout_facts [OF assms(1), folded su_def sc_def spo_def]
  have set_no: "tr div object_size l div sc = tr div su div sc div spo"
  proof -
    have "object_size l = su * spo" using facts(5) by (simp add: spo_def mult.commute)
    then show ?thesis by (simp add: div_mult2_eq [symmetric] mult_ac)
  qed
  have y: "y < spo * su" using assms(4) facts(5) by (simp add: spo_def)
  define a r p where "a = tr div su div sc div spo" and "r = tr div su div sc mod spo"
    and "p = tr div su mod sc"
  have ob: "ob < a * sc + p \<longleftrightarrow> ob mod sc < p" "a * sc + p < ob \<longleftrightarrow> p < ob mod sc" if "ob div sc = a"
    using that div_mult_mod_eq [of ob sc] by (auto; linarith)+
  have t: "t = (if a < ob div sc then 0 else if ob div sc < a then object_size l
        else if ob < a * sc + p then (r + 1) * su else if a * sc + p < ob then r * su else r * su + tr mod su)"
    using assms(1-3) False facts unfolding object_truncate_size_def Let_def
    by (simp add: su_def [symmetric] sc_def [symmetric] spo_def [symmetric] set_no
        a_def [symmetric] r_def [symmetric] p_def [symmetric] split: if_splits)
  have pos: "byte_pos l ob y < tr \<longleftrightarrow>
     ob div sc < a \<or> ob div sc = a \<and> (y div su < r \<or> y div su = r \<and> (ob mod sc < p \<or> ob mod sc = p \<and> y mod su < tr mod su))"
    unfolding byte_pos_def su_def [symmetric] sc_def [symmetric] spo_def [symmetric]
    using file_pos_digits [OF facts(1,2) y, of ob tr] by (simp only: a_def r_def p_def)
  have less: "y div su < r \<longleftrightarrow> y < r * su" "y div su < r + 1 \<longleftrightarrow> y < (r + 1) * su"
    "y div su < r \<or> y div su = r \<and> y mod su < tr mod su \<longleftrightarrow> y < r * su + tr mod su"
    using row_less_iff [OF facts(1)] row_le_iff [OF facts(1), of "tr mod su" y r] facts(1) by simp_all
  show ?thesis
  proof (cases "ob div sc = a")
    case True
    consider "ob mod sc < p" | "p < ob mod sc" | "ob mod sc = p" by linarith
    then show ?thesis
      using True pos t ob [OF True] less by cases (auto simp: less_Suc_eq)
  qed (use pos t assms(4) in auto)
qed

lemma object_touched_iff:
  assumes "layout_ok l"
  shows "ob \<in> object_at l ` {0..<sz} \<longleftrightarrow> byte_pos l ob 0 < sz"
proof
  assume "ob \<in> object_at l ` {0..<sz}"
  then obtain c where c: "ob = object_at l c" "c < sz" by auto
  have "byte_pos l ob 0 \<le> byte_pos l ob (offset_at l c)"
    using byte_pos_less_iff [OF assms, of ob "offset_at l c" 0] by (simp add: not_less [symmetric])
  also have "\<dots> = c" using assms c(1) by simp
  finally show "byte_pos l ob 0 < sz" using c(2) by simp
next
  assume "byte_pos l ob 0 < sz"
  moreover have "object_at l (byte_pos l ob 0) = ob"
    using layout_facts(3) [OF assms] by (intro at_byte_pos(1) assms)
  ultimately show "ob \<in> object_at l ` {0..<sz}" by (metis atLeastLessThan_iff imageI zero_le)
qed

lemma first_byte:
  assumes "layout_ok l"
  shows "byte_pos l ob 0 = ob div stripe_count l * get_period l + ob mod stripe_count l * stripe_unit l"
proof -
  have "byte_pos l ob 0 = ob div stripe_count l * stripe_count l * (object_size l div stripe_unit l * stripe_unit l)
      + ob mod stripe_count l * stripe_unit l"
    by (simp add: byte_pos_def file_pos_def algebra_simps)
  then show ?thesis using layout_facts(5) [OF assms] by (simp add: get_period_def)
qed

lemma ceiling_less_iff:
  fixes p rem su :: nat
  assumes "0 < su" "0 < rem"
  shows "p < (rem + su - 1) div su \<longleftrightarrow> p * su < rem"
proof -
  have "p < (rem + su - 1) div su \<longleftrightarrow> Suc p * su \<le> rem + su - 1"
    using assms(1) less_eq_div_iff_mult_less_eq [of su "Suc p" "rem + su - 1"] by (simp add: Suc_le_eq)
  then show ?thesis using assms by auto
qed

lemma short_set_eq:
  fixes sc su rem :: nat
  assumes "0 < su" "0 < sc" "0 < rem"
  shows "sc - (if rem < sc * su then sc - (rem + su - 1) div su else 0) = min sc ((rem + su - 1) div su)"
proof (cases "rem < sc * su")
  case True
  then have "(rem + su - 1) div su \<le> sc"
    using ceiling_less_iff [OF assms(1,3), of sc] by linarith
  with True show ?thesis by simp
next
  case False
  moreover have "(sc - 1) * su < sc * su" using assms by simp
  ultimately have "sc - 1 < (rem + su - 1) div su"
    using ceiling_less_iff [OF assms(1,3), of "sc - 1"] by linarith
  with False show ?thesis by simp
qed

lemma num_periods_eq:
  fixes sz P :: nat
  assumes "0 < P"
  shows "(sz + P - 1) div P = sz div P + (if sz mod P = 0 then 0 else 1)"
proof -
  have "sz + P - 1 = sz div P * P + (sz mod P + P - 1)" using assms by simp
  then have "(sz + P - 1) div P = sz div P + (sz mod P + P - 1) div P"
    using assms by (metis add.commute div_mult_self1 less_not_refl2)
  moreover have "(sz mod P + P - 1) div P = (if sz mod P = 0 then 0 else 1)"
  proof (cases "sz mod P = 0")
    case False
    then have "sz mod P + P - 1 = 1 * P + (sz mod P - 1)" by simp
    moreover have "sz mod P - 1 < P" using assms by (meson less_imp_diff_less mod_less_divisor)
    ultimately show ?thesis using False by (simp only: add_mult_div if_False)
  qed (use assms in simp)
  ultimately show ?thesis by simp
qed

definition objects_needed :: "file_layout_t \<Rightarrow> nat \<Rightarrow> nat" where
  "objects_needed l sz =
     (let rem = sz mod get_period l; full = sz div get_period l * stripe_count l
      in if rem = 0 then full
         else full + min (stripe_count l) ((rem + stripe_unit l - 1) div stripe_unit l))"

lemma get_num_objects_eq:
  assumes "layout_ok l" "sz + get_period l \<le> 2 ^ 64"
  shows "get_num_objects l sz = Some (objects_needed l sz)"
proof -
  define su sc P rem where "su = stripe_unit l" and "sc = stripe_count l" and "P = get_period l"
    and "rem = sz mod P"
  note facts = layout_facts [OF assms(1), folded su_def sc_def]
  have P: "0 < P" "sc \<le> P" using facts(2,3) by (simp_all add: P_def get_period_def sc_def)
  have "u64_of (sz + P - 1) = sz + P - 1"
    using assms(2) P by (intro u64_of_small) (simp add: P_def)
  then have np: "u64_of (sz + P - 1) div P = sz div P + (if rem = 0 then 0 else 1)"
    using num_periods_eq [OF P(1)] by (simp add: rem_def)
  define ro where "ro = (if 0 < rem \<and> rem < sc * su then sc - (rem + su - 1) div su else 0)"
  define np' where "np' = sz div P + (if rem = 0 then 0 else 1)"
  have ro: "ro \<le> np' * sc" by (auto simp: ro_def np'_def)
  have need: "np' * sc - ro = objects_needed l sz"
  proof (cases "rem = 0")
    case False
    then have "np' * sc - ro = sz div P * sc + (sc - ro)" by (auto simp: np'_def ro_def)
    also have "sc - ro = min sc ((rem + su - 1) div su)"
      using short_set_eq [OF facts(1,2), of rem] False by (simp add: ro_def)
    finally show ?thesis
      using False unfolding objects_needed_def Let_def su_def sc_def P_def rem_def by simp
  qed (simp add: objects_needed_def ro_def np'_def Let_def sc_def P_def rem_def)
  have "np' * sc \<le> np' * P" using P(2) by simp
  also have "np' * P < sz + P"
  proof -
    have "sz = sz div P * P + rem" by (simp add: rem_def)
    then show ?thesis using P(1) unfolding np'_def by (auto simp: add_mult_distrib; linarith)
  qed
  finally have "np' * sc - ro < 2 ^ 64" using assms(2) unfolding P_def by linarith
  then have "u64_of (np' * sc + 2 ^ 64 - ro) = np' * sc - ro"
    using u64_of_wrap [OF ro, of 0] by simp
  moreover have "get_num_objects l sz = Some (u64_of (np' * sc + 2 ^ 64 - ro))"
    using P np by (simp add: get_num_objects_def Let_def su_def [symmetric] sc_def [symmetric]
        P_def [symmetric] rem_def [symmetric] ro_def np'_def)
  ultimately show ?thesis using need by simp
qed

lemma objects_needed_iff:
  assumes "layout_ok l"
  shows "byte_pos l ob 0 < sz \<longleftrightarrow> ob < objects_needed l sz"
proof -
  define su sc P rem where "su = stripe_unit l" and "sc = stripe_count l" and "P = get_period l"
    and "rem = sz mod P"
  note facts = layout_facts [OF assms, folded su_def sc_def]
  have "sc * su \<le> P" using facts(4) by (simp add: P_def get_period_def sc_def)
  moreover have "ob mod sc * su < sc * su" using facts(1,2) by simp
  ultimately have lt: "ob mod sc * su < P" by linarith
  have "0 < P" using lt by simp
  then have "rem < P" by (simp add: rem_def)
  have "byte_pos l ob 0 < sz \<longleftrightarrow> ob div sc * P + ob mod sc * su < sz div P * P + rem"
    using first_byte [OF assms, of ob] by (simp add: P_def sc_def su_def rem_def)
  also have "\<dots> \<longleftrightarrow> ob div sc < sz div P \<or> ob div sc = sz div P \<and> ob mod sc * su < rem"
    by (rule digit_less_iff [OF lt \<open>rem < P\<close>])
  also have "\<dots> \<longleftrightarrow> ob < objects_needed l sz"
  proof (cases "rem = 0")
    case True
    then have "objects_needed l sz = sz div P * sc + 0"
      by (simp add: objects_needed_def Let_def P_def sc_def rem_def)
    then show ?thesis
      using True facts(2) digit_less_iff [of "ob mod sc" sc 0 "ob div sc" "sz div P"] by simp
  next
    case False
    define k where "k = (rem + su - 1) div su"
    have need: "objects_needed l sz = sz div P * sc + min sc k"
      using False by (simp add: objects_needed_def Let_def P_def sc_def su_def rem_def k_def)
    have k: "ob mod sc * su < rem \<longleftrightarrow> ob mod sc < min sc k"
      using ceiling_less_iff [OF facts(1), of rem "ob mod sc"] False facts(2) by (simp add: k_def)
    show ?thesis
    proof (cases "sc \<le> k")
      case True
      then have "objects_needed l sz = (sz div P + 1) * sc + 0" using need by simp
      then have "ob < objects_needed l sz \<longleftrightarrow> ob div sc < sz div P + 1"
        using facts(2) digit_less_iff [of "ob mod sc" sc 0 "ob div sc" "sz div P + 1"] by simp
      with k True facts(2) show ?thesis by auto
    next
      case False
      then have "ob < objects_needed l sz \<longleftrightarrow> ob div sc * sc + ob mod sc < sz div P * sc + k"
        using need by simp
      also have "\<dots> \<longleftrightarrow> ob div sc < sz div P \<or> ob div sc = sz div P \<and> ob mod sc < k"
        using False facts(2) by (intro digit_less_iff) simp_all
      finally show ?thesis using k False by simp
    qed
  qed
  finally show ?thesis .
qed

lemma covers_objects:
  assumes "layout_ok l" "covers l from until buf tr exs"
  shows "object_no ` set exs = object_at l ` {from..<until}"
proof
  show "object_no ` set exs \<subseteq> object_at l ` {from..<until}"
  proof
    fix ob assume "ob \<in> object_no ` set exs"
    then obtain ex where ex: "ex \<in> set exs" "ob = object_no ex" by blast
    then have "ex_offset ex \<in> bytes_in l from until ob"
      using assms(2) by (simp add: covers_def extent_exact_def)
    then have "byte_pos l ob (ex_offset ex) \<in> {from..<until}" "ex_offset ex < object_size l"
      by (simp_all add: bytes_in_def)
    then show "ob \<in> object_at l ` {from..<until}"
      using at_byte_pos(1) [OF assms(1)] by (metis imageI)
  qed
qed (use assms(2) in \<open>simp add: covers_def\<close>)

lemma covers_byte:
  assumes "layout_ok l" "until \<le> 2 ^ 64" "covers l from until buf tr exs" "ex \<in> set exs" "i < ex_length ex"
  shows "\<exists>c \<in> {from..<until}. get_file_offset l (object_no ex) (ex_offset ex + i) = Some c
           \<and> positions (buffer_extents ex) ! i = c - from + buf"
proof -
  have ex: "extent_exact l from until buf tr ex" using assms(3,4) by (simp add: covers_def)
  then have "ex_offset ex + i \<in> bytes_in l from until (object_no ex)"
    using assms(5) by (simp add: extent_exact_def)
  then have c: "byte_pos l (object_no ex) (ex_offset ex + i) \<in> {from..<until}"
    by (simp add: bytes_in_def)
  moreover have "positions (buffer_extents ex) ! i = byte_pos l (object_no ex) (ex_offset ex + i) - from + buf"
    using ex assms(5) by (simp add: extent_exact_def)
  moreover have "byte_pos l (object_no ex) (ex_offset ex + i) < 2 ^ 64" using c assms(2) by simp
  ultimately show ?thesis using assms(1) by (auto simp: get_file_offset_eq)
qed

lemma covers_all:
  assumes "layout_ok l" "until \<le> 2 ^ 64" "covers l from until buf tr exs" "c \<in> {from..<until}"
  shows "\<exists>ex \<in> set exs. \<exists>i < ex_length ex. get_file_offset l (object_no ex) (ex_offset ex + i) = Some c"
proof -
  obtain ex where ex: "ex \<in> set exs" "object_no ex = object_at l c"
    using assms(3,4) by (force simp: covers_def)
  have "offset_at l c \<in> bytes_in l from until (object_no ex)"
    using assms(1,4) ex(2) offset_at_less [OF assms(1)] by (simp add: bytes_in_def)
  also have "\<dots> = {ex_offset ex..<ex_offset ex + ex_length ex}"
    using assms(3) ex(1) by (simp add: covers_def extent_exact_def)
  finally obtain i where i: "i < ex_length ex" "offset_at l c = ex_offset ex + i"
    by (metis add_less_cancel_left atLeastLessThan_iff le_Suc_ex)
  have "get_file_offset l (object_no ex) (ex_offset ex + i) = Some c"
    using assms(1,2,4) unfolding i(2) [symmetric] ex(2) by (simp add: get_file_offset_eq)
  with ex i show ?thesis by blast
qed

lemma object_truncate_size_le:
  assumes "layout_ok l" "object_truncate_size l ob tr = Some t" "tr \<noteq> u64_max"
  shows "t \<le> object_size l"
proof -
  define su spo where "su = stripe_unit l" and "spo = object_size l div su"
  have pos: "0 < su" "0 < spo" "spo * su = object_size l"
    using layout_facts [OF assms(1)] by (simp_all add: su_def spo_def)
  then have "(k mod spo + 1) * su \<le> object_size l" for k
    using mult_le_mono1 [of "k mod spo + 1" spo su] by (simp add: Suc_leI)
  moreover have "tr mod su < su" using pos by simp
  ultimately have "(k mod spo + 1) * su \<le> object_size l \<and> k mod spo * su \<le> object_size l
      \<and> k mod spo * su + tr mod su \<le> object_size l" for k
    using add_mult_distrib [of "k mod spo" 1 su] by (metis add_leD1 add_left_mono less_imp_le mult_1 order_trans)
  with assms(2,3) show ?thesis
    unfolding object_truncate_size_def Let_def su_def spo_def by (auto split: if_splits)
qed

section \<open>Names of objects\<close>

text \<open>Different inodes never share an object, and different objects of an inode have different names.\<close>

lemma ino_format_inj:
  assumes "ino_format i ob = ino_format i' ob'"
  shows "i = i' \<and> ob = ob'"
proof -
  have digits: "list_all (is_digit 16) (to_base 16 n)" and val: "num_val 16 (to_base 16 n) = n" for n
    using to_base_digits [of 16 n] by simp_all
  have dot: "\<not> is_digit 16 CHR ''.''" by (simp add: is_digit_def digit_val_def)
  have front: "takeWhile (is_digit 16) (ino_format n k) = to_base 16 n"
    and tail: "dropWhile (is_digit 16) (ino_format n k) =
      ''.'' @ replicate (8 - length (to_base 16 k)) CHR ''0'' @ to_base 16 k" for n k
    unfolding ino_format_def using takeWhile_digits [OF digits] dot by simp_all
  have "to_base 16 i = to_base 16 i'" using front [of i ob] front [of i' ob'] assms by simp
  then have "i = i'" by (metis val)
  moreover have "num_val 16 (replicate (8 - length (to_base 16 ob)) CHR ''0'' @ to_base 16 ob) =
      num_val 16 (replicate (8 - length (to_base 16 ob')) CHR ''0'' @ to_base 16 ob')"
    using tail [of i ob] tail [of i' ob'] assms by simp
  then have "ob = ob'" by (simp add: num_val_zeros val)
  ultimately show ?thesis by simp
qed

lemma group_distinct:
  assumes "distinct (map g exs)" "\<forall>ex \<in> set exs. m (g ex) = None"
  shows "fold (\<lambda>ex m. m(g ex \<mapsto> (case m (g ex) of None \<Rightarrow> [] | Some v \<Rightarrow> v) @ [h ex])) exs m =
         (\<lambda>k. if k \<in> g ` set exs then map_of (map (\<lambda>ex. (g ex, [h ex])) exs) k else m k)"
  using assms
proof (induction exs arbitrary: m)
  case (Cons ex exs)
  have "\<forall>e \<in> set exs. (m(g ex \<mapsto> [h ex])) (g e) = None"
    using Cons.prems by (auto simp: image_iff)
  then have "fold (\<lambda>ex m. m(g ex \<mapsto> (case m (g ex) of None \<Rightarrow> [] | Some v \<Rightarrow> v) @ [h ex])) exs (m(g ex \<mapsto> [h ex])) =
      (\<lambda>k. if k \<in> g ` set exs then map_of (map (\<lambda>ex. (g ex, [h ex])) exs) k else (m(g ex \<mapsto> [h ex])) k)"
    using Cons.prems(1) by (intro Cons.IH) simp_all
  moreover have "(\<lambda>k. if k \<in> g ` set exs then map_of (map (\<lambda>ex. (g ex, [h ex])) exs) k else (m(g ex \<mapsto> [h ex])) k) =
      (\<lambda>k. if k \<in> g ` set (ex # exs) then map_of (map (\<lambda>ex. (g ex, [h ex])) (ex # exs)) k else m k)"
    using Cons.prems(1) by (intro ext) auto
  moreover have "m(g ex \<mapsto> (case m (g ex) of None \<Rightarrow> [] | Some v \<Rightarrow> v) @ [h ex]) = m(g ex \<mapsto> [h ex])"
    using Cons.prems(2) by simp
  ultimately show ?case by (simp only: fold_Cons comp_apply)
qed simp

text \<open>
  Collected by name, the extents of a range are single: no object of an inode appears twice, since
  the objects of the extents differ and so do their names.
\<close>

lemma file_to_extents_map_single:
  assumes "layout_ok l" "0 < len" "offset + len < 2 ^ 64" "len + buf < 2 ^ 64"
  shows "\<exists>exs m. file_to_extents l offset len tr buf [] = Some exs
    \<and> file_to_extents_map (ino_format ino) l offset len tr Map.empty buf = Some m
    \<and> dom m = ino_format ino ` object_no ` set exs
    \<and> (\<forall>ex \<in> set exs. m (ino_format ino (object_no ex)) = Some [heavyweight (ino_format ino) l ex])"
proof -
  let ?g = "\<lambda>ex. ino_format ino (object_no ex)" and ?h = "heavyweight (ino_format ino) l"
  obtain exs where exs: "file_to_extents l offset len tr buf [] = Some exs"
    and cov: "covers l offset (offset + len) buf tr exs"
    using file_to_extents_covers [OF assms] by blast
  have "distinct (map object_no exs)" using cov by (simp add: covers_def strict_sorted_iff)
  then have dist: "distinct (map ?g exs)"
    by (auto simp: distinct_map inj_on_def dest: ino_format_inj)
  define m where "m = (\<lambda>k. if k \<in> ?g ` set exs then map_of (map (\<lambda>ex. (?g ex, [?h ex])) exs) k else None)"
  have "file_to_extents_map (ino_format ino) l offset len tr Map.empty buf = Some m"
    using group_distinct [OF dist, of Map.empty ?h] exs by (simp add: file_to_extents_map_def m_def)
  moreover have val: "m (?g ex) = Some [?h ex]" if "ex \<in> set exs" for ex
    using that dist by (auto simp: m_def o_def intro!: map_of_is_SomeI)
  moreover have "dom m = ino_format ino ` object_no ` set exs"
    using val by (auto simp: m_def image_image split: if_splits)
  ultimately show ?thesis using exs by blast
qed

section \<open>Properties\<close>

definition demo_layout :: file_layout_t where
  "demo_layout = \<lparr>stripe_unit = 65536, stripe_count = 2, object_size = 131072,
     layout_pool_id = 1, layout_pool_ns = []\<rparr>"

definition demo_extents :: "object_extent list" where
  "demo_extents =
     [\<lparr>object_no = 0, ex_offset = 60000, ex_length = 71072, ex_truncate_size = 0,
       buffer_extents = [(0, 5536), (71072, 65536)]\<rparr>,
      \<lparr>object_no = 1, ex_offset = 0, ex_length = 78928, ex_truncate_size = 0,
       buffer_extents = [(5536, 65536), (136608, 13392)]\<rparr>]"

lemma demo_layout_ok: "layout_ok demo_layout"
  by (simp add: layout_ok_def layout_is_valid_def demo_layout_def)

lemma demo_file_to_extents: "file_to_extents demo_layout 60000 150000 0 0 [] = Some demo_extents"
  by (simp add: file_to_extents_def extents_loop.simps add_piece_def object_truncate_size_def u64_of_def
      demo_layout_def demo_extents_def Let_def)

text \<open>
  Property C8.  For a valid layout and a range that stays below \<open>2^64\<close>, \<open>file_to_extents\<close> returns, the
  extents are in increasing order of their objects with one extent per object, every byte of
  an extent is a byte of the range and is assigned the place of that byte in the buffer, and
  every byte of the range is in an extent.
\<close>

theorem file_to_extents_exact:
  assumes "layout_ok l" "0 < len" "offset + len < 2 ^ 64" "len + buffer_offset < 2 ^ 64"
  shows "\<exists>exs. file_to_extents l offset len trunc_size buffer_offset [] = Some exs
    \<and> sorted_wrt (<) (map object_no exs)
    \<and> (\<forall>ex \<in> set exs. length (positions (buffer_extents ex)) = ex_length ex
        \<and> (\<forall>i < ex_length ex. \<exists>c \<in> {offset..<offset + len}.
              get_file_offset l (object_no ex) (ex_offset ex + i) = Some c
            \<and> positions (buffer_extents ex) ! i = c - offset + buffer_offset))
    \<and> (\<forall>c \<in> {offset..<offset + len}. \<exists>ex \<in> set exs. \<exists>i < ex_length ex.
          get_file_offset l (object_no ex) (ex_offset ex + i) = Some c)"
proof -
  obtain exs where exs: "file_to_extents l offset len trunc_size buffer_offset [] = Some exs"
    and cov: "covers l offset (offset + len) buffer_offset trunc_size exs"
    using file_to_extents_covers [OF assms] by blast
  have "length (positions (buffer_extents ex)) = ex_length ex" if "ex \<in> set exs" for ex
    using cov that by (simp add: covers_def extent_exact_def)
  moreover have "offset + len \<le> 2 ^ 64" using assms(3) by simp
  moreover have "sorted_wrt (<) (map object_no exs)" using cov by (simp add: covers_def)
  ultimately show ?thesis
    using exs covers_byte [OF assms(1) _ cov] covers_all [OF assms(1) _ cov] by (intro exI [of _ exs]) simp
qed

theorem file_to_extents_exact_witness:
  "file_to_extents demo_layout 60000 150000 0 0 [] = Some demo_extents
    \<and> (\<exists>ex \<in> set demo_extents. \<exists>i < ex_length ex.
          get_file_offset demo_layout (object_no ex) (ex_offset ex + i) = Some 140000)"
proof -
  from file_to_extents_exact [of demo_layout 150000 60000 0 0] demo_layout_ok
  have "\<forall>c \<in> {60000..<60000 + 150000}. \<exists>ex \<in> set demo_extents. \<exists>i < ex_length ex.
          get_file_offset demo_layout (object_no ex) (ex_offset ex + i) = Some c"
    by (simp add: demo_file_to_extents)
  from bspec [OF this, of 140000] show ?thesis by (simp add: demo_file_to_extents)
qed

text \<open>
  Property C18.  \<open>extent_to_file\<close> undoes \<open>file_to_extents\<close>: for every extent of a range it returns
  the parts of the file that the extent holds, byte by byte in the order of the buffer places.
\<close>

theorem extent_to_file_inverts:
  assumes "layout_ok l" "0 < len" "offset + len + get_period l \<le> 2 ^ 64" "len + buffer_offset < 2 ^ 64"
    and "file_to_extents l offset len trunc_size buffer_offset [] = Some exs" "ex \<in> set exs"
  shows "\<exists>fes. extent_to_file l (object_no ex) (ex_offset ex) (ex_length ex) [] = Some fes
           \<and> positions fes = map (\<lambda>p. p - buffer_offset + offset) (positions (buffer_extents ex))"
proof -
  let ?bp = "byte_pos l (object_no ex)"
  have "0 < get_period l" using layout_facts [OF assms(1)] by (simp add: get_period_def)
  then have "offset + len < 2 ^ 64" using assms(3) by simp
  from file_to_extents_covers [OF assms(1,2) this assms(4), of trunc_size]
  have ex: "extent_exact l offset (offset + len) buffer_offset trunc_size ex"
    using assms(5,6) by (auto simp: covers_def)
  have inside: "offset \<le> ?bp y" "?bp y < offset + len"
    if "y \<in> {ex_offset ex..<ex_offset ex + ex_length ex}" for y
    using ex that unfolding extent_exact_def bytes_in_def by blast+
  have "object_no ex div stripe_count l * get_period l \<le> ?bp 0"
    by (simp add: first_byte [OF assms(1)])
  also have "?bp 0 \<le> ?bp (ex_offset ex)"
    using byte_pos_less_iff [OF assms(1), of "object_no ex" "ex_offset ex" 0] by (simp add: not_less [symmetric])
  also have "\<dots> < offset + len" using ex by (intro inside(2)) (simp add: extent_exact_def)
  finally have "(object_no ex div stripe_count l + 1) * get_period l \<le> 2 ^ 64"
    using assms(3) by (simp add: add_mult_distrib)
  from extent_to_file_positions [OF assms(1) extent_exact_end [OF ex] this]
  obtain fes where fes: "extent_to_file l (object_no ex) (ex_offset ex) (ex_length ex) [] = Some fes"
    "positions fes = map ?bp [ex_offset ex..<ex_offset ex + ex_length ex]" by blast
  have "map (\<lambda>p. p - buffer_offset + offset) (positions (buffer_extents ex)) = positions fes"
    using ex inside(1) by (simp add: extent_exact_def fes(2))
  with fes(1) show ?thesis by (intro exI [of _ fes]) simp
qed

theorem extent_to_file_inverts_witness:
  "extent_to_file demo_layout 0 60000 71072 [] = Some [(60000, 5536), (131072, 65536)]
    \<and> positions [(60000, 5536), (131072, 65536)] =
        map (\<lambda>p. p - 0 + 60000) (positions [(0, 5536), (71072, 65536)])"
proof -
  have "extent_to_file demo_layout 0 60000 71072 [] = Some [(60000, 5536), (131072, 65536)]"
    by (simp add: extent_to_file_def extent_to_file_loop.simps u64_of_def demo_layout_def Let_def)
  then show ?thesis
    using extent_to_file_inverts [OF demo_layout_ok _ _ _ demo_file_to_extents, of "demo_extents ! 0"]
    by (simp add: demo_extents_def demo_layout_def get_period_def)
qed

text \<open>
  Property C19.  \<open>object_truncate_size\<close> is the number of bytes of the object that remain
  when the file is cut to \<open>trunc_size\<close>: the bytes of the object before it are those whose place in the
  file is below \<open>trunc_size\<close>.
\<close>

theorem object_truncate_size_exact:
  assumes "layout_ok l" "trunc_size \<noteq> 2 ^ 64 - 1"
    and "(objectno div stripe_count l + 1) * get_period l \<le> 2 ^ 64"
  shows "\<exists>t \<le> object_size l. object_truncate_size l objectno trunc_size = Some t
    \<and> (\<forall>y < object_size l. \<exists>c. get_file_offset l objectno y = Some c \<and> (y < t \<longleftrightarrow> c < trunc_size))"
proof -
  obtain t where t: "object_truncate_size l objectno trunc_size = Some t"
    using object_truncate_size_total [OF assms(1)] by blast
  have "get_file_offset l objectno y = Some (byte_pos l objectno y)" if "y < object_size l" for y
    using byte_pos_bound [OF assms(1) that, of objectno] assms(1,3) by (simp add: get_file_offset_eq)
  moreover have "t \<le> object_size l"
    using object_truncate_size_le [OF assms(1) t] assms(2) by simp
  ultimately show ?thesis
    using t object_truncate_size_bytes [OF assms(1,2) t] by (intro exI [of _ t]) auto
qed

theorem object_truncate_size_exact_witness:
  "object_truncate_size demo_layout 1 140000 = Some 65536
    \<and> (\<exists>c. get_file_offset demo_layout 1 65535 = Some c \<and> c < 140000)
    \<and> (\<exists>c. get_file_offset demo_layout 1 65536 = Some c \<and> \<not> c < 140000)"
proof -
  have t: "object_truncate_size demo_layout 1 140000 = Some 65536" and os: "object_size demo_layout = 131072"
    and "(1 div stripe_count demo_layout + 1) * get_period demo_layout \<le> 2 ^ 64"
    by (simp_all add: object_truncate_size_def demo_layout_def get_period_def)
  then have "\<forall>y < 131072. \<exists>c. get_file_offset demo_layout 1 y = Some c \<and> (y < 65536 \<longleftrightarrow> c < 140000)"
    using object_truncate_size_exact [OF demo_layout_ok, of 140000 1] by simp
  from spec [OF this, of 65535] spec [OF this, of 65536] t show ?thesis by simp
qed

text \<open>
  Property C20.  \<open>get_num_objects\<close> is the number of objects that a file of the size has bytes in:
  the extents of the whole file are one in each of the objects \<open>0\<close>, \<open>1\<close>, \<dots> below that number.
\<close>

theorem get_num_objects_exact:
  assumes "layout_ok l" "0 < sz" "sz + get_period l \<le> 2 ^ 64"
  shows "\<exists>n exs. get_num_objects l sz = Some n
    \<and> file_to_extents l 0 sz trunc_size 0 [] = Some exs \<and> map object_no exs = [0..<n]"
proof -
  have "0 < get_period l" using layout_facts [OF assms(1)] by (simp add: get_period_def)
  then have small: "0 + sz < 2 ^ 64" "sz + 0 < 2 ^ 64" using assms(3) by simp_all
  obtain exs where exs: "file_to_extents l 0 sz trunc_size 0 [] = Some exs" "covers l 0 sz 0 trunc_size exs"
    using file_to_extents_covers [OF assms(1,2) small, of trunc_size] by auto
  have "ob \<in> object_no ` set exs \<longleftrightarrow> ob < objects_needed l sz" for ob
    using covers_objects [OF assms(1) exs(2)] object_touched_iff [OF assms(1)] objects_needed_iff [OF assms(1)]
    by simp
  then have "set (map object_no exs) = set [0..<objects_needed l sz]"
    by (simp only: set_map set_upt set_eq_iff atLeastLessThan_iff zero_le simp_thms)
  moreover have "sorted_wrt (<) (map object_no exs)" using exs(2) by (simp add: covers_def)
  ultimately have "map object_no exs = [0..<objects_needed l sz]"
    by (intro strict_sorted_equal) simp_all
  with exs(1) get_num_objects_eq [OF assms(1,3)] show ?thesis by blast
qed

theorem get_num_objects_exact_witness:
  "get_num_objects demo_layout 300000 = Some 3
    \<and> (\<exists>exs. file_to_extents demo_layout 0 300000 0 0 [] = Some exs \<and> map object_no exs = [0, 1, 2])"
proof -
  have n: "get_num_objects demo_layout 300000 = Some 3" and P: "get_period demo_layout = 262144"
    by (simp_all add: get_num_objects_def get_period_def u64_of_def demo_layout_def)
  have "\<exists>n exs. get_num_objects demo_layout 300000 = Some n
      \<and> file_to_extents demo_layout 0 300000 0 0 [] = Some exs \<and> map object_no exs = [0..<n]"
    by (rule get_num_objects_exact [OF demo_layout_ok]) (simp_all add: P)
  then obtain n exs where e: "get_num_objects demo_layout 300000 = Some n"
    "file_to_extents demo_layout 0 300000 0 0 [] = Some exs" "map object_no exs = [0..<n]" by blast
  have "n = 3" using n e(1) by simp
  then have "map object_no exs = [0, 1, 2]" using e(3) by (simp add: numeral_3_eq_3)
  then show ?thesis by (intro conjI n exI [of _ exs] e(2))
qed

end
