(* ===== verification/Striped_Read.thy ===== *)
theory Striped_Read
  imports Striper
begin

text \<open>
  Assembly of the replies of a striped read (\<open>Striper::StripedReadResult\<close> of \<open>osdc/Striper.cc\<close>).
  Every reply is split over the buffer extents of its object extent and kept, with the length
  that was asked for, under its place in the buffer.  A reply may be dense and too short, which
  stands for zeros at its end, or sparse, with a map of the extents that hold data.  When all
  replies have come the parts are joined.

  \<open>ceph::buffer::list\<close> is the list of its bytes; its length and the arguments of its methods are
  \<open>unsigned\<close> and narrowed to 32 bits.
\<close>

type_synonym byte = "8 word"

section \<open>Buffer lists\<close>

definition u32_of :: "nat \<Rightarrow> nat" where "u32_of n = n mod 2 ^ 32"

definition bl_length :: "byte list \<Rightarrow> nat" where
  "bl_length bl = u32_of (length bl)"

definition bl_append_zero :: "byte list \<Rightarrow> nat \<Rightarrow> byte list" where
  "bl_append_zero bl n = bl @ replicate (u32_of n) 0"

text \<open>
  \<open>bl.splice(0, n, &dest)\<close>: the first bytes move to the end of another list.  An empty list makes it
  throw, and a list that is too short makes it run over the end of its buffers.
\<close>

definition bl_splice :: "byte list \<Rightarrow> nat \<Rightarrow> byte list \<Rightarrow> (byte list \<times> byte list) option" where
  "bl_splice bl n dest =
     (let n = u32_of n in
      if n = 0 then Some (bl, dest)
      else if bl_length bl = 0 then None
      else if n \<le> length bl then Some (drop n bl, dest @ take n bl) else None)"

lemma u32_of_small [simp]: "n < 2 ^ 32 \<Longrightarrow> u32_of n = n"
  by (simp add: u32_of_def)

lemma bl_length_small [simp]: "length bl < 2 ^ 32 \<Longrightarrow> bl_length bl = length bl"
  by (simp add: bl_length_def)

lemma bl_append_zero_small [simp]: "n < 2 ^ 32 \<Longrightarrow> bl_append_zero bl n = bl @ replicate n 0"
  by (simp add: bl_append_zero_def)

lemma bl_splice_small:
  "length bl < 2 ^ 32 \<Longrightarrow> n \<le> length bl \<Longrightarrow> bl_splice bl n dest = Some (drop n bl, dest @ take n bl)"
  by (auto simp: bl_splice_def Let_def)

section \<open>The collected parts\<close>

record striped_read_result =
  partial :: "(nat \<times> (byte list \<times> nat)) list"
  total_intended_len :: nat

definition empty_result :: striped_read_result where
  "empty_result = \<lparr>partial = [], total_intended_len = 0\<rparr>"

text \<open>\<open>partial[k]\<close>, which makes an empty entry when there is none.\<close>

definition partial_at :: "striped_read_result \<Rightarrow> nat \<Rightarrow> byte list \<times> nat" where
  "partial_at r k = (case map_of (partial r) k of None \<Rightarrow> ([], 0) | Some v \<Rightarrow> v)"

text \<open>Storing bytes and an intended length under a place, with the count of intended bytes.\<close>

definition put_part :: "striped_read_result \<Rightarrow> nat \<Rightarrow> byte list \<Rightarrow> nat \<Rightarrow> striped_read_result" where
  "put_part r k bytes n =
     \<lparr>partial = map_put (partial r) k (bytes, n), total_intended_len = u64_of (total_intended_len r + n)\<rparr>"

fun add_partial_result ::
  "striped_read_result \<Rightarrow> byte list \<Rightarrow> (nat \<times> nat) list \<Rightarrow> striped_read_result option" where
  "add_partial_result r bl [] = Some r"
| "add_partial_result r bl ((b, n) # bes) =
     do {
       (bl', bytes) \<leftarrow> bl_splice bl (min (bl_length bl) n) (fst (partial_at r b));
       add_partial_result (put_part r b bytes n) bl' bes
     }"

text \<open>The version that may take the buffer: a single buffer extent gets all of it.\<close>

definition add_partial_result_move ::
  "striped_read_result \<Rightarrow> byte list \<Rightarrow> (nat \<times> nat) list \<Rightarrow> striped_read_result option" where
  "add_partial_result_move r bl bes =
     (case bes of [(b, n)] \<Rightarrow> Some (put_part r b bl n) | _ \<Rightarrow> add_partial_result r bl bes)"

lemma shrinks: "0 < m \<Longrightarrow> a - g \<noteq> 0 \<Longrightarrow> a - g - m < (a::nat)"
  by linarith

lemma advances:
  fixes a g t :: nat
  assumes "\<not> 0 < min t (a - g)" "a - g \<noteq> 0"
  shows "a - g < a \<or> a - g = a \<and> (length (if min t (a - g) = t then xs else x # xs) < length xs + Suc 0 \<or> P)"
  using assms by auto

function add_sparse_extent ::
  "striped_read_result \<Rightarrow> byte list \<Rightarrow> (nat \<times> nat) list \<Rightarrow> nat \<Rightarrow> nat \<Rightarrow> nat
   \<Rightarrow> (striped_read_result \<times> byte list \<times> (nat \<times> nat) list \<times> nat) option" where
  "add_sparse_extent r bl s bl_off tofs tlen =
     (if tlen = 0 then Some (r, bl, s, bl_off)
      else case s of
        [] \<Rightarrow> Some (put_part r tofs (fst (partial_at r tofs)) tlen, bl, s, bl_off)
      | (first, second) # s' \<Rightarrow>
          if second = 0 then add_sparse_extent r bl s' bl_off tofs tlen
          else
            let gap = (if first > bl_off then min (first - bl_off) tlen else 0);
                r1 = (if first > bl_off then put_part r tofs (fst (partial_at r tofs)) gap else r);
                bl_off1 = u64_of (bl_off + gap);
                tofs1 = u64_of (tofs + gap);
                tlen1 = tlen - gap
            in if tlen1 = 0 then Some (r1, bl, s, bl_off1)
               else do {
                 ceph_assert (first \<le> bl_off1);
                 let todo = u64_of (first + second + 2 ^ 64 - bl_off1);
                 let actual = min todo tlen1;
                 let s1 = (if actual = todo then s' else s);
                 if actual > 0
                 then do {
                   (bl', bytes) \<leftarrow> bl_splice bl actual (fst (partial_at r1 tofs1));
                   add_sparse_extent (put_part r1 tofs1 bytes actual) bl' s1
                     (u64_of (bl_off1 + actual)) (u64_of (tofs1 + actual)) (tlen1 - actual)
                 }
                 else add_sparse_extent r1 bl s1 bl_off1 tofs1 tlen1
               })"
  by pat_completeness (simp only: prod.inject)
termination
proof (relation "measures [\<lambda>(r, bl, s, bl_off, tofs, tlen). tlen, \<lambda>(r, bl, s, bl_off, tofs, tlen). length s]",
    goal_cases)
  case 3
  then show ?case by (simp only: in_measures prod.case) (rule disjI1, rule shrinks; assumption)
next
  case 4
  then show ?case by (simp only: in_measures prod.case list.size) (rule advances; assumption)
qed auto

declare add_sparse_extent.simps [simp del]

fun add_sparse_extents ::
  "striped_read_result \<Rightarrow> byte list \<Rightarrow> (nat \<times> nat) list \<Rightarrow> nat \<Rightarrow> (nat \<times> nat) list
   \<Rightarrow> striped_read_result option" where
  "add_sparse_extents r bl s bl_off [] = Some r"
| "add_sparse_extents r bl s bl_off ((b, n) # bes) =
     do {
       (r', bl', s', bl_off') \<leftarrow> add_sparse_extent r bl s bl_off b n;
       add_sparse_extents r' bl' s' bl_off' bes
     }"

definition add_partial_sparse_result ::
  "striped_read_result \<Rightarrow> byte list \<Rightarrow> (nat \<times> nat) list \<Rightarrow> nat \<Rightarrow> (nat \<times> nat) list
   \<Rightarrow> striped_read_result option" where
  "add_partial_sparse_result r bl bl_map bl_off bes =
     (if bl_map = [] then add_partial_result r bl bes else add_sparse_extents r bl bl_map bl_off bes)"

definition add_partial_sparse_result_move ::
  "striped_read_result \<Rightarrow> byte list \<Rightarrow> (nat \<times> nat) list \<Rightarrow> nat \<Rightarrow> (nat \<times> nat) list
   \<Rightarrow> striped_read_result option" where
  "add_partial_sparse_result_move r bl bl_map bl_off bes =
     (if bl_map = [] then add_partial_result_move r bl bes else add_sparse_extents r bl bl_map bl_off bes)"

section \<open>Joining the parts\<close>

fun assemble_loop :: "(nat \<times> (byte list \<times> nat)) list \<Rightarrow> nat \<Rightarrow> byte list \<Rightarrow> nat \<times> byte list" where
  "assemble_loop [] zeros bl = (zeros, bl)"
| "assemble_loop ((k, (bytes, expect)) # parts) zeros bl =
     (let got = bl_length bytes;
          bl' = (if got \<noteq> 0 then (if zeros \<noteq> 0 then bl_append_zero bl zeros else bl) @ bytes else bl);
          zeros' = (if got \<noteq> 0 then 0 else zeros)
      in assemble_loop parts (u64_of (zeros' + expect + 2 ^ 64 - got)) bl')"

definition assemble_result ::
  "striped_read_result \<Rightarrow> byte list \<Rightarrow> bool \<Rightarrow> striped_read_result \<times> byte list" where
  "assemble_result r bl zero_tail =
     (let (zeros, bl') = assemble_loop (partial r) 0 bl
      in (r\<lparr>partial := []\<rparr>, if zero_tail \<and> zeros \<noteq> 0 then bl_append_zero bl' zeros else bl'))"

text \<open>Writes into the caller's memory; a write outside of it is \<^term>\<open>None\<close>.\<close>

definition mem_copy :: "byte list \<Rightarrow> nat \<Rightarrow> byte list \<Rightarrow> byte list option" where
  "mem_copy mem at bytes =
     (if at + length bytes \<le> length mem
      then Some (take at mem @ bytes @ drop (at + length bytes) mem) else None)"

fun assemble_buffer_loop ::
  "(nat \<times> (byte list \<times> nat)) list \<Rightarrow> nat \<Rightarrow> nat \<Rightarrow> byte list \<Rightarrow> byte list option" where
  "assemble_buffer_loop [] cur end_pos mem = do { ceph_assert (cur = 0); Some mem }"
| "assemble_buffer_loop ((k, (bytes, expect)) # parts) cur end_pos mem =
     do {
       ceph_assert (k = u64_of (end_pos + 2 ^ 64 - expect));
       ceph_assert (cur \<ge> expect);
       let cur' = cur - expect;
       let len = bl_length bytes;
       mem' \<leftarrow> (if len < expect
               then do {
                 m \<leftarrow> (if len \<noteq> 0 then mem_copy mem cur' (take len bytes) else Some mem);
                 mem_copy m (cur' + len) (replicate (expect - len) 0)
               }
               else mem_copy mem cur' (take len bytes));
       assemble_buffer_loop parts cur' k mem'
     }"

definition assemble_result_buffer ::
  "striped_read_result \<Rightarrow> byte list \<Rightarrow> (striped_read_result \<times> byte list) option" where
  "assemble_result_buffer r mem =
     do {
       ceph_assert (length mem = total_intended_len r);
       (case rev (partial r) of
          [] \<Rightarrow> Some (r, mem)
        | (k, (bytes, expect)) # parts \<Rightarrow> do {
            mem' \<leftarrow> assemble_buffer_loop (rev (partial r)) (length mem) (u64_of (k + expect)) mem;
            Some (r\<lparr>partial := []\<rparr>, mem')
          })
     }"

definition assemble_result_sparse ::
  "striped_read_result \<Rightarrow> (nat \<times> nat) list \<Rightarrow> byte list
   \<Rightarrow> striped_read_result \<times> (nat \<times> nat) list \<times> byte list \<times> nat" where
  "assemble_result_sparse r extent_map bl =
     (let (m, bl') = fold (\<lambda>(off, (bytes, expect)) (m, bl).
            if bl_length bytes > 0 then (map_put m off (bl_length bytes), bl @ bytes) else (m, bl))
          (partial r) (extent_map, bl)
      in (r\<lparr>partial := []\<rparr>, m, bl', total_intended_len r))"

section \<open>Results that hold the right bytes\<close>

text \<open>
  \<open>want p\<close> is the byte that belongs at place \<open>p\<close> of the buffer.  A part is right when its bytes,
  filled up with zeros, are the wanted ones; \<open>result_ok\<close> says so of all parts, and that they do not
  overlap.
\<close>

definition pad :: "byte list \<Rightarrow> nat \<Rightarrow> byte list" where
  "pad bytes n = bytes @ replicate (n - length bytes) 0"

definition part_right :: "(nat \<Rightarrow> byte) \<Rightarrow> nat \<times> (byte list \<times> nat) \<Rightarrow> bool" where
  "part_right want = (\<lambda>(k, (bytes, n)). 0 < n \<and> length bytes \<le> n \<and> pad bytes n = map want [k..<k + n])"

definition spans :: "striped_read_result \<Rightarrow> (nat \<times> nat) list" where
  "spans r = map (\<lambda>(k, (bytes, n)). (k, n)) (partial r)"

definition before_part :: "nat \<times> (byte list \<times> nat) \<Rightarrow> nat \<times> (byte list \<times> nat) \<Rightarrow> bool" where
  "before_part = (\<lambda>(k, (bytes, n)) (k', _). k + n \<le> k')"

definition result_ok :: "(nat \<Rightarrow> byte) \<Rightarrow> striped_read_result \<Rightarrow> bool" where
  "result_ok want r \<longleftrightarrow>
     sorted_wrt before_part (partial r) \<and> list_all (part_right want) (partial r)
   \<and> total_intended_len r = u64_of (sum_list (map snd (spans r)))"

definition places :: "striped_read_result \<Rightarrow> nat set" where
  "places r = set (positions (spans r))"

lemma length_pad [simp]: "length bytes \<le> n \<Longrightarrow> length (pad bytes n) = n"
  by (simp add: pad_def)

lemma positions_Cons [simp]: "positions ((b, n) # bes) = [b..<b + n] @ positions bes"
  by (simp add: positions_def)

lemma positions_Nil [simp]: "positions [] = []"
  by (simp add: positions_def)

lemma length_positions: "length (positions bes) = sum_list (map snd bes)"
  by (induction bes) (auto simp: positions_def)

lemma set_positions: "set (positions bes) = (\<Union>(b, n) \<in> set bes. {b..<b + n})"
  by (auto simp: positions_def)

lemma places_eq: "places r = (\<Union>(k, (bytes, n)) \<in> set (partial r). {k..<k + n})"
  by (auto simp: places_def spans_def set_positions)

lemma part_right_iff: "part_right want (k, (bytes, n)) \<longleftrightarrow>
    0 < n \<and> length bytes \<le> n \<and> pad bytes n = map want [k..<k + n]"
  by (simp add: part_right_def)

lemma before_part_iff: "before_part (k, (bytes, n)) (k', v) \<longleftrightarrow> k + n \<le> k'"
  by (simp add: before_part_def)

lemma empty_result_ok: "result_ok want empty_result" "places empty_result = {}"
  by (simp_all add: result_ok_def empty_result_def places_def spans_def u64_of_def)

lemma partial_fresh:
  assumes "result_ok want r" "k \<notin> places r"
  shows "partial_at r k = ([], 0)"
proof -
  have "k \<noteq> fst e" if "e \<in> set (partial r)" for e
  proof -
    obtain k' bytes n where e: "e = (k', (bytes, n))" by (metis prod.collapse)
    then have "0 < n" using assms(1) that by (auto simp: result_ok_def list_all_iff part_right_def)
    then have "k' \<in> places r" using that e by (force simp: places_eq)
    with assms(2) e show ?thesis by auto
  qed
  then have "map_of (partial r) k = None" by (force simp: map_of_eq_None_iff)
  then show ?thesis by (simp add: partial_at_def)
qed

lemma map_put_between:
  assumes "sorted_wrt before_part m" "list_all (part_right want) m" "0 < n"
    and "{k..<k + n} \<inter> (\<Union>(k', (bs, n')) \<in> set m. {k'..<k' + n'}) = {}"
  shows "\<exists>xs ys. m = xs @ ys \<and> map_put m k (bytes, n) = xs @ (k, (bytes, n)) # ys
     \<and> (\<forall>e \<in> set xs. before_part e (k, (bytes, n))) \<and> (\<forall>e \<in> set ys. before_part (k, (bytes, n)) e)"
  using assms
proof (induction m)
  case (Cons e m)
  obtain k' bs n' where e: "e = (k', (bs, n'))" by (metis prod.collapse)
  have n': "0 < n'" using Cons.prems(2) e by (simp add: part_right_def)
  have dis: "{k..<k + n} \<inter> {k'..<k' + n'} = {}" using Cons.prems(4) e by fastforce
  have ends: "k + n \<le> k' \<or> k' + n' \<le> k"
  proof (rule ccontr)
    assume "\<not> ?thesis"
    then have "max k k' \<in> {k..<k + n} \<inter> {k'..<k' + n'}" using n' assms(3) by auto
    with dis show False by simp
  qed
  show ?case
  proof (cases "k < k'")
    case True
    then have "k + n \<le> k'" using ends by linarith
    then have "\<forall>e' \<in> set (e # m). before_part (k, (bytes, n)) e'"
      using Cons.prems(1) e by (fastforce simp: before_part_def)
    with True e show ?thesis by (intro exI [of _ "[]"] exI [of _ "e # m"]) simp
  next
    case False
    then have le: "k' + n' \<le> k" using ends assms(3) by linarith
    have "{k..<k + n} \<inter> (\<Union>(k', (bs, n')) \<in> set m. {k'..<k' + n'}) = {}"
      using Cons.prems(4) by auto
    then obtain xs ys where xy: "m = xs @ ys" "map_put m k (bytes, n) = xs @ (k, (bytes, n)) # ys"
      "\<forall>e \<in> set xs. before_part e (k, (bytes, n))" "\<forall>e \<in> set ys. before_part (k, (bytes, n)) e"
      using Cons.IH Cons.prems(1-3) by auto
    have "\<not> k < k'" "k \<noteq> k'" using le n' by simp_all
    then have "map_put (e # m) k (bytes, n) = (e # xs) @ (k, (bytes, n)) # ys" using e xy(2) by simp
    with xy le e show ?thesis
      by (intro exI [of _ "e # xs"] exI [of _ ys]) (simp add: before_part_def)
  qed
qed simp

lemma put_part_ok:
  assumes "result_ok want r" "part_right want (k, (bytes, n))" "{k..<k + n} \<inter> places r = {}"
  shows "result_ok want (put_part r k bytes n)" "places (put_part r k bytes n) = places r \<union> {k..<k + n}"
proof -
  have n: "0 < n" using assms(2) by (simp add: part_right_def)
  have "sorted_wrt before_part (partial r)" "list_all (part_right want) (partial r)"
    using assms(1) by (simp_all add: result_ok_def)
  from map_put_between [OF this n, of k bytes] assms(3)
  obtain xs ys where xy: "partial r = xs @ ys" "map_put (partial r) k (bytes, n) = xs @ (k, (bytes, n)) # ys"
    "\<forall>e \<in> set xs. before_part e (k, (bytes, n))" "\<forall>e \<in> set ys. before_part (k, (bytes, n)) e"
    unfolding places_eq by blast
  have "sorted_wrt before_part (xs @ (k, (bytes, n)) # ys)" "list_all (part_right want) (xs @ (k, (bytes, n)) # ys)"
    using assms(1,2) xy(1,3,4) by (simp_all add: result_ok_def sorted_wrt_append)
  moreover have "u64_of (total_intended_len r + n) = u64_of (sum_list (map snd (spans r)) + n)"
    using assms(1) by (simp add: result_ok_def u64_of_add)
  ultimately show "result_ok want (put_part r k bytes n)"
    using xy(1,2) by (simp add: result_ok_def put_part_def spans_def add_ac)
  show "places (put_part r k bytes n) = places r \<union> {k..<k + n}"
  proof -
    have "partial (put_part r k bytes n) = xs @ (k, (bytes, n)) # ys" by (simp add: put_part_def xy(2))
    then show ?thesis unfolding places_eq xy(1) by auto
  qed
qed

section \<open>Adding replies\<close>

lemma start_outside: "{b..<b + n} \<inter> S = {} \<Longrightarrow> 0 < n \<Longrightarrow> b \<notin> S" for b n :: nat
  by (metis atLeastLessThan_iff disjoint_iff le_refl less_add_same_cancel1)

lemma pad_take: "pad (take (min (length bl) n) bl) n = take n (pad bl (n + m))"
  by (auto simp: pad_def min_def take_replicate)

lemma pad_drop: "pad (drop (min (length bl) n) bl) m = drop n (pad bl (n + m))"
  by (auto simp: pad_def min_def drop_replicate)

lemma add_partial_result_ok:
  assumes "result_ok want r" "list_all (\<lambda>(b, n). 0 < n) bes" "distinct (positions bes)"
    and "set (positions bes) \<inter> places r = {}"
    and "length bl \<le> length (positions bes)" "pad bl (length (positions bes)) = map want (positions bes)"
    and "length bl < 2 ^ 32"
  shows "\<exists>r'. add_partial_result r bl bes = Some r' \<and> result_ok want r'
           \<and> places r' = places r \<union> set (positions bes)"
  using assms
proof (induction bes arbitrary: r bl)
  case (Cons be bes)
  obtain b n where be: "be = (b, n)" by fastforce
  let ?m = "min (length bl) n"
  have n: "0 < n" using Cons.prems(2) be by simp
  have dis: "{b..<b + n} \<inter> places r = {}" using Cons.prems(4) be by auto
  note fresh = start_outside [OF dis n] dis
  have want: "pad bl (n + length (positions bes)) = map want ([b..<b + n] @ positions bes)"
    using Cons.prems(6) be by simp
  have part: "part_right want (b, (take ?m bl, n))"
    using n arg_cong [OF want, of "take n"] by (simp add: part_right_def pad_take [where m = "length (positions bes)"])
  define r1 where "r1 = put_part r b (take ?m bl) n"
  have r1: "result_ok want r1" "places r1 = places r \<union> {b..<b + n}"
    unfolding r1_def using put_part_ok [OF Cons.prems(1) part fresh(2)] by simp_all
  have "pad (drop ?m bl) (length (positions bes)) = map want (positions bes)"
    using arg_cong [OF want, of "drop n"] by (simp add: pad_drop)
  moreover have "length (drop ?m bl) \<le> length (positions bes)" "length (drop ?m bl) < 2 ^ 32"
    using Cons.prems(5,7) be by auto
  moreover have "set (positions bes) \<inter> places r1 = {}"
    using Cons.prems(3,4) be by (auto simp: r1)
  ultimately obtain r' where r': "add_partial_result r1 (drop ?m bl) bes = Some r'" "result_ok want r'"
    "places r' = places r1 \<union> set (positions bes)"
    using Cons.IH [OF r1(1), of "drop ?m bl"] Cons.prems(2,3) be by auto
  have "add_partial_result r bl (be # bes) = Some r'"
    using r'(1) partial_fresh [OF Cons.prems(1) fresh(1)] Cons.prems(7)
    by (simp add: be bl_splice_small r1_def)
  with r' r1(2) be show ?case by auto
qed simp

lemma add_partial_result_move_eq:
  assumes "result_ok want r" "set (positions bes) \<inter> places r = {}" "list_all (\<lambda>(b, n). 0 < n) bes"
    and "length bl \<le> length (positions bes)" "length bl < 2 ^ 32"
  shows "add_partial_result_move r bl bes = add_partial_result r bl bes"
proof (cases "\<exists>b n. bes = [(b, n)]")
  case True
  then obtain b n where bes: "bes = [(b, n)]" by blast
  then have "b \<notin> places r" using assms(2,3) by (intro start_outside [of b n]) simp_all
  from partial_fresh [OF assms(1) this] show ?thesis
    using assms(4,5) by (simp add: add_partial_result_move_def bes bl_splice_small)
next
  case False
  then show ?thesis by (auto simp: add_partial_result_move_def split: list.splits)
qed

text \<open>
  What a sparse reply says: \<open>src p\<close> is the byte at offset \<open>p\<close> of the object from \<open>off\<close> on.  The bytes
  are those of the extents, in order, and all others are zero.
\<close>

fun sparse_right :: "(nat \<Rightarrow> byte) \<Rightarrow> nat \<Rightarrow> (nat \<times> nat) list \<Rightarrow> byte list \<Rightarrow> bool" where
  "sparse_right src off [] bl \<longleftrightarrow> bl = [] \<and> (\<forall>p \<ge> off. src p = 0)"
| "sparse_right src off ((a, n) # s) bl \<longleftrightarrow>
     (if n = 0 then sparse_right src off s bl
      else off \<le> a + n \<and> a + n < 2 ^ 64 \<and> (\<forall>p. off \<le> p \<and> p < a \<longrightarrow> src p = 0)
         \<and> (\<exists>bl'. bl = map src [max off a..<a + n] @ bl' \<and> sparse_right src (a + n) s bl'))"

lemma zero_part:
  assumes "0 < n" "\<And>i. i < n \<Longrightarrow> want (k + i) = 0"
  shows "part_right want (k, ([], n))"
proof -
  have "replicate n 0 = map want [k..<k + n]"
    using assms(2) by (intro nth_equalityI) simp_all
  then show ?thesis using assms(1) by (simp add: part_right_def pad_def)
qed

lemma data_part:
  assumes "0 < n" "\<And>i. i < n \<Longrightarrow> want (k + i) = src (off + i)"
  shows "part_right want (k, (map src [off..<off + n], n))"
proof -
  have "map src [off..<off + n] = map want [k..<k + n]"
    using assms(2) by (intro nth_equalityI) simp_all
  then show ?thesis using assms(1) by (simp add: part_right_def pad_def)
qed

text \<open>The state between two buffer extents; behind the last extent the offset is not kept up.\<close>

definition sparse_state :: "(nat \<Rightarrow> byte) \<Rightarrow> nat \<Rightarrow> (nat \<times> nat) list \<Rightarrow> byte list \<Rightarrow> nat \<Rightarrow> bool" where
  "sparse_state src off s bl bl_off \<longleftrightarrow> sparse_right src off s bl \<and> length bl < 2 ^ 32 \<and> (s = [] \<or> bl_off = off)"

lemma sparse_at_end:
  assumes "result_ok want r" "{tofs..<tofs + tlen} \<inter> places r = {}" "0 < tlen"
    and "sparse_state src off [] bl bl_off" "\<And>i. i < tlen \<Longrightarrow> want (tofs + i) = src (off + i)"
  defines "r' \<equiv> put_part r tofs (fst (partial_at r tofs)) tlen"
  shows "add_sparse_extent r bl [] bl_off tofs tlen = Some (r', bl, [], bl_off)"
    "result_ok want r'" "places r' = places r \<union> {tofs..<tofs + tlen}"
    "sparse_state src (off + tlen) [] bl bl_off"
proof -
  show "add_sparse_extent r bl [] bl_off tofs tlen = Some (r', bl, [], bl_off)"
    using assms(3) by (subst add_sparse_extent.simps) (simp add: r'_def)
  have "r' = put_part r tofs [] tlen"
    using partial_fresh [OF assms(1) start_outside [OF assms(2,3)]] by (simp add: r'_def)
  moreover have "part_right want (tofs, ([], tlen))"
    using assms(3-5) by (intro zero_part) (simp_all add: sparse_state_def)
  ultimately show "result_ok want r'" "places r' = places r \<union> {tofs..<tofs + tlen}"
    using put_part_ok [OF assms(1) _ assms(2)] by simp_all
  show "sparse_state src (off + tlen) [] bl bl_off" using assms(4) by (simp add: sparse_state_def)
qed

lemma sub_outside:
  fixes b n :: nat
  assumes "{b..<b + n} \<inter> S = {}" "k \<le> n"
  shows "{b + j..<b + k} \<inter> S = {}"
  using assms by (auto simp: disjoint_iff)

lemma sparse_rightD:
  assumes "sparse_right src off ((a, n) # s) bl" "n \<noteq> 0"
  shows "off \<le> a + n" "a + n < 2 ^ 64" "\<forall>p. off \<le> p \<and> p < a \<longrightarrow> src p = 0"
  using assms by auto

lemma sparse_right_gap:
  assumes "sparse_right src off ((a, n) # s) bl" "n \<noteq> 0" "off \<le> off'" "off' \<le> max off a"
  shows "sparse_right src off' ((a, n) # s) bl"
  using assms by (auto simp: max_def split: if_splits)

lemma sparse_right_data:
  assumes "sparse_right src off ((a, n) # s) bl" "n \<noteq> 0" "a \<le> off" "k \<le> a + n - off"
  shows "k \<le> length bl" "take k bl = map src [off..<off + k]"
    "sparse_right src (off + k) (if k = a + n - off then s else (a, n) # s) (drop k bl)"
proof -
  obtain bl' where bl: "bl = map src [off..<a + n] @ bl'" "sparse_right src (a + n) s bl'"
    and bd: "off \<le> a + n" "a + n < 2 ^ 64"
    using assms(1-3) by (auto simp: max_def split: if_splits)
  have up: "[off..<a + n] = [off..<off + k] @ [off + k..<a + n]"
    using assms(4) bd(1) upt_add_eq_append [of off "off + k" "a + n - (off + k)"] by simp
  show "k \<le> length bl" "take k bl = map src [off..<off + k]" using bl(1) up by simp_all
  have dr: "drop k bl = map src [off + k..<a + n] @ bl'" using bl(1) up by simp
  show "sparse_right src (off + k) (if k = a + n - off then s else (a, n) # s) (drop k bl)"
  proof (cases "k = a + n - off")
    case True
    then have "off + k = a + n" using bd(1) by simp
    with True bl(2) dr show ?thesis by simp
  next
    case False
    moreover have "max (off + k) a = off + k" using assms(3) by simp
    moreover have "off + k \<le> a + n" using assms(4) bd(1) by simp
    ultimately show ?thesis using assms(2,3) bd bl(2) by (auto simp: dr)
  qed
qed

lemma add_sparse_extent_step:
  fixes r :: striped_read_result and s :: "(nat \<times> nat) list"
  assumes "n \<noteq> 0" "tlen \<noteq> 0" "off + tlen < 2 ^ 64" "tofs + tlen < 2 ^ 64" "a + n < 2 ^ 64" "off \<le> a + n"
  defines "gap \<equiv> (if a > off then min (a - off) tlen else 0)"
  defines "r1 \<equiv> (if a > off then put_part r tofs (fst (partial_at r tofs)) gap else r)"
  defines "actual \<equiv> min (a + n - (off + gap)) (tlen - gap)"
  defines "s1 \<equiv> (if actual = a + n - (off + gap) then s else (a, n) # s)"
  shows "tlen - gap = 0 \<Longrightarrow>
      add_sparse_extent r bl ((a, n) # s) off tofs tlen = Some (r1, bl, (a, n) # s, off + gap)"
    and "tlen - gap \<noteq> 0 \<Longrightarrow> actual \<noteq> 0 \<Longrightarrow> actual \<le> length bl \<Longrightarrow> length bl < 2 ^ 32 \<Longrightarrow>
      add_sparse_extent r bl ((a, n) # s) off tofs tlen =
      add_sparse_extent (put_part r1 (tofs + gap) (fst (partial_at r1 (tofs + gap)) @ take actual bl) actual)
        (drop actual bl) s1 (off + gap + actual) (tofs + gap + actual) (tlen - gap - actual)"
    and "tlen - gap \<noteq> 0 \<Longrightarrow> actual = 0 \<Longrightarrow>
      add_sparse_extent r bl ((a, n) # s) off tofs tlen =
      add_sparse_extent r1 bl s1 (off + gap) (tofs + gap) (tlen - gap)"
proof -
  have gap: "gap \<le> tlen" "tlen - gap \<noteq> 0 \<Longrightarrow> a \<le> off + gap" "off + gap \<le> a + n"
    using assms(6) by (auto simp: gap_def)
  have act: "actual \<le> tlen - gap" by (simp add: actual_def)
  have u: "u64_of (off + gap) = off + gap" "u64_of (tofs + gap) = tofs + gap"
    "u64_of (off + gap + actual) = off + gap + actual" "u64_of (tofs + gap + actual) = tofs + gap + actual"
    using gap act assms(3,4) by simp_all
  have left: "u64_of (a + n + 2 ^ 64 - (off + gap)) = a + n - (off + gap)"
    using u64_of_wrap [OF gap(3), of 0] assms(5) by simp
  have more: "off + gap < a + n" if "actual \<noteq> 0" using that by (simp add: actual_def)
  have at_end: "\<not> off + gap < a + n" if "actual = 0" "tlen - gap \<noteq> 0" using that by (simp add: actual_def)
  note unfold = add_sparse_extent.simps [of r bl "(a, n) # s" off tofs tlen]
  show "add_sparse_extent r bl ((a, n) # s) off tofs tlen = Some (r1, bl, (a, n) # s, off + gap)"
    if "tlen - gap = 0"
    using that assms(1,2) u(1,2) unfolding unfold
    by (simp add: Let_def gap_def [symmetric] r1_def [symmetric])
  show "add_sparse_extent r bl ((a, n) # s) off tofs tlen =
      add_sparse_extent (put_part r1 (tofs + gap) (fst (partial_at r1 (tofs + gap)) @ take actual bl) actual)
        (drop actual bl) s1 (off + gap + actual) (tofs + gap + actual) (tlen - gap - actual)"
    if "tlen - gap \<noteq> 0" "actual \<noteq> 0" "actual \<le> length bl" "length bl < 2 ^ 32"
    using that assms(1,2) u gap(2) left more unfolding unfold
    by (simp add: Let_def gap_def [symmetric] r1_def [symmetric] actual_def [symmetric] s1_def bl_splice_small)
  show "add_sparse_extent r bl ((a, n) # s) off tofs tlen =
      add_sparse_extent r1 bl s1 (off + gap) (tofs + gap) (tlen - gap)"
    if "tlen - gap \<noteq> 0" "actual = 0"
    using that assms(1,2) u gap(2) left at_end unfolding unfold
    by (simp add: Let_def gap_def [symmetric] r1_def [symmetric] actual_def [symmetric] s1_def)
qed

lemma sparse_gap:
  assumes "result_ok want r" "{tofs..<tofs + tlen} \<inter> places r = {}" "tlen \<noteq> 0" "n \<noteq> 0"
    and "sparse_right src off ((a, n) # s) bl" "\<And>i. i < tlen \<Longrightarrow> want (tofs + i) = src (off + i)"
  defines "gap \<equiv> (if a > off then min (a - off) tlen else 0)"
  defines "r1 \<equiv> (if a > off then put_part r tofs (fst (partial_at r tofs)) gap else r)"
  shows "result_ok want r1" "places r1 = places r \<union> {tofs..<tofs + gap}"
    "sparse_right src (off + gap) ((a, n) # s) bl"
proof -
  show "sparse_right src (off + gap) ((a, n) # s) bl"
    by (rule sparse_right_gap [OF assms(5,4)]) (auto simp: gap_def)
  have zero: "\<forall>p. off \<le> p \<and> p < a \<longrightarrow> src p = 0"
    by (rule sparse_rightD(3) [OF assms(5,4)])
  have "result_ok want r1 \<and> places r1 = places r \<union> {tofs..<tofs + gap}"
  proof (cases "a > off")
    case True
    have gap: "0 < gap" "gap \<le> tlen" "gap \<le> a - off" using True assms(3) by (simp_all add: gap_def)
    have "r1 = put_part r tofs [] gap"
      using True partial_fresh [OF assms(1) start_outside [OF assms(2)]] assms(3) by (simp add: r1_def)
    moreover have "want (tofs + i) = 0" if "i < gap" for i
    proof -
      have "off + i < a" "i < tlen" using that gap by simp_all
      then show ?thesis using assms(6) zero by simp
    qed
    then have "part_right want (tofs, ([], gap))" using gap(1) by (intro zero_part)
    moreover have "{tofs..<tofs + gap} \<inter> places r = {}" 
      using sub_outside [OF assms(2), of gap 0] gap(2) by simp
    ultimately show ?thesis using put_part_ok [OF assms(1)] by simp
  qed (simp add: r1_def gap_def assms(1))
  then show "result_ok want r1" "places r1 = places r \<union> {tofs..<tofs + gap}" by simp_all
qed

lemma sparse_data:
  assumes "result_ok want r" "{tofs..<tofs + tlen} \<inter> places r = {}" "k \<noteq> 0" "k \<le> tlen" "k \<le> a + n - off"
    and "sparse_right src off ((a, n) # s) bl" "n \<noteq> 0" "a \<le> off"
    and "\<And>i. i < tlen \<Longrightarrow> want (tofs + i) = src (off + i)"
  defines "r' \<equiv> put_part r tofs (fst (partial_at r tofs) @ take k bl) k"
  shows "result_ok want r'" "places r' = places r \<union> {tofs..<tofs + k}"
proof -
  have "r' = put_part r tofs (map src [off..<off + k]) k"
    using partial_fresh [OF assms(1) start_outside [OF assms(2)]] assms(3,4)
      sparse_right_data(2) [OF assms(6-8,5)] by (simp add: r'_def)
  moreover have "part_right want (tofs, (map src [off..<off + k], k))"
    using assms(3,4,9) by (intro data_part) simp_all
  moreover have "{tofs..<tofs + k} \<inter> places r = {}"
    using sub_outside [OF assms(2), of k 0] assms(4) by simp
  ultimately show "result_ok want r'" "places r' = places r \<union> {tofs..<tofs + k}"
    using put_part_ok [OF assms(1)] by simp_all
qed

lemma sparse_step_ok:
  assumes ok: "result_ok want r" and dis: "{tofs..<tofs + tlen} \<inter> places r = {}"
    and nz: "tlen \<noteq> 0" "n \<noteq> 0" and right: "sparse_right src off ((a, n) # s) bl"
    and want: "\<And>i. i < tlen \<Longrightarrow> want (tofs + i) = src (off + i)"
    and small: "off + tlen < 2 ^ 64" "tofs + tlen < 2 ^ 64" and fits: "length bl < 2 ^ 32"
  shows "\<exists>m r2 bl2 s2. m \<le> tlen \<and> tlen - m + length s2 < tlen + Suc (length s)
    \<and> add_sparse_extent r bl ((a, n) # s) off tofs tlen =
        add_sparse_extent r2 bl2 s2 (off + m) (tofs + m) (tlen - m)
    \<and> result_ok want r2 \<and> places r2 = places r \<union> {tofs..<tofs + m} \<and> sparse_right src (off + m) s2 bl2
    \<and> length bl2 < 2 ^ 32"
proof -
  note bound = sparse_rightD(1,2) [OF right nz(2)]
  define gap where "gap = (if a > off then min (a - off) tlen else 0)"
  define r1 where "r1 = (if a > off then put_part r tofs (fst (partial_at r tofs)) gap else r)"
  define k where "k = min (a + n - (off + gap)) (tlen - gap)"
  define s1 where "s1 = (if k = a + n - (off + gap) then s else (a, n) # s)"
  note step = add_sparse_extent_step [OF nz(2,1) small bound(2,1), where r = r and s = s and bl = bl, folded gap_def,
      folded r1_def, folded k_def, folded s1_def]
  note gp = sparse_gap [OF ok dis nz right want, folded gap_def, folded r1_def]
  have gap: "gap \<le> tlen" "tlen - gap \<noteq> 0 \<Longrightarrow> a \<le> off + gap" by (auto simp: gap_def)
  have k: "k \<le> tlen - gap" "k \<le> a + n - (off + gap)" by (simp_all add: k_def)
  have dis1: "{tofs + gap..<tofs + gap + (tlen - gap)} \<inter> places r1 = {}"
    using sub_outside [OF dis, of tlen gap] gap(1) by (auto simp: gp(2))
  have want1: "want (tofs + gap + i) = src (off + gap + i)" if "i < tlen - gap" for i
    using want [of "gap + i"] that by (simp add: add.assoc)
  consider "tlen - gap = 0" | "tlen - gap \<noteq> 0" "k \<noteq> 0" | "tlen - gap \<noteq> 0" "k = 0" by blast
  then show ?thesis
  proof cases
    case 1
    then have "add_sparse_extent r bl ((a, n) # s) off tofs tlen =
        add_sparse_extent r1 bl ((a, n) # s) (off + gap) (tofs + gap) (tlen - gap)"
      by (subst (2) add_sparse_extent.simps) (simp add: step(1))
    then show ?thesis
      using 1 gp gap(1) nz(1) fits by (intro exI [of _ gap] exI [of _ r1] exI [of _ bl] exI [of _ "(a, n) # s"]) simp
  next
    case 2
    note data = sparse_right_data [OF gp(3) nz(2) gap(2) [OF 2(1)] k(2), folded s1_def]
    define r2 where "r2 = put_part r1 (tofs + gap) (fst (partial_at r1 (tofs + gap)) @ take k bl) k"
    note r2 = sparse_data [OF gp(1) dis1 2(2) k gp(3) nz(2) gap(2) [OF 2(1)] want1, folded r2_def]
    have "add_sparse_extent r bl ((a, n) # s) off tofs tlen =
        add_sparse_extent r2 (drop k bl) s1 (off + (gap + k)) (tofs + (gap + k)) (tlen - (gap + k))"
      using step(2) [OF 2 data(1) fits] unfolding r2_def by (simp only: add.assoc diff_diff_left)
    moreover have "{tofs..<tofs + (gap + k)} = {tofs..<tofs + gap} \<union> {tofs + gap..<tofs + gap + k}" by auto
    then have "places r2 = places r \<union> {tofs..<tofs + (gap + k)}" using r2(2) gp(2) by blast
    moreover have "sparse_right src (off + (gap + k)) s1 (drop k bl)" using data(3) by (simp only: add.assoc)
    moreover have "length s1 \<le> Suc (length s)" by (simp add: s1_def)
    then have "gap + k \<le> tlen" "tlen - (gap + k) + length s1 < tlen + Suc (length s)"
      using 2(2) gap(1) k(1) by linarith+
    moreover have "length (drop k bl) < 2 ^ 32" using fits by simp
    ultimately show ?thesis using r2(1) by blast
  next
    case 3
    note data = sparse_right_data [OF gp(3) nz(2) gap(2) [OF 3(1)] k(2), folded s1_def]
    have "s1 = s" using 3 by (simp add: s1_def k_def)
    with 3 gap(1) data(3) gp step(3) [OF 3] fits show ?thesis
      by (intro exI [of _ gap] exI [of _ r1] exI [of _ bl] exI [of _ s]) simp
  qed
qed

lemma add_sparse_extent_ok:
  assumes "result_ok want r" "{tofs..<tofs + tlen} \<inter> places r = {}" "sparse_state src off s bl bl_off"
    and "\<And>i. i < tlen \<Longrightarrow> want (tofs + i) = src (off + i)" "off + tlen < 2 ^ 64" "tofs + tlen < 2 ^ 64"
  shows "\<exists>r' bl' s' bl_off'. add_sparse_extent r bl s bl_off tofs tlen = Some (r', bl', s', bl_off')
    \<and> result_ok want r' \<and> places r' = places r \<union> {tofs..<tofs + tlen}
    \<and> sparse_state src (off + tlen) s' bl' bl_off'"
  using assms
proof (induction "tlen + length s" arbitrary: r bl s bl_off tofs tlen off rule: less_induct)
  case less
  note ok = less.prems(1) and dis = less.prems(2) and st = less.prems(3) and want = less.prems(4)
    and small = less.prems(5,6)
  consider "tlen = 0" | "tlen \<noteq> 0" "s = []" | a n s' where "tlen \<noteq> 0" "s = (a, n) # s'" by (cases s) auto
  then show ?case
  proof cases
    case 1
    then show ?thesis using ok st by (subst add_sparse_extent.simps) simp
  next
    case 2
    then show ?thesis using sparse_at_end [OF ok dis _ _ want] st by simp
  next
    case (3 a n s')
    have off: "bl_off = off" and right: "sparse_right src off ((a, n) # s') bl" and fits: "length bl < 2 ^ 32"
      using st unfolding sparse_state_def 3(2) by blast+
    show ?thesis
    proof (cases "n = 0")
      case True
      have "sparse_state src off s' bl bl_off" using True right off fits by (simp add: sparse_state_def)
      moreover have "add_sparse_extent r bl s bl_off tofs tlen = add_sparse_extent r bl s' bl_off tofs tlen"
        using 3 True by (subst add_sparse_extent.simps) simp
      ultimately show ?thesis
        using less.hyps [of tlen s' r tofs off bl bl_off] ok dis want small 3(2) by simp
    next
      case False
      from sparse_step_ok [OF ok dis 3(1) False right want small fits]
      obtain m r2 bl2 s2 where m: "m \<le> tlen" "tlen - m + length s2 < tlen + Suc (length s')"
        and eq: "add_sparse_extent r bl ((a, n) # s') off tofs tlen =
          add_sparse_extent r2 bl2 s2 (off + m) (tofs + m) (tlen - m)"
        and r2: "result_ok want r2" "places r2 = places r \<union> {tofs..<tofs + m}" "sparse_right src (off + m) s2 bl2"
          "length bl2 < 2 ^ 32"
        by auto
      have "{tofs + m..<tofs + m + (tlen - m)} \<inter> places r2 = {}"
        using sub_outside [OF dis, of tlen m] m(1) by (auto simp: r2(2))
      moreover have "want (tofs + m + i) = src (off + m + i)" if "i < tlen - m" for i
        using want [of "m + i"] that by (simp add: add.assoc)
      moreover have "sparse_state src (off + m) s2 bl2 (off + m)" using r2(3,4) by (simp add: sparse_state_def)
      ultimately obtain r' bl' s'' bl_off' where
        "add_sparse_extent r2 bl2 s2 (off + m) (tofs + m) (tlen - m) = Some (r', bl', s'', bl_off')"
        "result_ok want r'" "places r' = places r2 \<union> {tofs + m..<tofs + m + (tlen - m)}"
        "sparse_state src (off + m + (tlen - m)) s'' bl' bl_off'"
        using less.hyps [of "tlen - m" s2 r2 "tofs + m" "off + m" bl2 "off + m"] m r2(1) small 3(2) by auto
      moreover have "{tofs..<tofs + tlen} = {tofs..<tofs + m} \<union> {tofs + m..<tofs + m + (tlen - m)}"
        using m(1) by auto
      ultimately show ?thesis using m(1) r2(2) eq 3(2) off by (simp add: Un_assoc)
    qed
  qed
qed

lemma add_sparse_extents_ok:
  assumes "result_ok want r" "distinct (positions bes)" "set (positions bes) \<inter> places r = {}"
    and "sparse_state src off s bl bl_off"
    and "map want (positions bes) = map src [off..<off + length (positions bes)]"
    and "off + length (positions bes) < 2 ^ 64" "list_all (\<lambda>(b, n). b + n < 2 ^ 64) bes"
  shows "\<exists>r'. add_sparse_extents r bl s bl_off bes = Some r' \<and> result_ok want r'
           \<and> places r' = places r \<union> set (positions bes)"
  using assms
proof (induction bes arbitrary: r bl s bl_off off)
  case (Cons be bes)
  obtain b n where be: "be = (b, n)" by fastforce
  let ?len = "length (positions bes)"
  have dis: "{b..<b + n} \<inter> places r = {}" using Cons.prems(3) be by auto
  have "[off..<off + (n + ?len)] = [off..<off + n] @ [off + n..<off + n + ?len]"
    using upt_add_eq_append [of off "off + n" ?len] by (simp add: add.assoc)
  then have "map want [b..<b + n] @ map want (positions bes) =
      map src [off..<off + n] @ map src [off + n..<off + n + ?len]"
    using Cons.prems(5) be by simp
  then have want: "map want [b..<b + n] = map src [off..<off + n]"
    and rest: "map want (positions bes) = map src [off + n..<off + n + ?len]"
    by simp_all
  have "want (b + i) = src (off + i)" if "i < n" for i
    using arg_cong [OF want, of "\<lambda>xs. xs ! i"] that by simp
  from add_sparse_extent_ok [OF Cons.prems(1) dis Cons.prems(4) this]
  obtain r1 bl1 s1 bo1 where r1: "add_sparse_extent r bl s bl_off b n = Some (r1, bl1, s1, bo1)"
    "result_ok want r1" "places r1 = places r \<union> {b..<b + n}" "sparse_state src (off + n) s1 bl1 bo1"
    using Cons.prems(6,7) be by auto
  have "set (positions bes) \<inter> places r1 = {}"
    using Cons.prems(2,3) be by (auto simp: r1(3))
  then obtain r' where "add_sparse_extents r1 bl1 s1 bo1 bes = Some r'" "result_ok want r'"
    "places r' = places r1 \<union> set (positions bes)"
    using Cons.IH [OF r1(2) _ _ r1(4) rest] Cons.prems(2,6,7) be by auto
  then show ?case using r1 be by (auto simp: Un_assoc)
qed simp

section \<open>Joining\<close>

lemma positions_spans_sorted:
  assumes "sorted_wrt before_part ps"
  shows "sorted_wrt (<) (positions (map (\<lambda>(k, (bytes, n)). (k, n)) ps))"
  using assms
proof (induction ps)
  case (Cons p ps)
  obtain k bytes n where p: "p = (k, (bytes, n))" by (metis prod.collapse)
  have "k + n \<le> x" if "x \<in> set (positions (map (\<lambda>(k, (bytes, n)). (k, n)) ps))" for x
    using that Cons.prems p by (fastforce simp: set_positions before_part_def)
  then show ?case using Cons p by (fastforce simp: sorted_wrt_append)
qed (simp add: positions_def)

lemma positions_spans:
  assumes "result_ok want r" "places r = {b..<b + len}"
  shows "positions (spans r) = [b..<b + len]"
  using assms positions_spans_sorted [of "partial r"]
  by (intro strict_sorted_equal) (simp_all add: result_ok_def spans_def places_def)

definition padded :: "striped_read_result \<Rightarrow> byte list" where
  "padded r = concat (map (\<lambda>(k, (bytes, n)). pad bytes n) (partial r))"

lemma padded_eq:
  assumes "list_all (part_right want) ps"
  shows "concat (map (\<lambda>(k, (bytes, n)). pad bytes n) ps) =
         map want (positions (map (\<lambda>(k, (bytes, n)). (k, n)) ps))"
  using assms by (induction ps) (auto simp: part_right_def positions_def)

lemma result_padded:
  assumes "result_ok want r" "places r = {b..<b + len}"
  shows "padded r = map want [b..<b + len]"
  using padded_eq [of want "partial r"] positions_spans [OF assms] assms(1)
  by (simp add: padded_def result_ok_def spans_def)

lemma assemble_loop_eq:
  assumes "list_all (part_right want) ps"
    and "zeros + sum_list (map (\<lambda>(k, (bytes, n)). n) ps) < 2 ^ 32"
  shows "(case assemble_loop ps zeros bl of (z, bl') \<Rightarrow>
         bl' @ replicate z 0 = bl @ replicate zeros 0 @ concat (map (\<lambda>(k, (bytes, n)). pad bytes n) ps)
       \<and> z \<le> zeros + sum_list (map (\<lambda>(k, (bytes, n)). n) ps))"
  using assms
proof (induction ps arbitrary: zeros bl)
  case (Cons p ps)
  obtain k bytes n where p: "p = (k, (bytes, n))" by (metis prod.collapse)
  have n: "length bytes \<le> n" using Cons.prems(1) p by (simp add: part_right_def)
  define z where "z = (if length bytes \<noteq> 0 then 0 else zeros)"
  have "z \<le> zeros" by (simp add: z_def)
  then have "z + n - length bytes + 0 < 2 ^ 64" using Cons.prems(2) p by simp
  moreover have fits: "zeros < 2 ^ 32" "length bytes < 2 ^ 32" using Cons.prems(2) n p by simp_all
  ultimately have "u64_of (z + n + 2 ^ 64 - length bytes) = z + n - length bytes"
    using u64_of_wrap [of "length bytes" "z + n" 0] n by simp
  moreover have "z + n - length bytes = z + (n - length bytes)" using n by simp
  ultimately have u: "u64_of (z + n + 2 ^ 64 - length bytes) = z + (n - length bytes)" by simp
  have "z + (n - length bytes) + sum_list (map (\<lambda>(k, (bytes, n)). n) ps) < 2 ^ 32"
    using Cons.prems(2) p \<open>z \<le> zeros\<close> by simp
  with Cons.IH Cons.prems(1) p
  have IH: "case assemble_loop ps (z + (n - length bytes)) bl' of (x, bl'') \<Rightarrow>
      bl'' @ replicate x 0 = bl' @ replicate (z + (n - length bytes)) 0 @ concat (map (\<lambda>(k, (bytes, n)). pad bytes n) ps)
    \<and> x \<le> z + (n - length bytes) + sum_list (map (\<lambda>(k, (bytes, n)). n) ps)" for bl'
    by simp
  let ?bl = "if bytes \<noteq> [] then (if zeros \<noteq> 0 then bl @ replicate zeros 0 else bl) @ bytes else bl"
  have "assemble_loop (p # ps) zeros bl = assemble_loop ps (z + (n - length bytes)) ?bl"
    using u fits unfolding p by (cases "bytes = []") (simp_all add: z_def Let_def)
  then show ?case
    using IH [of ?bl] \<open>z \<le> zeros\<close> unfolding p
    by (cases "bytes = []") (auto simp: z_def pad_def replicate_add split: prod.splits)
qed simp

lemma assemble_result_padded:
  assumes "result_ok want r" "sum_list (map snd (spans r)) < 2 ^ 32"
  shows "snd (assemble_result r bl True) = bl @ padded r" "partial (fst (assemble_result r bl True)) = []"
proof -
  have "map snd (spans r) = map (\<lambda>(k, (bytes, n)). n) (partial r)" by (auto simp: spans_def)
  then show "snd (assemble_result r bl True) = bl @ padded r"
    using assemble_loop_eq [of want "partial r" 0 bl] assms
    by (auto simp: assemble_result_def result_ok_def padded_def split: prod.splits)
  show "partial (fst (assemble_result r bl True)) = []"
    by (simp add: assemble_result_def split: prod.splits)
qed

fun contiguous :: "nat \<Rightarrow> (nat \<times> (byte list \<times> nat)) list \<Rightarrow> bool" where
  "contiguous b [] \<longleftrightarrow> True"
| "contiguous b ((k, (bytes, n)) # ps) \<longleftrightarrow> k = b \<and> contiguous (b + n) ps"

lemma contiguous_snoc:
  "contiguous b (ps @ [(k, (bytes, n))]) \<longleftrightarrow>
   contiguous b ps \<and> k = b + sum_list (map (\<lambda>(k, (bytes, n)). n) ps)"
  by (induction b ps rule: contiguous.induct) (auto simp: add.assoc)

lemma contiguous_of_positions:
  assumes "list_all (part_right want) ps"
    and "positions (map (\<lambda>(k, (bytes, n)). (k, n)) ps) = [b..<b + len]"
  shows "contiguous b ps"
  using assms
proof (induction ps arbitrary: b len)
  case (Cons p ps)
  obtain k bytes n where p: "p = (k, (bytes, n))" by (metis prod.collapse)
  have n: "0 < n" using Cons.prems(1) p by (simp add: part_right_def)
  let ?rest = "positions (map (\<lambda>(k, (bytes, n)). (k, n)) ps)"
  have eq: "[k..<k + n] @ ?rest = [b..<b + len]" using Cons.prems(2) p by simp
  have "length ([k..<k + n] @ ?rest) = len" unfolding eq by simp
  then have len: "n \<le> len" by simp
  have "k = b" using arg_cong [OF eq, of hd] n len by (simp add: hd_append)
  moreover have "?rest = [b + n..<b + n + (len - n)]"
    using arg_cong [OF eq, of "drop n"] len by (simp add: add.commute)
  then have "contiguous (b + n) ps" using Cons.IH Cons.prems(1) by auto
  ultimately show ?case by (simp add: p)
qed simp

lemma mem_copy_at:
  "at + length bytes \<le> length mem \<Longrightarrow>
   mem_copy mem at bytes = Some (take at mem @ bytes @ drop (at + length bytes) mem)"
  by (simp add: mem_copy_def)

lemma copy_padded:
  assumes "length bytes \<le> n" "at + n \<le> length mem" "length bytes < 2 ^ 32"
  shows "(if bl_length bytes < n
     then do {
       m \<leftarrow> (if bl_length bytes \<noteq> 0 then mem_copy mem at (take (bl_length bytes) bytes) else Some mem);
       mem_copy m (at + bl_length bytes) (replicate (n - bl_length bytes) 0)
     }
     else mem_copy mem at (take (bl_length bytes) bytes)) = Some (take at mem @ pad bytes n @ drop (at + n) mem)"
proof -
  have "(if length bytes \<noteq> 0 then mem_copy mem at bytes else Some mem) =
      Some (take at mem @ bytes @ drop (at + length bytes) mem)"
    using assms by (simp add: mem_copy_at)
  then show ?thesis
    using assms by (auto simp: mem_copy_def pad_def min_def add.commute)
qed

lemma assemble_buffer_loop_eq:
  assumes "list_all (part_right want) ps" "contiguous b ps"
  defines "tot \<equiv> sum_list (map (\<lambda>(k, (bytes, n)). n) ps)"
  assumes "b + tot < 2 ^ 64" "tot \<le> length mem" "tot < 2 ^ 32"
  shows "assemble_buffer_loop (rev ps) tot (b + tot) mem =
         Some (concat (map (\<lambda>(k, (bytes, n)). pad bytes n) ps) @ drop tot mem)"
  using assms(1,2,4-6) unfolding tot_def
proof (induction ps arbitrary: mem rule: rev_induct)
  case (snoc p ps)
  obtain k bytes n where p: "p = (k, (bytes, n))" by (metis prod.collapse)
  let ?t = "sum_list (map (\<lambda>(k, (bytes, n)). n) ps)"
  let ?mem = "take ?t mem @ pad bytes n @ drop (?t + n) mem"
  have k: "contiguous b ps" "k = b + ?t" using snoc.prems(2) p by (simp_all add: contiguous_snoc)
  have n: "length bytes \<le> n" "?t + n \<le> length mem" "b + ?t + n < 2 ^ 64" "?t + n < 2 ^ 32"
    using snoc.prems p by (simp_all add: part_right_def)
  have "u64_of (b + ?t + n + 2 ^ 64 - n) = k"
    using u64_of_wrap [of n "b + ?t + n" 0] n(3) k(2) by simp
  moreover have "assemble_buffer_loop (rev ps) ?t k ?mem =
      Some (concat (map (\<lambda>(k, (bytes, n)). pad bytes n) ps) @ pad bytes n @ drop (?t + n) mem)"
    using snoc.IH [of ?mem] snoc.prems(1,3) k n p by simp
  moreover have "length bytes < 2 ^ 32" using n(1,4) by linarith
  note copy_padded [OF n(1,2) this]
  ultimately show ?case by (simp add: p Let_def add.assoc [symmetric])
qed simp

lemma assemble_result_buffer_padded:
  assumes "result_ok want r" "places r = {b..<b + len}" "b + len < 2 ^ 64" "length mem = len" "len < 2 ^ 32"
  shows "assemble_result_buffer r mem = Some (r\<lparr>partial := []\<rparr>, padded r)"
proof -
  have right: "list_all (part_right want) (partial r)" using assms(1) by (simp add: result_ok_def)
  have pos: "positions (map (\<lambda>(k, (bytes, n)). (k, n)) (partial r)) = [b..<b + len]"
    using positions_spans [OF assms(1,2)] by (simp add: spans_def)
  have sum: "sum_list (map (\<lambda>(k, (bytes, n)). n) (partial r)) = len"
  proof -
    have "sum_list (map snd (spans r)) = len"
      using arg_cong [OF pos, of length] by (simp add: length_positions spans_def)
    moreover have "map snd (spans r) = map (\<lambda>(k, (bytes, n)). n) (partial r)" by (auto simp: spans_def)
    ultimately show ?thesis by simp
  qed
  have total: "length mem = total_intended_len r"
    using assms sum positions_spans [OF assms(1,2)] by (simp add: result_ok_def flip: length_positions)
  have cont: "contiguous b (partial r)" by (rule contiguous_of_positions [OF right pos])
  show ?thesis
  proof (cases "partial r" rule: rev_cases)
    case Nil
    then have "mem = []" "padded r = []" using sum assms(4) by (simp_all add: padded_def)
    with Nil total show ?thesis by (simp add: assemble_result_buffer_def)
  next
    case (snoc ps p)
    obtain k bytes n where p: "p = (k, (bytes, n))" by (metis prod.collapse)
    have "k + n = b + len" using cont sum snoc p by (simp add: contiguous_snoc)
    then have e: "u64_of (k + n) = b + len" using assms(3) by simp
    have loop: "assemble_buffer_loop (rev (partial r)) len (b + len) mem = Some (padded r)"
      using assemble_buffer_loop_eq [OF right cont, of mem] assms(3-5) sum by (simp add: padded_def)
    have "rev (partial r) = (k, (bytes, n)) # rev ps" using snoc p by simp
    with total e loop show ?thesis
      by (simp add: assemble_result_buffer_def assms(4) del: assemble_buffer_loop.simps)
  qed
qed

text \<open>
  A reply that is longer than its only buffer extent is kept whole when it is moved and cut when
  it is not; joined, the kept one leaves \<open>2^64 - 1\<close> zeros owed.
\<close>

lemma moved_reply_too_long:
  shows "map_option (\<lambda>r. assemble_loop (partial r) 0 [])
           (add_partial_result_move empty_result [1, 2] [(0, 1)]) = Some (2 ^ 64 - 1, [1, 2])"
    and "map_option (\<lambda>r. assemble_loop (partial r) 0 [])
           (add_partial_result empty_result [1, 2] [(0, 1)]) = Some (0, [1])"
  by (simp_all add: add_partial_result_move_def put_part_def empty_result_def bl_splice_def partial_at_def u64_of_def bl_length_def u32_of_def Let_def)

text \<open>
  The number of zeros is a \<open>size_t\<close> and \<open>append_zero\<close> takes an \<open>unsigned\<close>: of an extent of \<open>2 ^ 32\<close> bytes
  that is answered with an empty reply nothing is left.
\<close>

lemma zeros_narrowed:
  "snd (assemble_result \<lparr>partial = [(0, ([], 2 ^ 32))], total_intended_len = 2 ^ 32\<rparr> [] True) = []"
  by (simp add: assemble_result_def bl_length_def bl_append_zero_def u32_of_def u64_of_def)

section \<open>Reading a range of a file\<close>

text \<open>
  The reply to the read of one object extent, as the callers of the striper pass it on: dense or
  sparse, by reference or by move.
\<close>

datatype read_reply =
    Dense "byte list"
  | Dense_move "byte list"
  | Sparse "(nat \<times> nat) list" "byte list"
  | Sparse_move "(nat \<times> nat) list" "byte list"

definition add_reply :: "striped_read_result \<Rightarrow> object_extent \<Rightarrow> read_reply \<Rightarrow> striped_read_result option" where
  "add_reply r ex reply =
     (case reply of
        Dense bl \<Rightarrow> add_partial_result r bl (buffer_extents ex)
      | Dense_move bl \<Rightarrow> add_partial_result_move r bl (buffer_extents ex)
      | Sparse m bl \<Rightarrow> add_partial_sparse_result r bl m (ex_offset ex) (buffer_extents ex)
      | Sparse_move m bl \<Rightarrow> add_partial_sparse_result_move r bl m (ex_offset ex) (buffer_extents ex))"

fun add_replies :: "striped_read_result \<Rightarrow> (object_extent \<times> read_reply) list \<Rightarrow> striped_read_result option" where
  "add_replies r [] = Some r"
| "add_replies r ((ex, reply) # rs) = do { r' \<leftarrow> add_reply r ex reply; add_replies r' rs }"

text \<open>
  What the objects hold of a file: \<open>content l data ex p\<close> is the byte at offset \<open>p\<close> of the object
  of an extent, up to the end of the extent.  A reply is right when it says so.  A dense reply is no
  longer than its extent; a sparse one may have extents behind it, but fits into a buffer list, whose
  length is \<open>unsigned\<close>.
\<close>

definition content :: "file_layout_t \<Rightarrow> (nat \<Rightarrow> byte) \<Rightarrow> object_extent \<Rightarrow> nat \<Rightarrow> byte" where
  "content l data ex p =
     (if p < ex_offset ex + ex_length ex
      then (case get_file_offset l (object_no ex) p of Some c \<Rightarrow> data c | None \<Rightarrow> 0) else 0)"

definition dense_right :: "file_layout_t \<Rightarrow> (nat \<Rightarrow> byte) \<Rightarrow> object_extent \<Rightarrow> byte list \<Rightarrow> bool" where
  "dense_right l data ex bl \<longleftrightarrow>
     length bl \<le> ex_length ex
   \<and> pad bl (ex_length ex) = map (content l data ex) [ex_offset ex..<ex_offset ex + ex_length ex]"

definition reply_right :: "file_layout_t \<Rightarrow> (nat \<Rightarrow> byte) \<Rightarrow> object_extent \<Rightarrow> read_reply \<Rightarrow> bool" where
  "reply_right l data ex reply \<longleftrightarrow>
     (case reply of
        Dense bl \<Rightarrow> dense_right l data ex bl
      | Dense_move bl \<Rightarrow> dense_right l data ex bl
      | Sparse m bl \<Rightarrow> length bl < 2 ^ 32 \<and> sparse_right (content l data ex) (ex_offset ex) m bl
      | Sparse_move m bl \<Rightarrow> length bl < 2 ^ 32 \<and> sparse_right (content l data ex) (ex_offset ex) m bl)"

text \<open>What is used of an extent that \<open>file_to_extents\<close> returned.\<close>

definition extent_ready :: "(nat \<Rightarrow> byte) \<Rightarrow> file_layout_t \<Rightarrow> (nat \<Rightarrow> byte) \<Rightarrow> object_extent \<Rightarrow> bool" where
  "extent_ready want l data ex \<longleftrightarrow>
     list_all (\<lambda>(b, n). 0 < n) (buffer_extents ex) \<and> list_all (\<lambda>(b, n). b + n < 2 ^ 64) (buffer_extents ex)
   \<and> distinct (positions (buffer_extents ex)) \<and> length (positions (buffer_extents ex)) = ex_length ex
   \<and> ex_offset ex + ex_length ex < 2 ^ 64 \<and> ex_length ex < 2 ^ 32
   \<and> map want (positions (buffer_extents ex)) =
       map (content l data ex) [ex_offset ex..<ex_offset ex + ex_length ex]"

lemma sparse_empty_dense:
  assumes "sparse_right (content l data ex) (ex_offset ex) [] bl"
  shows "dense_right l data ex bl"
proof -
  have "replicate (ex_length ex) 0 = map (content l data ex) [ex_offset ex..<ex_offset ex + ex_length ex]"
    using assms by (intro nth_equalityI) simp_all
  then show ?thesis using assms by (simp add: dense_right_def pad_def)
qed

lemma add_dense_ok:
  assumes "result_ok want r" "extent_ready want l data ex" "dense_right l data ex bl"
    and "set (positions (buffer_extents ex)) \<inter> places r = {}"
  shows "\<exists>r'. add_partial_result r bl (buffer_extents ex) = Some r' \<and> result_ok want r'
           \<and> places r' = places r \<union> set (positions (buffer_extents ex))"
    "add_partial_result_move r bl (buffer_extents ex) = add_partial_result r bl (buffer_extents ex)"
  using assms
  by (auto simp: extent_ready_def dense_right_def simp del: power_numeral
      intro!: add_partial_result_ok add_partial_result_move_eq intro: le_less_trans)

lemma add_sparse_ok:
  assumes "result_ok want r" "extent_ready want l data ex"
    and "sparse_right (content l data ex) (ex_offset ex) m bl" "length bl < 2 ^ 32"
    and "set (positions (buffer_extents ex)) \<inter> places r = {}"
  shows "\<exists>r'. add_partial_sparse_result r bl m (ex_offset ex) (buffer_extents ex) = Some r' \<and> result_ok want r'
           \<and> places r' = places r \<union> set (positions (buffer_extents ex))"
    "add_partial_sparse_result_move r bl m (ex_offset ex) (buffer_extents ex) =
     add_partial_sparse_result r bl m (ex_offset ex) (buffer_extents ex)"
proof -
  have "m = [] \<Longrightarrow> dense_right l data ex bl" using sparse_empty_dense assms(3) by blast
  moreover have "\<exists>r'. add_sparse_extents r bl m (ex_offset ex) (buffer_extents ex) = Some r' \<and> result_ok want r'
           \<and> places r' = places r \<union> set (positions (buffer_extents ex))"
    using assms by (intro add_sparse_extents_ok [where src = "content l data ex" and off = "ex_offset ex"])
      (simp_all add: extent_ready_def sparse_state_def)
  ultimately show "\<exists>r'. add_partial_sparse_result r bl m (ex_offset ex) (buffer_extents ex) = Some r'
      \<and> result_ok want r' \<and> places r' = places r \<union> set (positions (buffer_extents ex))"
    "add_partial_sparse_result_move r bl m (ex_offset ex) (buffer_extents ex) =
     add_partial_sparse_result r bl m (ex_offset ex) (buffer_extents ex)"
    using add_dense_ok [OF assms(1,2) _ assms(5)]
    by (simp_all add: add_partial_sparse_result_def add_partial_sparse_result_move_def)
qed

lemma add_reply_ok:
  assumes "result_ok want r" "extent_ready want l data ex" "reply_right l data ex reply"
    and "set (positions (buffer_extents ex)) \<inter> places r = {}"
  shows "\<exists>r'. add_reply r ex reply = Some r' \<and> result_ok want r'
           \<and> places r' = places r \<union> set (positions (buffer_extents ex))"
  using assms(3) add_dense_ok [OF assms(1,2) _ assms(4)] add_sparse_ok [OF assms(1,2) _ _ assms(4)]
  by (cases reply) (simp_all add: add_reply_def reply_right_def)

lemma add_replies_ok:
  assumes "result_ok want r"
    and "\<And>ex reply. (ex, reply) \<in> set rs \<Longrightarrow> extent_ready want l data ex \<and> reply_right l data ex reply"
    and "\<And>ex. ex \<in> fst ` set rs \<Longrightarrow> set (positions (buffer_extents ex)) = {p. p < len \<and> place p = object_no ex}"
    and "distinct (map object_no (map fst rs))"
    and "\<And>p. p \<in> places r \<Longrightarrow> place p \<notin> object_no ` fst ` set rs"
  shows "\<exists>r'. add_replies r rs = Some r' \<and> result_ok want r'
           \<and> places r' = places r \<union> {p. p < len \<and> place p \<in> object_no ` fst ` set rs}"
  using assms
proof (induction rs arbitrary: r)
  case (Cons x rs)
  obtain ex reply where x: "x = (ex, reply)" by fastforce
  have pos: "set (positions (buffer_extents ex)) = {p. p < len \<and> place p = object_no ex}"
    using Cons.prems(3) [of ex] x by simp
  then have "set (positions (buffer_extents ex)) \<inter> places r = {}"
    using Cons.prems(5) x by fastforce
  then obtain r1 where r1: "add_reply r ex reply = Some r1" "result_ok want r1"
    "places r1 = places r \<union> {p. p < len \<and> place p = object_no ex}"
    using add_reply_ok [OF Cons.prems(1), where l = l and data = data and ex = ex and reply = reply] Cons.prems(2) x pos by auto
  have "object_no ex \<notin> object_no ` fst ` set rs" using Cons.prems(4) x by (simp add: image_image)
  then have "place p \<notin> object_no ` fst ` set rs" if "p \<in> places r1" for p
    using that Cons.prems(5) [of p] x unfolding r1(3) by (cases "p \<in> places r") auto
  then have "\<exists>r'. add_replies r1 rs = Some r' \<and> result_ok want r'
      \<and> places r' = places r1 \<union> {p. p < len \<and> place p \<in> object_no ` fst ` set rs}"
    using Cons.prems(4) by (intro Cons.IH [OF r1(2) Cons.prems(2,3)]) simp_all
  then obtain r' where r': "add_replies r1 rs = Some r'" "result_ok want r'"
    "places r' = places r1 \<union> {p. p < len \<and> place p \<in> object_no ` fst ` set rs}" by blast
  moreover have "places r' = places r \<union> {p. p < len \<and> place p \<in> object_no ` fst ` set (x # rs)}"
    unfolding r'(3) r1(3) x by auto
  ultimately show ?case using r1(1) x by simp
qed simp

lemma byte_pos_inj: "layout_ok l \<Longrightarrow> inj (byte_pos l ob)"
  by (intro linorder_injI) (metis byte_pos_less_iff less_irrefl)

lemma extent_places:
  assumes "layout_ok l" "extent_exact l offset (offset + len) 0 tr ex"
  shows "set (positions (buffer_extents ex)) = {p. p < len \<and> object_at l (offset + p) = object_no ex}"
proof -
  let ?o = "object_no ex"
  have "set (positions (buffer_extents ex)) = (\<lambda>y. byte_pos l ?o y - offset) ` bytes_in l offset (offset + len) ?o"
    using assms(2) by (simp add: extent_exact_def)
  also have "\<dots> = {p. p < len \<and> object_at l (offset + p) = ?o}"
  proof (intro set_eqI iffI)
    fix p assume "p \<in> (\<lambda>y. byte_pos l ?o y - offset) ` bytes_in l offset (offset + len) ?o"
    then obtain y where "y < object_size l" "byte_pos l ?o y = offset + p" "p < len"
      by (auto simp: bytes_in_def)
    then show "p \<in> {p. p < len \<and> object_at l (offset + p) = ?o}"
      using at_byte_pos(1) [OF assms(1), of y ?o] by simp
  next
    fix p assume p: "p \<in> {p. p < len \<and> object_at l (offset + p) = ?o}"
    then have "byte_pos l ?o (offset_at l (offset + p)) = offset + p"
      using byte_pos_at [OF assms(1), of "offset + p"] by simp
    then show "p \<in> (\<lambda>y. byte_pos l ?o y - offset) ` bytes_in l offset (offset + len) ?o"
      using p offset_at_less [OF assms(1), of "offset + p"]
      by (intro image_eqI [of _ _ "offset_at l (offset + p)"]) (simp_all add: bytes_in_def)
  qed
  finally show ?thesis .
qed

lemma exact_extent_ready:
  assumes "layout_ok l" "offset + len < 2 ^ 64" "extent_exact l offset (offset + len) 0 tr ex" "len < 2 ^ 32"
  shows "extent_ready (\<lambda>p. data (offset + p)) l data ex"
proof -
  let ?o = "object_no ex" and ?ys = "[ex_offset ex..<ex_offset ex + ex_length ex]"
  have pos: "positions (buffer_extents ex) = map (\<lambda>y. byte_pos l ?o y - offset) ?ys"
    and nz: "list_all (\<lambda>(b, n). 0 < n) (buffer_extents ex)"
    and bytes: "bytes_in l offset (offset + len) ?o = set ?ys"
    using assms(3) by (simp_all add: extent_exact_def)
  have inside: "offset \<le> byte_pos l ?o y" "byte_pos l ?o y < offset + len" if "y \<in> set ?ys" for y
    using that unfolding bytes [symmetric] by (simp_all add: bytes_in_def)
  have "inj_on (\<lambda>y. byte_pos l ?o y - offset) (set ?ys)"
    using inside(1) byte_pos_inj [OF assms(1), of ?o] by (intro inj_onI) (metis eq_diff_iff injD)
  then have dist: "distinct (positions (buffer_extents ex))" by (simp add: pos distinct_map)
  have "set (positions (buffer_extents ex)) \<subseteq> {..<len}" unfolding extent_places [OF assms(1,3)] by auto
  then have "card (set (positions (buffer_extents ex))) \<le> len" using card_mono [of "{..<len}"] by fastforce
  then have "ex_length ex < 2 ^ 32" using distinct_card [OF dist] assms(4) pos by simp
  moreover have "data (offset + (byte_pos l ?o y - offset)) = content l data ex y" if "y \<in> set ?ys" for y
    using inside [OF that] that assms(1,2) by (simp add: content_def get_file_offset_eq)
  then have "map (\<lambda>p. data (offset + p)) (positions (buffer_extents ex)) = map (content l data ex) ?ys"
    by (simp add: pos)
  moreover have "b + n < 2 ^ 64" if "(b, n) \<in> set (buffer_extents ex)" for b n
  proof -
    have "0 < n" using nz that by (auto simp: list_all_iff)
    then have "b + n - 1 \<in> set (positions (buffer_extents ex))"
      unfolding set_positions using that by (intro UN_I [of "(b, n)"]) auto
    then have "b + n - 1 < len" unfolding extent_places [OF assms(1,3)] by simp
    then show ?thesis using assms(2) by linarith
  qed
  moreover have "ex_offset ex + ex_length ex < 2 ^ 64"
    using extent_exact_end [OF assms(3)] layout_facts(7) [OF assms(1)] by simp
  ultimately show ?thesis using nz dist by (auto simp: extent_ready_def pos list_all_iff)
qed

text \<open>
  Property C10.  A striped read returns the bytes of the file: when every object extent of the
  range has been answered, densely or sparsely, with short replies for trailing zeros, and in any
  order, then no assertion fails and both ways to join the parts give the bytes of the range.  The
  range is shorter than \<open>2 ^ 32\<close> bytes: the length of a buffer list, and the number of zeros that
  \<open>append_zero\<close> takes, are \<open>unsigned\<close>.
\<close>

theorem striped_read_exact:
  assumes "layout_ok l" "0 < len" "offset + len < 2 ^ 64" "len < 2 ^ 32"
    and "file_to_extents l offset len trunc_size 0 [] = Some exs"
    and "mset (map fst rs) = mset exs"
    and "\<And>ex reply. (ex, reply) \<in> set rs \<Longrightarrow> reply_right l data ex reply"
  shows "\<exists>r. add_replies empty_result rs = Some r
    \<and> snd (assemble_result r [] True) = map data [offset..<offset + len]
    \<and> (\<forall>mem. length mem = len \<longrightarrow>
         assemble_result_buffer r mem = Some (r\<lparr>partial := []\<rparr>, map data [offset..<offset + len]))"
proof -
  let ?want = "\<lambda>p. data (offset + p)"
  have cov: "covers l offset (offset + len) 0 trunc_size exs"
    using file_to_extents_covers [OF assms(1-3), of 0 trunc_size] assms(3,5) by auto
  have exs: "set exs = fst ` set rs" using assms(6) by (metis set_map set_mset_mset)
  have exact: "extent_exact l offset (offset + len) 0 trunc_size ex" if "ex \<in> fst ` set rs" for ex
    using cov that unfolding exs [symmetric] covers_def by blast
  have "distinct (map object_no exs)"
    using cov by (simp add: covers_def strict_sorted_iff)
  then have "distinct (map object_no (map fst rs))"
    using assms(6) by (metis mset_eq_imp_distinct_iff mset_map)
  moreover have "extent_ready ?want l data ex \<and> reply_right l data ex reply" if "(ex, reply) \<in> set rs" for ex reply
    using that assms(7) exact_extent_ready [OF assms(1,3) exact assms(4)] by (metis fst_conv image_eqI)
  ultimately obtain r where r: "add_replies empty_result rs = Some r" "result_ok ?want r"
    "places r = {p. p < len \<and> object_at l (offset + p) \<in> object_no ` fst ` set rs}"
    using add_replies_ok [OF empty_result_ok(1), of rs ?want l data len "\<lambda>p. object_at l (offset + p)"]
      extent_places [OF assms(1) exact] empty_result_ok(2) by auto
  have "object_at l (offset + p) \<in> object_no ` fst ` set rs" if "p < len" for p
    using cov that unfolding exs [symmetric] covers_def by force
  then have pl: "places r = {0..<0 + len}" using r(3) by auto
  have pad: "padded r = map data [offset..<offset + len]"
  proof -
    have "map ?want [0..<0 + len] = map data [offset..<offset + len]"
      by (intro nth_equalityI) simp_all
    then show ?thesis using result_padded [OF r(2) pl] by simp
  qed
  have "sum_list (map snd (spans r)) = len"
    using positions_spans [OF r(2) pl] by (simp flip: length_positions)
  then have "snd (assemble_result r [] True) = map data [offset..<offset + len]"
    using assemble_result_padded(1) [OF r(2), of "[]"] pad assms(4) by simp
  moreover have "assemble_result_buffer r mem = Some (r\<lparr>partial := []\<rparr>, map data [offset..<offset + len])"
    if "length mem = len" for mem
    using assemble_result_buffer_padded [OF r(2) pl _ that assms(4)] pad assms(3) by simp
  ultimately show ?thesis using r(1) by blast
qed


text \<open>
  The twelve bytes around the end of the first row of the example layout: six in object 1 and six
  in object 0.  Object 0 answers with a sparse reply, object 1 with one that is too short.
\<close>

definition demo_data :: "nat \<Rightarrow> byte" where
  "demo_data c =
     (if c = 131066 then 7 else if c = 131067 then 8 else if c = 131074 then 1 else if c = 131075 then 2
      else if c = 131076 then 3 else 0)"

definition demo_ex0 :: object_extent where
  "demo_ex0 = \<lparr>object_no = 0, ex_offset = 65536, ex_length = 6, ex_truncate_size = 0, buffer_extents = [(6, 6)]\<rparr>"

definition demo_ex1 :: object_extent where
  "demo_ex1 = \<lparr>object_no = 1, ex_offset = 65530, ex_length = 6, ex_truncate_size = 0, buffer_extents = [(0, 6)]\<rparr>"

definition demo_replies :: "(object_extent \<times> read_reply) list" where
  "demo_replies = [(demo_ex1, Dense [7, 8]), (demo_ex0, Sparse [(65538, 3)] [1, 2, 3])]"

lemma demo_read_extents: "file_to_extents demo_layout 131066 12 0 0 [] = Some [demo_ex0, demo_ex1]"
  by (simp add: file_to_extents_def extents_loop.simps add_piece_def object_truncate_size_def u64_of_def
      demo_layout_def demo_ex0_def demo_ex1_def Let_def)

lemma demo_content0:
  "content demo_layout demo_data demo_ex0 (65536 + i) = (if i = 2 then 1 else if i = 3 then 2 else if i = 4 then 3 else 0)"
proof (cases "i < 6")
  case True
  then have "get_file_offset demo_layout 0 (65536 + i) = Some (131072 + i)"
    by (simp add: get_file_offset_def demo_layout_def u64_of_def Let_def)
  with True show ?thesis by (simp add: content_def demo_data_def demo_ex0_def)
qed (simp add: content_def demo_ex0_def)

lemma demo_sparse_right: "sparse_right (content demo_layout demo_data demo_ex0) 65536 [(65538, 3)] [1, 2, 3]"
proof -
  let ?c = "content demo_layout demo_data demo_ex0"
  have "?c p = 0" if "65536 \<le> p" "p < 65538 \<or> 65541 \<le> p" for p
    using that demo_content0 [of "p - 65536"] by auto
  moreover have "map ?c [65538..<65541] = [1, 2, 3]"
    using demo_content0 [of 2] demo_content0 [of 3] demo_content0 [of 4] by simp
  ultimately show ?thesis by simp
qed

lemma demo_dense_right: "dense_right demo_layout demo_data demo_ex1 [7, 8]"
proof -
  have "replicate 4 0 = [0, 0, 0, 0 :: byte]" by (simp add: numeral_eq_Suc)
  then show ?thesis
    by (simp add: dense_right_def pad_def content_def demo_ex1_def demo_data_def get_file_offset_def
        demo_layout_def u64_of_def Let_def)
qed

lemma demo_replies_right:
  "(ex, reply) \<in> set demo_replies \<Longrightarrow> reply_right demo_layout demo_data ex reply"
proof -
  assume "(ex, reply) \<in> set demo_replies"
  then consider "ex = demo_ex1" "reply = Dense [7, 8]" | "ex = demo_ex0" "reply = Sparse [(65538, 3)] [1, 2, 3]"
    unfolding demo_replies_def by auto
  then show ?thesis
  proof cases
    case 1
    then show ?thesis using demo_dense_right by (simp only: reply_right_def read_reply.case)
  next
    case 2
    moreover have "ex_offset demo_ex0 = 65536" by (simp add: demo_ex0_def)
    moreover have "length [1, 2, 3 :: byte] < 2 ^ 32" by simp
    ultimately show ?thesis using demo_sparse_right by (simp only: reply_right_def read_reply.case)
  qed
qed

theorem striped_read_exact_witness:
  "\<exists>r. add_replies empty_result demo_replies = Some r
    \<and> snd (assemble_result r [] True) = [7, 8, 0, 0, 0, 0, 0, 0, 1, 2, 3, 0]"
proof -
  have "\<exists>r. add_replies empty_result demo_replies = Some r
    \<and> snd (assemble_result r [] True) = map demo_data [131066..<131066 + 12]
    \<and> (\<forall>mem. length mem = 12 \<longrightarrow> assemble_result_buffer r mem =
         Some (r\<lparr>partial := []\<rparr>, map demo_data [131066..<131066 + 12]))"
    by (rule striped_read_exact [OF demo_layout_ok _ _ _ demo_read_extents _ demo_replies_right])
      (simp_all add: demo_replies_def)
  moreover have "map demo_data [131066..<131066 + 12] = [7, 8, 0, 0, 0, 0, 0, 0, 1, 2, 3, 0]"
    by (simp add: demo_data_def)
  ultimately show ?thesis by metis
qed

end
