(* ===== verification/Spec2Isabelle.thy ===== *)
theory Spec2Isabelle
  imports Ino_Table Crush_Tree Osd_Incremental Election_Progress Striped_Read
begin

text \<open>
  \<^bold>\<open>Verification library for the storage system under \<open>src/\<close>.\<close>

  The program is a distributed object store.  Monitors elect a leader and agree on maps of the cluster;
  the map of the daemons, with the hierarchy of devices in it, tells every client and daemon by
  calculation alone where the replicas of an object are; metadata servers hand out inode numbers; clients
  cut files into objects.  The library models the parts that are calculations and state machines: striping,
  placement, the maps it reads, the election of the monitors, and containers that many parts share.

  \<^bold>\<open>Conventions.\<close>  A failed \<open>ceph_assert\<close>, an abort, an access outside an array, a null
  pointer and a loop that does not return are the value \<^term>\<open>None\<close>; error codes are ordinary results.
  \<open>std::map\<close> is a sorted association list, \<open>std::vector\<close> a list.  Unsigned integers are words where the
  code relies on their width (hashes, weights, features) and numbers elsewhere, with the reduction written
  out where the code shifts or multiplies or a sum can wrap (\<open>u64_of\<close> and \<open>u64_sub\<close> in Prelude, \<open>u32_of\<close> in
  \<open>Striped_Read\<close>).  Loops without an evident bound are partial functions in the
  option monad, and their termination is a theorem, not an assumption; no definition uses fuel.

  \<^bold>\<open>Theories.\<close>
  \<^item> Prelude: assertions, array accesses, maps, 64-bit sums and differences; the lemmas on them are simplification rules.
  \<^item> \<open>Interval_Set\<close> (\<open>include/interval_set.h\<close>): the map from starts to lengths with the cached size;
    insert, erase, union, intersection, subset, span, over \<open>uint64_t\<close> with ends and sizes modulo \<open>2 ^ 64\<close>.
    The lemmas show that the container implements a set of numbers through every sequence of operations
    on ranges that end below \<open>2 ^ 64\<close>, and which insertion it fails to detect.
  \<^item> \<open>Ino_Table\<close> (\<open>mds/InoTable.cc\<close>): the inode numbers that are free and projected to be free; the
    journal catches up with the projection; allocation takes the lowest numbers.  It uses the interface of
    \<open>Interval_Set\<close> only.
  \<^item> \<open>Crush_Hash\<close> (\<open>crush/hash.c\<close>, \<open>common/ceph_hash.cc\<close>), \<open>Crush_Ln\<close> (\<open>crush_ln\<close>): hashes on 32-bit words
    with the inverse of the mix, and the fixed-point logarithm with its tables.
  \<^item> \<open>Crush_Map\<close> (\<open>crush/crush.h\<close>, \<open>crush.c\<close>), \<open>Crush_Bucket\<close>, \<open>Crush_Mapper\<close>, \<open>Crush_Rule\<close> (\<open>crush/mapper.c\<close>):
    the five choose methods behind the interface \<open>bucket_chooser\<close>, the descents \<open>crush_choose_firstn\<close> and
    \<open>crush_choose_indep\<close>, and the interpreter \<open>crush_do_rule\<close>.  The lemmas show termination on maps
    without cycles, independence of the caches, distinctness and type of what is chosen, the least movement of
    data when a straw2 weight changes, and the inputs on which the code does otherwise.
  \<^item> \<open>Crush_Builder\<close>, \<open>Crush_Tree\<close> (\<open>crush/builder.c\<close>): construction and maintenance of maps.  Through the
    interface \<open>simulation\<close> the item operations of list, straw and straw2 buckets implement a list of weighted
    items, except that removing an item of a list bucket reads behind its arrays; tree buckets have the
    node weights that the mapper walks when they are built, but not when an item is added to a full tree.
  \<^item> Hobject (\<open>common/hobject.cc\<close>, \<open>common/hobject.h\<close>): the order of object identifiers and their text.
  \<^item> \<open>Osd_Pg\<close> (\<open>osd/osd_types.cc\<close>, \<open>osd/osd_types.h\<close>, \<open>include/rados.h\<close>): placement groups, their splitting
    and merging, and the range of objects in each.
  \<^item> \<open>Osd_Map\<close> (\<open>osd/OSDMap.cc\<close>): the pipeline from a placement group to the daemons that serve it; it calls
    \<open>crush_do_rule\<close>, and its lemmas rest on those of \<open>Crush_Rule\<close>.  \<open>Osd_Incremental\<close>: \<open>apply_incremental\<close>
    on every vector that is indexed by a daemon, with each unchecked access a possible failure.
  \<^item> Striper (\<open>osdc/Striper.cc\<close>, \<open>file_layout_t\<close> of \<open>include/fs_types.h\<close>): the mapping between ranges of a file
    and ranges of objects, in both directions, and what a file size means for the objects.  The lemmas reduce
    every function to one order-preserving map from the bytes of an object to the bytes of the file.
    \<open>Striped_Read\<close>: the collection of dense and sparse replies and their assembly; the bytes of the file
    come out whatever the order of the replies.
  \<^item> \<open>Connection_Tracker\<close> (\<open>mon/ConnectionTracker.cc\<close>): the scores of the connections between monitors,
    which stay bounded, and the cached encoding, which can hold an older half-life.
  \<^item> \<open>Election_Logic\<close> (\<open>mon/ElectionLogic.cc\<close>), Elector (\<open>mon/Elector.cc\<close>): one monitor in an election, with
    the three strategies, the handlers of its messages and its pings, as functions on one record that holds
    the fields of \<open>ElectionLogic\<close>, \<open>Elector\<close> and \<open>Monitor\<close>.
  \<^item> \<open>Election_System\<close>, \<open>Election_Progress\<close>: the cluster as a step relation in which messages are lost,
    delayed, duplicated and reordered and monitors restart.  For election by rank the invariant shows that no
    assertion fails; an election can always be completed; a leader has a majority; an epoch can have two
    leaders.

  \<^bold>\<open>How the parts meet.\<close>  A range of a file becomes ranges of named objects (Striper).  A hash of an object name (\<open>Crush_Hash\<close>) is rounded to a placement group
  (\<open>Osd_Pg\<close>); the group goes through a rule of the hierarchy (\<open>Crush_Rule\<close> on a map that \<open>Crush_Builder\<close> makes) and
  the exceptions of the map (\<open>Osd_Map\<close>); the map changes by incrementals (\<open>Osd_Incremental\<close>), which the leader
  that the monitors elect (\<open>Election_System\<close>) publishes.

  \<^bold>\<open>Bounds.\<close>  Epochs, versions and retry counters are unbounded; the code agrees while they stay below
  \<open>2 ^ 32\<close> (epochs, retries) or \<open>2 ^ 64\<close> (versions).  The properties of striping and of interval sets require that a range ends
  below \<open>2 ^ 64\<close>, that of striped reads that it is shorter than \<open>2 ^ 32\<close> bytes, the limit of a buffer list.  Scores are rational numbers without rounding.  Recursion
  in the descent is bounded by the depth of the hierarchy, which a hypothesis requires to have no cycles, as the
  code does; the stack arrays of \<open>crush_do_rule\<close> have the size the code gives them.

  \<^bold>\<open>Not modelled.\<close>  The rest of the program is input and output, threads and callbacks: the daemons and
  their peering, object stores and devices, the messenger, the monitor services and Paxos, the metadata cache,
  the clients and gateways, the manager and its modules, the tools.  Encoding to bytes is modelled only
  as the tuple of the encoded fields.  Of the modelled parts are left out: statistics, balancing and
  printing of maps; flags, ratios, profiles and the block list that \<open>apply_incremental\<close> copies; differing monitor
  maps, metadata and commands in election messages; the invariant of elections by connectivity, whose scores
  change while an election runs.  Cipher, erasure code and key-value libraries are not part of the sources.
\<close>

end
